(* ===== verification/Prelude.thy ===== *)
theory Prelude
  imports Main "HOL-Library.Word"
begin

unbundle bit_operations_syntax

text \<open>
  Shared vocabulary of the development: the fixed-width integers of
  kernel/include/common/types.h, the outcome of a C function of the kernel, and the
  generic facts on outcomes, words and maps that the component theories rely on.

  A kernel function either returns, or stops in one of two ways:
  \<^item> \<open>Bug\<close>: the condition of a BUG_ON (or a BUG) fired, which prints a message and
    spins forever (kernel/include/common/macro.h);
  \<^item> \<open>Undef\<close>: the C program has undefined behaviour there (a null or wild pointer is
    dereferenced, an array is left, a shift is out of range, a signed integer overflows).
  A theorem that a call equals \<open>Inr r\<close> therefore says that the call returns and that no
  BUG_ON fires and no undefined behaviour is met on the way.
\<close>

type_synonym u64 = "64 word"
type_synonym u32 = "32 word"
type_synonym u16 = "16 word"
type_synonym u8 = "8 word"

datatype fault = Bug | Undef

type_synonym 'a outcome = "fault + 'a"

named_theorems outcome_simps \<open>unfolding outcomes of kernel functions\<close>
named_theorems frame_simps \<open>what an operation leaves unchanged\<close>

subsection \<open>Sequencing of C statements\<close>

fun rbind :: "'e + 'a \<Rightarrow> ('a \<Rightarrow> 'e + 'b) \<Rightarrow> 'e + 'b" where
  "rbind (Inl e) f = Inl e"
| "rbind (Inr x) f = f x"

definition bug_on :: "bool \<Rightarrow> unit outcome" where
  "bug_on c = (if c then Inl Bug else Inr ())"

definition undef_if :: "bool \<Rightarrow> unit outcome" where
  "undef_if c = (if c then Inl Undef else Inr ())"

definition deref :: "'a option \<Rightarrow> 'a outcome" where
  "deref x = (case x of None \<Rightarrow> Inl Undef | Some v \<Rightarrow> Inr v)"

lemma rbind_cong [fundef_cong]:
  "x = y \<Longrightarrow> (\<And>z. y = Inr z \<Longrightarrow> f z = g z) \<Longrightarrow> rbind x f = rbind y g"
  by (cases y) auto

lemma rbind_Inr_iff:
  "rbind x f = Inr y \<longleftrightarrow> (\<exists>z. x = Inr z \<and> f z = Inr y)"
  by (cases x) auto

lemma rbind_Inl_iff:
  "rbind x f = Inl e \<longleftrightarrow> x = Inl e \<or> (\<exists>z. x = Inr z \<and> f z = Inl e)"
  by (cases x) auto

lemma rbind_assoc: "rbind (rbind x f) g = rbind x (\<lambda>z. rbind (f z) g)"
  by (cases x) auto

text \<open>
  A call whose loops take fuel: \<open>None\<close> when the fuel did not suffice.
\<close>

type_synonym 'a run = "'a outcome option"

text \<open>What a unit test of the kernel reports: the name and the outcome of each of its checks.\<close>

type_synonym report = "(string \<times> bool) list"

text \<open>\<open>lab_assert\<close>: \<open>ok = ok && expr\<close>, where \<open>expr\<close> reads memory only when \<open>ok\<close> holds.\<close>

definition lab_and :: "bool \<Rightarrow> bool outcome \<Rightarrow> bool outcome" where
  "lab_and ok expr = (if ok then expr else Inr False)"

fun fbind :: "('e + 'a) option \<Rightarrow> ('a \<Rightarrow> ('e + 'b) option) \<Rightarrow> ('e + 'b) option" where
  "fbind None f = None"
| "fbind (Some (Inl e)) f = Some (Inl e)"
| "fbind (Some (Inr x)) f = f x"

lemma fbind_cong [fundef_cong]:
  "x = y \<Longrightarrow> (\<And>z. y = Some (Inr z) \<Longrightarrow> f z = g z) \<Longrightarrow> fbind x f = fbind y g"
  by (cases "(y, f)" rule: fbind.cases) auto

lemma rbind_InrE:
  assumes "rbind x f = Inr y"
  obtains z where "x = Inr z" "f z = Inr y"
  using assms by (cases x) auto

lemma bug_on_simps [simp, outcome_simps]:
  "bug_on True = Inl Bug" "bug_on False = Inr ()"
  by (simp_all add: bug_on_def)

lemma bug_on_Inr [simp]: "bug_on c = Inr u \<longleftrightarrow> \<not> c"
  by (simp add: bug_on_def)

lemma undef_if_simps [simp, outcome_simps]:
  "undef_if True = Inl Undef" "undef_if False = Inr ()"
  by (simp_all add: undef_if_def)

lemma undef_if_Inr [simp]: "undef_if c = Inr u \<longleftrightarrow> \<not> c"
  by (simp add: undef_if_def)

lemma deref_simps [simp, outcome_simps]:
  "deref None = Inl Undef" "deref (Some v) = Inr v"
  by (simp_all add: deref_def)

lemma deref_Inr [simp]: "deref x = Inr v \<longleftrightarrow> x = Some v"
  by (auto simp: deref_def split: option.splits)

subsection \<open>Machine integers\<close>

lemma unat_of_nat_less: "n < 2 ^ 64 \<Longrightarrow> unat (of_nat n :: u64) = n"
  by (simp add: unat_of_nat take_bit_nat_eq_self)

lemma word_of_nat_less_iff:
  "m < 2 ^ 64 \<Longrightarrow> n < 2 ^ 64 \<Longrightarrow> (of_nat m :: u64) < of_nat n \<longleftrightarrow> m < n"
  by (simp add: word_less_nat_alt unat_of_nat_less)

lemma word_of_nat_le_iff:
  "m < 2 ^ 64 \<Longrightarrow> n < 2 ^ 64 \<Longrightarrow> (of_nat m :: u64) \<le> of_nat n \<longleftrightarrow> m \<le> n"
  by (simp add: word_le_nat_alt unat_of_nat_less)

lemma word_of_nat_eq_iff64:
  "m < 2 ^ 64 \<Longrightarrow> n < 2 ^ 64 \<Longrightarrow> (of_nat m :: u64) = of_nat n \<longleftrightarrow> m = n"
  by (metis unat_of_nat_less)

lemma unat_mult_4096:
  "n < 2 ^ 52 \<Longrightarrow> unat (of_nat n * 0x1000 :: u64) = n * 4096"
proof -
  assume n: "n < 2 ^ 52"
  have "(of_nat n * 0x1000 :: u64) = of_nat (n * 4096)"
    by simp
  moreover have "n * 4096 < 2 ^ 64"
    using n by simp
  ultimately show ?thesis
    by (simp only: unat_of_nat_less)
qed

subsection \<open>Flipping one bit\<close>

lemma unset_bit_nat: "odd (m div 2 ^ n) \<Longrightarrow> unset_bit n m = m - 2 ^ n" for m :: nat
proof -
  assume "odd (m div 2 ^ n)"
  then have b: "bit m n" by (simp add: bit_iff_odd)
  have "int (unset_bit n m) = unset_bit n (int m)" by (simp add: of_nat_unset_bit_eq)
  also have "\<dots> = int m - 2 ^ n" using b by (simp add: unset_bit_eq bit_of_nat_iff_bit)
  finally have "int (unset_bit n m + 2 ^ n) = int m" by simp
  then have "unset_bit n m + 2 ^ n = m" by (simp only: of_nat_eq_iff)
  then show ?thesis by simp
qed

lemma xor_power_nat:
  "(m :: nat) XOR 2 ^ n = (if even (m div 2 ^ n) then m + 2 ^ n else m - 2 ^ n)"
proof -
  have "m XOR 2 ^ n = flip_bit n m" by (simp add: flip_bit_eq_xor push_bit_eq_mult)
  also have "\<dots> = (if bit m n then unset_bit n m else set_bit n m)" by (simp add: flip_bit_eq_if)
  finally show ?thesis by (simp add: set_bit_eq unset_bit_nat bit_iff_odd)
qed

lemma unat_push_bit_1: "n < 64 \<Longrightarrow> unat (push_bit n 1 :: u64) = 2 ^ n"
proof -
  assume "n < 64"
  then have "(2 :: nat) ^ n < 2 ^ 64" by (rule power_strict_increasing) simp
  moreover have "(push_bit n 1 :: u64) = of_nat (2 ^ n)" by simp
  ultimately show ?thesis by (simp only: unat_of_nat_less)
qed

lemma unat_xor_push_bit:
  "n < 64 \<Longrightarrow> unat (w XOR push_bit n 1 :: u64) =
     (if even (unat w div 2 ^ n) then unat w + 2 ^ n else unat w - 2 ^ n)"
  by (simp only: unsigned_xor_eq unat_push_bit_1 xor_power_nat)

end
