(* ===== verification/Memory.thy ===== *)
theory Memory
  imports Prelude
begin

text \<open>
  The byte-addressed memory the kernel reads and writes through raw pointers (page table
  pages, slab headers and slots, memory handed to callers), \<open>memset\<close> of
  kernel/arch/aarch64/mm/memset.c and \<open>clear_bss\<close> of the boot code. An address that is
  not mapped, NULL among them, is not in the domain of the memory: accessing it is
  undefined behaviour, and so is an access that is not aligned to its size. AArch64 is
  little-endian.
\<close>

type_synonym memory = "u64 \<rightharpoonup> u8"

definition mapped :: "memory \<Rightarrow> u64 \<Rightarrow> nat \<Rightarrow> bool" where
  "mapped m a n \<longleftrightarrow> (\<forall>i \<in> set [0..<n]. m (a + of_nat i) \<noteq> None)"

definition load_bytes :: "memory \<Rightarrow> u64 \<Rightarrow> nat \<Rightarrow> u8 list outcome" where
  "load_bytes m a n = deref (those (map (\<lambda>i. m (a + of_nat i)) [0..<n]))"

definition store_bytes :: "u64 \<Rightarrow> u8 list \<Rightarrow> memory \<Rightarrow> memory outcome" where
  "store_bytes a bs m =
     (if mapped m a (length bs)
      then Inr (\<lambda>x. if unat (x - a) < length bs then Some (bs ! unat (x - a)) else m x)
      else Inl Undef)"

fun u64_of_bytes :: "u8 list \<Rightarrow> u64" where
  "u64_of_bytes [] = 0"
| "u64_of_bytes (b # bs) = ucast b OR push_bit 8 (u64_of_bytes bs)"

fun bytes_of_word :: "nat \<Rightarrow> 'a::len word \<Rightarrow> u8 list" where
  "bytes_of_word 0 w = []"
| "bytes_of_word (Suc n) w = ucast w # bytes_of_word n (drop_bit 8 w)"

definition load64 :: "memory \<Rightarrow> u64 \<Rightarrow> u64 outcome" where
  "load64 m a =
     rbind (undef_if (\<not> 8 dvd unat a)) (\<lambda>_.
     rbind (load_bytes m a 8) (\<lambda>bs.
     Inr (u64_of_bytes bs)))"

definition load32 :: "memory \<Rightarrow> u64 \<Rightarrow> u32 outcome" where
  "load32 m a =
     rbind (undef_if (\<not> 4 dvd unat a)) (\<lambda>_.
     rbind (load_bytes m a 4) (\<lambda>bs.
     Inr (ucast (u64_of_bytes bs))))"

definition load8 :: "memory \<Rightarrow> u64 \<Rightarrow> u8 outcome" where
  "load8 m a = deref (m a)"

definition store64 :: "u64 \<Rightarrow> u64 \<Rightarrow> memory \<Rightarrow> memory outcome" where
  "store64 a v m =
     rbind (undef_if (\<not> 8 dvd unat a)) (\<lambda>_.
     store_bytes a (bytes_of_word 8 v) m)"

definition store32 :: "u64 \<Rightarrow> u32 \<Rightarrow> memory \<Rightarrow> memory outcome" where
  "store32 a v m =
     rbind (undef_if (\<not> 4 dvd unat a)) (\<lambda>_.
     store_bytes a (bytes_of_word 4 v) m)"

fun memset_loop :: "u64 \<Rightarrow> u8 \<Rightarrow> nat list \<Rightarrow> memory \<Rightarrow> memory outcome" where
  "memset_loop buf ch [] m = Inr m"
| "memset_loop buf ch (i # js) m = rbind (store_bytes (buf + of_nat i) [ch] m) (memset_loop buf ch js)"

definition memset :: "u64 \<Rightarrow> u8 \<Rightarrow> u64 \<Rightarrow> memory \<Rightarrow> memory outcome" where
  "memset dst ch sz m = memset_loop dst ch [0..<unat sz] m"

text \<open>
  \<open>clear_bss\<close>: one byte at a time from \<open>_bss_start\<close> to \<open>_bss_end\<close>, which the linker script
  provides; then the flag other CPUs poll.
\<close>

function clear_bss_loop :: "u64 \<Rightarrow> u64 \<Rightarrow> memory \<Rightarrow> memory outcome" where
  "clear_bss_loop i bss_end_addr m =
     (if i < bss_end_addr
      then rbind (store_bytes i [0] m) (clear_bss_loop (i + 1) bss_end_addr)
      else Inr m)"
  by pat_completeness auto
termination
proof (relation "measure (\<lambda>(i, e, m). unat (e - i))", goal_cases)
  case (2 i e m m')
  then have "e - i \<noteq> 0" by auto
  then have "unat (e - i - 1) < unat (e - i)" by (rule measure_unat)
  then have "unat (e - (i + 1)) < unat (e - i)" by (simp only: diff_diff_eq)
  then show ?case by simp
qed simp

declare clear_bss_loop.simps [simp del]

definition clear_bss :: "u64 \<Rightarrow> u64 \<Rightarrow> u64 \<Rightarrow> memory \<Rightarrow> memory outcome" where
  "clear_bss bss_start bss_end clear_bss_flag m =
     rbind (clear_bss_loop bss_start bss_end m) (\<lambda>m.
     store64 clear_bss_flag 0 m)"

subsection \<open>Loads after stores\<close>

lemma length_bytes_of_word [simp]: "length (bytes_of_word n w) = n"
  by (induction n w rule: bytes_of_word.induct) simp_all

lemma u64_of_bytes_of_word: "u64_of_bytes (bytes_of_word n w) = take_bit (8 * n) w"
proof (induction n w rule: bytes_of_word.induct)
  case (2 n w)
  show ?case
    by (rule bit_word_eqI) (auto simp: 2 bit_simps)
qed simp

lemma mapped_iff: "mapped m a n \<longleftrightarrow> (\<forall>i < n. m (a + of_nat i) \<noteq> None)"
  by (auto simp: mapped_def)

lemma unat_diff_add: "unat ((a :: u64) + of_nat i - a) = i mod 2 ^ 64"
  by (simp add: unat_of_nat take_bit_eq_mod)

lemma store_bytes_ok:
  assumes "mapped m a (length bs)"
  shows "\<exists>m'. store_bytes a bs m = Inr m' \<and> dom m' = dom m \<and>
    (\<forall>x. m' x = (if unat (x - a) < length bs then Some (bs ! unat (x - a)) else m x))"
proof -
  have "x \<in> dom m" if "unat (x - a) < length bs" for x
  proof -
    have "m (a + of_nat (unat (x - a))) \<noteq> None" using assms that unfolding mapped_iff by blast
    then show ?thesis by (simp add: domIff)
  qed
  then show ?thesis using assms by (auto simp: store_bytes_def dom_def)
qed

lemma those_map_eq:
  "those (map f xs) = (if \<forall>x \<in> set xs. f x \<noteq> None then Some (map (the \<circ> f) xs) else None)"
  by (induction xs) (auto split: option.splits)

lemma load_bytes_eq:
  "load_bytes m a n = (if mapped m a n then Inr (map (\<lambda>i. the (m (a + of_nat i))) [0..<n]) else Inl Undef)"
  by (simp add: load_bytes_def those_map_eq mapped_def comp_def)

text \<open>What the rest of the development uses of a memory: its 64-bit cells.\<close>

definition cell_ok :: "memory \<Rightarrow> u64 \<Rightarrow> bool" where
  "cell_ok m a \<longleftrightarrow> 8 dvd unat a \<and> mapped m a 8"

lemma load64_iff: "(\<exists>v. load64 m a = Inr v) \<longleftrightarrow> cell_ok m a"
  by (auto simp: load64_def cell_ok_def load_bytes_eq undef_if_def)

lemma load64_total: "cell_ok m a \<Longrightarrow> \<exists>v. load64 m a = Inr v"
  by (simp add: load64_iff)

lemma load64_cong:
  "(\<And>i. i < 8 \<Longrightarrow> m' (a + of_nat i) = m (a + of_nat i)) \<Longrightarrow> load64 m' a = load64 m a"
proof -
  assume eq: "\<And>i. i < 8 \<Longrightarrow> m' (a + of_nat i) = m (a + of_nat i)"
  then have "mapped m' a 8 = mapped m a 8" by (simp add: mapped_iff)
  moreover have "map (\<lambda>i. the (m' (a + of_nat i))) [0..<8] = map (\<lambda>i. the (m (a + of_nat i))) [0..<8]"
    using eq by (intro map_cong) simp_all
  ultimately show ?thesis unfolding load64_def load_bytes_eq by presburger
qed

lemma mapped_dom: "dom m' = dom m \<Longrightarrow> mapped m' a n \<longleftrightarrow> mapped m a n"
  unfolding mapped_iff by (metis domIff)

lemma cell_ok_dom: "dom m' = dom m \<Longrightarrow> cell_ok m' a \<longleftrightarrow> cell_ok m a"
  unfolding cell_ok_def by (metis mapped_dom)

text \<open>Two different aligned cells share no byte.\<close>

lemma aligned_apart:
  assumes "8 dvd unat (a :: u64)" "8 dvd unat b" "a \<noteq> b" "i < 8"
  shows "8 \<le> unat (b + of_nat i - a)"
proof (rule ccontr)
  assume "\<not> ?thesis"
  then have j: "unat (b + of_nat i - a) < 8" by simp
  define j where "j = unat (b + of_nat i - a)"
  have "b + of_nat i = a + of_nat j" by (simp add: j_def)
  moreover have "unat (b + of_nat i) = unat b + i" if "8 dvd unat b" "i < 8" for b :: u64 and i
  proof -
    obtain c where c: "unat b = 8 * c" using \<open>8 dvd unat b\<close> by (elim dvdE)
    have "unat b < 2 ^ 64" using unsigned_less [of b] by simp
    then have "8 * c + i < 2 ^ 64" using c that(2) by simp
    then show ?thesis using c that(2) by (simp add: unat_word_ariths unat_of_nat take_bit_nat_eq_self)
  qed
  ultimately have "unat b + i = unat a + j" using assms j by (metis j_def)
  then have "(unat b + i) div 8 = (unat a + j) div 8" by simp
  then have "unat a = unat b" using assms j by (elim dvdE) (simp add: j_def)
  then show False using assms(3) by (simp add: word_unat_eq_iff)
qed

lemma bytes_of_word_load:
  assumes "\<And>i. i < 8 \<Longrightarrow> m (a + of_nat i) = Some (bytes_of_word 8 v ! i)" "8 dvd unat a"
  shows "load64 m a = Inr (v :: u64)"
proof -
  have "map (\<lambda>i. the (m (a + of_nat i))) [0..<8] = bytes_of_word 8 v"
    using assms(1) by (intro nth_equalityI) simp_all
  moreover have "mapped m a 8" using assms(1) by (simp add: mapped_iff)
  moreover have "u64_of_bytes (bytes_of_word 8 v) = v"
    by (simp only: u64_of_bytes_of_word) (rule bit_word_eqI, simp add: bit_simps)
  ultimately show ?thesis using assms(2) by (simp add: load64_def load_bytes_eq)
qed

lemma store64_ok:
  assumes "cell_ok m a"
  shows "\<exists>m'. store64 a v m = Inr m' \<and> dom m' = dom m \<and> load64 m' a = Inr v \<and>
    (\<forall>b. 8 dvd unat b \<longrightarrow> b \<noteq> a \<longrightarrow> load64 m' b = load64 m b) \<and>
    (\<forall>x. 8 \<le> unat (x - a) \<longrightarrow> m' x = m x)"
proof -
  have al: "8 dvd unat a" and mp: "mapped m a (length (bytes_of_word 8 v))"
    using assms by (simp_all add: cell_ok_def)
  obtain m' where m': "store_bytes a (bytes_of_word 8 v) m = Inr m'" "dom m' = dom m"
    "\<And>x. m' x = (if unat (x - a) < length (bytes_of_word 8 v) then Some (bytes_of_word 8 v ! unat (x - a)) else m x)"
    using store_bytes_ok [OF mp] by blast
  have "store64 a v m = Inr m'" using m'(1) al by (simp add: store64_def)
  moreover have "load64 m' a = Inr v"
  proof (rule bytes_of_word_load [OF _ al])
    fix i :: nat assume i: "i < 8"
    then have "unat (a + of_nat i - a) = i" by (simp only: unat_diff_add) simp
    with i show "m' (a + of_nat i) = Some (bytes_of_word 8 v ! i)" by (simp only: m'(3) length_bytes_of_word if_True)
  qed
  moreover have "load64 m' b = load64 m b" if "8 dvd unat b" "b \<noteq> a" for b
    using aligned_apart [OF al that(1)] that(2) by (intro load64_cong) (fastforce simp: m'(3))
  moreover have "m' x = m x" if "8 \<le> unat (x - a)" for x using that by (simp add: m'(3))
  ultimately show ?thesis using m'(2) by blast
qed

text \<open>\<open>memset\<close> fills exactly the bytes it was given.\<close>

lemma mapped_1: "mapped m a (Suc 0) \<longleftrightarrow> a \<in> dom m"
  by (auto simp: mapped_iff)

lemma memset_loop_ok:
  assumes "\<And>i. i \<in> set js \<Longrightarrow> buf + of_nat i \<in> dom m"
  shows "memset_loop buf ch js m =
    Inr (\<lambda>x. if x \<in> (\<lambda>i. buf + of_nat i) ` set js then Some ch else m x)"
  using assms
proof (induction js arbitrary: m)
  case (Cons j js)
  have "mapped m (buf + of_nat j) (length [ch])" using Cons.prems by (simp add: mapped_1)
  then obtain m' where m': "store_bytes (buf + of_nat j) [ch] m = Inr m'" "dom m' = dom m"
    "\<And>x. m' x = (if unat (x - (buf + of_nat j)) < length [ch] then Some ([ch] ! unat (x - (buf + of_nat j))) else m x)"
    using store_bytes_ok by blast
  have z: "unat (x - (buf + of_nat j)) < length [ch] \<longleftrightarrow> x = buf + of_nat j" for x
    by (simp add: unat_eq_0 del: diff_diff_eq diff_diff_eq2 diff_add_eq_diff_diff_swap)
  have m'': "m' x = (if x = buf + of_nat j then Some ch else m x)" for x
    unfolding m'(3) z by simp
  have "memset_loop buf ch js m' = Inr (\<lambda>x. if x \<in> (\<lambda>i. buf + of_nat i) ` set js then Some ch else m' x)"
    using Cons.prems m'(2) by (intro Cons.IH) simp
  moreover have "(\<lambda>x. if x \<in> (\<lambda>i. buf + of_nat i) ` set js then Some ch else m' x) =
      (\<lambda>x. if x \<in> (\<lambda>i. buf + of_nat i) ` set (j # js) then Some ch else m x)"
    by (auto simp: fun_eq_iff m'')
  ultimately show ?case using m'(1) by simp
qed simp

lemma memset_ok:
  assumes "mapped m a (unat sz)"
  shows "\<exists>m'. memset a ch sz m = Inr m' \<and> dom m' = dom m \<and>
    (\<forall>x. m' x = (if unat (x - a) < unat sz then Some ch else m x))"
proof -
  have "x \<in> (\<lambda>i. a + of_nat i) ` set [0..<unat sz] \<longleftrightarrow> unat (x - a) < unat sz" for x
  proof
    assume "x \<in> (\<lambda>i. a + of_nat i) ` set [0..<unat sz]"
    then obtain i where i: "x = a + of_nat i" "i < unat sz" by auto
    moreover have "unat sz < 2 ^ 64" using unsigned_less [of sz] by simp
    ultimately show "unat (x - a) < unat sz" by (simp only: unat_diff_add) simp
  next
    assume "unat (x - a) < unat sz"
    then show "x \<in> (\<lambda>i. a + of_nat i) ` set [0..<unat sz]"
      by (intro image_eqI [of _ _ "unat (x - a)"]) simp_all
  qed
  moreover have "a + of_nat i \<in> dom m" if "i \<in> set [0..<unat sz]" for i
    using assms that by (simp add: mapped_iff domIff)
  ultimately have "memset a ch sz m = Inr (\<lambda>x. if unat (x - a) < unat sz then Some ch else m x)"
    using memset_loop_ok [of "[0..<unat sz]" a m ch] by (simp add: memset_def)
  moreover have "x \<in> dom m" if "unat (x - a) < unat sz" for x
  proof -
    have "m (a + of_nat (unat (x - a))) \<noteq> None" using assms that unfolding mapped_iff by blast
    then show ?thesis by (simp add: domIff)
  qed
  ultimately show ?thesis by (auto simp: dom_def)
qed

text \<open>\<open>clear_bss\<close> zeroes the bytes from \<open>_bss_start\<close> up to \<open>_bss_end\<close>.\<close>

lemma clear_bss_loop_ok:
  "(\<And>x. i \<le> x \<Longrightarrow> x < e \<Longrightarrow> x \<in> dom m) \<Longrightarrow>
   clear_bss_loop i e m = Inr (\<lambda>x. if i \<le> x \<and> x < e then Some 0 else m x)"
proof (induction i e m rule: clear_bss_loop.induct)
  case (1 i e m)
  show ?case
  proof (cases "i < e")
    case True
    have "mapped m i (length [0 :: u8])" using 1(2) True by (simp add: mapped_1)
    then obtain m' where m': "store_bytes i [0] m = Inr m'" "dom m' = dom m"
      "\<And>x. m' x = (if unat (x - i) < length [0 :: u8] then Some ([0] ! unat (x - i)) else m x)"
      using store_bytes_ok by blast
    have m'': "m' x = (if x = i then Some 0 else m x)" for x
      unfolding m'(3) by (simp add: unat_eq_0)
    have "unat i < unat e" "unat e < 2 ^ 64" using True unsigned_less [of e] by (simp_all add: word_less_nat_alt)
    then have "unat (i + 1) = Suc (unat i)" by (simp add: unat_word_ariths)
    then have le: "i + 1 \<le> x \<longleftrightarrow> i \<le> x \<and> x \<noteq> i" for x
      by (auto simp: word_le_nat_alt word_unat_eq_iff)
    have "clear_bss_loop (i + 1) e m' = Inr (\<lambda>x. if i + 1 \<le> x \<and> x < e then Some 0 else m' x)"
      using 1(2) m'(2) le by (intro 1(1) [OF True m'(1)]) auto
    moreover have "(\<lambda>x. if i + 1 \<le> x \<and> x < e then Some 0 else m' x) =
        (\<lambda>x. if i \<le> x \<and> x < e then Some 0 else m x)"
      using True by (auto simp: fun_eq_iff le m'')
    ultimately show ?thesis using True m'(1) by (subst clear_bss_loop.simps) simp
  next
    case False
    then have "\<not> (i \<le> x \<and> x < e)" for x by auto
    then show ?thesis using False by (subst clear_bss_loop.simps) (auto simp: fun_eq_iff)
  qed
qed

end
