(* ===== verification/List_Interface.thy ===== *)
theory List_Interface
  imports Prelude
begin

text \<open>
  The contract between kernel/include/common/list.h and its clients. A client keeps a
  family of lists in one store (the buddy system's \<open>free_lists\<close> array), puts a node at
  the front of one list, unlinks a node from the list it is on, and reads the first node.
  The locale states what the list operations promise; its lemmas lift the promises to a
  family of pairwise disjoint lists, which is the form the clients use.
\<close>

definition list_family ::
  "('m \<Rightarrow> 'p \<Rightarrow> 'p list \<Rightarrow> bool) \<Rightarrow> ('i \<Rightarrow> 'p) \<Rightarrow> ('j \<Rightarrow> 'p) \<Rightarrow> 'i set \<Rightarrow> 'm \<Rightarrow> ('i \<Rightarrow> 'j list) \<Rightarrow> bool"
where
  "list_family repr H N I m fl \<longleftrightarrow>
     (\<forall>i \<in> I. repr m (H i) (map N (fl i))) \<and> inj_on H I \<and> inj N \<and> range N \<inter> H ` I = {} \<and>
     (\<forall>i \<in> I. \<forall>j \<in> I. i \<noteq> j \<longrightarrow> set (fl i) \<inter> set (fl j) = {})"

lemma list_family_update:
  assumes "list_family repr H N I m fl" "i \<in> I" "repr m' (H i) (map N xs)"
    and "\<And>k. k \<in> I \<Longrightarrow> k \<noteq> i \<Longrightarrow> repr m' (H k) (map N (fl k))"
    and "\<And>k. k \<in> I \<Longrightarrow> k \<noteq> i \<Longrightarrow> set xs \<inter> set (fl k) = {}"
  shows "list_family repr H N I m' (fl(i := xs))"
  using assms unfolding list_family_def by (auto simp: Int_commute)

locale intrusive_list =
  fixes add :: "'p \<Rightarrow> 'p \<Rightarrow> 'm \<Rightarrow> 'm outcome"
    and del :: "'p \<Rightarrow> 'm \<Rightarrow> 'm outcome"
    and init :: "'p \<Rightarrow> 'm \<Rightarrow> 'm outcome"
    and first :: "'p \<Rightarrow> 'm \<Rightarrow> 'p outcome"
    and repr :: "'m \<Rightarrow> 'p \<Rightarrow> 'p list \<Rightarrow> bool"
    and nodes :: "'m \<Rightarrow> 'p set"
  assumes repr_distinct: "repr m h xs \<Longrightarrow> distinct (h # xs)"
    and init_law: "h \<in> nodes m \<Longrightarrow> \<exists>m'. init h m = Inr m' \<and> repr m' h [] \<and> nodes m' = nodes m \<and>
      (\<forall>k ys. repr m k ys \<longrightarrow> h \<notin> set (k # ys) \<longrightarrow> repr m' k ys)"
    and add_law: "repr m h xs \<Longrightarrow> x \<in> nodes m \<Longrightarrow> x \<notin> set (h # xs) \<Longrightarrow>
      \<exists>m'. add x h m = Inr m' \<and> repr m' h (x # xs) \<and> nodes m' = nodes m \<and>
      (\<forall>k ys. repr m k ys \<longrightarrow> set (k # ys) \<inter> set (x # h # xs) = {} \<longrightarrow> repr m' k ys)"
    and del_law: "repr m h (as @ x # bs) \<Longrightarrow>
      \<exists>m'. del x m = Inr m' \<and> repr m' h (as @ bs) \<and> nodes m' = nodes m \<and>
      (\<forall>k ys. repr m k ys \<longrightarrow> set (k # ys) \<inter> set (h # as @ x # bs) = {} \<longrightarrow> repr m' k ys)"
    and first_law: "repr m h (x # xs) \<Longrightarrow> first h m = Inr x"
begin

lemma family_disjoint:
  assumes "list_family repr H N I m fl" "i \<in> I" "k \<in> I" "k \<noteq> i"
  shows "set (H k # map N (fl k)) \<inter> set (H i # map N (fl i)) = {}"
proof -
  have "H k \<noteq> H i" and N: "inj N" and D: "set (fl k) \<inter> set (fl i) = {}"
    and "range N \<inter> H ` I = {}"
    using assms by (auto simp: list_family_def dest: inj_onD)
  moreover have "N ` set (fl k) \<inter> N ` set (fl i) = {}"
    using D N by (auto dest: injD)
  ultimately show ?thesis using assms(2,3) by auto
qed

lemma family_add:
  assumes fam: "list_family repr H N I m fl" and i: "i \<in> I"
    and j: "N j \<in> nodes m" "\<And>k. k \<in> I \<Longrightarrow> j \<notin> set (fl k)"
  shows "\<exists>m'. add (N j) (H i) m = Inr m' \<and> nodes m' = nodes m \<and>
    list_family repr H N I m' (fl(i := j # fl i))"
proof -
  from fam have N: "inj N" "range N \<inter> H ` I = {}" by (auto simp: list_family_def)
  have fresh: "N j \<notin> set (H k # map N (fl k))" if "k \<in> I" for k
    using that N j(2) [OF that] by (auto dest: injD)
  have "repr m (H i) (map N (fl i))" using fam i by (auto simp: list_family_def)
  from add_law [OF this j(1) fresh [OF i]] obtain m' where m': "add (N j) (H i) m = Inr m'"
    "repr m' (H i) (N j # map N (fl i))" "nodes m' = nodes m"
    "\<And>k ys. repr m k ys \<Longrightarrow> set (k # ys) \<inter> set (N j # H i # map N (fl i)) = {} \<Longrightarrow> repr m' k ys"
    by blast
  have "repr m' (H k) (map N (fl k))" if "k \<in> I" "k \<noteq> i" for k
    using m'(4) [of "H k" "map N (fl k)"] family_disjoint [OF fam i that] fresh [OF that(1)]
      fam that(1) by (auto simp: list_family_def)
  moreover have "set (j # fl i) \<inter> set (fl k) = {}" if "k \<in> I" "k \<noteq> i" for k
    using that fam i j(2) [OF that(1)] unfolding list_family_def by auto
  ultimately have "list_family repr H N I m' (fl(i := j # fl i))"
    using m'(2) by (intro list_family_update [OF fam i]) auto
  with m' show ?thesis by blast
qed

lemma family_del:
  assumes fam: "list_family repr H N I m fl" and i: "i \<in> I" and j: "j \<in> set (fl i)"
  shows "\<exists>m'. del (N j) m = Inr m' \<and> nodes m' = nodes m \<and>
    list_family repr H N I m' (fl(i := remove1 j (fl i)))"
proof -
  from j obtain as bs where fl: "fl i = as @ j # bs" "j \<notin> set as"
    by (meson split_list_first)
  have "repr m (H i) (map N as @ N j # map N bs)"
    using fam i fl by (auto simp: list_family_def dest: bspec)
  from del_law [OF this] obtain m' where m': "del (N j) m = Inr m'"
    "repr m' (H i) (map N as @ map N bs)" "nodes m' = nodes m"
    "\<And>k ys. repr m k ys \<Longrightarrow> set (k # ys) \<inter> set (H i # map N as @ N j # map N bs) = {} \<Longrightarrow> repr m' k ys"
    by blast
  have "repr m' (H k) (map N (fl k))" if "k \<in> I" "k \<noteq> i" for k
    using m'(4) [of "H k" "map N (fl k)"] family_disjoint [OF fam i that] fl fam that(1)
    by (auto simp: list_family_def)
  moreover have "remove1 j (fl i) = as @ bs"
    using fl by (simp add: remove1_append)
  moreover have "set (as @ bs) \<inter> set (fl k) = {}" if "k \<in> I" "k \<noteq> i" for k
  proof -
    have "set (fl i) \<inter> set (fl k) = {}" using that fam i by (auto simp: list_family_def)
    then show ?thesis using fl by auto
  qed
  ultimately have "list_family repr H N I m' (fl(i := remove1 j (fl i)))"
    using m'(2) by (intro list_family_update [OF fam i]) auto
  with m' show ?thesis by blast
qed

lemma family_first:
  assumes "list_family repr H N I m fl" "i \<in> I" "fl i = j # js"
  shows "first (H i) m = Inr (N j)"
  using assms by (auto simp: list_family_def intro!: first_law)

lemma family_distinct:
  assumes "list_family repr H N I m fl" "i \<in> I"
  shows "distinct (fl i)"
  using assms repr_distinct [of m "H i" "map N (fl i)"] by (auto simp: list_family_def distinct_map)

end

end
