(* ===== verification/List_H.thy ===== *)
theory List_H
  imports List_Interface
begin

text \<open>
  kernel/include/common/list.h: the intrusive circular doubly linked lists, whose nodes
  are \<open>struct list_head\<close> fields embedded in other objects, and the hash-chain lists
  (\<open>hlist\<close>). Memory is an explicit store from node addresses \<open>'p\<close> to node contents; an
  address outside the store's domain (NULL among them) is not a node, and touching it is
  undefined behaviour. The predicate \<open>dll\<close> says which store holds which list; the lemmas
  say what every operation does to the list, to the other lists of the store, and to the
  domain of the store.
\<close>

record 'p list_head =
  prev_of :: 'p
  next_of :: 'p

type_synonym 'p list_store = "'p \<rightharpoonup> 'p list_head"

subsection \<open>The operations\<close>

definition get_next :: "'p \<Rightarrow> 'p list_store \<Rightarrow> 'p outcome" where
  "get_next p m = rbind (deref (m p)) (\<lambda>n. Inr (next_of n))"

definition get_prev :: "'p \<Rightarrow> 'p list_store \<Rightarrow> 'p outcome" where
  "get_prev p m = rbind (deref (m p)) (\<lambda>n. Inr (prev_of n))"

definition set_next :: "'p \<Rightarrow> 'p \<Rightarrow> 'p list_store \<Rightarrow> 'p list_store outcome" where
  "set_next p v m = rbind (deref (m p)) (\<lambda>n. Inr (m(p \<mapsto> n\<lparr>next_of := v\<rparr>)))"

definition set_prev :: "'p \<Rightarrow> 'p \<Rightarrow> 'p list_store \<Rightarrow> 'p list_store outcome" where
  "set_prev p v m = rbind (deref (m p)) (\<lambda>n. Inr (m(p \<mapsto> n\<lparr>prev_of := v\<rparr>)))"

definition init_list_head :: "'p \<Rightarrow> 'p list_store \<Rightarrow> 'p list_store outcome" where
  "init_list_head list m =
     rbind (set_next list list m) (\<lambda>m.
     set_prev list list m)"

definition list_add :: "'p \<Rightarrow> 'p \<Rightarrow> 'p list_store \<Rightarrow> 'p list_store outcome" where
  "list_add new head m =
     rbind (get_next head m) (\<lambda>head_next.
     rbind (set_next new head_next m) (\<lambda>m.
     rbind (set_prev new head m) (\<lambda>m.
     rbind (get_next head m) (\<lambda>head_next.
     rbind (set_prev head_next new m) (\<lambda>m.
     set_next head new m)))))"

definition list_append :: "'p \<Rightarrow> 'p \<Rightarrow> 'p list_store \<Rightarrow> 'p list_store outcome" where
  "list_append new head m =
     rbind (get_prev head m) (\<lambda>tail.
     list_add new tail m)"

definition list_del :: "'p \<Rightarrow> 'p list_store \<Rightarrow> 'p list_store outcome" where
  "list_del node m =
     rbind (get_prev node m) (\<lambda>p.
     rbind (get_next node m) (\<lambda>n.
     rbind (set_next p n m) (\<lambda>m.
     rbind (get_next node m) (\<lambda>n.
     rbind (get_prev node m) (\<lambda>p.
     set_prev n p m)))))"

definition list_empty :: "'p \<Rightarrow> 'p list_store \<Rightarrow> bool outcome" where
  "list_empty head m = rbind (get_next head m) (\<lambda>n. Inr (n = head))"

text \<open>
  \<open>for_each_in_list\<close>: the nodes the loop visits, in order. The walk may run forever on a
  store that holds no list, so it takes the number of nodes it may visit; None is "not
  finished yet".
\<close>

fun for_each_from :: "nat \<Rightarrow> 'p \<Rightarrow> 'p \<Rightarrow> 'p list_store \<Rightarrow> 'p list outcome option" where
  "for_each_from 0 p head m = (if p = head then Some (Inr []) else None)"
| "for_each_from (Suc k) p head m =
     (if p = head then Some (Inr [])
      else case get_next p m of
        Inl e \<Rightarrow> Some (Inl e)
      | Inr n \<Rightarrow> map_option (\<lambda>r. rbind r (\<lambda>ps. Inr (p # ps))) (for_each_from k n head m))"

definition for_each_in_list :: "nat \<Rightarrow> 'p \<Rightarrow> 'p list_store \<Rightarrow> 'p list outcome option" where
  "for_each_in_list fuel head m =
     (case get_next head m of
        Inl e \<Rightarrow> Some (Inl e)
      | Inr n \<Rightarrow> for_each_from fuel n head m)"

subsection \<open>What a store holds\<close>

text \<open>
  \<open>nxt\<close> and \<open>prv\<close> read one field of a node; \<open>chain m ps\<close> says that the nodes \<open>ps\<close> are
  linked in this order in both directions; \<open>dll m h xs\<close> says that \<open>h\<close> is the head of a
  circular list whose elements are \<open>xs\<close>.
\<close>

definition nxt :: "'p list_store \<Rightarrow> 'p \<Rightarrow> 'p option" where
  "nxt m a = map_option next_of (m a)"

definition prv :: "'p list_store \<Rightarrow> 'p \<Rightarrow> 'p option" where
  "prv m a = map_option prev_of (m a)"

fun chain :: "'p list_store \<Rightarrow> 'p list \<Rightarrow> bool" where
  "chain m [] = True"
| "chain m [a] = True"
| "chain m (a # b # cs) = (nxt m a = Some b \<and> prv m b = Some a \<and> chain m (b # cs))"

definition dll :: "'p list_store \<Rightarrow> 'p \<Rightarrow> 'p list \<Rightarrow> bool" where
  "dll m h xs \<longleftrightarrow> distinct (h # xs) \<and> chain m (h # xs @ [h])"

lemma chain_append: "chain m (xs @ a # ys) \<longleftrightarrow> chain m (xs @ [a]) \<and> chain m (a # ys)"
proof (induction xs)
  case Nil
  then show ?case by simp
next
  case (Cons x xs)
  then show ?case by (cases xs) auto
qed

lemma chain_cong:
  assumes "chain m xs"
    and "\<And>a. a \<in> set (butlast xs) \<Longrightarrow> nxt m' a = nxt m a"
    and "\<And>a. a \<in> set (tl xs) \<Longrightarrow> prv m' a = prv m a"
  shows "chain m' xs"
  using assms by (induction m xs rule: chain.induct) auto

lemma dom_nxt: "nxt m a = Some b \<Longrightarrow> a \<in> dom m"
  by (auto simp: nxt_def)

lemma dom_prv: "prv m a = Some b \<Longrightarrow> a \<in> dom m"
  by (auto simp: prv_def)

lemma get_next_Inr: "get_next p m = Inr q \<longleftrightarrow> nxt m p = Some q"
  by (auto simp: get_next_def nxt_def rbind_Inr_iff)

lemma get_prev_Inr: "get_prev p m = Inr q \<longleftrightarrow> prv m p = Some q"
  by (auto simp: get_prev_def prv_def rbind_Inr_iff)

lemma set_next_dom:
  assumes "p \<in> dom m"
  shows "\<exists>m'. set_next p v m = Inr m' \<and> nxt m' = (nxt m)(p := Some v) \<and>
     prv m' = prv m \<and> dom m' = dom m"
proof -
  from assms obtain n where "m p = Some n" by blast
  then show ?thesis
    by (intro exI [of _ "m(p \<mapsto> n\<lparr>next_of := v\<rparr>)"])
      (auto simp: set_next_def nxt_def prv_def fun_eq_iff)
qed

lemma set_prev_dom:
  assumes "p \<in> dom m"
  shows "\<exists>m'. set_prev p v m = Inr m' \<and> prv m' = (prv m)(p := Some v) \<and>
     nxt m' = nxt m \<and> dom m' = dom m"
proof -
  from assms obtain n where "m p = Some n" by blast
  then show ?thesis
    by (intro exI [of _ "m(p \<mapsto> n\<lparr>prev_of := v\<rparr>)"])
      (auto simp: set_prev_def nxt_def prv_def fun_eq_iff)
qed

lemma dll_head:
  assumes "dll m h xs"
  shows "nxt m h = Some (case xs of [] \<Rightarrow> h | x # _ \<Rightarrow> x)"
    and "prv m (case xs of [] \<Rightarrow> h | x # _ \<Rightarrow> x) = Some h"
  using assms by (auto simp: dll_def split: list.splits)

lemma dll_dom:
  assumes "dll m h xs"
  shows "set (h # xs) \<subseteq> dom m"
proof -
  have "chain m ys \<Longrightarrow> set (butlast ys) \<subseteq> dom m" for ys
    by (induction m ys rule: chain.induct) (auto dest: dom_nxt)
  from this [of "h # xs @ [h]"] assms show ?thesis
    by (auto simp: dll_def butlast_append)
qed

lemma dll_cong:
  assumes "dll m h xs"
    and "\<And>a. a \<in> set (h # xs) \<Longrightarrow> nxt m' a = nxt m a"
    and "\<And>a. a \<in> set (h # xs) \<Longrightarrow> prv m' a = prv m a"
  shows "dll m' h xs"
  using assms unfolding dll_def by (auto intro!: chain_cong [of m] simp: butlast_append)

subsection \<open>What the operations do\<close>

lemma init_list_head_ok:
  assumes "h \<in> dom m"
  shows "\<exists>m'. init_list_head h m = Inr m' \<and> dll m' h [] \<and> dom m' = dom m \<and>
    nxt m' = (nxt m)(h := Some h) \<and> prv m' = (prv m)(h := Some h)"
proof -
  from assms obtain m1 where m1: "set_next h h m = Inr m1" "nxt m1 = (nxt m)(h := Some h)"
    "prv m1 = prv m" "dom m1 = dom m"
    using set_next_dom by metis
  with assms obtain m2 where m2: "set_prev h h m1 = Inr m2" "prv m2 = (prv m1)(h := Some h)"
    "nxt m2 = nxt m1" "dom m2 = dom m1"
    using set_prev_dom by metis
  show ?thesis
    using m1 m2 by (simp add: init_list_head_def dll_def)
qed

lemma list_add_step:
  assumes "nxt m h = Some x" "x \<in> dom m" "new \<in> dom m" "new \<noteq> h"
  shows "\<exists>m'. list_add new h m = Inr m' \<and> nxt m' = (nxt m)(new := Some x, h := Some new) \<and>
    prv m' = (prv m)(new := Some h, x := Some new) \<and> dom m' = dom m"
proof -
  from assms have h: "h \<in> dom m" by (auto dest: dom_nxt)
  obtain m1 where m1: "set_next new x m = Inr m1" "nxt m1 = (nxt m)(new := Some x)"
    "prv m1 = prv m" "dom m1 = dom m"
    using assms set_next_dom by metis
  obtain m2 where m2: "set_prev new h m1 = Inr m2" "prv m2 = (prv m1)(new := Some h)"
    "nxt m2 = nxt m1" "dom m2 = dom m1"
    using assms m1 set_prev_dom by metis
  obtain m3 where m3: "set_prev x new m2 = Inr m3" "prv m3 = (prv m2)(x := Some new)"
    "nxt m3 = nxt m2" "dom m3 = dom m2"
    using assms m1 m2 set_prev_dom by metis
  obtain m4 where m4: "set_next h new m3 = Inr m4" "nxt m4 = (nxt m3)(h := Some new)"
    "prv m4 = prv m3" "dom m4 = dom m3"
    using h m1 m2 m3 set_next_dom by metis
  have "get_next h m = Inr x" "get_next h m2 = Inr x"
    using assms m1 m2 by (simp_all add: get_next_Inr)
  with m1 m2 m3 m4 show ?thesis
    by (simp add: list_add_def)
qed

lemma list_add_ok:
  assumes "dll m h xs" "new \<in> dom m" "new \<notin> set (h # xs)"
  shows "\<exists>m'. list_add new h m = Inr m' \<and> dll m' h (new # xs) \<and> dom m' = dom m \<and>
    (\<forall>a. a \<notin> set (new # h # xs) \<longrightarrow> nxt m' a = nxt m a \<and> prv m' a = prv m a)"
proof -
  define x where "x = (case xs of [] \<Rightarrow> h | y # _ \<Rightarrow> y)"
  have x: "nxt m h = Some x" "x \<in> set (h # xs)"
    using dll_head(1) [OF assms(1)] by (auto simp: x_def split: list.splits)
  with dll_dom [OF assms(1)] have "x \<in> dom m" by blast
  with x assms obtain m' where m': "list_add new h m = Inr m'" "dom m' = dom m"
    "nxt m' = (nxt m)(new := Some x, h := Some new)"
    "prv m' = (prv m)(new := Some h, x := Some new)"
    using list_add_step [of m h x new] by auto
  have "dll m' h (new # xs)"
  proof -
    have "chain m (h # xs @ [h])" and d: "distinct (h # xs)"
      using assms(1) by (auto simp: dll_def)
    then have "chain m (xs @ [h])" by (cases xs) auto
    then have "chain m' (xs @ [h])"
      by (rule chain_cong) (use d assms(3) m' in \<open>auto simp: butlast_append x_def split: list.splits\<close>)
    moreover have "nxt m' h = Some new" "nxt m' new = Some x" "prv m' new = Some h" "prv m' x = Some new"
      using assms(3) x m' by auto
    ultimately have "chain m' (h # new # xs @ [h])"
      by (cases xs) (auto simp: x_def)
    with d assms(3) show ?thesis by (auto simp: dll_def)
  qed
  with m' x show ?thesis by auto
qed

lemma list_del_step:
  assumes "nxt m p = Some c" "prv m c = Some p" "nxt m c = Some q" "prv m q = Some c" "p \<noteq> c"
  shows "\<exists>m'. list_del c m = Inr m' \<and> nxt m' = (nxt m)(p := Some q) \<and>
    prv m' = (prv m)(q := Some p) \<and> dom m' = dom m"
proof -
  have "p \<in> dom m" "q \<in> dom m"
    using assms by (auto dest: dom_nxt dom_prv)
  obtain m1 where m1: "set_next p q m = Inr m1" "nxt m1 = (nxt m)(p := Some q)"
    "prv m1 = prv m" "dom m1 = dom m"
    using \<open>p \<in> dom m\<close> set_next_dom by metis
  obtain m2 where m2: "set_prev q p m1 = Inr m2" "prv m2 = (prv m1)(q := Some p)"
    "nxt m2 = nxt m1" "dom m2 = dom m1"
    using \<open>q \<in> dom m\<close> m1 set_prev_dom by metis
  have "get_prev c m = Inr p" "get_next c m = Inr q" "get_next c m1 = Inr q" "get_prev c m1 = Inr p"
    using assms m1 by (simp_all add: get_next_Inr get_prev_Inr)
  with m1 m2 show ?thesis
    by (simp add: list_del_def)
qed

lemma chain_unlink:
  assumes ch: "chain m (xs @ p # c # q # ys)"
    and p: "p \<notin> set xs" "p \<notin> set (butlast (q # ys))"
    and q: "q \<notin> set (tl (xs @ [p]))" "q \<notin> set ys"
    and m': "nxt m' = (nxt m)(p := Some q)" "prv m' = (prv m)(q := Some p)"
  shows "chain m' (xs @ p # q # ys)"
proof -
  have l: "chain m (xs @ [p])" and r: "chain m (q # ys)"
    using ch chain_append [of m xs p "c # q # ys"] by auto
  have "chain m' (xs @ [p])"
    by (rule chain_cong [OF l]) (use p q in \<open>auto simp: m'\<close>)
  moreover have "chain m' (q # ys)"
    by (rule chain_cong [OF r]) (use p q in \<open>auto simp: m'\<close>)
  ultimately show ?thesis
    unfolding chain_append [of m' xs p "q # ys"] by (simp add: m')
qed

lemma list_del_ok:
  assumes "dll m h (as @ c # bs)"
  shows "\<exists>m'. list_del c m = Inr m' \<and> dll m' h (as @ bs) \<and> dom m' = dom m \<and>
    (\<forall>a. a \<notin> set (h # as @ bs) \<longrightarrow> nxt m' a = nxt m a \<and> prv m' a = prv m a)"
proof -
  obtain xs p where xs: "h # as = xs @ [p]" by (metis append_butlast_last_id list.discI)
  obtain q ys where ys: "bs @ [h] = q # ys" by (cases bs) auto
  have d: "distinct (h # as @ c # bs)" and ch: "chain m (xs @ p # c # q # ys)"
    using assms xs ys unfolding dll_def by (auto, metis append_Cons append_Nil append_assoc)
  have pq: "p \<in> set (h # as)" "q \<in> set (h # bs)"
    using arg_cong [OF xs, of set] arg_cong [OF ys, of set] by auto
  then have "p \<noteq> c" using d by auto
  moreover have "chain m (p # c # q # ys)"
    using ch chain_append [of m xs p "c # q # ys"] by blast
  ultimately obtain m' where m': "list_del c m = Inr m'" "dom m' = dom m"
    "nxt m' = (nxt m)(p := Some q)" "prv m' = (prv m)(q := Some p)"
    using list_del_step [of m p c q] by auto
  have "distinct (xs @ [p])"
    using d xs by (metis append_Cons distinct_append)
  moreover have "p \<notin> set bs" "q \<notin> set as"
    using d pq by auto
  moreover have "butlast (q # ys) = bs" "set (tl (xs @ [p])) = set as" "set ys \<subseteq> set (tl bs) \<union> {h}" 
    using ys xs by (metis butlast_snoc, metis list.sel(3), cases bs, auto)
  moreover have "q \<notin> set ys"
    using d ys by (cases bs) auto
  ultimately have "chain m' (xs @ p # q # ys)"
    by (intro chain_unlink [OF ch _ _ _ _ m'(3,4)]) auto
  then have "dll m' h (as @ bs)"
    using d xs ys unfolding dll_def by (auto, metis append_Cons append_Nil append_assoc)
  moreover have "nxt m' a = nxt m a \<and> prv m' a = prv m a" if "a \<notin> set (h # as @ bs)" for a
    using that pq by (auto simp: m')
  ultimately show ?thesis using m' by blast
qed

lemma list_append_ok:
  assumes "dll m h xs" "new \<in> dom m" "new \<notin> set (h # xs)"
  shows "\<exists>m'. list_append new h m = Inr m' \<and> dll m' h (xs @ [new]) \<and> dom m' = dom m \<and>
    (\<forall>a. a \<notin> set (new # h # xs) \<longrightarrow> nxt m' a = nxt m a \<and> prv m' a = prv m a)"
proof -
  obtain ps p where ps: "h # xs = ps @ [p]" by (metis append_butlast_last_id list.discI)
  have d: "distinct (h # xs)" and ch: "chain m (ps @ p # [h])"
    using assms(1) ps unfolding dll_def by (auto, metis append_Cons append_Nil append_assoc)
  then have l: "chain m (ps @ [p])" and ph: "nxt m p = Some h" "prv m h = Some p"
    using chain_append [of m ps p "[h]"] by auto
  have p: "p \<in> set (h # xs)" using arg_cong [OF ps, of set] by auto
  have "h \<in> dom m" using ph by (auto dest: dom_prv)
  then obtain m' where m': "list_add new p m = Inr m'" "dom m' = dom m"
    "nxt m' = (nxt m)(new := Some h, p := Some new)"
    "prv m' = (prv m)(new := Some p, h := Some new)"
    using list_add_step [of m p h new] assms p ph by auto
  have eq: "list_append new h m = Inr m'"
    using ph m' by (auto simp: list_append_def rbind_Inr_iff get_prev_Inr)
  have dp: "distinct (ps @ [p])" and tlps: "tl (ps @ [p]) = xs"
    using d ps by (metis, metis list.sel(3))
  have "chain m' (ps @ [p])"
  proof (rule chain_cong [OF l])
    show "nxt m' a = nxt m a" if "a \<in> set (butlast (ps @ [p]))" for a
      using that dp assms(3) arg_cong [OF ps, of set] by (auto simp: m')
    show "prv m' a = prv m a" if "a \<in> set (tl (ps @ [p]))" for a
      using that d assms(3) unfolding tlps by (auto simp: m')
  qed
  then have "chain m' (ps @ p # [new, h])"
    using chain_append [of m' ps p "[new, h]"] assms(3) p by (auto simp: m')
  then have "dll m' h (xs @ [new])"
  proof -
    have "h # (xs @ [new]) @ [h] = ps @ p # [new, h]"
      using arg_cong [OF ps, of "\<lambda>l. l @ [new, h]"] by simp
    with \<open>chain m' (ps @ p # [new, h])\<close> have "chain m' (h # (xs @ [new]) @ [h])" by metis
    with d assms(3) show ?thesis unfolding dll_def by auto
  qed
  with eq m' p show ?thesis by auto
qed

lemma list_empty_ok: "dll m h xs \<Longrightarrow> list_empty h m = Inr (xs = [])"
  by (cases xs) (auto simp: list_empty_def get_next_Inr rbind_Inr_iff dll_def)

lemma for_each_from_ok:
  "chain m (xs @ [h]) \<Longrightarrow> h \<notin> set xs \<Longrightarrow> length xs \<le> k \<Longrightarrow>
   for_each_from k (case xs of [] \<Rightarrow> h | x # _ \<Rightarrow> x) h m = Some (Inr xs)"
proof (induction xs arbitrary: k)
  case Nil
  then show ?case by (cases k) auto
next
  case (Cons x xs)
  from Cons.prems obtain k' where k: "k = Suc k'" "length xs \<le> k'"
    by (cases k) auto
  have n: "get_next x m = Inr (case xs of [] \<Rightarrow> h | y # _ \<Rightarrow> y)" and ch: "chain m (xs @ [h])"
    using Cons.prems(1) by (cases xs; auto simp: get_next_Inr)+
  with Cons.IH [OF ch _ k(2)] Cons.prems(2) k(1) show ?case
    by auto
qed

lemma for_each_in_list_ok:
  assumes "dll m h xs" "length xs \<le> k"
  shows "for_each_in_list k h m = Some (Inr xs)"
proof -
  have "get_next h m = Inr (case xs of [] \<Rightarrow> h | x # _ \<Rightarrow> x)"
    using dll_head(1) [OF assms(1)] by (simp add: get_next_Inr)
  moreover have "chain m (xs @ [h])" "h \<notin> set xs"
    using assms(1) by (cases xs; auto simp: dll_def)+
  ultimately show ?thesis
    using for_each_from_ok assms(2) by (auto simp: for_each_in_list_def)
qed

lemma dll_unchanged:
  assumes "dll m h xs" "\<forall>a. a \<notin> B \<longrightarrow> nxt m' a = nxt m a \<and> prv m' a = prv m a"
    and "set (h # xs) \<inter> B = {}"
  shows "dll m' h xs"
  using assms by (intro dll_cong [OF assms(1)]) blast+

subsection \<open>The list operations meet their contract\<close>

interpretation dlist: intrusive_list list_add list_del init_list_head get_next dll dom
proof
  fix m :: "'a list_store" and h x :: 'a and xs as bs :: "'a list"
  show "dll m h xs \<Longrightarrow> distinct (h # xs)"
    by (simp add: dll_def)
  show "\<exists>m'. init_list_head h m = Inr m' \<and> dll m' h [] \<and> dom m' = dom m \<and>
      (\<forall>k ys. dll m k ys \<longrightarrow> h \<notin> set (k # ys) \<longrightarrow> dll m' k ys)" if h: "h \<in> dom m"
  proof -
    obtain m' where m': "init_list_head h m = Inr m'" "dll m' h []" "dom m' = dom m"
      "\<forall>a. a \<notin> {h} \<longrightarrow> nxt m' a = nxt m a \<and> prv m' a = prv m a"
      using init_list_head_ok [OF h] by auto
    then show ?thesis by (auto intro!: dll_unchanged [OF _ m'(4)])
  qed
  show "\<exists>m'. list_add x h m = Inr m' \<and> dll m' h (x # xs) \<and> dom m' = dom m \<and>
      (\<forall>k ys. dll m k ys \<longrightarrow> set (k # ys) \<inter> set (x # h # xs) = {} \<longrightarrow> dll m' k ys)"
    if "dll m h xs" "x \<in> dom m" "x \<notin> set (h # xs)"
    using list_add_ok [OF that] dll_unchanged by meson
  show "\<exists>m'. list_del x m = Inr m' \<and> dll m' h (as @ bs) \<and> dom m' = dom m \<and>
      (\<forall>k ys. dll m k ys \<longrightarrow> set (k # ys) \<inter> set (h # as @ x # bs) = {} \<longrightarrow> dll m' k ys)"
    if d: "dll m h (as @ x # bs)"
  proof -
    obtain m' where m': "list_del x m = Inr m'" "dll m' h (as @ bs)" "dom m' = dom m"
      "\<forall>a. a \<notin> set (h # as @ bs) \<longrightarrow> nxt m' a = nxt m a \<and> prv m' a = prv m a"
      using list_del_ok [OF d] by blast
    then show ?thesis by (auto intro!: dll_unchanged [OF _ m'(4)])
  qed
  show "dll m h (x # xs) \<Longrightarrow> get_next h m = Inr x"
    using dll_head(1) [of m h "x # xs"] by (simp add: get_next_Inr)
qed

end
