(* ===== verification/Buddy.thy ===== *)
theory Buddy
  imports List_H
begin

text \<open>
  kernel/mm/buddy.c and kernel/include/mm/buddy.h: the buddy allocator of physical pages.

  On raspi3 there is one physical memory pool (\<open>PHYS_MEM_POOL_SIZE\<close> is 1 in mm.c), so a
  \<open>struct phys_mem_pool *\<close> is NULL or \<open>&global_mem[0]\<close>, and the record \<open>buddy_state\<close> is
  that pool together with \<open>physmem_map_num\<close>. A \<open>struct page *\<close> into the metadata array is
  the index of its element (so pointer difference and pointer comparison are those of
  indices), the array itself a map from indices to pages, and a NULL page pointer \<open>None\<close>.
  The \<open>struct list_head\<close> fields embedded in the free lists and in the pages live in the
  list store \<open>links\<close> of list.h: \<open>FreeListHead o\<close> is \<open>&pool->free_lists[o].free_list\<close> and
  \<open>PageNode i\<close> is \<open>&page_metadata[i].node\<close>. The operations are defined on every
  extension of the record, so that they leave the rest of the kernel's state alone.
\<close>

subsection \<open>Data\<close>

abbreviation (input) BUDDY_PAGE_SIZE :: "'a::numeral" where
  "BUDDY_PAGE_SIZE \<equiv> 0x1000"

abbreviation (input) BUDDY_MAX_ORDER :: "'a::numeral" where
  "BUDDY_MAX_ORDER \<equiv> 14"

abbreviation (input) BUDDY_PAGE_SIZE_ORDER :: "'a::numeral" where
  "BUDDY_PAGE_SIZE_ORDER \<equiv> 12"

datatype pool_ptr = PoolNull | GlobalMem0

datatype node_ptr = NodeNull | FreeListHead nat | PageNode nat

record page =
  allocated :: int
  page_order :: int
  page_slab :: u64
  page_pool :: pool_ptr

record phys_mem_pool =
  pool_start_addr :: u64
  pool_mem_size :: u64
  pool_phys_page_num :: u64
  page_metadata_addr :: u64
  page_metadata :: "nat \<rightharpoonup> page"
  nr_free :: "nat \<Rightarrow> u64"
  links :: "node_ptr list_store"

record buddy_state = phys_mem_pool +
  physmem_map_num :: int

subsection \<open>Accesses to the pages and to the free lists\<close>

definition get_page :: "'z buddy_state_scheme \<Rightarrow> nat \<Rightarrow> page outcome" where
  "get_page s i = deref (page_metadata s i)"

definition upd_page :: "nat \<Rightarrow> (page \<Rightarrow> page) \<Rightarrow> 'z buddy_state_scheme \<Rightarrow> 'z buddy_state_scheme outcome" where
  "upd_page i f s =
     rbind (get_page s i) (\<lambda>p.
     Inr (s\<lparr>page_metadata := (page_metadata s)(i \<mapsto> f p)\<rparr>))"

definition free_list_index :: "int \<Rightarrow> nat outcome" where
  "free_list_index ord = (if 0 \<le> ord \<and> ord < BUDDY_MAX_ORDER then Inr (nat ord) else Inl Undef)"

definition free_list_add :: "nat \<Rightarrow> int \<Rightarrow> 'z buddy_state_scheme \<Rightarrow> 'z buddy_state_scheme outcome" where
  "free_list_add i ord s =
     rbind (free_list_index ord) (\<lambda>k.
     rbind (list_add (PageNode i) (FreeListHead k) (links s)) (\<lambda>l.
     Inr (s\<lparr>links := l\<rparr>)))"

definition page_list_del :: "nat \<Rightarrow> 'z buddy_state_scheme \<Rightarrow> 'z buddy_state_scheme outcome" where
  "page_list_del i s =
     rbind (list_del (PageNode i) (links s)) (\<lambda>l.
     Inr (s\<lparr>links := l\<rparr>))"

definition nr_free_inc :: "int \<Rightarrow> 'z buddy_state_scheme \<Rightarrow> 'z buddy_state_scheme outcome" where
  "nr_free_inc ord s =
     rbind (free_list_index ord) (\<lambda>k.
     Inr (s\<lparr>nr_free := (nr_free s)(k := nr_free s k + 1)\<rparr>))"

definition nr_free_dec :: "int \<Rightarrow> 'z buddy_state_scheme \<Rightarrow> 'z buddy_state_scheme outcome" where
  "nr_free_dec ord s =
     rbind (free_list_index ord) (\<lambda>k.
     Inr (s\<lparr>nr_free := (nr_free s)(k := nr_free s k - 1)\<rparr>))"

fun list_entry_page :: "node_ptr \<Rightarrow> nat outcome" where
  "list_entry_page (PageNode i) = Inr i"
| "list_entry_page _ = Inl Undef"

subsection \<open>Pages and addresses\<close>

definition page_to_virt :: "'z buddy_state_scheme \<Rightarrow> nat \<Rightarrow> u64 outcome" where
  "page_to_virt s page =
     rbind (get_page s page) (\<lambda>p.
     rbind (bug_on (page_pool p = PoolNull)) (\<lambda>_.
     Inr (of_nat page * BUDDY_PAGE_SIZE + pool_start_addr s)))"

text \<open>
  The loop over the pools: pool 0 is tested when \<open>0 < physmem_map_num\<close>; a second iteration
  would read past the one-element array.
\<close>

definition virt_to_page :: "'z buddy_state_scheme \<Rightarrow> u64 \<Rightarrow> nat outcome" where
  "virt_to_page s addr =
     (if 0 < physmem_map_num s then
        if pool_start_addr s \<le> addr \<and> addr < pool_start_addr s + pool_mem_size s
        then Inr (unat ((addr - pool_start_addr s) div BUDDY_PAGE_SIZE))
        else if 1 < physmem_map_num s then Inl Undef else Inl Bug
      else Inl Bug)"

definition get_buddy_chunk :: "'z buddy_state_scheme \<Rightarrow> nat \<Rightarrow> nat option outcome" where
  "get_buddy_chunk s chunk =
     rbind (page_to_virt s chunk) (\<lambda>chunk_addr.
     rbind (get_page s chunk) (\<lambda>p.
     let sh = page_order p + BUDDY_PAGE_SIZE_ORDER in
     rbind (undef_if (sh < 0 \<or> 64 \<le> sh)) (\<lambda>_.
     let buddy_chunk_addr = chunk_addr XOR push_bit (nat sh) 1 in
     if buddy_chunk_addr < pool_start_addr s
        \<or> pool_start_addr s + pool_mem_size s \<le> buddy_chunk_addr
     then Inr None
     else rbind (virt_to_page s buddy_chunk_addr) (\<lambda>b. Inr (Some b)))))"

subsection \<open>Splitting and allocating\<close>

text \<open>
  Two facts the termination proofs need: what \<open>upd_page\<close> stores, and that
  \<open>get_buddy_chunk\<close> only returns for a non-negative shift.
\<close>

lemma upd_page_Inr:
  "upd_page i f s = Inr s' \<longleftrightarrow>
     (\<exists>p. page_metadata s i = Some p \<and> s' = s\<lparr>page_metadata := (page_metadata s)(i \<mapsto> f p)\<rparr>)"
  by (auto simp: upd_page_def get_page_def rbind_Inr_iff)

lemma get_buddy_chunk_order:
  "get_buddy_chunk s i = Inr b \<Longrightarrow> page_metadata s i = Some p \<Longrightarrow> - 12 \<le> page_order p"
  by (auto simp: get_buddy_chunk_def get_page_def Let_def rbind_Inr_iff)

lemma get_buddy_chunk_order_less:
  "get_buddy_chunk s i = Inr b \<Longrightarrow> page_metadata s i = Some p \<Longrightarrow> page_order p < 52"
  by (auto simp: get_buddy_chunk_def get_page_def Let_def rbind_Inr_iff)

text \<open>How the C comparisons of an \<open>int\<close> order with an unsigned long read.\<close>

lemma order_as_u64:
  "0 \<le> k \<Longrightarrow> k < 2 ^ 64 \<Longrightarrow> uint (word_of_int k :: u64) = k"
  by (simp add: uint_word_of_int)

lemma order_word_eq:
  "0 \<le> k \<Longrightarrow> k < 2 ^ 64 \<Longrightarrow> 0 \<le> j \<Longrightarrow> j < 2 ^ 64 \<Longrightarrow>
   (word_of_int k :: u64) = word_of_int j \<longleftrightarrow> k = j"
  by (metis order_as_u64)

lemma order_word_less:
  "0 \<le> k \<Longrightarrow> k < 2 ^ 64 \<Longrightarrow> 0 \<le> j \<Longrightarrow> j < 2 ^ 64 \<Longrightarrow>
   (word_of_int k :: u64) < word_of_int j \<longleftrightarrow> k < j"
  by (simp add: word_less_def order_as_u64)

lemma free_list_add_frame [frame_simps]:
  "free_list_add i ord s = Inr s' \<Longrightarrow> page_metadata s' = page_metadata s"
  by (auto simp: free_list_add_def rbind_Inr_iff)

lemma nr_free_inc_frame [frame_simps]:
  "nr_free_inc ord s = Inr s' \<Longrightarrow> page_metadata s' = page_metadata s"
  by (auto simp: nr_free_inc_def rbind_Inr_iff)

lemma page_list_del_frame [frame_simps]:
  "page_list_del i s = Inr s' \<Longrightarrow> page_metadata s' = page_metadata s"
  by (auto simp: page_list_del_def rbind_Inr_iff)

lemma nr_free_dec_frame [frame_simps]:
  "nr_free_dec ord s = Inr s' \<Longrightarrow> page_metadata s' = page_metadata s"
  by (auto simp: nr_free_dec_def rbind_Inr_iff)

function (sequential) split_page ::
  "'z buddy_state_scheme \<Rightarrow> u64 \<Rightarrow> nat option \<Rightarrow> ('z buddy_state_scheme \<times> nat) outcome"
where
  "split_page s order None = Inl Bug"
| "split_page s order (Some page) =
     rbind (get_page s page) (\<lambda>p.
     rbind (bug_on ((word_of_int (page_order p) :: u64) < order)) (\<lambda>_.
     rbind (bug_on (allocated p \<noteq> 0)) (\<lambda>_.
     if (word_of_int (page_order p) :: u64) = order then Inr (s, page)
     else
       rbind (upd_page page (\<lambda>p. p\<lparr>page_order := page_order p - 1\<rparr>) s) (\<lambda>s1.
       rbind (get_buddy_chunk s1 page) (\<lambda>b.
       rbind (bug_on (b = None)) (\<lambda>_.
       rbind (deref b) (\<lambda>buddy.
       rbind (get_page s1 page) (\<lambda>p1.
       rbind (upd_page buddy (\<lambda>q. q\<lparr>page_order := page_order p1\<rparr>) s1) (\<lambda>s2.
       rbind (upd_page buddy (\<lambda>q. q\<lparr>allocated := 0\<rparr>) s2) (\<lambda>s3.
       rbind (get_page s3 buddy) (\<lambda>q.
       rbind (free_list_add buddy (page_order q) s3) (\<lambda>s4.
       rbind (nr_free_inc (page_order q) s4) (\<lambda>s5.
       split_page s5 order (Some page)))))))))))))) "
  by pat_completeness auto
termination
proof (relation "measure (\<lambda>(s :: 'z buddy_state_scheme, order, page).
    case page of None \<Rightarrow> 0 | Some i \<Rightarrow>
      (case page_metadata s i of None \<Rightarrow> 0 | Some p \<Rightarrow> nat (page_order p + 13)))", goal_cases)
  case 1
  then show ?case by simp
next
  case (2 s order page p u1 u2 s1 b u3 buddy p1 s2 s3 q s4 s5)
  have s1: "page_metadata s1 = (page_metadata s)(page \<mapsto> p\<lparr>page_order := page_order p - 1\<rparr>)"
    and p: "page_metadata s page = Some p"
    using 2 by (auto simp: upd_page_Inr get_page_def)
  then have p1: "p1 = p\<lparr>page_order := page_order p - 1\<rparr>" and ge: "-12 \<le> page_order p - 1"
    using 2 get_buddy_chunk_order [of s1 page b "p\<lparr>page_order := page_order p - 1\<rparr>"]
    by (auto simp: get_page_def)
  have "page_metadata s5 = page_metadata s3"
    using 2 by (simp add: free_list_add_frame [of buddy _ s3 s4] nr_free_inc_frame [of _ s4 s5])
  moreover have "\<exists>p'. page_metadata s3 page = Some p' \<and> page_order p' = page_order p - 1"
    using 2 s1 p1 by (auto simp: upd_page_Inr split: if_splits)
  ultimately show ?case using p ge by auto
qed

declare split_page.simps(2) [simp del]

text \<open>
  The loop of \<open>buddy_get_pages\<close> over the orders from \<open>cur_order\<close> up: the first order with
  a free chunk is taken.
\<close>

function buddy_get_pages_from ::
  "'z buddy_state_scheme \<Rightarrow> u64 \<Rightarrow> nat \<Rightarrow> ('z buddy_state_scheme \<times> nat option) outcome"
where
  "buddy_get_pages_from s order cur_order =
     (if cur_order < BUDDY_MAX_ORDER then
        if 0 < nr_free s cur_order then
          rbind (get_next (FreeListHead cur_order) (links s)) (\<lambda>node.
          rbind (list_entry_page node) (\<lambda>page.
          rbind (get_page s page) (\<lambda>p.
          rbind (bug_on (allocated p \<noteq> 0)) (\<lambda>_.
          rbind (bug_on (page_order p \<noteq> int cur_order)) (\<lambda>_.
          rbind (page_list_del page s) (\<lambda>s1.
          rbind (get_page s1 page) (\<lambda>p1.
          rbind (nr_free_dec (page_order p1) s1) (\<lambda>s2.
          rbind (split_page s2 order (Some page)) (\<lambda>(s3, page).
          rbind (get_page s3 page) (\<lambda>p3.
          rbind (bug_on ((word_of_int (page_order p3) :: u64) \<noteq> order)) (\<lambda>_.
          rbind (upd_page page (\<lambda>p. p\<lparr>allocated := 1\<rparr>) s3) (\<lambda>s4.
          Inr (s4, Some page)))))))))))))
        else buddy_get_pages_from s order (Suc cur_order)
      else Inr (s, None))"
  by pat_completeness auto
termination
  by (relation "measure (\<lambda>(s, order, cur_order). BUDDY_MAX_ORDER - cur_order)") auto

declare buddy_get_pages_from.simps [simp del]

definition buddy_get_pages ::
  "'z buddy_state_scheme \<Rightarrow> u64 \<Rightarrow> ('z buddy_state_scheme \<times> nat option) outcome"
where
  "buddy_get_pages s order =
     (if BUDDY_MAX_ORDER \<le> order \<or> order < 0 then Inr (s, None)
      else buddy_get_pages_from s order (unat order))"

subsection \<open>Merging and freeing\<close>

function merge_page ::
  "'z buddy_state_scheme \<Rightarrow> nat \<Rightarrow> ('z buddy_state_scheme \<times> nat) outcome"
where
  "merge_page s page =
     rbind (get_page s page) (\<lambda>p.
     rbind (bug_on ((BUDDY_MAX_ORDER - 1 :: u64) < word_of_int (page_order p) \<or> allocated p \<noteq> 0)) (\<lambda>_.
     if (word_of_int (page_order p) :: u64) = BUDDY_MAX_ORDER - 1 then Inr (s, page)
     else
       rbind (get_buddy_chunk s page) (\<lambda>b.
       case b of
         None \<Rightarrow> Inr (s, page)
       | Some buddy \<Rightarrow>
           rbind (get_page s buddy) (\<lambda>q.
           if allocated q \<noteq> 0 \<or> page_order q < page_order p then Inr (s, page)
           else
             rbind (bug_on (page_order p < page_order q)) (\<lambda>_.
             rbind (bug_on (page_order q \<noteq> page_order p)) (\<lambda>_.
             rbind (page_list_del buddy s) (\<lambda>s1.
             rbind (nr_free_dec (page_order q) s1) (\<lambda>s2.
             let page' = (if buddy < page then buddy else page) in
             rbind (upd_page page' (\<lambda>p. p\<lparr>page_order := page_order p + 1\<rparr>) s2) (\<lambda>s3.
             merge_page s3 page'))))))))) "
  by pat_completeness auto
termination
proof (relation "measure (\<lambda>(s :: 'z buddy_state_scheme, i).
    case page_metadata s i of None \<Rightarrow> 0 | Some p \<Rightarrow> nat (14 - page_order p))", goal_cases)
  case 1
  then show ?case by simp
next
  case (2 s page p u1 b buddy q u2 u3 s1 s2 page' s3)
  have p: "page_metadata s page = Some p" and q: "page_metadata s buddy = Some q"
    and eq: "page_order q = page_order p"
    using 2 by (auto simp: get_page_def)
  have "page_metadata s2 = page_metadata s"
    using 2 by (simp add: page_list_del_frame [of buddy s s1] nr_free_dec_frame [of _ s1 s2])
  moreover have "page' = buddy \<or> page' = page" using 2 by auto
  ultimately obtain p' where "page_metadata s3 page' = Some p'" "page_order p' = page_order p + 1"
    using 2 p q eq by (auto simp: upd_page_Inr)
  moreover have "page_order p < 14"
  proof (rule ccontr)
    assume "\<not> page_order p < 14"
    moreover have "\<not> (13 :: u64) < word_of_int (page_order p)"
      using 2 by simp
    moreover have "page_order p < 52"
      using 2 p by (auto dest: get_buddy_chunk_order_less)
    ultimately show False
      using order_word_less [of 13 "page_order p"] by simp
  qed
  ultimately show ?case using p by simp
qed

declare merge_page.simps [simp del]

definition buddy_free_pages :: "'z buddy_state_scheme \<Rightarrow> nat \<Rightarrow> 'z buddy_state_scheme outcome" where
  "buddy_free_pages s page =
     rbind (get_page s page) (\<lambda>p.
     rbind (bug_on (allocated p = 0)) (\<lambda>_.
     rbind (upd_page page (\<lambda>p. p\<lparr>allocated := 0\<rparr>) s) (\<lambda>s1.
     rbind (merge_page s1 page) (\<lambda>(s2, page).
     rbind (get_page s2 page) (\<lambda>p2.
     rbind (bug_on (allocated p2 \<noteq> 0)) (\<lambda>_.
     rbind (free_list_add page (page_order p2) s2) (\<lambda>s3.
     nr_free_inc (page_order p2) s3)))))))"

subsection \<open>Initialisation and accounting\<close>

text \<open>
  \<open>memset(start_page, 0, page_num * sizeof(struct page))\<close> makes an array of \<open>page_num\<close>
  zeroed pages, whose list nodes hold null pointers.
\<close>

definition zero_page :: page where
  "zero_page = \<lparr>allocated = 0, page_order = 0, page_slab = 0, page_pool = PoolNull\<rparr>"

definition clear_page_metadata :: "nat \<Rightarrow> 'z buddy_state_scheme \<Rightarrow> 'z buddy_state_scheme" where
  "clear_page_metadata n s =
     s\<lparr>page_metadata := (\<lambda>i. if i < n then Some zero_page else None),
       links := (\<lambda>p. case p of
          PageNode i \<Rightarrow> if i < n then Some \<lparr>prev_of = NodeNull, next_of = NodeNull\<rparr> else None
        | _ \<Rightarrow> links s p)\<rparr>"

fun init_free_lists :: "nat list \<Rightarrow> 'z buddy_state_scheme \<Rightarrow> 'z buddy_state_scheme outcome" where
  "init_free_lists [] s = Inr s"
| "init_free_lists (order # os) s =
     rbind (init_list_head (FreeListHead order) (links s)) (\<lambda>l.
     init_free_lists os (s\<lparr>nr_free := (nr_free s)(order := 0), links := l\<rparr>))"

fun init_page_metadata :: "nat list \<Rightarrow> 'z buddy_state_scheme \<Rightarrow> 'z buddy_state_scheme outcome" where
  "init_page_metadata [] s = Inr s"
| "init_page_metadata (page_idx # is) s =
     rbind (upd_page page_idx (\<lambda>p. p\<lparr>allocated := 1, page_order := 0, page_pool := GlobalMem0\<rparr>) s)
       (init_page_metadata is)"

fun free_each_page :: "nat list \<Rightarrow> 'z buddy_state_scheme \<Rightarrow> 'z buddy_state_scheme outcome" where
  "free_each_page [] s = Inr s"
| "free_each_page (page_idx # is) s = rbind (buddy_free_pages s page_idx) (free_each_page is)"

text \<open>
  The index of the two last loops is an \<open>int\<close> that counts up to \<open>page_num\<close>: it overflows
  when \<open>page_num\<close> is at least \<open>2^31\<close>.
\<close>

definition init_buddy :: "'z buddy_state_scheme \<Rightarrow> u64 \<Rightarrow> u64 \<Rightarrow> u64 \<Rightarrow> 'z buddy_state_scheme outcome" where
  "init_buddy s start_page start_addr page_num =
     (let s1 = s\<lparr>pool_start_addr := start_addr,
                 page_metadata_addr := start_page,
                 pool_mem_size := page_num * BUDDY_PAGE_SIZE,
                 pool_phys_page_num := page_num\<rparr>;
          n = unat page_num
      in rbind (init_free_lists [0..<BUDDY_MAX_ORDER] s1) (\<lambda>s2.
         let s3 = clear_page_metadata n s2 in
         rbind (undef_if (2 ^ 31 \<le> n)) (\<lambda>_.
         rbind (init_page_metadata [0..<n] s3) (\<lambda>s4.
         free_each_page [0..<n] s4))))"

definition get_free_mem_size_from_buddy :: "'z buddy_state_scheme \<Rightarrow> u64" where
  "get_free_mem_size_from_buddy s =
     fold (\<lambda>order total_size. total_size + nr_free s order * (BUDDY_PAGE_SIZE * push_bit order 1))
       [0..<BUDDY_MAX_ORDER] 0"

end
