(* ===== verification/Buddy_Spec.thy ===== *)
theory Buddy_Spec
  imports Main
begin

text \<open>
  The abstract buddy allocator: what kernel/mm/buddy.c computes, without pointers. A block
  \<open>(i, ord)\<close> is the run of \<open>2^ord\<close> pages from page \<open>i\<close>; the state is the family \<open>fl\<close> of
  free lists (the free blocks of every order, in list order) and the set \<open>A\<close> of allocated
  blocks; \<open>T\<close> holds the blocks in transit, which an operation has taken off its list.
  \<open>base\<close> is the frame number of page 0 and \<open>N\<close> the number of pages. \<open>blocks_ok\<close> is the
  invariant: the blocks tile the pool and are naturally aligned in the address space.
  \<open>coalesced\<close> says that no two free buddies are left unmerged.
\<close>

subsection \<open>Blocks and tilings\<close>

fun block :: "nat \<times> nat \<Rightarrow> nat set" where
  "block (i, ord) = {i..<i + 2 ^ ord}"

definition tiles :: "nat \<Rightarrow> (nat \<times> nat) set \<Rightarrow> bool" where
  "tiles N B \<longleftrightarrow> (\<forall>b \<in> B. block b \<subseteq> {..<N}) \<and> (\<forall>k < N. \<exists>!b. b \<in> B \<and> k \<in> block b)"

lemma block_head [simp]: "i \<in> block (i, ord)"
  by simp

lemma tiles_subset: "tiles N B \<Longrightarrow> b \<in> B \<Longrightarrow> block b \<subseteq> {..<N}"
  by (simp add: tiles_def)

lemma tiles_unique: "tiles N B \<Longrightarrow> b \<in> B \<Longrightarrow> c \<in> B \<Longrightarrow> k \<in> block b \<Longrightarrow> k \<in> block c \<Longrightarrow> b = c"
  unfolding tiles_def by (metis lessThan_iff subsetD)

lemma tiles_cover: "tiles N B \<Longrightarrow> k < N \<Longrightarrow> \<exists>i ord. (i, ord) \<in> B \<and> k \<in> block (i, ord)"
  unfolding tiles_def by (metis surj_pair)

lemma tiles_within: "tiles N B \<Longrightarrow> (i, ord) \<in> B \<Longrightarrow> i + 2 ^ ord \<le> N"
proof -
  assume "tiles N B" "(i, ord) \<in> B"
  then have "{i..<i + 2 ^ ord} \<subseteq> {..<N}" using tiles_subset by fastforce
  moreover obtain d where d: "(2 :: nat) ^ ord = Suc d"
    using not0_implies_Suc power_not_zero by (metis zero_neq_numeral)
  ultimately have "i + d < N" by (metis add_Suc_right atLeastLessThan_iff le_add1 lessI lessThan_iff subsetD)
  with d show ?thesis by simp
qed

lemma tiles_head: "tiles N B \<Longrightarrow> (i, ord) \<in> B \<Longrightarrow> i < N"
proof -
  assume "tiles N B" "(i, ord) \<in> B"
  then have "i + 2 ^ ord \<le> N" by (rule tiles_within)
  moreover have "(0 :: nat) < 2 ^ ord" by simp
  ultimately show "i < N" by linarith
qed

text \<open>
  Replacing blocks by others that cover the same pages keeps a tiling: the rule behind
  splitting and merging.
\<close>

lemma tiles_replace:
  assumes t: "tiles N (B \<union> C)" and dB: "B \<inter> C = {}"
    and cov: "\<Union> (block ` D) = \<Union> (block ` C)"
    and dis: "\<And>d e k. d \<in> D \<Longrightarrow> e \<in> D \<Longrightarrow> k \<in> block d \<Longrightarrow> k \<in> block e \<Longrightarrow> d = e"
  shows "tiles N (B \<union> D)" and "B \<inter> D = {}"
proof -
  have sep: "k \<notin> block b" if "b \<in> B" "d \<in> D" "k \<in> block d" for b d k
  proof
    assume "k \<in> block b"
    from that cov obtain c where "c \<in> C" "k \<in> block c" by blast
    with \<open>k \<in> block b\<close> \<open>b \<in> B\<close> have "b = c" using tiles_unique [OF t] by blast
    with \<open>c \<in> C\<close> \<open>b \<in> B\<close> dB show False by blast
  qed
  show "B \<inter> D = {}"
  proof (rule ccontr)
    assume "B \<inter> D \<noteq> {}"
    then obtain i ord where "(i, ord) \<in> B" "(i, ord) \<in> D" by auto
    then show False using sep [of "(i, ord)" "(i, ord)" i] by simp
  qed
  show "tiles N (B \<union> D)"
    unfolding tiles_def
  proof (intro conjI ballI allI impI)
    fix b assume "b \<in> B \<union> D"
    moreover have "block d \<subseteq> {..<N}" if "d \<in> D" for d
      using that cov tiles_subset [OF t] by blast
    ultimately show "block b \<subseteq> {..<N}" using tiles_subset [OF t] by blast
  next
    fix k assume "k < N"
    then obtain b where b: "b \<in> B \<union> C" "k \<in> block b" using tiles_cover [OF t] by blast
    have "\<exists>c. c \<in> B \<union> D \<and> k \<in> block c"
      using b cov by blast
    moreover have "c = c'" if "c \<in> B \<union> D" "c' \<in> B \<union> D" "k \<in> block c" "k \<in> block c'" for c c'
      using that sep dis tiles_unique [OF t] by blast
    ultimately show "\<exists>!c. c \<in> B \<union> D \<and> k \<in> block c" by blast
  qed
qed

lemma block_halves: "block (i, ord) \<union> block (i + 2 ^ ord, ord) = block (i, Suc ord)"
  by auto

lemma halves_disjoint: "block (i, ord) \<inter> block (i + 2 ^ ord, ord) = {}"
  by auto

lemma finite_tiles:
  assumes "tiles N B"
  shows "finite B"
proof -
  have "B \<subseteq> {..<N} \<times> {..N}"
  proof (clarsimp)
    fix i ord assume b: "(i, ord) \<in> B"
    have "ord < 2 ^ ord" by (rule less_exp)
    with tiles_head [OF assms b] tiles_within [OF assms b] show "i < N \<and> ord \<le> N" by linarith
  qed
  then show ?thesis by (rule finite_subset) simp
qed

lemma tiles_card:
  assumes "tiles N B"
  shows "(\<Sum>(i, ord) \<in> B. 2 ^ ord) = N"
proof -
  have "{..<N} = (\<Union>b \<in> B. block b)"
    using assms tiles_cover [OF assms] unfolding tiles_def by blast
  then have "N = card (\<Union>b \<in> B. block b)" by (metis card_lessThan)
  also have "\<dots> = (\<Sum>b \<in> B. card (block b))"
  proof (rule card_UN_disjoint)
    show "finite B" using assms by (rule finite_tiles)
    show "\<forall>b \<in> B. finite (block b)" by auto
    show "\<forall>b \<in> B. \<forall>c \<in> B. b \<noteq> c \<longrightarrow> block b \<inter> block c = {}"
      using tiles_unique [OF assms] by blast
  qed
  also have "\<dots> = (\<Sum>(i, ord) \<in> B. 2 ^ ord)"
    by (rule sum.cong) auto
  finally show ?thesis by simp
qed

subsection \<open>Buddies\<close>

text \<open>
  The buddy of the block at page \<open>i\<close> is found by flipping bit \<open>ord\<close> of its frame number;
  it exists when that frame is in the pool.
\<close>

definition flip_frame :: "nat \<Rightarrow> nat \<Rightarrow> nat" where
  "flip_frame ord f = (if even (f div 2 ^ ord) then f + 2 ^ ord else f - 2 ^ ord)"

definition partner :: "nat \<Rightarrow> nat \<Rightarrow> nat \<Rightarrow> nat \<Rightarrow> nat option" where
  "partner base N ord i =
     (let g = flip_frame ord (base + i)
      in if base \<le> g \<and> g < base + N then Some (g - base) else None)"

lemma flip_frame_cases:
  assumes "2 ^ ord dvd f"
  obtains "even (f div 2 ^ ord)" "flip_frame ord f = f + 2 ^ ord" "2 ^ Suc ord dvd f"
  | "odd (f div 2 ^ ord)" "f = flip_frame ord f + 2 ^ ord" "2 ^ Suc ord dvd flip_frame ord f"
proof -
  obtain c where c: "f = 2 ^ ord * c" using assms by (elim dvdE)
  then have fc: "f div 2 ^ ord = c" by simp
  show thesis
  proof (cases "even c")
    case True
    then obtain d where "c = 2 * d" by (elim evenE)
    with True fc that(1) show thesis by (simp add: flip_frame_def c)
  next
    case False
    then obtain d where d: "c = 2 * d + 1" by (elim oddE)
    then have "flip_frame ord f = 2 ^ Suc ord * d" using False fc
      by (simp add: flip_frame_def c algebra_simps)
    with False fc d that(2) show thesis by (simp add: c algebra_simps)
  qed
qed

lemma flip_frame_dvd: "2 ^ ord dvd f \<Longrightarrow> 2 ^ ord dvd flip_frame ord f"
  by (auto simp: flip_frame_def intro: dvd_add dvd_diff_nat)

lemma flip_frame_flip:
  assumes "2 ^ ord dvd f"
  shows "flip_frame ord (flip_frame ord f) = f"
  using assms
proof (cases rule: flip_frame_cases)
  case 1
  then have "odd (flip_frame ord f div 2 ^ ord)"
    using div_add_self2 [of "2 ^ ord" f] by simp
  with 1 show ?thesis unfolding flip_frame_def [of ord "flip_frame ord f"] by simp
next
  case 2
  from 2(3) obtain d where "flip_frame ord f = 2 ^ Suc ord * d" by (elim dvdE)
  then have "even (flip_frame ord f div 2 ^ ord)" by simp
  with 2 show ?thesis unfolding flip_frame_def [of ord "flip_frame ord f"] by simp
qed

lemma flip_frame_same_parent:
  assumes "2 ^ ord dvd f" "ord < k"
  shows "flip_frame ord f div 2 ^ k = f div 2 ^ k"
proof -
  have *: "(2 ^ Suc ord * d + 2 ^ ord) div 2 ^ k = 2 ^ Suc ord * d div 2 ^ k" for d :: nat
  proof -
    obtain j where k: "k = Suc ord + j" using assms(2) less_iff_Suc_add by auto
    have "(2 ^ Suc ord * d + 2 ^ ord) div 2 ^ Suc ord = d" by simp
    then show ?thesis
      unfolding k power_add div_mult2_eq by (simp del: power_Suc)
  qed
  from assms(1) show ?thesis
  proof (cases rule: flip_frame_cases)
    case 1
    then obtain d where "f = 2 ^ Suc ord * d" by (elim dvdE)
    with 1 * show ?thesis by metis
  next
    case 2
    then obtain d where "flip_frame ord f = 2 ^ Suc ord * d" by (elim dvdE)
    with 2 * show ?thesis by metis
  qed
qed

lemma partner_Some:
  "partner base N ord i = Some j \<longleftrightarrow> flip_frame ord (base + i) = base + j \<and> j < N"
  unfolding partner_def Let_def by (auto split: if_splits)

lemma partner_sym:
  "2 ^ ord dvd base + i \<Longrightarrow> i < N \<Longrightarrow> partner base N ord i = Some j \<Longrightarrow>
   partner base N ord j = Some i \<and> 2 ^ ord dvd base + j"
  by (metis flip_frame_dvd flip_frame_flip partner_Some)

subsection \<open>The invariant\<close>

definition free_blocks :: "(nat \<Rightarrow> nat list) \<Rightarrow> (nat \<times> nat) set" where
  "free_blocks fl = {(i, ord). i \<in> set (fl ord)}"

definition blocks_ok ::
  "nat \<Rightarrow> nat \<Rightarrow> (nat \<Rightarrow> nat list) \<Rightarrow> (nat \<times> nat) set \<Rightarrow> (nat \<times> nat) set \<Rightarrow> bool"
where
  "blocks_ok base N fl A T \<longleftrightarrow>
     tiles N (free_blocks fl \<union> A \<union> T) \<and>
     free_blocks fl \<inter> A = {} \<and> free_blocks fl \<inter> T = {} \<and> A \<inter> T = {} \<and>
     (\<forall>(i, ord) \<in> free_blocks fl \<union> A \<union> T. ord < 14 \<and> 2 ^ ord dvd base + i) \<and>
     (\<forall>ord. distinct (fl ord))"

definition coalesced :: "nat \<Rightarrow> nat \<Rightarrow> (nat \<Rightarrow> nat list) \<Rightarrow> bool" where
  "coalesced base N fl \<longleftrightarrow>
     (\<forall>i ord j. i \<in> set (fl ord) \<longrightarrow> ord < 13 \<longrightarrow> partner base N ord i = Some j \<longrightarrow> j \<notin> set (fl ord))"

lemma free_blocks_Cons: "free_blocks (fl(k := i # fl k)) = insert (i, k) (free_blocks fl)"
  by (auto simp: free_blocks_def split: if_splits)

lemma free_blocks_remove1:
  "distinct (fl k) \<Longrightarrow> free_blocks (fl(k := remove1 i (fl k))) = free_blocks fl - {(i, k)}"
  by (auto simp: free_blocks_def split: if_splits)

lemma blocks_ok_tiles: "blocks_ok base N fl A T \<Longrightarrow> tiles N (free_blocks fl \<union> A \<union> T)"
  by (simp add: blocks_ok_def)

lemma blocks_ok_block:
  assumes "blocks_ok base N fl A T" "(i, ord) \<in> free_blocks fl \<union> A \<union> T"
  shows "ord < 14" "2 ^ ord dvd base + i" "i < N" "i + 2 ^ ord \<le> N"
proof -
  show "ord < 14" "2 ^ ord dvd base + i"
    using assms unfolding blocks_ok_def by blast+
  show "i < N" "i + 2 ^ ord \<le> N"
    using assms by (auto intro: tiles_head tiles_within dest: blocks_ok_tiles)
qed

text \<open>
  The buddy of a block of order \<open>ord\<close> is itself the first page of a block, of order at
  most \<open>ord\<close>: so the metadata of the buddy page, which \<open>merge_page\<close> reads, is current.
\<close>

lemma partner_is_head:
  assumes ok: "blocks_ok base N fl A T" and b: "(i, ord) \<in> free_blocks fl \<union> A \<union> T"
    and p: "partner base N ord i = Some j"
  obtains k where "k \<le> ord" "(j, k) \<in> free_blocks fl \<union> A \<union> T"
proof -
  from p have j: "base + j = flip_frame ord (base + i)" "j < N"
    by (auto simp: partner_Some)
  obtain h k where hk: "(h, k) \<in> free_blocks fl \<union> A \<union> T" "j \<in> block (h, k)"
    using tiles_cover [OF blocks_ok_tiles [OF ok] j(2)] by blast
  note di = blocks_ok_block(2) [OF ok b] and dh = blocks_ok_block(2) [OF ok hk(1)]
  from dh obtain c where c: "base + h = 2 ^ k * c" by (elim dvdE)
  have jh: "(base + j) div 2 ^ k = c"
  proof -
    have "base + j = 2 ^ k * c + (j - h)" "j - h < 2 ^ k"
      using hk(2) c by auto
    then show ?thesis by simp
  qed
  have "k \<le> ord"
  proof (rule ccontr)
    assume "\<not> k \<le> ord"
    then have "(base + i) div 2 ^ k = c"
      using jh j(1) flip_frame_same_parent [OF di, of k] by simp
    then have "2 ^ k * c \<le> base + i" "base + i < 2 ^ k * c + 2 ^ k"
      by (auto simp: div_nat_eqI dividend_less_div_times)
        (metis add.commute dividend_less_times_div mult.commute zero_less_numeral zero_less_power)
    then have "i \<in> block (h, k)" using c by auto
    then have "(h, k) = (i, ord)"
      using tiles_unique [OF blocks_ok_tiles [OF ok] hk(1) b] block_head by blast
    with \<open>\<not> k \<le> ord\<close> show False by simp
  qed
  moreover have "h = j"
  proof -
    have "2 ^ k dvd base + j"
      using flip_frame_dvd [OF di] j(1) \<open>k \<le> ord\<close> by (metis le_imp_power_dvd dvd_trans)
    then have "base + j = 2 ^ k * c" using jh by auto
    with c show ?thesis by simp
  qed
  ultimately show thesis using that hk(1) by blast
qed

subsection \<open>Splitting\<close>

fun split_lists :: "nat \<Rightarrow> nat \<Rightarrow> nat \<Rightarrow> (nat \<Rightarrow> nat list) \<Rightarrow> (nat \<Rightarrow> nat list)" where
  "split_lists i ord 0 fl = fl"
| "split_lists i ord (Suc k) fl =
     (if Suc k \<le> ord then fl else split_lists i ord k (fl(k := (i + 2 ^ k) # fl k)))"

lemma split_step_ok:
  assumes ok: "blocks_ok base N fl A {(i, Suc k)}"
  shows "blocks_ok base N (fl(k := (i + 2 ^ k) # fl k)) A {(i, k)}"
proof -
  let ?B = "free_blocks fl \<union> A"
  have d: "?B \<inter> {(i, Suc k)} = {}" "free_blocks fl \<inter> A = {}"
    using ok by (auto simp: blocks_ok_def)
  have U: "\<Union> (block ` {(i, k), (i + 2 ^ k, k)}) = \<Union> (block ` {(i, Suc k)})"
    using block_halves [of i k] by simp
  have D: "d = e" if "d \<in> {(i, k), (i + 2 ^ k, k)}" "e \<in> {(i, k), (i + 2 ^ k, k)}"
    "x \<in> block d" "x \<in> block e" for d e x
    using that by auto
  have t: "tiles N (?B \<union> {(i, k), (i + 2 ^ k, k)})" "?B \<inter> {(i, k), (i + 2 ^ k, k)} = {}"
    using tiles_replace [OF blocks_ok_tiles [OF ok] d(1) U D] by auto
  have "2 ^ Suc k dvd base + i" "Suc k < 14"
    using blocks_ok_block [OF ok, of i "Suc k"] by auto
  then have "2 ^ k dvd base + i" "2 ^ k dvd base + (i + 2 ^ k)" "k < 14"
    by (auto simp: dvd_mult_right add.assoc [symmetric] intro: dvd_add)
  moreover have "i + 2 ^ k \<notin> set (fl k)"
    using t(2) by (auto simp: free_blocks_def)
  moreover have "?B \<union> {(i, k), (i + 2 ^ k, k)} = insert (i + 2 ^ k, k) (free_blocks fl) \<union> A \<union> {(i, k)}"
    by auto
  ultimately show ?thesis
    using t d ok unfolding blocks_ok_def free_blocks_Cons by auto
qed

lemma split_lists_ok:
  "blocks_ok base N fl A {(i, k)} \<Longrightarrow> ord \<le> k \<Longrightarrow>
   blocks_ok base N (split_lists i ord k fl) A {(i, ord)}"
proof (induction k arbitrary: fl)
  case 0
  then show ?case by simp
next
  case (Suc k)
  show ?case
  proof (cases "Suc k \<le> ord")
    case True
    then have "ord = Suc k" using Suc.prems(2) by simp
    then show ?thesis using Suc.prems(1) by simp
  next
    case False
    then have "blocks_ok base N (split_lists i ord k (fl(k := (i + 2 ^ k) # fl k))) A {(i, ord)}"
      by (intro Suc.IH split_step_ok Suc.prems) simp
    with False show ?thesis by simp
  qed
qed

text \<open>The buddy of the upper half that is put on a free list stays in transit.\<close>

lemma split_step_coalesced:
  assumes ok: "blocks_ok base N fl A {(i, Suc k)}" and co: "coalesced base N fl"
  shows "coalesced base N (fl(k := (i + 2 ^ k) # fl k))"
proof -
  have ok': "blocks_ok base N (fl(k := (i + 2 ^ k) # fl k)) A {(i, k)}"
    using ok by (rule split_step_ok)
  have i: "2 ^ Suc k dvd base + i" "i < N" "2 ^ k dvd base + i"
    using blocks_ok_block [OF ok, of i "Suc k"] blocks_ok_block [OF ok', of i k] by auto
  have "i \<notin> set (fl k)" "i \<noteq> i + 2 ^ k"
    using ok' by (auto simp: blocks_ok_def free_blocks_def)
  moreover have pu: "partner base N k (i + 2 ^ k) = Some i"
  proof -
    obtain d where "base + i = 2 ^ Suc k * d" using i(1) by (elim dvdE)
    then have "even ((base + i) div 2 ^ k)" by simp
    then have "flip_frame k (base + i) = base + (i + 2 ^ k)" by (simp add: flip_frame_def)
    with flip_frame_flip [OF i(3)] i(2) show ?thesis by (simp add: partner_Some)
  qed
  ultimately have up: "j \<notin> set ((i + 2 ^ k) # fl k)" if "partner base N k (i + 2 ^ k) = Some j" for j
    using that by auto
  have dn: "j \<noteq> i + 2 ^ k" if "x \<in> set (fl k)" "partner base N k x = Some j" for x j
  proof
    assume "j = i + 2 ^ k"
    moreover have "(x, k) \<in> free_blocks fl" using that by (simp add: free_blocks_def)
    ultimately have "partner base N k (i + 2 ^ k) = Some x"
      using partner_sym [of k base x N j] that blocks_ok_block [OF ok, of x k] by auto
    with pu \<open>i \<notin> set (fl k)\<close> that show False by simp
  qed
  show ?thesis
    unfolding coalesced_def
  proof (intro allI impI)
    fix x ord j
    assume "x \<in> set ((fl(k := (i + 2 ^ k) # fl k)) ord)" "ord < 13" "partner base N ord x = Some j"
    then show "j \<notin> set ((fl(k := (i + 2 ^ k) # fl k)) ord)"
      using co up unfolding coalesced_def by (cases "ord = k") (auto dest: dn)
  qed
qed

lemma split_lists_coalesced:
  "blocks_ok base N fl A {(i, k)} \<Longrightarrow> coalesced base N fl \<Longrightarrow>
   coalesced base N (split_lists i ord k fl)"
  by (induction k arbitrary: fl) (simp_all add: split_step_ok split_step_coalesced)

subsection \<open>Merging\<close>

function merge_lists ::
  "nat \<Rightarrow> nat \<Rightarrow> (nat \<Rightarrow> nat list) \<Rightarrow> nat \<Rightarrow> nat \<Rightarrow> (nat \<Rightarrow> nat list) \<times> nat \<times> nat"
where
  "merge_lists base N fl i ord =
     (if ord < 13 then
        case partner base N ord i of
          None \<Rightarrow> (fl, i, ord)
        | Some j \<Rightarrow>
            if j \<in> set (fl ord)
            then merge_lists base N (fl(ord := remove1 j (fl ord))) (min i j) (Suc ord)
            else (fl, i, ord)
      else (fl, i, ord))"
  by pat_completeness auto
termination
  by (relation "measure (\<lambda>(base, N, fl, i, ord). 13 - ord)") auto

declare merge_lists.simps [simp del]

lemma buddy_pair:
  assumes "2 ^ ord dvd base + i" "partner base N ord i = Some j"
  shows "block (i, ord) \<union> block (j, ord) = block (min i j, Suc ord)"
    and "2 ^ Suc ord dvd base + min i j"
    and "block (i, ord) \<inter> block (j, ord) = {}"
proof -
  have j: "flip_frame ord (base + i) = base + j"
    using assms(2) by (simp add: partner_Some)
  have "j = i + 2 ^ ord \<and> 2 ^ Suc ord dvd base + i \<or> i = j + 2 ^ ord \<and> 2 ^ Suc ord dvd base + j"
    using assms(1) by (cases rule: flip_frame_cases) (use j in auto)
  then show "block (i, ord) \<union> block (j, ord) = block (min i j, Suc ord)"
    and "2 ^ Suc ord dvd base + min i j"
    and "block (i, ord) \<inter> block (j, ord) = {}"
    by (auto simp: min_def)
qed

lemma merge_step_ok:
  assumes ok: "blocks_ok base N fl A {(i, ord)}" and ord: "ord < 13"
    and p: "partner base N ord i = Some j" and j: "j \<in> set (fl ord)"
  shows "blocks_ok base N (fl(ord := remove1 j (fl ord))) A {(min i j, Suc ord)}"
proof -
  let ?fl = "fl(ord := remove1 j (fl ord))"
  have fb: "free_blocks ?fl = free_blocks fl - {(j, ord)}"
    using ok by (intro free_blocks_remove1) (auto simp: blocks_ok_def)
  let ?B = "free_blocks ?fl \<union> A" and ?C = "{(i, ord), (j, ord)}"
  have jf: "(j, ord) \<in> free_blocks fl" using j by (simp add: free_blocks_def)
  have dis: "free_blocks fl \<inter> A = {}" "(i, ord) \<notin> free_blocks fl" "(i, ord) \<notin> A"
    using ok by (auto simp: blocks_ok_def)
  have un: "free_blocks fl \<union> A \<union> {(i, ord)} = ?B \<union> ?C" using fb jf by auto
  have d: "?B \<inter> ?C = {}" using fb dis jf by auto
  have di: "2 ^ ord dvd base + i" using blocks_ok_block(2) [OF ok, of i ord] by simp
  note pair = buddy_pair [OF di p]
  have t: "tiles N (?B \<union> {(min i j, Suc ord)})" "?B \<inter> {(min i j, Suc ord)} = {}"
    using tiles_replace [of N ?B ?C "{(min i j, Suc ord)}"] blocks_ok_tiles [OF ok] d pair(1)
    unfolding un by auto
  then show ?thesis
    using ok ord pair(2) dis(1) unfolding blocks_ok_def fb by auto
qed

lemma coalesced_remove1: "coalesced base N fl \<Longrightarrow> coalesced base N (fl(k := remove1 j (fl k)))"
  unfolding coalesced_def by (auto dest: notin_set_remove1 split: if_splits)

text \<open>
  The result of merging: a block in transit whose buddy is not free (or that has no buddy),
  covering the block it started from.
\<close>

lemma merge_lists_ok:
  assumes "blocks_ok base N fl A {(i, ord)}" "merge_lists base N fl i ord = (fl', i', ord')"
  shows "blocks_ok base N fl' A {(i', ord')} \<and> ord \<le> ord' \<and>
    (ord' < 13 \<longrightarrow> (\<forall>j. partner base N ord' i' = Some j \<longrightarrow> j \<notin> set (fl' ord')))"
  using assms
proof (induction base N fl i ord rule: merge_lists.induct)
  case (1 base N fl i ord)
  show ?case
  proof (cases "\<exists>j. ord < 13 \<and> partner base N ord i = Some j \<and> j \<in> set (fl ord)")
    case True
    then obtain j where j: "ord < 13" "partner base N ord i = Some j" "j \<in> set (fl ord)" by blast
    have "merge_lists base N (fl(ord := remove1 j (fl ord))) (min i j) (Suc ord) = (fl', i', ord')"
      using "1.prems"(2) j by (simp add: merge_lists.simps [of base N fl i ord])
    from "1.IH" [OF j(1,2,3) merge_step_ok [OF "1.prems"(1) j] this] show ?thesis by simp
  next
    case False
    then have "fl' = fl \<and> i' = i \<and> ord' = ord"
      using "1.prems"(2) by (auto simp: merge_lists.simps [of base N fl i ord] split: if_splits option.splits)
    with False "1.prems"(1) show ?thesis by auto
  qed
qed

lemma merge_lists_coalesced:
  "coalesced base N fl \<Longrightarrow> coalesced base N (fst (merge_lists base N fl i ord))"
proof (induction base N fl i ord rule: merge_lists.induct)
  case (1 base N fl i ord)
  show ?case
  proof (cases "\<exists>j. ord < 13 \<and> partner base N ord i = Some j \<and> j \<in> set (fl ord)")
    case True
    then obtain j where j: "ord < 13" "partner base N ord i = Some j" "j \<in> set (fl ord)" by blast
    with "1.IH" [OF j] "1.prems" show ?thesis
      by (simp only: merge_lists.simps [of base N fl i ord] coalesced_remove1 if_True option.simps)
  next
    case False
    with "1.prems" show ?thesis
      by (auto simp: merge_lists.simps [of base N fl i ord] split: option.split)
  qed
qed

subsection \<open>Allocating and freeing\<close>

definition alloc_order :: "(nat \<Rightarrow> nat list) \<Rightarrow> nat \<Rightarrow> nat option" where
  "alloc_order fl ord = find (\<lambda>k. fl k \<noteq> []) [ord..<14]"

definition spec_get :: "(nat \<Rightarrow> nat list) \<Rightarrow> nat \<Rightarrow> ((nat \<Rightarrow> nat list) \<times> nat) option" where
  "spec_get fl ord =
     (case alloc_order fl ord of
        None \<Rightarrow> None
      | Some k \<Rightarrow> Some (split_lists (hd (fl k)) ord k (fl(k := tl (fl k))), hd (fl k)))"

definition spec_free ::
  "nat \<Rightarrow> nat \<Rightarrow> (nat \<Rightarrow> nat list) \<Rightarrow> nat \<Rightarrow> nat \<Rightarrow> (nat \<Rightarrow> nat list)"
where
  "spec_free base N fl i ord =
     (case merge_lists base N fl i ord of (fl', i', ord') \<Rightarrow> fl'(ord' := i' # fl' ord'))"

lemma alloc_order_Some:
  "alloc_order fl ord = Some k \<Longrightarrow> ord \<le> k \<and> k < 14 \<and> fl k \<noteq> []"
  by (auto simp: alloc_order_def find_Some_iff)

lemma alloc_order_None: "alloc_order fl ord = None \<longleftrightarrow> (\<forall>k. ord \<le> k \<longrightarrow> k < 14 \<longrightarrow> fl k = [])"
  by (auto simp: alloc_order_def find_None_iff)

lemma blocks_ok_take:
  assumes ok: "blocks_ok base N fl A {}" and k: "fl k = i # js"
  shows "blocks_ok base N (fl(k := js)) A {(i, k)}"
proof -
  have d: "distinct (fl k)" using ok by (auto simp: blocks_ok_def)
  have "js = remove1 i (fl k)" using k by simp
  then have fb: "free_blocks (fl(k := js)) = free_blocks fl - {(i, k)}"
    using free_blocks_remove1 [of fl k i] d by simp
  have i: "(i, k) \<in> free_blocks fl" using k by (simp add: free_blocks_def)
  have un: "free_blocks fl - {(i, k)} \<union> A \<union> {(i, k)} = free_blocks fl \<union> A \<union> {}"
    using i by auto
  show ?thesis
    using ok i k d unfolding blocks_ok_def fb un by auto
qed

lemma blocks_ok_put:
  assumes "blocks_ok base N fl A {(i, k)}"
  shows "blocks_ok base N (fl(k := i # fl k)) A {}"
proof -
  have un: "insert (i, k) (free_blocks fl) \<union> A \<union> {} = free_blocks fl \<union> A \<union> {(i, k)}" by auto
  show ?thesis
    using assms unfolding blocks_ok_def free_blocks_Cons un by (auto simp: free_blocks_def)
qed

lemma blocks_ok_give:
  "blocks_ok base N fl A {b} \<Longrightarrow> blocks_ok base N fl (insert b A) {} \<and> b \<notin> A"
  unfolding blocks_ok_def by auto

lemma blocks_ok_return:
  assumes "blocks_ok base N fl A {}" "b \<in> A"
  shows "blocks_ok base N fl (A - {b}) {b}"
proof -
  have un: "free_blocks fl \<union> (A - {b}) \<union> {b} = free_blocks fl \<union> A \<union> {}" using assms(2) by auto
  show ?thesis using assms unfolding blocks_ok_def un by auto
qed

lemma spec_get_Some:
  assumes "spec_get fl ord = Some (fl', i)"
  obtains k js where "alloc_order fl ord = Some k" "ord \<le> k" "k < 14" "fl k = i # js"
    "fl' = split_lists i ord k (fl(k := js))"
proof (cases "alloc_order fl ord")
  case None
  then show thesis using assms by (simp add: spec_get_def)
next
  case (Some k)
  note ko = alloc_order_Some [OF Some]
  then obtain j js where js: "fl k = j # js" by (cases "fl k") auto
  with assms Some have "i = j" "fl' = split_lists j ord k (fl(k := js))"
    by (auto simp: spec_get_def)
  with Some ko js show thesis by (intro that) simp_all
qed

lemma spec_get_ok:
  assumes "blocks_ok base N fl A {}" "spec_get fl ord = Some (fl', i)"
  shows "blocks_ok base N fl' (insert (i, ord) A) {} \<and> (i, ord) \<notin> A"
proof -
  from assms(2) obtain k js where k: "ord \<le> k" "fl k = i # js"
    "fl' = split_lists i ord k (fl(k := js))"
    by (rule spec_get_Some)
  have "blocks_ok base N fl' A {(i, ord)}"
    unfolding k(3) by (rule split_lists_ok [OF blocks_ok_take [OF assms(1) k(2)] k(1)])
  then show ?thesis by (rule blocks_ok_give)
qed

lemma spec_free_ok:
  assumes "blocks_ok base N fl A {}" "(i, ord) \<in> A"
  shows "blocks_ok base N (spec_free base N fl i ord) (A - {(i, ord)}) {}"
proof -
  obtain fl' i' ord' where m: "merge_lists base N fl i ord = (fl', i', ord')"
    by (metis prod_cases3)
  then show ?thesis
    using merge_lists_ok [OF blocks_ok_return [OF assms] m] blocks_ok_put
    by (simp add: spec_free_def)
qed

text \<open>Freeing leaves no two free buddies, and allocating keeps it so.\<close>

lemma spec_get_coalesced:
  assumes "blocks_ok base N fl A {}" "coalesced base N fl" "spec_get fl ord = Some (fl', i)"
  shows "coalesced base N fl'"
proof -
  from assms(3) obtain k js where k: "ord \<le> k" "fl k = i # js"
    "fl' = split_lists i ord k (fl(k := js))"
    by (rule spec_get_Some)
  have "coalesced base N (fl(k := js))"
    using coalesced_remove1 [OF assms(2), of k i] k(2) by simp
  then show ?thesis
    unfolding k(3) by (rule split_lists_coalesced [OF blocks_ok_take [OF assms(1) k(2)]])
qed

lemma spec_free_coalesced:
  assumes ok: "blocks_ok base N fl A {}" "(i, ord) \<in> A" and co: "coalesced base N fl"
  shows "coalesced base N (spec_free base N fl i ord)"
proof -
  obtain fl' i' ord' where m: "merge_lists base N fl i ord = (fl', i', ord')"
    by (metis prod_cases3)
  have mk: "blocks_ok base N fl' (A - {(i, ord)}) {(i', ord')}"
    "\<And>j. ord' < 13 \<Longrightarrow> partner base N ord' i' = Some j \<Longrightarrow> j \<notin> set (fl' ord')"
    using merge_lists_ok [OF blocks_ok_return [OF ok] m] by auto
  have co': "coalesced base N fl'" using merge_lists_coalesced [OF co, of i ord] m by simp
  have al: "2 ^ ord' dvd base + i'" "i' < N"
    using blocks_ok_block [OF mk(1), of i' ord'] by auto
  have no_self: "partner base N ord' i' \<noteq> Some i'"
    using al(1) by (cases rule: flip_frame_cases) (auto simp: partner_Some)
  have other: "j \<noteq> i'" if "x \<in> set (fl' ord')" "partner base N ord' x = Some j" "ord' < 13" for x j
  proof
    assume "j = i'"
    moreover have "(x, ord') \<in> free_blocks fl'" using that by (simp add: free_blocks_def)
    ultimately have "partner base N ord' i' = Some x"
      using partner_sym [of ord' base x N j] that blocks_ok_block [OF mk(1), of x ord'] by auto
    with mk(2) that show False by blast
  qed
  show ?thesis
    unfolding spec_free_def m coalesced_def
  proof (intro allI impI, unfold prod.case)
    fix x o' j
    assume "x \<in> set ((fl'(ord' := i' # fl' ord')) o')" "o' < 13" "partner base N o' x = Some j"
    then show "j \<notin> set ((fl'(ord' := i' # fl' ord')) o')"
      using co' mk(2) no_self unfolding coalesced_def
      by (cases "o' = ord'") (auto dest: other)
  qed
qed

subsection \<open>Availability and accounting\<close>

text \<open>
  In a coalesced state every naturally aligned run of unallocated pages lies inside one
  free block: memory is never lost to fragmentation beyond what the allocated blocks
  themselves cause.
\<close>

definition run_free :: "nat \<Rightarrow> nat \<Rightarrow> (nat \<times> nat) set \<Rightarrow> nat \<Rightarrow> nat \<Rightarrow> bool" where
  "run_free base N A i ord \<longleftrightarrow>
     2 ^ ord dvd base + i \<and> i + 2 ^ ord \<le> N \<and> (\<forall>b \<in> A. block b \<inter> block (i, ord) = {})"

lemma run_free_half:
  assumes "run_free base N A i (Suc ord)"
  shows "run_free base N A i ord" "run_free base N A (i + 2 ^ ord) ord"
    "flip_frame ord (base + i) = base + (i + 2 ^ ord)"
proof -
  have dv: "2 ^ Suc ord dvd base + i" using assms by (simp add: run_free_def)
  then obtain c where c: "base + i = 2 ^ Suc ord * c" by (elim dvdE)
  then have d: "2 ^ ord dvd base + i" by simp
  then have "2 ^ ord dvd base + (i + 2 ^ ord)" by (simp add: add.assoc [symmetric])
  with d show "run_free base N A i ord" "run_free base N A (i + 2 ^ ord) ord"
    using assms block_halves [of i ord] unfolding run_free_def by auto
  have "even ((base + i) div 2 ^ ord)" using c by simp
  then show "flip_frame ord (base + i) = base + (i + 2 ^ ord)" by (simp add: flip_frame_def)
qed

lemma aligned_block_subset:
  assumes "2 ^ k dvd base + h" "2 ^ ord dvd base + i" "ord \<le> k" "h \<le> i" "i < h + 2 ^ k"
  shows "block (i, ord) \<subseteq> block (h, k)"
proof -
  obtain j where k: "k = ord + j" using assms(3) le_Suc_ex by blast
  obtain c d where c: "base + h = 2 ^ k * c" and d: "base + i = 2 ^ ord * d"
    using assms(1,2) by (elim dvdE)
  have "2 ^ ord * d < 2 ^ ord * (2 ^ j * c + 2 ^ j)"
    using assms(5) c d by (simp add: k power_add algebra_simps)
  then have "d < 2 ^ j * c + 2 ^ j" by simp
  then have "2 ^ ord * Suc d \<le> 2 ^ ord * (2 ^ j * c + 2 ^ j)" by (intro mult_le_mono2) simp
  then have "i + 2 ^ ord \<le> h + 2 ^ k"
    using c d by (simp add: k power_add algebra_simps)
  with assms(4) show ?thesis by auto
qed

lemma aligned_le: "(m :: nat) dvd a \<Longrightarrow> m dvd b \<Longrightarrow> a < b + m \<Longrightarrow> a \<le> b"
proof -
  assume "m dvd a" "m dvd b" "a < b + m"
  then obtain c d where "a = m * c" "b = m * d" "m * c < m * Suc d"
    by (auto elim!: dvdE)
  then show "a \<le> b" by (simp only: mult_less_cancel1 less_Suc_eq_le mult_le_mono2)
qed

lemma run_free_in_block:
  assumes ok: "blocks_ok base N fl A {}" and co: "coalesced base N fl"
  shows "run_free base N A i ord \<Longrightarrow> ord < 14 \<Longrightarrow>
    \<exists>h k. h \<in> set (fl k) \<and> ord \<le> k \<and> block (i, ord) \<subseteq> block (h, k)"
proof (induction ord arbitrary: i)
  case 0
  then have i: "i < N" "\<And>b. b \<in> A \<Longrightarrow> i \<notin> block b" by (auto simp: run_free_def)
  then obtain h k where "(h, k) \<in> free_blocks fl" "i \<in> block (h, k)"
    using tiles_cover [OF blocks_ok_tiles [OF ok] i(1)] by blast
  then show ?case by (intro exI [of _ h] exI [of _ k]) (auto simp: free_blocks_def)
next
  case (Suc ord)
  note half = run_free_half [OF Suc.prems(1)]
  obtain h k where hk: "h \<in> set (fl k)" "ord \<le> k" "block (i, ord) \<subseteq> block (h, k)"
    using Suc.IH [OF half(1)] Suc.prems(2) by auto
  obtain h' k' where hk': "h' \<in> set (fl k')" "ord \<le> k'" "block (i + 2 ^ ord, ord) \<subseteq> block (h', k')"
    using Suc.IH [OF half(2)] Suc.prems(2) by auto
  have fb: "(h, k) \<in> free_blocks fl" "(h', k') \<in> free_blocks fl"
    using hk(1) hk'(1) by (auto simp: free_blocks_def)
  have al: "2 ^ k dvd base + h" "2 ^ k' dvd base + h'" "2 ^ Suc ord dvd base + i"
    using blocks_ok_block(2) [OF ok] fb Suc.prems(1) by (auto simp: run_free_def)
  have ins: "i \<in> block (h, k)" "i + 2 ^ ord \<in> block (h', k')"
    using hk(3) hk'(3) block_head by blast+
  consider "Suc ord \<le> k" | "k = ord" "Suc ord \<le> k'" | "k = ord" "k' = ord"
    using hk(2) hk'(2) by linarith
  then show ?case
  proof cases
    case 1
    have "block (i, Suc ord) \<subseteq> block (h, k)"
      using ins(1) by (intro aligned_block_subset [OF al(1,3) 1]) auto
    with 1 hk(1) show ?thesis by blast
  next
    case 2
    have "2 ^ Suc ord dvd base + h'"
      using al(2) 2(2) by (meson le_imp_power_dvd dvd_trans)
    then have "base + h' \<le> base + i"
    proof (rule aligned_le [OF _ al(3)])
      have "(0 :: nat) < 2 ^ ord" by simp
      then show "base + h' < base + i + 2 ^ Suc ord" using ins(2) by (simp, linarith)
    qed
    then have "block (i, Suc ord) \<subseteq> block (h', k')"
      using ins(2) by (intro aligned_block_subset [OF al(2,3) 2(2)]) auto
    with 2 hk'(1) show ?thesis by blast
  next
    case 3
    have d: "2 ^ ord dvd base + i" "2 ^ ord dvd base + (i + 2 ^ ord)"
      using half(1,2) by (simp_all add: run_free_def)
    have "base + i \<le> base + h" "base + (i + 2 ^ ord) \<le> base + h'"
      using ins al(1,2) 3 by (intro aligned_le [OF d(1)] aligned_le [OF d(2)]; simp)+
    then have "h = i" "h' = i + 2 ^ ord" using ins by auto
    moreover have "i + 2 ^ ord < N"
    proof -
      have "(0 :: nat) < 2 ^ ord" "i + 2 * 2 ^ ord \<le> N" using Suc.prems(1) by (auto simp: run_free_def)
      then show ?thesis by linarith
    qed
    ultimately have "partner base N ord h = Some h'" using half(3) by (simp add: partner_Some)
    with co hk(1) hk'(1) 3 Suc.prems(2) show ?thesis
      unfolding coalesced_def by auto
  qed
qed

lemma spec_get_complete:
  assumes ok: "blocks_ok base N fl A {}" and co: "coalesced base N fl" and ord: "ord < 14"
  shows "spec_get fl ord = None \<longleftrightarrow> \<not> (\<exists>i. run_free base N A i ord)"
proof
  assume none: "spec_get fl ord = None"
  show "\<not> (\<exists>i. run_free base N A i ord)"
  proof
    assume "\<exists>i. run_free base N A i ord"
    then obtain h k where hk: "h \<in> set (fl k)" "ord \<le> k"
      using run_free_in_block [OF ok co _ ord] by blast
    moreover have "k < 14" using hk(1) blocks_ok_block(1) [OF ok, of h k] by (auto simp: free_blocks_def)
    moreover have "alloc_order fl ord = None" using none by (simp add: spec_get_def split: option.splits)
    ultimately show False by (auto simp: alloc_order_None)
  qed
next
  assume no: "\<not> (\<exists>i. run_free base N A i ord)"
  show "spec_get fl ord = None"
  proof (rule ccontr)
    assume "spec_get fl ord \<noteq> None"
    then obtain fl' i where g: "spec_get fl ord = Some (fl', i)" by auto
    note ok' = spec_get_ok [OF ok g]
    then have b: "(i, ord) \<in> free_blocks fl' \<union> insert (i, ord) A \<union> {}" by simp
    have "block c \<inter> block (i, ord) = {}" if "c \<in> A" for c
    proof (rule ccontr)
      assume "block c \<inter> block (i, ord) \<noteq> {}"
      then obtain x where "x \<in> block c" "x \<in> block (i, ord)" by blast
      then have "c = (i, ord)"
        using tiles_unique [OF blocks_ok_tiles [OF conjunct1 [OF ok']], of c "(i, ord)"] that by blast
      with ok' that show False by blast
    qed
    then have "run_free base N A i ord"
      using blocks_ok_block [OF conjunct1 [OF ok'] b] by (simp add: run_free_def)
    with no show False by blast
  qed
qed

text \<open>Free and allocated pages add up to the pool.\<close>

lemma blocks_ok_count:
  assumes ok: "blocks_ok base N fl A {}"
  shows "(\<Sum>k < 14. length (fl k) * 2 ^ k) + (\<Sum>(i, ord) \<in> A. 2 ^ ord) = N"
proof -
  let ?F = "free_blocks fl"
  have fin: "finite ?F" "finite A"
    using finite_tiles [OF blocks_ok_tiles [OF ok]] by simp_all
  have F: "?F = (\<Union>k < 14. (\<lambda>i. (i, k)) ` set (fl k))"
    using blocks_ok_block(1) [OF ok] by (auto simp: free_blocks_def)
  have "(\<Sum>(i, ord) \<in> ?F. (2 :: nat) ^ ord) = (\<Sum>k < 14. \<Sum>(i, ord) \<in> (\<lambda>i. (i, k)) ` set (fl k). 2 ^ ord)"
    unfolding F by (rule sum.UNION_disjoint) auto
  also have "\<dots> = (\<Sum>k < 14. length (fl k) * 2 ^ k)"
  proof (rule sum.cong [OF refl])
    fix k :: nat
    have "distinct (fl k)" using ok by (simp add: blocks_ok_def)
    moreover have "(\<Sum>(i, ord) \<in> (\<lambda>i. (i, k)) ` set (fl k). (2 :: nat) ^ ord) = (\<Sum>i \<in> set (fl k). 2 ^ k)"
      by (subst sum.reindex) (auto simp: inj_on_def)
    ultimately show "(\<Sum>(i, ord) \<in> (\<lambda>i. (i, k)) ` set (fl k). 2 ^ ord) = length (fl k) * 2 ^ k"
      by (simp add: distinct_card)
  qed
  finally have "(\<Sum>(i, ord) \<in> ?F. 2 ^ ord) = (\<Sum>k < 14. length (fl k) * 2 ^ k)" .
  moreover have "(\<Sum>(i, ord) \<in> ?F \<union> A. 2 ^ ord) = (\<Sum>(i, ord) \<in> ?F. 2 ^ ord) + (\<Sum>(i, ord) \<in> A. (2 :: nat) ^ ord)"
    using ok fin by (intro sum.union_disjoint) (auto simp: blocks_ok_def)
  ultimately show ?thesis
    using tiles_card [OF blocks_ok_tiles [OF ok]] by simp
qed

end
