(* ===== verification/Buddy_Refine.thy ===== *)
theory Buddy_Refine
  imports Buddy Buddy_Spec
begin

text \<open>
  The buddy allocator of \<open>Buddy\<close> implements the abstract one of \<open>Buddy_Spec\<close>.
  \<open>buddy_core s fl A T\<close> relates a state of the code to free lists \<open>fl\<close>, allocated blocks
  \<open>A\<close> and blocks in transit \<open>T\<close>; \<open>buddy_inv\<close> is the invariant of the states between
  calls. The lemmas show that every operation of buddy.c returns (no BUG_ON fires, no
  undefined behaviour) and computes what the abstract operation computes.
\<close>

subsection \<open>The pool\<close>

definition pool_base :: "'z buddy_state_scheme \<Rightarrow> nat" where
  "pool_base s = unat (pool_start_addr s) div 4096"

definition pool_pages :: "'z buddy_state_scheme \<Rightarrow> nat" where
  "pool_pages s = unat (pool_mem_size s) div 4096"

definition pool_ok :: "'z buddy_state_scheme \<Rightarrow> bool" where
  "pool_ok s \<longleftrightarrow>
     4096 dvd unat (pool_start_addr s) \<and> 4096 dvd unat (pool_mem_size s) \<and>
     unat (pool_start_addr s) + unat (pool_mem_size s) < 2 ^ 64 \<and>
     physmem_map_num s = 1 \<and>
     dom (page_metadata s) = {..<pool_pages s} \<and>
     (\<forall>i p. page_metadata s i = Some p \<longrightarrow> page_pool p = GlobalMem0) \<and>
     dom (links s) = PageNode ` {..<pool_pages s} \<union> FreeListHead ` {..<14}"

lemma pool_update_simps [simp]:
  "pool_base (s\<lparr>page_metadata := pm\<rparr>) = pool_base s"
  "pool_base (s\<lparr>links := l\<rparr>) = pool_base s"
  "pool_base (s\<lparr>nr_free := nf\<rparr>) = pool_base s"
  "pool_pages (s\<lparr>page_metadata := pm\<rparr>) = pool_pages s"
  "pool_pages (s\<lparr>links := l\<rparr>) = pool_pages s"
  "pool_pages (s\<lparr>nr_free := nf\<rparr>) = pool_pages s"
  by (simp_all add: pool_base_def pool_pages_def)

lemma pool_ok_page_update:
  assumes "pool_ok s" "page_metadata s i = Some p" "page_pool p' = GlobalMem0"
  shows "pool_ok (s\<lparr>page_metadata := (page_metadata s)(i \<mapsto> p')\<rparr>)"
proof -
  have "insert i (dom (page_metadata s)) = dom (page_metadata s)" using assms(2) by auto
  with assms show ?thesis by (simp add: pool_ok_def)
qed

lemma pool_ok_addr:
  assumes "pool_ok s"
  shows "unat (pool_start_addr s) = pool_base s * 4096"
    and "unat (pool_mem_size s) = pool_pages s * 4096"
    and "unat (pool_start_addr s + pool_mem_size s) = (pool_base s + pool_pages s) * 4096"
    and "(pool_base s + pool_pages s) * 4096 < 2 ^ 64"
proof -
  show a: "unat (pool_start_addr s) = pool_base s * 4096"
    and b: "unat (pool_mem_size s) = pool_pages s * 4096"
    using assms by (auto simp: pool_ok_def pool_base_def pool_pages_def)
  have c: "unat (pool_start_addr s) + unat (pool_mem_size s) < 2 ^ 64"
    using assms by (simp add: pool_ok_def)
  then show "unat (pool_start_addr s + pool_mem_size s) = (pool_base s + pool_pages s) * 4096"
    using a b by (simp add: unat_word_ariths)
  show "(pool_base s + pool_pages s) * 4096 < 2 ^ 64" using a b c by simp
qed

lemma pool_ok_page: "pool_ok s \<Longrightarrow> i < pool_pages s \<Longrightarrow> \<exists>p. page_metadata s i = Some p \<and> page_pool p = GlobalMem0"
  unfolding pool_ok_def by (metis domD lessThan_iff)

lemma page_to_virt_ok:
  assumes "pool_ok s" "i < pool_pages s"
  shows "\<exists>a. page_to_virt s i = Inr a \<and> unat a = (pool_base s + i) * 4096"
proof -
  note pa = pool_ok_addr [OF assms(1)]
  obtain p where p: "page_metadata s i = Some p" "page_pool p = GlobalMem0"
    using pool_ok_page [OF assms] by blast
  have "i < 2 ^ 52" using pa(4) assms(2) by simp
  then have "unat (of_nat i * 0x1000 :: u64) = i * 4096" by (rule unat_mult_4096)
  then have "unat (of_nat i * 0x1000 + pool_start_addr s) = (pool_base s + i) * 4096"
    using pa assms(2) by (simp add: unat_word_ariths)
  with p show ?thesis by (simp add: page_to_virt_def get_page_def)
qed

lemma virt_to_page_ok:
  assumes "pool_ok s" "unat a = (pool_base s + i) * 4096 + r" "r < 4096" "i < pool_pages s"
  shows "virt_to_page s a = Inr i"
proof -
  note pa = pool_ok_addr [OF assms(1)]
  have le: "pool_start_addr s \<le> a" using pa assms by (simp add: word_le_nat_alt)
  have "(pool_base s + i) * 4096 + r < (pool_base s + pool_pages s) * 4096"
    using mult_le_mono1 [of "Suc i" "pool_pages s" 4096] assms(3,4) by simp
  then have "a < pool_start_addr s + pool_mem_size s"
    using pa assms(2) by (simp add: word_less_nat_alt)
  moreover have "unat ((a - pool_start_addr s) div 0x1000) = i"
    using le pa assms by (simp add: unat_div unat_sub)
  moreover have "physmem_map_num s = 1" using assms(1) by (simp add: pool_ok_def)
  ultimately show ?thesis using le by (simp add: virt_to_page_def)
qed

lemma flip_frame_4096: "flip_frame ord f * 4096 =
  (if even ((f * 4096) div 2 ^ (ord + 12)) then f * 4096 + 2 ^ (ord + 12) else f * 4096 - 2 ^ (ord + 12))"
proof -
  have e: "(2 :: nat) ^ (ord + 12) = 2 ^ ord * 4096" by (simp add: power_add)
  have "(f * 4096) div 2 ^ (ord + 12) = f div 2 ^ ord" unfolding e by simp
  then show ?thesis unfolding flip_frame_def by (simp add: e diff_mult_distrib)
qed

lemma get_buddy_chunk_ok:
  assumes ok: "pool_ok s" and i: "i < pool_pages s"
    and p: "page_metadata s i = Some p" "page_order p = int ord" "ord < 52"
  shows "get_buddy_chunk s i = Inr (partner (pool_base s) (pool_pages s) ord i)"
proof -
  note pa = pool_ok_addr [OF ok]
  obtain a where a: "page_to_virt s i = Inr a" "unat a = (pool_base s + i) * 4096"
    using page_to_virt_ok [OF ok i] by blast
  define g where "g = flip_frame ord (pool_base s + i)"
  define b where "b = a XOR push_bit (ord + 12) 1"
  have b: "unat b = g * 4096"
    using p(3) unat_xor_push_bit [of "ord + 12" a] unfolding b_def a(2) g_def flip_frame_4096
    by simp
  have lo: "b < pool_start_addr s \<longleftrightarrow> g < pool_base s"
    using b pa by (simp add: word_less_nat_alt)
  have hi: "pool_start_addr s + pool_mem_size s \<le> b \<longleftrightarrow> pool_base s + pool_pages s \<le> g"
    unfolding word_le_nat_alt b pa(3) mult_le_cancel2 by simp
  have v: "virt_to_page s b = Inr (g - pool_base s)" if "pool_base s \<le> g" "g < pool_base s + pool_pages s"
    using that b by (intro virt_to_page_ok [OF ok, of b _ 0]) auto
  have sh: "nat (int ord + 12) = ord + 12" by simp
  have "get_buddy_chunk s i =
    (if b < pool_start_addr s \<or> pool_start_addr s + pool_mem_size s \<le> b then Inr None
     else rbind (virt_to_page s b) (\<lambda>b. Inr (Some b)))"
    using a(1) p unfolding get_buddy_chunk_def get_page_def b_def Let_def
    by (simp add: sh)
  then show ?thesis
    unfolding partner_def g_def [symmetric] Let_def using lo hi v by auto
qed

subsection \<open>States that represent blocks\<close>

definition page_is :: "'z buddy_state_scheme \<Rightarrow> int \<Rightarrow> nat \<times> nat \<Rightarrow> bool" where
  "page_is s flag b \<longleftrightarrow>
     (\<exists>p. page_metadata s (fst b) = Some p \<and> allocated p = flag \<and> page_order p = int (snd b))"

definition buddy_core ::
  "'z buddy_state_scheme \<Rightarrow> (nat \<Rightarrow> nat list) \<Rightarrow> (nat \<times> nat) set \<Rightarrow> (nat \<times> nat) set \<Rightarrow> bool"
where
  "buddy_core s fl A T \<longleftrightarrow>
     pool_ok s \<and>
     list_family dll FreeListHead PageNode {..<14} (links s) fl \<and>
     (\<forall>k < 14. nr_free s k = of_nat (length (fl k))) \<and>
     blocks_ok (pool_base s) (pool_pages s) fl A T \<and>
     (\<forall>b \<in> free_blocks fl \<union> T. page_is s 0 b) \<and>
     (\<forall>b \<in> A. page_is s 1 b)"

definition buddy_inv :: "'z buddy_state_scheme \<Rightarrow> (nat \<Rightarrow> nat list) \<Rightarrow> (nat \<times> nat) set \<Rightarrow> bool" where
  "buddy_inv s fl A \<longleftrightarrow>
     buddy_core s fl A {} \<and> coalesced (pool_base s) (pool_pages s) fl"

text \<open>
  What no operation of the allocator changes: the pool's bounds, and all state outside the
  free lists and the pages' \<open>allocated\<close> and \<open>order\<close> fields.
\<close>

definition same_pool :: "'z buddy_state_scheme \<Rightarrow> 'z buddy_state_scheme \<Rightarrow> bool" where
  "same_pool s s' \<longleftrightarrow>
     pool_start_addr s' = pool_start_addr s \<and> pool_mem_size s' = pool_mem_size s \<and>
     pool_phys_page_num s' = pool_phys_page_num s \<and>
     page_metadata_addr s' = page_metadata_addr s \<and>
     physmem_map_num s' = physmem_map_num s \<and>
     buddy_state.more s' = buddy_state.more s \<and>
     (\<forall>i. map_option page_slab (page_metadata s' i) = map_option page_slab (page_metadata s i))"

lemma same_pool_refl [simp]: "same_pool s s"
  by (simp add: same_pool_def)

lemma same_pool_trans: "same_pool s t \<Longrightarrow> same_pool t u \<Longrightarrow> same_pool s u"
  by (simp add: same_pool_def)

lemma same_pool_base: "same_pool s s' \<Longrightarrow> pool_base s' = pool_base s"
  and same_pool_pages: "same_pool s s' \<Longrightarrow> pool_pages s' = pool_pages s"
  by (simp_all add: same_pool_def pool_base_def pool_pages_def)

lemma buddy_core_blocks: "buddy_core s fl A T \<Longrightarrow> blocks_ok (pool_base s) (pool_pages s) fl A T"
  and buddy_core_pool: "buddy_core s fl A T \<Longrightarrow> pool_ok s"
  by (simp_all add: buddy_core_def)

lemma page_is_frame:
  "page_is s flag b \<Longrightarrow> page_metadata s' (fst b) = page_metadata s (fst b) \<Longrightarrow> page_is s' flag b"
  by (simp add: page_is_def)

text \<open>The effect of the small steps on a state, as equations.\<close>

lemma free_list_add_ok:
  assumes "list_family dll FreeListHead PageNode {..<14} (links s) fl" "k < 14"
    and "PageNode i \<in> dom (links s)" "\<And>k. k < 14 \<Longrightarrow> i \<notin> set (fl k)"
  shows "\<exists>l. free_list_add i (int k) s = Inr (s\<lparr>links := l\<rparr>) \<and> dom l = dom (links s) \<and>
    list_family dll FreeListHead PageNode {..<14} l (fl(k := i # fl k))"
proof -
  from assms obtain l where "list_add (PageNode i) (FreeListHead k) (links s) = Inr l"
    "dom l = dom (links s)" "list_family dll FreeListHead PageNode {..<14} l (fl(k := i # fl k))"
    using dlist.family_add [OF assms(1), of k i] by auto
  with assms(2) show ?thesis
    by (auto simp: free_list_add_def free_list_index_def)
qed

lemma page_list_del_ok:
  assumes "list_family dll FreeListHead PageNode {..<14} (links s) fl" "k < 14" "i \<in> set (fl k)"
  shows "\<exists>l. page_list_del i s = Inr (s\<lparr>links := l\<rparr>) \<and> dom l = dom (links s) \<and>
    list_family dll FreeListHead PageNode {..<14} l (fl(k := remove1 i (fl k)))"
  using dlist.family_del [OF assms(1), of k i] assms(2,3)
  by (auto simp: page_list_del_def)

lemma nr_free_inc_ok:
  "k < 14 \<Longrightarrow> nr_free_inc (int k) s = Inr (s\<lparr>nr_free := (nr_free s)(k := nr_free s k + 1)\<rparr>)"
  by (simp add: nr_free_inc_def free_list_index_def)

lemma nr_free_dec_ok:
  "k < 14 \<Longrightarrow> nr_free_dec (int k) s = Inr (s\<lparr>nr_free := (nr_free s)(k := nr_free s k - 1)\<rparr>)"
  by (simp add: nr_free_dec_def free_list_index_def)

lemma get_page_Some: "page_metadata s i = Some p \<Longrightarrow> get_page s i = Inr p"
  by (simp add: get_page_def)

lemma upd_page_Some:
  "page_metadata s i = Some p \<Longrightarrow>
   upd_page i f s = Inr (s\<lparr>page_metadata := (page_metadata s)(i \<mapsto> f p)\<rparr>)"
  by (simp add: upd_page_def get_page_def)

lemma heads_unique:
  "blocks_ok base N fl A T \<Longrightarrow> (i, k) \<in> free_blocks fl \<union> A \<union> T \<Longrightarrow>
   (i, k') \<in> free_blocks fl \<union> A \<union> T \<Longrightarrow> k = k'"
  using tiles_unique [OF blocks_ok_tiles, of base N fl A T "(i, k)" "(i, k')" i] by simp

lemma pool_ok_update:
  assumes "pool_ok s" "dom pm = dom (page_metadata s)" "dom l = dom (links s)"
    and "\<And>i p. pm i = Some p \<Longrightarrow> page_pool p = GlobalMem0"
  shows "pool_ok (s\<lparr>page_metadata := pm, nr_free := nf, links := l\<rparr>)"
  using assms unfolding pool_ok_def pool_pages_def by simp

text \<open>
  A state whose metadata was changed only at the heads of blocks represents the new blocks
  when the changed pages do.
\<close>

lemma buddy_core_update:
  assumes core: "buddy_core s fl A T"
    and s': "s' = s\<lparr>page_metadata := pm, nr_free := nf, links := l\<rparr>"
    and pm: "dom pm = dom (page_metadata s)" "\<And>i p. pm i = Some p \<Longrightarrow> page_pool p = GlobalMem0"
      "\<And>i. i \<notin> H \<Longrightarrow> pm i = page_metadata s i"
    and l: "dom l = dom (links s)" "list_family dll FreeListHead PageNode {..<14} l fl'"
    and nf: "\<And>k. k < 14 \<Longrightarrow> nf k = of_nat (length (fl' k))"
    and ok: "blocks_ok (pool_base s) (pool_pages s) fl' A' T'"
    and free: "\<And>h k. h \<in> H \<Longrightarrow> (h, k) \<in> free_blocks fl' \<union> T' \<Longrightarrow> page_is s' 0 (h, k)"
      "\<And>h k. h \<notin> H \<Longrightarrow> (h, k) \<in> free_blocks fl' \<union> T' \<Longrightarrow> (h, k) \<in> free_blocks fl \<union> T"
    and used: "\<And>h k. h \<in> H \<Longrightarrow> (h, k) \<in> A' \<Longrightarrow> page_is s' 1 (h, k)"
      "\<And>h k. h \<notin> H \<Longrightarrow> (h, k) \<in> A' \<Longrightarrow> (h, k) \<in> A"
  shows "buddy_core s' fl' A' T'"
proof -
  have "pool_ok s'" unfolding s'
    using core pm l(1) by (intro pool_ok_update) (auto simp: buddy_core_def)
  moreover have "pool_base s' = pool_base s" "pool_pages s' = pool_pages s"
    by (simp_all add: s' pool_base_def pool_pages_def)
  moreover have "page_is s' 0 (h, k)" if "(h, k) \<in> free_blocks fl' \<union> T'" for h k
  proof (cases "h \<in> H")
    case False
    then have "page_is s 0 (h, k)" using that free(2) core by (auto simp: buddy_core_def)
    then show ?thesis using pm(3) [OF False] by (simp add: page_is_def s')
  qed (use that free(1) in blast)
  moreover have "page_is s' 1 (h, k)" if "(h, k) \<in> A'" for h k
  proof (cases "h \<in> H")
    case False
    then have "page_is s 1 (h, k)" using that used(2) core by (auto simp: buddy_core_def)
    then show ?thesis using pm(3) [OF False] by (simp add: page_is_def s')
  qed (use that used(1) in blast)
  ultimately show ?thesis
    using l(2) nf ok unfolding buddy_core_def by (auto simp: s')
qed

subsection \<open>Splitting\<close>

lemma order_nat_word: "n < 64 \<Longrightarrow> m < 64 \<Longrightarrow> (word_of_int (int n) :: u64) < of_nat m \<longleftrightarrow> n < m"
  "n < 64 \<Longrightarrow> m < 64 \<Longrightarrow> (word_of_int (int n) :: u64) = of_nat m \<longleftrightarrow> n = m"
  by (simp_all add: word_of_nat_less_iff word_of_nat_eq_iff64)

lemma split_page_step:
  assumes core: "buddy_core s fl A {(i, Suc k)}" and ord: "ord \<le> k"
  shows "\<exists>s'. split_page s (of_nat ord) (Some i) = split_page s' (of_nat ord) (Some i) \<and>
    buddy_core s' (fl(k := (i + 2 ^ k) # fl k)) A {(i, k)} \<and> same_pool s s'"
proof -
  let ?b = "i + 2 ^ k" and ?fl = "fl(k := (i + 2 ^ k) # fl k)"
  note ok = buddy_core_blocks [OF core] and pok = buddy_core_pool [OF core]
  have ok': "blocks_ok (pool_base s) (pool_pages s) ?fl A {(i, k)}"
    by (rule split_step_ok [OF ok])
  have fb: "(?b, k) \<in> free_blocks ?fl" by (simp add: free_blocks_def)
  have bi: "i < pool_pages s" "?b < pool_pages s" "k < 13" "2 ^ Suc k dvd pool_base s + i"
    using blocks_ok_block [OF ok', of i k] blocks_ok_block [OF ok', of ?b k] fb
      blocks_ok_block [OF ok, of i "Suc k"] by auto
  obtain p where p: "page_metadata s i = Some p" "allocated p = 0" "page_order p = int (Suc k)"
    "page_pool p = GlobalMem0"
    using core pok unfolding buddy_core_def page_is_def pool_ok_def by auto
  obtain q where q: "page_metadata s ?b = Some q" "page_pool q = GlobalMem0"
    using pool_ok_page [OF pok bi(2)] by blast
  define p' where "p' = p\<lparr>page_order := int k\<rparr>"
  define q' where "q' = q\<lparr>page_order := int k, allocated := 0\<rparr>"
  define s1 where "s1 = s\<lparr>page_metadata := (page_metadata s)(i \<mapsto> p')\<rparr>"
  have nb: "i \<noteq> ?b" by simp
  have ok1: "pool_ok s1" unfolding s1_def
    by (rule pool_ok_page_update [OF pok p(1)]) (simp add: p'_def p(4))
  have "flip_frame k (pool_base s + i) = pool_base s + ?b"
  proof -
    obtain c where "pool_base s + i = 2 ^ Suc k * c" using bi(4) by (elim dvdE)
    then have "even ((pool_base s + i) div 2 ^ k)" by simp
    then show ?thesis by (simp add: flip_frame_def)
  qed
  then have "partner (pool_base s1) (pool_pages s1) k i = Some ?b"
    using bi(2) by (simp add: partner_Some s1_def pool_base_def pool_pages_def)
  then have gb: "get_buddy_chunk s1 i = Inr (Some ?b)"
    using get_buddy_chunk_ok [OF ok1, of i p' k] bi(1,3) by (simp add: s1_def p'_def pool_pages_def)
  define pm where "pm = (page_metadata s)(i \<mapsto> p', ?b \<mapsto> q')"
  define s3 where "s3 = s\<lparr>page_metadata := pm\<rparr>"
  have fam: "list_family dll FreeListHead PageNode {..<14} (links s) fl"
    using core by (simp add: buddy_core_def)
  have bnew: "?b \<notin> set (fl j)" if "j < 14" for j
  proof
    assume "?b \<in> set (fl j)"
    then have "(?b, j) \<in> free_blocks fl" by (simp add: free_blocks_def)
    then have "(?b, j) = (i, Suc k)"
      using tiles_unique [OF blocks_ok_tiles [OF ok], of "(?b, j)" "(i, Suc k)" ?b] by simp
    then show False by simp
  qed
  obtain l where l: "free_list_add ?b (int k) s3 = Inr (s3\<lparr>links := l\<rparr>)" "dom l = dom (links s)"
    "list_family dll FreeListHead PageNode {..<14} l ?fl"
    using free_list_add_ok [of s3 fl k ?b] fam bi bnew pok
    by (auto simp: s3_def pool_ok_def)
  define s' where "s' = s\<lparr>page_metadata := pm, nr_free := (nr_free s)(k := nr_free s k + 1), links := l\<rparr>"
  have step: "split_page s (of_nat ord) (Some i) = split_page s' (of_nat ord) (Some i)"
  proof -
    have pm3: "s3 = s\<lparr>page_metadata := (page_metadata s)(i \<mapsto> p', ?b \<mapsto> q')\<rparr>"
      by (simp add: s3_def pm_def)
    have "upd_page i (\<lambda>p. p\<lparr>page_order := page_order p - 1\<rparr>) s = Inr s1"
      using p by (simp add: upd_page_Some s1_def p'_def)
    moreover have "get_page s1 i = Inr p'" by (simp add: s1_def get_page_Some)
    moreover define s2 where "s2 = s1\<lparr>page_metadata := (page_metadata s1)(?b \<mapsto> q\<lparr>page_order := int k\<rparr>)\<rparr>"
    moreover have "upd_page ?b (\<lambda>q. q\<lparr>page_order := page_order p'\<rparr>) s1 = Inr s2"
      using q(1) nb by (simp add: upd_page_Some s1_def s2_def p'_def)
    moreover have "upd_page ?b (\<lambda>q. q\<lparr>allocated := 0\<rparr>) s2 = Inr s3"
      by (simp add: upd_page_Some s1_def s2_def pm3 q'_def)
    moreover have "get_page s3 ?b = Inr q'" by (simp add: pm3 get_page_Some)
    moreover have "page_order q' = int k" by (simp add: q'_def)
    moreover have "nr_free_inc (int k) (s3\<lparr>links := l\<rparr>) = Inr s'"
      using bi(3) by (simp add: nr_free_inc_ok s3_def s'_def)
    ultimately show ?thesis
      using p(2,3) ord bi(3) l(1) gb order_nat_word [of "Suc k" ord]
      by (subst split_page.simps(2)) (simp add: get_page_Some [OF p(1)])
  qed
  moreover have "buddy_core s' ?fl A {(i, k)}"
  proof (rule buddy_core_update [OF core s'_def, where H = "{i, ?b}"])
    show "dom pm = dom (page_metadata s)" using p(1) q(1) by (auto simp: pm_def)
    show "page_pool r = GlobalMem0" if "pm j = Some r" for j r
      using that p q pok by (auto simp: pm_def p'_def q'_def pool_ok_def split: if_splits)
    show "((nr_free s)(k := nr_free s k + 1)) j = of_nat (length (?fl j))" if "j < 14" for j
      using that core by (auto simp: buddy_core_def)
    show "page_is s' 0 (h, j)" if "h \<in> {i, ?b}" "(h, j) \<in> free_blocks ?fl \<union> {(i, k)}" for h j
      using that heads_unique [OF ok', of h j k] fb
      by (auto simp: page_is_def s'_def pm_def p'_def q'_def p(2))
    show "page_is s' 1 (h, j)" if "h \<in> {i, ?b}" "(h, j) \<in> A" for h j
      using that heads_unique [OF ok', of h j k] fb ok' by (auto simp: blocks_ok_def)
  qed (use l ok' in \<open>auto simp: pm_def free_blocks_Cons\<close>)
  moreover have "same_pool s s'"
    using p(1) q(1) by (auto simp: same_pool_def s'_def pm_def p'_def q'_def)
  ultimately show ?thesis by blast
qed

lemma split_page_ok:
  "buddy_core s fl A {(i, k)} \<Longrightarrow> ord \<le> k \<Longrightarrow>
   \<exists>s'. split_page s (of_nat ord) (Some i) = Inr (s', i) \<and>
     buddy_core s' (split_lists i ord k fl) A {(i, ord)} \<and> same_pool s s'"
proof (induction k arbitrary: s fl)
  case (Suc k)
  show ?case
  proof (cases "ord = Suc k")
    case True
    obtain p where p: "page_metadata s i = Some p" "allocated p = 0" "page_order p = int ord"
      using Suc.prems True unfolding buddy_core_def page_is_def by auto
    have "ord < 14" using blocks_ok_block(1) [OF buddy_core_blocks [OF Suc.prems(1)], of i "Suc k"] True by simp
    then have "split_page s (of_nat ord) (Some i) = Inr (s, i)"
      using p order_nat_word [of ord ord] by (subst split_page.simps(2)) (simp add: get_page_Some)
    with True Suc.prems show ?thesis by auto
  next
    case False
    then have k: "ord \<le> k" using Suc.prems(2) by simp
    obtain s1 where s1: "split_page s (of_nat ord) (Some i) = split_page s1 (of_nat ord) (Some i)"
      "buddy_core s1 (fl(k := (i + 2 ^ k) # fl k)) A {(i, k)}" "same_pool s s1"
      using split_page_step [OF Suc.prems(1) k] by blast
    obtain s' where s': "split_page s1 (of_nat ord) (Some i) = Inr (s', i)"
      "buddy_core s' (split_lists i ord k (fl(k := (i + 2 ^ k) # fl k))) A {(i, ord)}" "same_pool s1 s'"
      using Suc.IH [OF s1(2) k] by blast
    have "split_lists i ord (Suc k) fl = split_lists i ord k (fl(k := (i + 2 ^ k) # fl k))"
      using k by simp
    then show ?thesis using s' s1 same_pool_trans by metis
  qed
next
  case 0
  obtain p where p: "page_metadata s i = Some p" "allocated p = 0" "page_order p = 0"
    using 0 unfolding buddy_core_def page_is_def by auto
  have "split_page s (of_nat ord) (Some i) = Inr (s, i)"
    using p 0(2) by (subst split_page.simps(2)) (simp add: get_page_Some)
  with 0 show ?case by auto
qed

subsection \<open>Allocating\<close>

lemma take_chunk:
  assumes core: "buddy_core s fl A {}" and k: "k < 14" and fl: "fl k = i # js"
  shows "\<exists>s1 s2. get_next (FreeListHead k) (links s) = Inr (PageNode i) \<and> page_is s 0 (i, k) \<and>
    page_list_del i s = Inr s1 \<and> page_metadata s1 = page_metadata s \<and>
    nr_free_dec (int k) s1 = Inr s2 \<and> buddy_core s2 (fl(k := js)) A {(i, k)} \<and> same_pool s s2"
proof -
  note ok = buddy_core_blocks [OF core]
  have fam: "list_family dll FreeListHead PageNode {..<14} (links s) fl"
    using core by (simp add: buddy_core_def)
  have nx: "get_next (FreeListHead k) (links s) = Inr (PageNode i)"
    using dlist.family_first [OF fam] k fl by simp
  have free: "(i, k) \<in> free_blocks fl" using fl by (simp add: free_blocks_def)
  then have pg: "page_is s 0 (i, k)" using core by (auto simp: buddy_core_def)
  have "i \<in> set (fl k)" "remove1 i (fl k) = js" using fl by auto
  then obtain l where l: "page_list_del i s = Inr (s\<lparr>links := l\<rparr>)" "dom l = dom (links s)"
    "list_family dll FreeListHead PageNode {..<14} l (fl(k := js))"
    using page_list_del_ok [OF fam k] by metis
  define s2 where "s2 = s\<lparr>page_metadata := page_metadata s,
    nr_free := (nr_free s)(k := nr_free s k - 1), links := l\<rparr>"
  have ok': "blocks_ok (pool_base s) (pool_pages s) (fl(k := js)) A {(i, k)}"
    by (rule blocks_ok_take [OF ok fl])
  have "buddy_core s2 (fl(k := js)) A {(i, k)}"
  proof (rule buddy_core_update [OF core s2_def, where H = "{}"])
    show "((nr_free s)(k := nr_free s k - 1)) j = of_nat (length ((fl(k := js)) j))" if "j < 14" for j
      using that core fl by (auto simp: buddy_core_def)
    show "page_pool p = GlobalMem0" if "page_metadata s j = Some p" for j p
      using that buddy_core_pool [OF core] by (auto simp: pool_ok_def)
    show "(h, j) \<in> free_blocks fl \<union> {}" if "(h, j) \<in> free_blocks (fl(k := js)) \<union> {(i, k)}" for h j
      using that fl by (auto simp: free_blocks_def split: if_splits)
  qed (use l ok' in auto)
  moreover have "nr_free_dec (int k) (s\<lparr>links := l\<rparr>) = Inr s2"
    using k by (simp add: nr_free_dec_ok s2_def)
  moreover have "same_pool s s2" by (simp add: same_pool_def s2_def)
  ultimately show ?thesis using nx pg l(1) by auto
qed

lemma mark_allocated:
  assumes core: "buddy_core s fl A {(i, k)}"
  shows "\<exists>s'. upd_page i (\<lambda>p. p\<lparr>allocated := 1\<rparr>) s = Inr s' \<and>
    buddy_core s' fl (insert (i, k) A) {} \<and> same_pool s s'"
proof -
  note ok = buddy_core_blocks [OF core] and pok = buddy_core_pool [OF core]
  obtain p where p: "page_metadata s i = Some p" "page_order p = int k" "page_pool p = GlobalMem0"
    using core pok unfolding buddy_core_def page_is_def pool_ok_def by auto
  define s' where "s' = s\<lparr>page_metadata := (page_metadata s)(i \<mapsto> p\<lparr>allocated := 1\<rparr>),
    nr_free := nr_free s, links := links s\<rparr>"
  have "buddy_core s' fl (insert (i, k) A) {}"
  proof (rule buddy_core_update [OF core s'_def, where H = "{i}"])
    show "blocks_ok (pool_base s) (pool_pages s) fl (insert (i, k) A) {}"
      using blocks_ok_give [OF ok] by blast
    show "page_is s' 0 (h, j)" if "h \<in> {i}" "(h, j) \<in> free_blocks fl \<union> {}" for h j
      using that heads_unique [OF ok, of i j k] ok by (auto simp: blocks_ok_def)
    show "page_is s' 1 (h, j)" if "h \<in> {i}" "(h, j) \<in> insert (i, k) A" for h j
      using that heads_unique [OF ok, of i j k] p by (auto simp: page_is_def s'_def)
    show "page_pool r = GlobalMem0" if "((page_metadata s)(i \<mapsto> p\<lparr>allocated := 1\<rparr>)) j = Some r" for j r
      using that p pok by (auto simp: pool_ok_def split: if_splits)
  qed (use core p in \<open>auto simp: buddy_core_def\<close>)
  moreover have "upd_page i (\<lambda>p. p\<lparr>allocated := 1\<rparr>) s = Inr s'"
    using p by (simp add: upd_page_Some s'_def)
  moreover have "same_pool s s'" using p by (auto simp: same_pool_def s'_def)
  ultimately show ?thesis by blast
qed

lemma length_free_list:
  assumes core: "buddy_core s fl A T"
  shows "length (fl k) \<le> pool_pages s" and "length (fl k) < 2 ^ 52"
proof -
  note ok = buddy_core_blocks [OF core]
  have "distinct (fl k)" using ok by (simp add: blocks_ok_def)
  then have "length (fl k) = card (set (fl k))" by (simp add: distinct_card)
  also have "\<dots> \<le> card {..<pool_pages s}"
    using blocks_ok_block(3) [OF ok, of _ k] by (intro card_mono) (auto simp: free_blocks_def)
  finally show le: "length (fl k) \<le> pool_pages s" by simp
  show "length (fl k) < 2 ^ 52"
    using le pool_ok_addr(4) [OF buddy_core_pool [OF core]] by simp
qed

lemma nr_free_positive:
  assumes core: "buddy_core s fl A T" and k: "k < 14"
  shows "0 < nr_free s k \<longleftrightarrow> fl k \<noteq> []"
proof -
  have "nr_free s k = of_nat (length (fl k))" using core k by (simp add: buddy_core_def)
  moreover have "length (fl k) < 2 ^ 64" using length_free_list(2) [OF core, of k] by simp
  ultimately show ?thesis
    using word_of_nat_less_iff [of 0 "length (fl k)"] by simp
qed

lemma get_pages_take:
  assumes core: "buddy_core s fl A {}" and k: "ord \<le> k" "k < 14" "fl k = i # js"
  shows "\<exists>s'. buddy_get_pages_from s (of_nat ord) k = Inr (s', Some i) \<and>
    buddy_core s' (split_lists i ord k (fl(k := js))) (insert (i, ord) A) {} \<and> same_pool s s'"
proof -
  obtain s1 s2 where s2: "get_next (FreeListHead k) (links s) = Inr (PageNode i)" "page_is s 0 (i, k)"
    "page_list_del i s = Inr s1" "page_metadata s1 = page_metadata s"
    "nr_free_dec (int k) s1 = Inr s2" "buddy_core s2 (fl(k := js)) A {(i, k)}" "same_pool s s2"
    using take_chunk [OF core k(2,3)] by blast
  obtain s3 where s3: "split_page s2 (of_nat ord) (Some i) = Inr (s3, i)"
    "buddy_core s3 (split_lists i ord k (fl(k := js))) A {(i, ord)}" "same_pool s2 s3"
    using split_page_ok [OF s2(6) k(1)] by blast
  obtain s4 where s4: "upd_page i (\<lambda>p. p\<lparr>allocated := 1\<rparr>) s3 = Inr s4"
    "buddy_core s4 (split_lists i ord k (fl(k := js))) (insert (i, ord) A) {}" "same_pool s3 s4"
    using mark_allocated [OF s3(2)] by blast
  obtain p where p: "get_page s i = Inr p" "get_page s1 i = Inr p" "allocated p = 0" "page_order p = int k"
    using s2(2,4) by (auto simp: page_is_def get_page_def)
  obtain p3 where p3: "get_page s3 i = Inr p3" "page_order p3 = int ord"
    using s3(2) by (auto simp: buddy_core_def page_is_def get_page_def)
  have "0 < nr_free s k" using nr_free_positive [OF core k(2)] k(3) by simp
  then have "buddy_get_pages_from s (of_nat ord) k = Inr (s4, Some i)"
    using k s2 s3(1) s4(1) p p3
    by (subst buddy_get_pages_from.simps) (simp add: order_nat_word)
  then show ?thesis using s4 s3(3) s2(7) same_pool_trans by blast
qed

lemma get_pages_skip:
  assumes "buddy_core s fl A {}" "k < 14" "fl k = []"
  shows "buddy_get_pages_from s order k = buddy_get_pages_from s order (Suc k)"
  using nr_free_positive [OF assms(1,2)] assms(2,3)
  by (subst buddy_get_pages_from.simps) simp

lemma get_pages_none: "14 \<le> k \<Longrightarrow> buddy_get_pages_from s order k = Inr (s, None)"
  by (subst buddy_get_pages_from.simps) simp

lemma get_pages_from_find:
  assumes core: "buddy_core s fl A {}"
  shows "buddy_get_pages_from s order k =
    (case find (\<lambda>j. fl j \<noteq> []) [k..<14] of None \<Rightarrow> Inr (s, None) | Some j \<Rightarrow> buddy_get_pages_from s order j)"
proof (induction "14 - k" arbitrary: k)
  case 0
  then show ?case by (simp add: get_pages_none)
next
  case (Suc d)
  then have "k < 14" "d = 14 - Suc k" by auto
  with Suc.hyps(1) [of "Suc k"] show ?case
    using get_pages_skip [OF core, of k order] by (simp add: upt_conv_Cons)
qed

lemma buddy_get_pages_core:
  assumes core: "buddy_core s fl A {}" and ord: "ord < 14"
  shows "case spec_get fl ord of
      None \<Rightarrow> buddy_get_pages s (of_nat ord) = Inr (s, None)
    | Some (fl', i) \<Rightarrow> \<exists>s'. buddy_get_pages s (of_nat ord) = Inr (s', Some i) \<and>
        buddy_core s' fl' (insert (i, ord) A) {} \<and> same_pool s s'"
proof -
  have lt: "\<not> (14 :: u64) \<le> of_nat ord"
    using ord word_of_nat_le_iff [of 14 ord] by simp
  have un: "unat (of_nat ord :: u64) = ord" using ord by (intro unat_of_nat_less) simp
  have eq: "buddy_get_pages s (of_nat ord) = buddy_get_pages_from s (of_nat ord) ord"
    unfolding buddy_get_pages_def using lt un by simp
  show ?thesis
  proof (cases "spec_get fl ord")
    case None
    then have "find (\<lambda>j. fl j \<noteq> []) [ord..<14] = None"
      by (auto simp: spec_get_def alloc_order_def split: option.splits)
    then show ?thesis
      using None eq get_pages_from_find [OF core, of "of_nat ord" ord] by simp
  next
    case (Some r)
    obtain fl' i where r: "r = (fl', i)" by fastforce
    obtain k js where k: "alloc_order fl ord = Some k" "ord \<le> k" "k < 14" "fl k = i # js"
      "fl' = split_lists i ord k (fl(k := js))"
      using Some r by (auto elim: spec_get_Some)
    then have "buddy_get_pages s (of_nat ord) = buddy_get_pages_from s (of_nat ord) k"
      using eq get_pages_from_find [OF core, of "of_nat ord" ord] by (simp add: alloc_order_def)
    then show ?thesis using get_pages_take [OF core k(2-4)] Some r k(5) by auto
  qed
qed

subsection \<open>Merging and freeing\<close>

lemma partner_neq: "partner base N k i \<noteq> Some i"
proof -
  have "m - 2 ^ k \<noteq> m" if "odd (m div 2 ^ k)" for m :: nat
  proof (cases "m = 0")
    case False
    then have "m - 2 ^ k < m" by (intro diff_less) simp_all
    then show ?thesis by simp
  qed (use that in simp)
  then show ?thesis by (auto simp: partner_Some flip_frame_def split: if_splits)
qed

lemma update_order:
  "s\<lparr>links := l, nr_free := nf, page_metadata := pm\<rparr> = s\<lparr>page_metadata := pm, nr_free := nf, links := l\<rparr>"
  by simp

lemma transit_page:
  assumes "buddy_core s fl A {(i, k)}"
  obtains p where "page_metadata s i = Some p" "allocated p = 0" "page_order p = int k"
    "page_pool p = GlobalMem0" "i < pool_pages s" "k < 14"
  using assms blocks_ok_block [OF buddy_core_blocks [OF assms], of i k]
  by (auto simp: buddy_core_def page_is_def pool_ok_def)

lemma order_13: "k < 14 \<Longrightarrow> \<not> (13 :: u64) < word_of_int (int k)"
  "k < 14 \<Longrightarrow> (word_of_int (int k) :: u64) = 13 \<longleftrightarrow> k = 13"
  using order_nat_word [of k 13] word_of_nat_less_iff [of 13 k] by simp_all

lemma merge_page_step:
  assumes core: "buddy_core s fl A {(i, k)}" and k: "k < 13"
    and pt: "partner (pool_base s) (pool_pages s) k i = Some j" and j: "j \<in> set (fl k)"
  shows "\<exists>s'. merge_page s i = merge_page s' (min i j) \<and>
    buddy_core s' (fl(k := remove1 j (fl k))) A {(min i j, Suc k)} \<and> same_pool s s'"
proof -
  let ?fl = "fl(k := remove1 j (fl k))"
  note ok = buddy_core_blocks [OF core] and pok = buddy_core_pool [OF core]
  have ok': "blocks_ok (pool_base s) (pool_pages s) ?fl A {(min i j, Suc k)}"
    by (rule merge_step_ok [OF ok k pt j])
  obtain p where p: "page_metadata s i = Some p" "allocated p = 0" "page_order p = int k"
    "page_pool p = GlobalMem0" "i < pool_pages s"
    using transit_page [OF core] by blast
  have jf: "(j, k) \<in> free_blocks fl" using j by (simp add: free_blocks_def)
  then obtain q where q: "page_metadata s j = Some q" "allocated q = 0" "page_order q = int k"
    "page_pool q = GlobalMem0"
    using core pok unfolding buddy_core_def page_is_def pool_ok_def by fastforce
  have fam: "list_family dll FreeListHead PageNode {..<14} (links s) fl"
    using core by (simp add: buddy_core_def)
  obtain l where l: "page_list_del j s = Inr (s\<lparr>links := l\<rparr>)" "dom l = dom (links s)"
    "list_family dll FreeListHead PageNode {..<14} l ?fl"
    using page_list_del_ok [OF fam, of k j] k j by auto
  define m where "m = min i j"
  define r where "r = (if j < i then q else p)"
  have r: "page_metadata s m = Some r" "allocated r = 0" "page_order r = int k" "page_pool r = GlobalMem0"
    using p q by (auto simp: m_def r_def)
  define s' where "s' = s\<lparr>page_metadata := (page_metadata s)(m \<mapsto> r\<lparr>page_order := int k + 1\<rparr>),
    nr_free := (nr_free s)(k := nr_free s k - 1), links := l\<rparr>"
  have gb: "get_buddy_chunk s i = Inr (Some j)"
    using get_buddy_chunk_ok [OF pok p(5,1,3)] k pt by simp
  have "(if j < i then j else i) = m" by (simp add: m_def)
  then have step: "merge_page s i = merge_page s' m"
    using gb k l(1) p q r(1,3) order_13 [of k]
    by (subst merge_page.simps)
      (simp add: get_page_Some nr_free_dec_ok Let_def upd_page_Some s'_def update_order)
  have "buddy_core s' ?fl A {(m, Suc k)}"
  proof (rule buddy_core_update [OF core s'_def, where H = "{m}"])
    show "dom ((page_metadata s)(m \<mapsto> r\<lparr>page_order := int k + 1\<rparr>)) = dom (page_metadata s)"
      using r(1) by auto
    show "page_pool x = GlobalMem0" if "((page_metadata s)(m \<mapsto> r\<lparr>page_order := int k + 1\<rparr>)) h = Some x" for h x
      using that r(4) pok by (auto simp: pool_ok_def split: if_splits)
    have "length (fl k) = Suc (length (remove1 j (fl k)))"
      using j length_pos_if_in_set [OF j] by (simp add: length_remove1)
    then have "nr_free s k - 1 = of_nat (length (remove1 j (fl k)))"
      using core k by (simp add: buddy_core_def)
    then show "((nr_free s)(k := nr_free s k - 1)) h = of_nat (length (?fl h))" if "h < 14" for h
      using that core by (auto simp: buddy_core_def)
    show "page_is s' 0 (h, x)" if "h \<in> {m}" "(h, x) \<in> free_blocks ?fl \<union> {(m, Suc k)}" for h x
      using that heads_unique [OF ok', of m x "Suc k"] r by (auto simp: page_is_def s'_def m_def)
    show "page_is s' 1 (h, x)" if "h \<in> {m}" "(h, x) \<in> A" for h x
      using that heads_unique [OF ok', of m x "Suc k"] ok' by (auto simp: blocks_ok_def m_def)
    show "(h, x) \<in> free_blocks fl \<union> {(i, k)}"
      if "h \<notin> {m}" "(h, x) \<in> free_blocks ?fl \<union> {(m, Suc k)}" for h x
      using that by (auto simp: free_blocks_def split: if_splits dest: notin_set_remove1)
  qed (use l ok' in \<open>auto simp: m_def\<close>)
  moreover have "same_pool s s'"
    using r(1) by (auto simp: same_pool_def s'_def)
  ultimately show ?thesis using step by (auto simp: m_def)
qed

lemma merge_page_stop:
  assumes core: "buddy_core s fl A {(i, k)}"
    and stop: "\<not> (k < 13 \<and> (\<exists>j. partner (pool_base s) (pool_pages s) k i = Some j \<and> j \<in> set (fl k)))"
  shows "merge_page s i = Inr (s, i)"
proof -
  note ok = buddy_core_blocks [OF core] and pok = buddy_core_pool [OF core]
  obtain p where p: "page_metadata s i = Some p" "allocated p = 0" "page_order p = int k"
    "i < pool_pages s" "k < 14"
    using transit_page [OF core] by blast
  show ?thesis
  proof (cases "k = 13")
    case True
    then show ?thesis using p order_13 [of k] by (subst merge_page.simps) (simp add: get_page_Some)
  next
    case False
    then have k: "k < 13" using p(5) by simp
    have gb: "get_buddy_chunk s i = Inr (partner (pool_base s) (pool_pages s) k i)"
      using get_buddy_chunk_ok [OF pok p(4,1,3)] k by simp
    show ?thesis
    proof (cases "partner (pool_base s) (pool_pages s) k i")
      case None
      then show ?thesis using p gb order_13 [of k] k
        by (subst merge_page.simps) (simp add: get_page_Some)
    next
      case (Some j)
      obtain k' where k': "k' \<le> k" "(j, k') \<in> free_blocks fl \<union> A \<union> {(i, k)}"
        using partner_is_head [OF ok _ Some] by blast
      have "j \<noteq> i" using Some partner_neq by metis
      moreover have "j \<notin> set (fl k)" using stop k Some by blast
      ultimately have "(j, k') \<in> free_blocks fl \<and> k' < k \<or> (j, k') \<in> A"
        using k' by (cases "k' = k") (auto simp: free_blocks_def)
      then obtain q where q: "page_metadata s j = Some q" "allocated q \<noteq> 0 \<or> page_order q < int k"
        using core unfolding buddy_core_def page_is_def by fastforce
      then show ?thesis using p gb Some order_13 [of k] k
        by (subst merge_page.simps) (auto simp: get_page_Some)
    qed
  qed
qed

lemma merge_page_ok:
  assumes "buddy_core s fl A {(i, k)}" "base = pool_base s" "N = pool_pages s"
    and "merge_lists base N fl i k = (fl', i', k')"
  shows "\<exists>s'. merge_page s i = Inr (s', i') \<and> buddy_core s' fl' A {(i', k')} \<and> same_pool s s'"
  using assms
proof (induction base N fl i k arbitrary: s rule: merge_lists.induct)
  case (1 base N fl i k)
  show ?case
  proof (cases "\<exists>j. k < 13 \<and> partner base N k i = Some j \<and> j \<in> set (fl k)")
    case True
    then obtain j where j: "k < 13" "partner base N k i = Some j" "j \<in> set (fl k)" by blast
    obtain s1 where s1: "merge_page s i = merge_page s1 (min i j)"
      "buddy_core s1 (fl(k := remove1 j (fl k))) A {(min i j, Suc k)}" "same_pool s s1"
      using merge_page_step [OF "1.prems"(1) j(1) _ j(3)] j(2) "1.prems"(2,3) by auto
    have "merge_lists base N (fl(k := remove1 j (fl k))) (min i j) (Suc k) = (fl', i', k')"
      using "1.prems"(4) j by (simp add: merge_lists.simps [of base N fl i k])
    moreover have "base = pool_base s1" "N = pool_pages s1"
      using "1.prems"(2,3) s1(3) by (simp_all add: same_pool_base same_pool_pages)
    ultimately obtain s' where "merge_page s1 (min i j) = Inr (s', i')"
      "buddy_core s' fl' A {(i', k')}" "same_pool s1 s'"
      using "1.IH" [OF j s1(2)] by blast
    then show ?thesis using s1 same_pool_trans by metis
  next
    case False
    then have "fl' = fl \<and> i' = i \<and> k' = k"
      using "1.prems"(4) by (auto simp: merge_lists.simps [of base N fl i k] split: if_splits option.splits)
    moreover have "merge_page s i = Inr (s, i)"
      using merge_page_stop [OF "1.prems"(1)] False "1.prems"(2,3) by auto
    ultimately show ?thesis using "1.prems"(1) by auto
  qed
qed

lemma mark_free:
  assumes core: "buddy_core s fl A {}" and b: "(i, k) \<in> A"
  shows "\<exists>p s'. page_metadata s i = Some p \<and> allocated p = 1 \<and>
    upd_page i (\<lambda>p. p\<lparr>allocated := 0\<rparr>) s = Inr s' \<and>
    buddy_core s' fl (A - {(i, k)}) {(i, k)} \<and> same_pool s s'"
proof -
  note ok = buddy_core_blocks [OF core] and pok = buddy_core_pool [OF core]
  have ok': "blocks_ok (pool_base s) (pool_pages s) fl (A - {(i, k)}) {(i, k)}"
    by (rule blocks_ok_return [OF ok b])
  obtain p where p: "page_metadata s i = Some p" "allocated p = 1" "page_order p = int k"
    "page_pool p = GlobalMem0"
    using core pok b unfolding buddy_core_def page_is_def pool_ok_def by fastforce
  define s' where "s' = s\<lparr>page_metadata := (page_metadata s)(i \<mapsto> p\<lparr>allocated := 0\<rparr>),
    nr_free := nr_free s, links := links s\<rparr>"
  have "buddy_core s' fl (A - {(i, k)}) {(i, k)}"
  proof (rule buddy_core_update [OF core s'_def, where H = "{i}"])
    show "page_is s' 0 (h, j)" if "h \<in> {i}" "(h, j) \<in> free_blocks fl \<union> {(i, k)}" for h j
    proof -
      have "j = k" using that by (intro heads_unique [OF ok', of i j k]) auto
      then show ?thesis using that p by (simp add: page_is_def s'_def)
    qed
    show "page_is s' 1 (h, j)" if "h \<in> {i}" "(h, j) \<in> A - {(i, k)}" for h j
    proof -
      have "j = k" using that by (intro heads_unique [OF ok', of i j k]) auto
      then show ?thesis using that by simp
    qed
    show "page_pool r = GlobalMem0" if "((page_metadata s)(i \<mapsto> p\<lparr>allocated := 0\<rparr>)) j = Some r" for j r
      using that p pok by (auto simp: pool_ok_def split: if_splits)
  qed (use core p ok' in \<open>auto simp: buddy_core_def\<close>)
  moreover have "upd_page i (\<lambda>p. p\<lparr>allocated := 0\<rparr>) s = Inr s'"
    using p by (simp add: upd_page_Some s'_def)
  moreover have "same_pool s s'" using p by (auto simp: same_pool_def s'_def)
  ultimately show ?thesis using p by blast
qed

lemma put_chunk:
  assumes core: "buddy_core s fl A {(i, k)}"
  shows "\<exists>s1 s2. free_list_add i (int k) s = Inr s1 \<and> nr_free_inc (int k) s1 = Inr s2 \<and>
    buddy_core s2 (fl(k := i # fl k)) A {} \<and> same_pool s s2"
proof -
  let ?fl = "fl(k := i # fl k)"
  note ok = buddy_core_blocks [OF core] and pok = buddy_core_pool [OF core]
  have ok': "blocks_ok (pool_base s) (pool_pages s) ?fl A {}"
    by (rule blocks_ok_put [OF ok])
  have fam: "list_family dll FreeListHead PageNode {..<14} (links s) fl"
    using core by (simp add: buddy_core_def)
  have ik: "i < pool_pages s" "k < 14" using blocks_ok_block [OF ok, of i k] by auto
  have new: "i \<notin> set (fl j)" for j
    using heads_unique [OF ok, of i j k] ok by (auto simp: free_blocks_def blocks_ok_def)
  obtain l where l: "free_list_add i (int k) s = Inr (s\<lparr>links := l\<rparr>)" "dom l = dom (links s)"
    "list_family dll FreeListHead PageNode {..<14} l ?fl"
    using free_list_add_ok [OF fam ik(2), of i] new pok ik(1) by (auto simp: pool_ok_def)
  define s' where "s' = s\<lparr>page_metadata := page_metadata s,
    nr_free := (nr_free s)(k := nr_free s k + 1), links := l\<rparr>"
  have "buddy_core s' ?fl A {}"
  proof (rule buddy_core_update [OF core s'_def, where H = "{}"])
    show "((nr_free s)(k := nr_free s k + 1)) j = of_nat (length (?fl j))" if "j < 14" for j
      using that core by (auto simp: buddy_core_def)
    show "page_pool p = GlobalMem0" if "page_metadata s j = Some p" for j p
      using that pok by (auto simp: pool_ok_def)
  qed (use l ok' in \<open>auto simp: free_blocks_Cons\<close>)
  moreover have "nr_free_inc (int k) (s\<lparr>links := l\<rparr>) = Inr s'"
    using ik(2) by (simp add: nr_free_inc_ok s'_def)
  moreover have "same_pool s s'" by (simp add: same_pool_def s'_def)
  ultimately show ?thesis using l(1) by blast
qed

lemma buddy_free_pages_core:
  assumes core: "buddy_core s fl A {}" and b: "(i, k) \<in> A"
  shows "\<exists>s'. buddy_free_pages s i = Inr s' \<and>
    buddy_core s' (spec_free (pool_base s) (pool_pages s) fl i k) (A - {(i, k)}) {} \<and> same_pool s s'"
proof -
  obtain p s1 where s1: "page_metadata s i = Some p" "allocated p = 1"
    "upd_page i (\<lambda>p. p\<lparr>allocated := 0\<rparr>) s = Inr s1"
    "buddy_core s1 fl (A - {(i, k)}) {(i, k)}" "same_pool s s1"
    using mark_free [OF assms] by blast
  obtain fl' i' k' where m: "merge_lists (pool_base s) (pool_pages s) fl i k = (fl', i', k')"
    by (metis prod_cases3)
  obtain s2 where s2: "merge_page s1 i = Inr (s2, i')"
    "buddy_core s2 fl' (A - {(i, k)}) {(i', k')}" "same_pool s1 s2"
    using merge_page_ok [OF s1(4) same_pool_base [OF s1(5), symmetric]
        same_pool_pages [OF s1(5), symmetric] m] by blast
  obtain p2 where p2: "page_metadata s2 i' = Some p2" "allocated p2 = 0" "page_order p2 = int k'"
    using transit_page [OF s2(2)] by blast
  obtain s3 s4 where s4: "free_list_add i' (int k') s2 = Inr s3" "nr_free_inc (int k') s3 = Inr s4"
    "buddy_core s4 (fl'(k' := i' # fl' k')) (A - {(i, k)}) {}" "same_pool s2 s4"
    using put_chunk [OF s2(2)] by blast
  have "buddy_free_pages s i = Inr s4"
    using s1(1-3) s2(1) p2 s4(1,2) by (simp add: buddy_free_pages_def get_page_Some)
  moreover have "same_pool s s4"
    using s1(5) s2(3) s4(4) same_pool_trans by blast
  ultimately show ?thesis using s4(3) by (simp add: spec_free_def m)
qed

subsection \<open>Initialisation\<close>

lemma dll_Nil: "dll m h [] \<longleftrightarrow> nxt m h = Some h \<and> prv m h = Some h"
  by (simp add: dll_def)

lemma init_free_lists_ok:
  "FreeListHead ` set ks \<subseteq> dom (links s) \<Longrightarrow>
   \<exists>l. init_free_lists ks s = Inr (s\<lparr>nr_free := (\<lambda>k. if k \<in> set ks then 0 else nr_free s k), links := l\<rparr>) \<and>
     dom l = dom (links s) \<and> (\<forall>k \<in> set ks. dll l (FreeListHead k) []) \<and>
     (\<forall>k. dll (links s) (FreeListHead k) [] \<longrightarrow> dll l (FreeListHead k) [])"
proof (induction ks arbitrary: s)
  case Nil
  show ?case by (rule exI [of _ "links s"]) simp
next
  case (Cons k ks)
  then obtain m where m: "init_list_head (FreeListHead k) (links s) = Inr m" "dom m = dom (links s)"
    "nxt m = (nxt (links s))(FreeListHead k := Some (FreeListHead k))"
    "prv m = (prv (links s))(FreeListHead k := Some (FreeListHead k))"
    using init_list_head_ok [of "FreeListHead k" "links s"] by auto
  define s1 where "s1 = s\<lparr>nr_free := (nr_free s)(k := 0), links := m\<rparr>"
  obtain l where l: "init_free_lists ks s1 =
      Inr (s1\<lparr>nr_free := (\<lambda>j. if j \<in> set ks then 0 else nr_free s1 j), links := l\<rparr>)"
    "dom l = dom m" "\<forall>j \<in> set ks. dll l (FreeListHead j) []"
    "\<forall>j. dll m (FreeListHead j) [] \<longrightarrow> dll l (FreeListHead j) []"
    using Cons.IH [of s1] Cons.prems m(2) by (auto simp: s1_def)
  have "init_free_lists (k # ks) s =
      Inr (s\<lparr>nr_free := (\<lambda>j. if j \<in> set (k # ks) then 0 else nr_free s j), links := l\<rparr>)"
    using m(1) l(1) by (simp add: s1_def fun_eq_iff cong: if_cong)
  moreover have "dll m (FreeListHead k) []"
    and "\<And>j. dll (links s) (FreeListHead j) [] \<Longrightarrow> dll m (FreeListHead j) []"
    using m(3,4) by (auto simp: dll_Nil)
  ultimately show ?case using l m(2) by (intro exI [of _ l]) auto
qed

lemma init_page_metadata_ok:
  "set is \<subseteq> dom (page_metadata s) \<Longrightarrow>
   init_page_metadata is s = Inr (s\<lparr>page_metadata := (\<lambda>i. if i \<in> set is
     then map_option (\<lambda>p. p\<lparr>allocated := 1, page_order := 0, page_pool := GlobalMem0\<rparr>) (page_metadata s i)
     else page_metadata s i)\<rparr>)"
proof (induction "is" arbitrary: s)
  case (Cons i js)
  then obtain p where p: "page_metadata s i = Some p" by auto
  let ?f = "\<lambda>p. p\<lparr>allocated := 1, page_order := 0, page_pool := GlobalMem0\<rparr>"
  let ?s1 = "s\<lparr>page_metadata := (page_metadata s)(i \<mapsto> ?f p)\<rparr>"
  have "init_page_metadata js ?s1 = Inr (?s1\<lparr>page_metadata := (\<lambda>i. if i \<in> set js
     then map_option ?f (page_metadata ?s1 i) else page_metadata ?s1 i)\<rparr>)"
    using Cons.prems by (intro Cons.IH) auto
  moreover have "(\<lambda>j. if j \<in> set js then map_option ?f (page_metadata ?s1 j) else page_metadata ?s1 j) =
    (\<lambda>j. if j \<in> set (i # js) then map_option ?f (page_metadata s j) else page_metadata s j)"
    using p by (auto simp: fun_eq_iff)
  ultimately show ?case using p by (simp add: upd_page_Some)
qed simp

lemma free_each_page_ok:
  assumes "buddy_inv s fl A" "distinct js" "(\<lambda>j. (j, 0)) ` set js \<subseteq> A"
  shows "\<exists>s' fl'. free_each_page js s = Inr s' \<and> buddy_inv s' fl' (A - (\<lambda>j. (j, 0)) ` set js) \<and> same_pool s s'"
  using assms
proof (induction js arbitrary: s fl A)
  case (Cons j js)
  have b: "(j, 0) \<in> A" using Cons.prems(3) by simp
  have core: "buddy_core s fl A {}" and co: "coalesced (pool_base s) (pool_pages s) fl"
    using Cons.prems(1) by (simp_all add: buddy_inv_def)
  obtain s1 where s1: "buddy_free_pages s j = Inr s1" "same_pool s s1"
    "buddy_core s1 (spec_free (pool_base s) (pool_pages s) fl j 0) (A - {(j, 0)}) {}"
    using buddy_free_pages_core [OF core b] by blast
  have "buddy_inv s1 (spec_free (pool_base s) (pool_pages s) fl j 0) (A - {(j, 0)})"
    using s1(3) spec_free_coalesced [OF buddy_core_blocks [OF core] b co] s1(2)
    by (simp add: buddy_inv_def same_pool_base same_pool_pages)
  moreover have "distinct js" "(\<lambda>j. (j, 0)) ` set js \<subseteq> A - {(j, 0)}"
    using Cons.prems(2,3) by auto
  ultimately obtain s' fl' where s': "free_each_page js s1 = Inr s'"
    "buddy_inv s' fl' (A - {(j, 0)} - (\<lambda>j. (j, 0)) ` set js)" "same_pool s1 s'"
    using Cons.IH by blast
  moreover have "A - {(j, 0)} - (\<lambda>j. (j, 0)) ` set js = A - (\<lambda>j. (j, 0)) ` set (j # js)" by auto
  ultimately show ?case using s1 same_pool_trans by auto
qed auto

text \<open>
  The state between the two last loops of \<open>init_buddy\<close>: every page is an allocated block of
  order 0.
\<close>

lemma blocks_ok_all_allocated:
  "blocks_ok base n (\<lambda>_. []) ((\<lambda>j. (j, 0)) ` {..<n}) {}"
  by (auto simp: blocks_ok_def free_blocks_def tiles_def)

lemma all_allocated_inv:
  assumes "pool_ok s" "\<forall>k < 14. dll (links s) (FreeListHead k) []" "\<forall>k < 14. nr_free s k = 0"
    and "\<forall>i < pool_pages s. page_is s 1 (i, 0)"
  shows "buddy_inv s (\<lambda>_. []) ((\<lambda>j. (j, 0)) ` {..<pool_pages s})"
proof -
  have "list_family dll FreeListHead PageNode {..<14} (links s) (\<lambda>_. [])"
    using assms(2) by (auto simp: list_family_def inj_on_def)
  then show ?thesis
    using assms blocks_ok_all_allocated
    by (auto simp: buddy_inv_def buddy_core_def free_blocks_def coalesced_def)
qed

definition init_addr_ok :: "u64 \<Rightarrow> u64 \<Rightarrow> bool" where
  "init_addr_ok start_addr page_num \<longleftrightarrow>
     4096 dvd unat start_addr \<and> unat page_num < 2 ^ 31 \<and>
     unat start_addr + unat page_num * 4096 < 2 ^ 64"

lemma init_buddy_ok:
  assumes addr: "init_addr_ok start_addr page_num"
    and nodes: "dom (links s) - range PageNode = FreeListHead ` {..<14}" and one: "physmem_map_num s = 1"
  shows "\<exists>s' fl. init_buddy s start_page start_addr page_num = Inr s' \<and> buddy_inv s' fl {} \<and>
    pool_start_addr s' = start_addr \<and> pool_pages s' = unat page_num \<and>
    pool_phys_page_num s' = page_num \<and> page_metadata_addr s' = start_page \<and>
    buddy_state.more s' = buddy_state.more s \<and>
    (\<forall>i pg. page_metadata s' i = Some pg \<longrightarrow> page_slab pg = 0)"
proof -
  define n where "n = unat page_num"
  define s1 where "s1 = s\<lparr>pool_start_addr := start_addr, page_metadata_addr := start_page,
    pool_mem_size := page_num * 0x1000, pool_phys_page_num := page_num\<rparr>"
  have n: "n < 2 ^ 31" "page_num = of_nat n" using addr by (simp_all add: n_def init_addr_ok_def)
  then have size: "unat (page_num * 0x1000) = n * 4096"
    by (simp add: unat_mult_4096)
  have sub: "FreeListHead ` set [0..<14] \<subseteq> dom (links s1)"
  proof -
    have "FreeListHead ` {..<14} \<subseteq> dom (links s)" using nodes by blast
    then show ?thesis by (simp add: s1_def atLeast0LessThan)
  qed
  obtain l where l: "init_free_lists [0..<14] s1 = Inr (s1\<lparr>nr_free :=
      (\<lambda>k. if k \<in> set [0..<14] then 0 else nr_free s1 k), links := l\<rparr>)" "dom l = dom (links s1)"
      "\<forall>k \<in> set [0..<14]. dll l (FreeListHead k) []"
    using init_free_lists_ok [OF sub] by blast
  define s2 where "s2 = s1\<lparr>nr_free := (\<lambda>k. if k \<in> set [0..<14] then 0 else nr_free s1 k), links := l\<rparr>"
  define s3 where "s3 = clear_page_metadata n s2"
  let ?p = "zero_page\<lparr>allocated := 1, page_order := 0, page_pool := GlobalMem0\<rparr>"
  define s4 where "s4 = s3\<lparr>page_metadata := (\<lambda>i. if i < n then Some ?p else None)\<rparr>"
  have s4: "init_page_metadata [0..<n] s3 = Inr s4"
  proof -
    have "init_page_metadata [0..<n] s3 = Inr (s3\<lparr>page_metadata := (\<lambda>i. if i \<in> set [0..<n] then
        map_option (\<lambda>p. p\<lparr>allocated := 1, page_order := 0, page_pool := GlobalMem0\<rparr>) (page_metadata s3 i)
        else page_metadata s3 i)\<rparr>)"
      by (rule init_page_metadata_ok) (auto simp: s3_def clear_page_metadata_def dom_def)
    moreover have "(\<lambda>i. if i \<in> set [0..<n] then
        map_option (\<lambda>p. p\<lparr>allocated := 1, page_order := 0, page_pool := GlobalMem0\<rparr>) (page_metadata s3 i)
        else page_metadata s3 i) = (\<lambda>i. if i < n then Some ?p else None)"
      by (auto simp: s3_def clear_page_metadata_def fun_eq_iff)
    ultimately show ?thesis by (simp add: s4_def)
  qed
  have links4: "links s4 = (\<lambda>p. case p of
      PageNode i \<Rightarrow> if i < n then Some \<lparr>prev_of = NodeNull, next_of = NodeNull\<rparr> else None | _ \<Rightarrow> l p)"
  proof -
    have "links s2 = l" by (simp add: s2_def)
    then show ?thesis by (simp add: s4_def s3_def clear_page_metadata_def cong: node_ptr.case_cong)
  qed
  have start4: "pool_start_addr s4 = start_addr" "pool_mem_size s4 = page_num * 0x1000"
    "physmem_map_num s4 = 1" "pool_phys_page_num s4 = page_num" "page_metadata_addr s4 = start_page"
    "buddy_state.more s4 = buddy_state.more s"
    using one by (simp_all add: s4_def s3_def clear_page_metadata_def s2_def s1_def)
  have pages4: "pool_pages s4 = n" by (simp add: pool_pages_def start4 size)
  have dom4: "dom (links s4) = PageNode ` {..<n} \<union> FreeListHead ` {..<14}"
  proof -
    have "dom l - range PageNode = FreeListHead ` {..<14}" using nodes l(2) by (simp add: s1_def)
    then have l0: "l x \<noteq> None \<longleftrightarrow> x \<in> FreeListHead ` {..<14}" if "x \<notin> range PageNode" for x
      using that by (metis DiffD1 DiffI domIff)
    have "links s4 x \<noteq> None \<longleftrightarrow> x \<in> PageNode ` {..<n} \<union> FreeListHead ` {..<14}" for x
    proof (cases x)
      case (PageNode i)
      then show ?thesis unfolding links4 by (auto simp: image_iff)
    next
      case NodeNull
      then show ?thesis using l0 [of x] unfolding links4 by (simp add: image_iff)
    next
      case (FreeListHead k)
      then show ?thesis using l0 [of x] unfolding links4 by (simp add: image_iff)
    qed
    then show ?thesis by (intro set_eqI) (simp add: domIff)
  qed
  have pok: "pool_ok s4"
    using addr pages4 dom4 start4 unfolding pool_ok_def init_addr_ok_def
    by (auto simp: size n_def s4_def dom_def split: if_splits)
  have heads: "dll (links s4) (FreeListHead k) []" if "k < 14" for k
    using l(3) that by (simp add: dll_Nil links4 nxt_def prv_def)
  have nf: "nr_free s4 k = 0" if "k < 14" for k
    using that by (simp add: s4_def s3_def clear_page_metadata_def s2_def)
  have "page_is s4 1 (i, 0)" if "i < pool_pages s4" for i
    using that unfolding pages4 page_is_def by (simp add: s4_def)
  then have "buddy_inv s4 (\<lambda>_. []) ((\<lambda>j. (j, 0)) ` {..<pool_pages s4})"
    using heads nf pok by (intro all_allocated_inv) simp_all
  moreover have "distinct [0..<n]" "(\<lambda>j. (j, 0)) ` set [0..<n] = (\<lambda>j. (j, 0)) ` {..<pool_pages s4}"
    by (simp_all add: pages4 atLeast0LessThan)
  ultimately obtain s5 fl where s5: "free_each_page [0..<n] s4 = Inr s5"
      "buddy_inv s5 fl {}" "same_pool s4 s5"
    using free_each_page_ok [of s4 "\<lambda>_. []" "(\<lambda>j. (j, 0)) ` {..<pool_pages s4}" "[0..<n]"]
    by (metis Diff_cancel order_refl)
  have "init_buddy s start_page start_addr page_num = Inr s5"
    using l(1) s4 s5(1) n(1) unfolding init_buddy_def s1_def [symmetric] n_def [symmetric] Let_def
    by (simp add: s2_def s3_def)
  moreover have "pool_pages s5 = unat page_num"
    using same_pool_pages [OF s5(3)] pages4 by (simp add: n_def)
  moreover have "page_slab pg = 0" if "page_metadata s5 i = Some pg" for i pg
  proof -
    have "map_option page_slab (page_metadata s4 i) = Some (page_slab pg)"
      using s5(3) that unfolding same_pool_def by (metis option.simps(9))
    then show ?thesis by (auto simp: s4_def zero_page_def split: if_splits)
  qed
  ultimately show ?thesis using s5 start4 unfolding same_pool_def by auto
qed

end
