(* ===== verification/Buddy_Correct.thy ===== *)
theory Buddy_Correct
  imports Buddy_Refine
begin

text \<open>
  What the buddy allocator guarantees to its callers, from the invariant \<open>buddy_inv\<close>: the
  refinement of the abstract allocator, when an allocation fails, what memory a chunk
  covers, the accounting of free memory, and the safety of every history of calls after
  \<open>init_buddy\<close> (\<open>buddy_reach\<close>).
\<close>

subsection \<open>The operations preserve the invariant\<close>

lemma buddy_inv_core: "buddy_inv s fl A \<Longrightarrow> buddy_core s fl A {}"
  and buddy_inv_coalesced: "buddy_inv s fl A \<Longrightarrow> coalesced (pool_base s) (pool_pages s) fl"
  by (simp_all add: buddy_inv_def)

lemma buddy_inv_blocks: "buddy_inv s fl A \<Longrightarrow> blocks_ok (pool_base s) (pool_pages s) fl A {}"
  by (rule buddy_core_blocks [OF buddy_inv_core])

lemma buddy_inv_pool: "buddy_inv s fl A \<Longrightarrow> pool_ok s"
  by (rule buddy_core_pool [OF buddy_inv_core])

lemma buddy_inv_get:
  assumes inv: "buddy_inv s fl A" and ord: "ord < 14"
  shows "case spec_get fl ord of
      None \<Rightarrow> buddy_get_pages s (of_nat ord) = Inr (s, None)
    | Some (fl', i) \<Rightarrow> \<exists>s'. buddy_get_pages s (of_nat ord) = Inr (s', Some i) \<and>
        buddy_inv s' fl' (insert (i, ord) A) \<and> same_pool s s'"
proof (cases "spec_get fl ord")
  case None
  then show ?thesis using buddy_get_pages_core [OF buddy_inv_core [OF inv] ord] by simp
next
  case (Some r)
  obtain fl' i where r: "r = (fl', i)" by fastforce
  obtain s' where s': "buddy_get_pages s (of_nat ord) = Inr (s', Some i)"
    "buddy_core s' fl' (insert (i, ord) A) {}" "same_pool s s'"
    using buddy_get_pages_core [OF buddy_inv_core [OF inv] ord] Some r by auto
  have "coalesced (pool_base s) (pool_pages s) fl'"
    using spec_get_coalesced [OF buddy_inv_blocks [OF inv] buddy_inv_coalesced [OF inv]] Some r
    by simp
  then have "buddy_inv s' fl' (insert (i, ord) A)"
    using s'(2) same_pool_base [OF s'(3)] same_pool_pages [OF s'(3)] by (simp add: buddy_inv_def)
  with s' Some r show ?thesis by auto
qed

lemma buddy_inv_free:
  assumes inv: "buddy_inv s fl A" and b: "(i, k) \<in> A"
  shows "\<exists>s'. buddy_free_pages s i = Inr s' \<and> same_pool s s' \<and>
    buddy_inv s' (spec_free (pool_base s) (pool_pages s) fl i k) (A - {(i, k)})"
proof -
  obtain s' where s': "buddy_free_pages s i = Inr s'" "same_pool s s'"
    "buddy_core s' (spec_free (pool_base s) (pool_pages s) fl i k) (A - {(i, k)}) {}"
    using buddy_free_pages_core [OF buddy_inv_core [OF inv] b] by blast
  moreover have "coalesced (pool_base s) (pool_pages s) (spec_free (pool_base s) (pool_pages s) fl i k)"
    using spec_free_coalesced [OF buddy_inv_blocks [OF inv] b buddy_inv_coalesced [OF inv]] .
  ultimately show ?thesis
    using same_pool_base [OF s'(2)] same_pool_pages [OF s'(2)] by (simp add: buddy_inv_def)
qed

text \<open>A successful allocation, with the chunk it returns.\<close>

lemma buddy_inv_get_Some:
  assumes inv: "buddy_inv s fl A" and ord: "ord < 14"
    and get: "buddy_get_pages s (of_nat ord) = Inr (s', Some i)"
  obtains fl' where "spec_get fl ord = Some (fl', i)" "buddy_inv s' fl' (insert (i, ord) A)"
    "same_pool s s'" "(i, ord) \<notin> A"
proof -
  obtain fl' where fl': "spec_get fl ord = Some (fl', i)"
    using buddy_inv_get [OF inv ord] get by (auto split: option.splits)
  moreover have "(i, ord) \<notin> A"
    using spec_get_ok [OF buddy_inv_blocks [OF inv] fl'] by simp
  ultimately show thesis
    using that buddy_inv_get [OF inv ord] get by auto
qed

lemma buddy_inv_get_None:
  assumes inv: "buddy_inv s fl A" and ord: "ord < 14"
  shows "buddy_get_pages s (of_nat ord) = Inr (s', None) \<longleftrightarrow>
    s' = s \<and> \<not> (\<exists>i. run_free (pool_base s) (pool_pages s) A i ord)"
proof -
  have "buddy_get_pages s (of_nat ord) = Inr (s', None) \<longleftrightarrow> s' = s \<and> spec_get fl ord = None"
    using buddy_inv_get [OF inv ord] by (auto split: option.splits)
  then show ?thesis
    using spec_get_complete [OF buddy_inv_blocks [OF inv] buddy_inv_coalesced [OF inv] ord] by simp
qed

lemma order_of_u64: "order < 14 \<Longrightarrow> unat order < 14 \<and> of_nat (unat order) = (order :: u64)"
  by (simp add: word_less_nat_alt)

lemma buddy_get_invalid: "14 \<le> order \<Longrightarrow> buddy_get_pages s order = Inr (s, None)"
  by (simp add: buddy_get_pages_def)

subsection \<open>Allocated blocks\<close>

lemma allocated_block:
  assumes inv: "buddy_inv s fl A" and b: "(i, k) \<in> A"
  shows "k < 14" "2 ^ k dvd pool_base s + i" "i + 2 ^ k \<le> pool_pages s" "page_is s 1 (i, k)"
  using blocks_ok_block [OF buddy_inv_blocks [OF inv], of i k] b buddy_inv_core [OF inv]
  by (auto simp: buddy_core_def)

lemma allocated_disjoint:
  assumes inv: "buddy_inv s fl A" and b: "b \<in> A" "c \<in> A" "b \<noteq> c"
  shows "block b \<inter> block c = {}"
proof (rule ccontr)
  assume "block b \<inter> block c \<noteq> {}"
  then obtain x where "x \<in> block b" "x \<in> block c" by blast
  then have "b = c"
    using tiles_unique [OF blocks_ok_tiles [OF buddy_inv_blocks [OF inv]], of b c x] b by simp
  with b(3) show False by simp
qed

lemma allocated_finite: "buddy_inv s fl A \<Longrightarrow> finite A"
  using finite_tiles [OF blocks_ok_tiles [OF buddy_inv_blocks]] by fastforce

text \<open>
  The free blocks of a state of the invariant are determined by its allocated blocks: they
  are the maximal aligned blocks outside them. So allocating and freeing in any order never
  fragments the pool.
\<close>

lemma free_block_is_run:
  assumes ok: "blocks_ok base N fl A {}" and b: "(h, k) \<in> free_blocks fl"
  shows "run_free base N A h k" "k < 14"
proof -
  have "block c \<inter> block (h, k) = {}" if "c \<in> A" for c
  proof (rule ccontr)
    assume "block c \<inter> block (h, k) \<noteq> {}"
    then obtain x where "x \<in> block c" "x \<in> block (h, k)" by blast
    then have "c = (h, k)"
      using tiles_unique [OF blocks_ok_tiles [OF ok], of c "(h, k)" x] that b by simp
    with that b ok show False by (auto simp: blocks_ok_def)
  qed
  then show "run_free base N A h k" "k < 14"
    using blocks_ok_block [OF ok, of h k] b by (auto simp: run_free_def)
qed

lemma free_blocks_subset:
  assumes ok: "blocks_ok base N fl A {}" "blocks_ok base N fl' A {}"
    and co: "coalesced base N fl" "coalesced base N fl'"
  shows "free_blocks fl \<subseteq> free_blocks fl'"
proof clarify
  fix h k assume b: "(h, k) \<in> free_blocks fl"
  obtain h1 k1 where 1: "(h1, k1) \<in> free_blocks fl'" "k \<le> k1" "block (h, k) \<subseteq> block (h1, k1)"
    using run_free_in_block [OF ok(2) co(2) free_block_is_run [OF ok(1) b]]
    by (auto simp: free_blocks_def)
  obtain h2 k2 where 2: "(h2, k2) \<in> free_blocks fl" "k1 \<le> k2" "block (h1, k1) \<subseteq> block (h2, k2)"
    using run_free_in_block [OF ok(1) co(1) free_block_is_run [OF ok(2) 1(1)]]
    by (auto simp: free_blocks_def)
  have "h \<in> block (h2, k2)" using 1(3) 2(3) block_head by blast
  then have e: "(h, k) = (h2, k2)"
    using tiles_unique [OF blocks_ok_tiles [OF ok(1)], of "(h, k)" "(h2, k2)" h] b 2(1) by simp
  then have "block (h1, k1) = block (h, k)" and k: "k1 = k" using 1 2 by auto
  then have "h1 \<in> block (h, k)" "h \<in> block (h1, k1)" using block_head by blast+
  then have "h1 = h" by simp
  with 1(1) k show "(h, k) \<in> free_blocks fl'" by simp
qed

lemma free_blocks_determined:
  assumes "buddy_inv s fl A" "buddy_inv s' fl' A" "same_pool s s'"
  shows "free_blocks fl = free_blocks fl'"
  using free_blocks_subset [of "pool_base s" "pool_pages s" fl A fl']
    free_blocks_subset [of "pool_base s" "pool_pages s" fl' A fl]
    buddy_inv_blocks [OF assms(1)] buddy_inv_blocks [OF assms(2)]
    buddy_inv_coalesced [OF assms(1)] buddy_inv_coalesced [OF assms(2)]
    same_pool_base [OF assms(3)] same_pool_pages [OF assms(3)]
  by auto

subsection \<open>The size of free memory\<close>

lemma fold_add_eq_sum:
  "fold (\<lambda>k t. t + f k) xs (t :: u64) = t + sum_list (map f xs)"
  by (induction xs arbitrary: t) (simp_all add: algebra_simps)

lemma get_free_mem_size_sum:
  "get_free_mem_size_from_buddy s = (\<Sum>k < 14. nr_free s k * (0x1000 * 2 ^ k))"
proof -
  have "get_free_mem_size_from_buddy s =
      sum_list (map (\<lambda>k. nr_free s k * (0x1000 * push_bit k 1)) [0..<14])"
    unfolding get_free_mem_size_from_buddy_def by (simp only: fold_add_eq_sum add_0)
  also have "\<dots> = (\<Sum>k \<leftarrow> [0..<14]. nr_free s k * (0x1000 * 2 ^ k))"
    by (simp only: push_bit_eq_mult mult_1)
  also have "\<dots> = (\<Sum>k < 14. nr_free s k * (0x1000 * 2 ^ k))"
    by (simp only: interv_sum_list_conv_sum_set_nat set_upt atLeast0LessThan)
  finally show ?thesis .
qed

lemma free_mem_size_ok:
  assumes inv: "buddy_inv s fl A"
  shows "unat (get_free_mem_size_from_buddy s) + (\<Sum>(i, k) \<in> A. 4096 * 2 ^ k) = unat (pool_mem_size s)"
proof -
  let ?n = "\<Sum>k < 14. length (fl k) * 2 ^ k"
  have cnt: "?n + (\<Sum>(i, k) \<in> A. 2 ^ k) = pool_pages s"
    by (rule blocks_ok_count [OF buddy_inv_blocks [OF inv]])
  note pa = pool_ok_addr [OF buddy_inv_pool [OF inv]]
  have "get_free_mem_size_from_buddy s = (\<Sum>k < 14. of_nat (length (fl k)) * (0x1000 * 2 ^ k))"
    using buddy_inv_core [OF inv] unfolding get_free_mem_size_sum
    by (intro sum.cong) (simp_all add: buddy_core_def)
  also have "\<dots> = of_nat (\<Sum>k < 14. length (fl k) * (4096 * 2 ^ k))"
    by (simp only: of_nat_sum of_nat_mult of_nat_power of_nat_numeral)
  also have "(\<Sum>k < 14. length (fl k) * (4096 * 2 ^ k)) = ?n * 4096"
    by (simp only: sum_distrib_right) (simp add: mult.assoc mult.commute)
  finally have "get_free_mem_size_from_buddy s = of_nat (?n * 4096)" .
  moreover have "?n * 4096 \<le> pool_pages s * 4096" using cnt by (intro mult_le_mono1) linarith
  then have "?n * 4096 < 2 ^ 64" using pa(4) unfolding add_mult_distrib by linarith
  ultimately have "unat (get_free_mem_size_from_buddy s) = ?n * 4096"
    by (simp only: unat_of_nat_less)
  moreover have "(\<Sum>(i, k) \<in> A. 4096 * 2 ^ k) = (\<Sum>(i, k) \<in> A. 2 ^ k) * (4096 :: nat)"
    by (simp add: sum_distrib_right split_def mult.commute)
  ultimately show ?thesis
    unfolding pa(2) cnt [symmetric] by (simp only: add_mult_distrib)
qed

subsection \<open>Histories\<close>

text \<open>
  The pool before \<open>init_buddy\<close>: \<open>global_mem\<close> is a global of mm.c, so its bytes are zero, and
  \<open>parse_mem_map\<close> has set \<open>physmem_map_num\<close> to 1.
\<close>

definition global_mem :: buddy_state where
  "global_mem = \<lparr>pool_start_addr = 0, pool_mem_size = 0, pool_phys_page_num = 0,
     page_metadata_addr = 0, page_metadata = (\<lambda>_. None), nr_free = (\<lambda>_. 0),
     links = (\<lambda>p. case p of
        FreeListHead k \<Rightarrow> if k < BUDDY_MAX_ORDER then Some \<lparr>prev_of = NodeNull, next_of = NodeNull\<rparr> else None
      | _ \<Rightarrow> None),
     physmem_map_num = 1\<rparr>"

text \<open>
  The calls a client of the allocator can make after \<open>init_buddy\<close>: any request, and the
  release of any chunk it holds, in any order. \<open>buddy_reach s A\<close>: \<open>s\<close> is the state after
  such a history in which the chunks \<open>A\<close> are held.
\<close>

inductive buddy_reach :: "buddy_state \<Rightarrow> (nat \<times> nat) set \<Rightarrow> bool" where
  reach_init: "init_addr_ok start_addr page_num \<Longrightarrow>
    init_buddy global_mem start_page start_addr page_num = Inr s \<Longrightarrow> buddy_reach s {}"
| reach_get: "buddy_reach s A \<Longrightarrow> buddy_get_pages s order = Inr (s', Some i) \<Longrightarrow>
    buddy_reach s' (insert (i, unat order) A)"
| reach_get_fail: "buddy_reach s A \<Longrightarrow> buddy_get_pages s order = Inr (s', None) \<Longrightarrow> buddy_reach s' A"
| reach_free: "buddy_reach s A \<Longrightarrow> (i, k) \<in> A \<Longrightarrow> buddy_free_pages s i = Inr s' \<Longrightarrow>
    buddy_reach s' (A - {(i, k)})"

inductive_cases buddy_reach_cases: "buddy_reach s A"

lemma global_mem_nodes:
  "dom (links global_mem) - range PageNode = FreeListHead ` {..<14}" "physmem_map_num global_mem = 1"
proof -
  have "links global_mem x \<noteq> None \<longleftrightarrow> x \<in> FreeListHead ` {..<14}" for x
    by (cases x) (auto simp: global_mem_def image_iff)
  then have "dom (links global_mem) = FreeListHead ` {..<14}" by (intro set_eqI) (simp add: domIff)
  then show "dom (links global_mem) - range PageNode = FreeListHead ` {..<14}" by auto
qed (simp add: global_mem_def)

lemma buddy_reach_inv: "buddy_reach s A \<Longrightarrow> \<exists>fl. buddy_inv s fl A"
proof (induction rule: buddy_reach.induct)
  case (reach_init start_addr page_num start_page s)
  then show ?case
    using init_buddy_ok [OF reach_init(1) global_mem_nodes, of start_page] by auto
next
  case (reach_get s A order s' i)
  obtain fl where fl: "buddy_inv s fl A" using reach_get.IH by blast
  have "order < 14" using buddy_get_invalid [of order s] reach_get.hyps(2) by (cases "14 \<le> order") auto
  with order_of_u64 have o: "unat order < 14" "of_nat (unat order) = order" by blast+
  then obtain fl' where "buddy_inv s' fl' (insert (i, unat order) A)"
    using buddy_inv_get_Some [OF fl o(1), of s' i] reach_get.hyps(2) by auto
  then show ?case by blast
next
  case (reach_get_fail s A order s')
  obtain fl where fl: "buddy_inv s fl A" using reach_get_fail.IH by blast
  have "s' = s"
  proof (cases "14 \<le> order")
    case False
    then have o: "unat order < 14" "of_nat (unat order) = order" using order_of_u64 [of order] by auto
    show ?thesis using buddy_inv_get_None [OF fl o(1)] o(2) reach_get_fail.hyps(2) by auto
  qed (use buddy_get_invalid [of order s] reach_get_fail.hyps(2) in simp)
  with fl show ?case by blast
next
  case (reach_free s A i k s')
  then obtain fl where "buddy_inv s fl A" by blast
  from buddy_inv_free [OF this reach_free.hyps(2)] reach_free.hyps(3) show ?case by auto
qed

text \<open>Two small states for concrete calls: eight pages at \<open>0x100000\<close>, and one chunk of two held.\<close>

definition booted :: buddy_state where
  "booted = projr (init_buddy global_mem 0xffffff00000ff000 0xffffff0000100000 8)"

definition booted_held :: "buddy_state \<times> nat" where
  "booted_held = (case projr (buddy_get_pages booted 1) of (s, r) \<Rightarrow> (s, the r))"

lemma booted_ok:
  "init_addr_ok 0xffffff0000100000 8"
  "init_buddy global_mem 0xffffff00000ff000 0xffffff0000100000 8 = Inr booted"
  "buddy_reach booted {}" "\<exists>fl. buddy_inv booted fl {}" "pool_base booted = 0xffffff0000100" "pool_pages booted = 8"
proof -
  show a: "init_addr_ok 0xffffff0000100000 8" by (simp add: init_addr_ok_def)
  from init_buddy_ok [OF a global_mem_nodes, of "0xffffff00000ff000"]
  obtain s fl where s: "init_buddy global_mem 0xffffff00000ff000 0xffffff0000100000 8 = Inr s"
    "buddy_inv s fl {}" "pool_start_addr s = 0xffffff0000100000" "pool_pages s = 8" by auto
  then have "booted = s" by (simp add: booted_def)
  with s show "init_buddy global_mem 0xffffff00000ff000 0xffffff0000100000 8 = Inr booted"
    "\<exists>fl. buddy_inv booted fl {}" "pool_base booted = 0xffffff0000100" "pool_pages booted = 8"
    by (auto simp: pool_base_def)
  then show "buddy_reach booted {}" using reach_init [OF a] by blast
qed

lemma booted_held_ok:
  obtains s i fl where "booted_held = (s, i)" "buddy_get_pages booted 1 = Inr (s, Some i)"
    "buddy_inv s fl {(i, 1)}" "buddy_reach s {(i, 1)}" "same_pool booted s"
proof -
  obtain fl0 where inv: "buddy_inv booted fl0 {}" using booted_ok(4) by blast
  have "run_free (pool_base booted) (pool_pages booted) {} 0 1"
    by (simp add: run_free_def booted_ok)
  then have "buddy_get_pages booted (of_nat 1) \<noteq> Inr (booted, None)"
    using buddy_inv_get_None [OF inv, of 1] by auto
  then obtain s i where g: "buddy_get_pages booted (of_nat 1) = Inr (s, Some i)"
    using buddy_inv_get [OF inv, of 1] by (auto split: option.splits)
  obtain fl where fl: "buddy_inv s fl {(i, 1)}" "same_pool booted s"
    using buddy_inv_get_Some [OF inv _ g] by auto
  have "buddy_reach s {(i, 1)}" using reach_get [OF booted_ok(3), of 1 s i] g by simp
  moreover have "booted_held = (s, i)" using g by (simp add: booted_held_def)
  ultimately show thesis using that fl g by simp
qed

subsection \<open>The guarantees of the allocator\<close>

text \<open>C3: \<open>init_buddy\<close> on the zeroed pool returns, establishes the invariant with every
  page free, and sets up the bounds it was given; no BUG_ON fires in its frees.\<close>

theorem init_buddy_correct:
  assumes "init_addr_ok start_addr page_num"
  shows "\<exists>s fl. init_buddy global_mem start_page start_addr page_num = Inr s \<and> buddy_inv s fl {} \<and>
    pool_start_addr s = start_addr \<and> pool_pages s = unat page_num \<and>
    unat (get_free_mem_size_from_buddy s) = 4096 * unat page_num"
proof -
  obtain s fl where s: "init_buddy global_mem start_page start_addr page_num = Inr s"
    "buddy_inv s fl {}" "pool_start_addr s = start_addr" "pool_pages s = unat page_num"
    using init_buddy_ok [OF assms global_mem_nodes, of start_page] by auto
  moreover have "unat (get_free_mem_size_from_buddy s) = 4096 * unat page_num"
    using free_mem_size_ok [OF s(2)] pool_ok_addr(2) [OF buddy_inv_pool [OF s(2)]] s(4) by simp
  ultimately show ?thesis by blast
qed

theorem init_buddy_correct_witness:
  "\<exists>s fl. init_buddy global_mem 0xffffff00000ff000 0xffffff0000100000 8 = Inr s \<and> buddy_inv s fl {} \<and>
    pool_pages s = 8 \<and> unat (get_free_mem_size_from_buddy s) = 32768"
  using init_buddy_correct [OF booted_ok(1), of "0xffffff00000ff000"] by auto

text \<open>C4: an allocation of a valid order computes what the abstract allocator computes:
  the smallest sufficient free chunk, split down, its upper halves put on the lower lists;
  the invariant holds again and nothing else of the state changes.\<close>

theorem buddy_get_pages_refines:
  assumes "buddy_inv s fl A" "ord < 14"
  shows "case spec_get fl ord of
      None \<Rightarrow> buddy_get_pages s (of_nat ord) = Inr (s, None)
    | Some (fl', i) \<Rightarrow> \<exists>s'. buddy_get_pages s (of_nat ord) = Inr (s', Some i) \<and>
        buddy_inv s' fl' (insert (i, ord) A) \<and> same_pool s s'"
  using assms by (rule buddy_inv_get)

theorem buddy_get_pages_refines_witness:
  "\<exists>fl. buddy_inv booted fl {} \<and> (case spec_get fl 2 of
      None \<Rightarrow> buddy_get_pages booted 2 = Inr (booted, None)
    | Some (fl', i) \<Rightarrow> \<exists>s'. buddy_get_pages booted 2 = Inr (s', Some i) \<and>
        buddy_inv s' fl' {(i, 2)} \<and> same_pool booted s')"
proof -
  obtain fl where "buddy_inv booted fl {}" using booted_ok(4) by blast
  with buddy_get_pages_refines [of booted fl "{}" 2] show ?thesis
    by (intro exI [of _ fl]) (auto split: option.splits)
qed

text \<open>C5: the chunk an allocation returns is aligned to its size, lies in the pool, is
  marked allocated with the requested order, and overlaps no chunk already held.\<close>

theorem buddy_get_pages_chunk:
  assumes "buddy_inv s fl A" "ord < 14" "buddy_get_pages s (of_nat ord) = Inr (s', Some i)"
  shows "2 ^ ord dvd pool_base s + i \<and> i + 2 ^ ord \<le> pool_pages s \<and> page_is s' 1 (i, ord) \<and>
    (\<forall>b \<in> A. block b \<inter> block (i, ord) = {})"
proof -
  obtain fl' where fl': "buddy_inv s' fl' (insert (i, ord) A)" "same_pool s s'" "(i, ord) \<notin> A"
    using buddy_inv_get_Some [OF assms] .
  note b = allocated_block [OF fl'(1) insertI1]
  have "block b \<inter> block (i, ord) = {}" if "b \<in> A" for b
    using allocated_disjoint [OF fl'(1), of b "(i, ord)"] that fl'(3) by auto
  with b show ?thesis
    using same_pool_base [OF fl'(2)] same_pool_pages [OF fl'(2)] by simp
qed

theorem buddy_get_pages_chunk_witness:
  "\<exists>s i. booted_held = (s, i) \<and> 2 dvd pool_base booted + i \<and> i + 2 \<le> 8 \<and> page_is s 1 (i, 1)"
proof -
  obtain fl where fl: "buddy_inv booted fl {}" using booted_ok(4) by blast
  obtain s i where si: "booted_held = (s, i)" "buddy_get_pages booted 1 = Inr (s, Some i)"
    by (rule booted_held_ok)
  show ?thesis
    using buddy_get_pages_chunk [OF fl, of 1 s i] si
    by (intro exI [of _ s] exI [of _ i]) (simp add: booted_ok(6))
qed

text \<open>C6: \<open>buddy_get_pages\<close> returns for every order, and it returns NULL exactly when the
  order is invalid or no aligned run of \<open>2 ^ order\<close> pages is free: fragmentation never
  makes an allocation fail.\<close>

theorem buddy_get_pages_fails_iff:
  assumes "buddy_inv s fl A"
  shows "(\<exists>s' r. buddy_get_pages s order = Inr (s', r)) \<and>
    ((\<exists>s'. buddy_get_pages s order = Inr (s', None)) \<longleftrightarrow>
      14 \<le> order \<or> \<not> (\<exists>i. run_free (pool_base s) (pool_pages s) A i (unat order)))"
proof (cases "14 \<le> order")
  case False
  then have o: "unat order < 14" "of_nat (unat order) = order" using order_of_u64 [of order] by auto
  have "\<exists>s' r. buddy_get_pages s order = Inr (s', r)"
    using buddy_inv_get [OF assms o(1)] o(2) by (auto split: option.splits)
  then show ?thesis using False buddy_inv_get_None [OF assms o(1)] o(2) by simp
qed (simp add: buddy_get_invalid)

theorem buddy_get_pages_fails_iff_witness:
  "(\<exists>s'. buddy_get_pages booted 14 = Inr (s', None)) \<and> (\<exists>s' i. buddy_get_pages booted 3 = Inr (s', Some i))"
proof -
  obtain fl where fl: "buddy_inv booted fl {}" using booted_ok(4) by blast
  have "run_free (pool_base booted) (pool_pages booted) {} 0 3" by (simp add: run_free_def booted_ok)
  then show ?thesis
    using buddy_get_pages_fails_iff [OF fl, of 14] buddy_get_pages_fails_iff [OF fl, of 3]
    by (auto simp: not_Some_eq)
qed

text \<open>C7: freeing a held chunk returns (no BUG_ON fires), merges it as the abstract
  allocator does, and keeps the invariant with the chunk no longer held.\<close>

theorem buddy_free_pages_refines:
  assumes "buddy_inv s fl A" "(i, k) \<in> A"
  shows "\<exists>s'. buddy_free_pages s i = Inr s' \<and> same_pool s s' \<and>
    buddy_inv s' (spec_free (pool_base s) (pool_pages s) fl i k) (A - {(i, k)})"
  using assms by (rule buddy_inv_free)

theorem buddy_free_pages_refines_witness:
  "\<exists>s i fl s'. booted_held = (s, i) \<and> buddy_free_pages s i = Inr s' \<and> buddy_inv s' fl {}"
proof -
  obtain s i fl where si: "booted_held = (s, i)" "buddy_inv s fl {(i, 1)}"
    by (rule booted_held_ok)
  from buddy_free_pages_refines [OF si(2), of i 1] si(1) show ?thesis by auto
qed

text \<open>C8: allocating a chunk and freeing it again brings back the same free chunks: buddies
  are merged completely, so no history leaves the pool fragmented.\<close>

theorem buddy_get_free_roundtrip:
  assumes "buddy_inv s fl A" "ord < 14" "buddy_get_pages s (of_nat ord) = Inr (s1, Some i)"
  shows "\<exists>s2 fl2. buddy_free_pages s1 i = Inr s2 \<and> buddy_inv s2 fl2 A \<and> free_blocks fl2 = free_blocks fl"
proof -
  obtain fl1 where g: "buddy_inv s1 fl1 (insert (i, ord) A)" "same_pool s s1" "(i, ord) \<notin> A"
    using buddy_inv_get_Some [OF assms] .
  have "insert (i, ord) A - {(i, ord)} = A" using g(3) by simp
  with buddy_inv_free [OF g(1), of i ord] obtain s2 where
    s2: "buddy_free_pages s1 i = Inr s2" "same_pool s1 s2"
      "buddy_inv s2 (spec_free (pool_base s1) (pool_pages s1) fl1 i ord) A" by auto
  moreover have "same_pool s s2" using g(2) s2(2) by (rule same_pool_trans)
  ultimately show ?thesis using free_blocks_determined [OF assms(1) s2(3)] by blast
qed

theorem buddy_get_free_roundtrip_witness:
  "\<exists>fl s i s2 fl2. buddy_inv booted fl {} \<and> booted_held = (s, i) \<and> buddy_free_pages s i = Inr s2 \<and>
    buddy_inv s2 fl2 {} \<and> free_blocks fl2 = free_blocks fl"
proof -
  obtain fl where fl: "buddy_inv booted fl {}" using booted_ok(4) by blast
  obtain s i where si: "booted_held = (s, i)" "buddy_get_pages booted 1 = Inr (s, Some i)"
    by (rule booted_held_ok)
  obtain s2 fl2 where "buddy_free_pages s i = Inr s2" "buddy_inv s2 fl2 {}" "free_blocks fl2 = free_blocks fl"
    using buddy_get_free_roundtrip [OF fl, of 1 s i] si by auto
  with fl si(1) show ?thesis by blast
qed

text \<open>C9: the size \<open>get_free_mem_size_from_buddy\<close> reports and the sizes of the held chunks
  add up to the size of the pool, without overflow.\<close>

theorem buddy_free_mem_size:
  assumes "buddy_inv s fl A"
  shows "unat (get_free_mem_size_from_buddy s) + (\<Sum>(i, k) \<in> A. 4096 * 2 ^ k) = unat (pool_mem_size s)"
  using assms by (rule free_mem_size_ok)

theorem buddy_free_mem_size_witness:
  "\<exists>s i. booted_held = (s, i) \<and> unat (get_free_mem_size_from_buddy s) + 8192 = unat (pool_mem_size s)"
proof -
  obtain s i fl where si: "booted_held = (s, i)" "buddy_inv s fl {(i, 1)}"
    by (rule booted_held_ok)
  from buddy_free_mem_size [OF si(2)] si(1) show ?thesis by (intro exI conjI) simp_all
qed

text \<open>C10: after any history of requests and releases that starts with \<open>init_buddy\<close>, the
  chunks held are pairwise disjoint and inside the pool, every request returns, and
  every chunk held can be released.\<close>

theorem buddy_reach_safe:
  assumes "buddy_reach s A"
  shows "(\<forall>b \<in> A. block b \<subseteq> {..<pool_pages s}) \<and>
    (\<forall>b \<in> A. \<forall>c \<in> A. b \<noteq> c \<longrightarrow> block b \<inter> block c = {}) \<and>
    (\<forall>order. \<exists>s' r. buddy_get_pages s order = Inr (s', r)) \<and>
    (\<forall>(i, k) \<in> A. \<exists>s'. buddy_free_pages s i = Inr s')"
proof -
  obtain fl where fl: "buddy_inv s fl A" using buddy_reach_inv [OF assms] by blast
  have "\<exists>s' r. buddy_get_pages s order = Inr (s', r)" for order
  proof (cases "14 \<le> order")
    case False
    then have o: "unat order < 14" "of_nat (unat order) = order" using order_of_u64 [of order] by auto
    show ?thesis using buddy_inv_get [OF fl o(1)] o(2) by (auto split: option.splits)
  qed (simp add: buddy_get_invalid)
  moreover have "block b \<subseteq> {..<pool_pages s}" if "b \<in> A" for b
    using tiles_subset [OF blocks_ok_tiles [OF buddy_inv_blocks [OF fl]], of b] that by simp
  moreover have "\<exists>s'. buddy_free_pages s i = Inr s'" if "(i, k) \<in> A" for i k
    using buddy_inv_free [OF fl that] by blast
  ultimately show ?thesis using allocated_disjoint [OF fl] by blast
qed

theorem buddy_reach_safe_witness:
  "\<exists>s i s'. booted_held = (s, i) \<and> buddy_reach s {(i, 1)} \<and> buddy_free_pages s i = Inr s'"
proof -
  obtain s i where si: "booted_held = (s, i)" "buddy_reach s {(i, 1)}"
    by (rule booted_held_ok)
  from buddy_reach_safe [OF si(2)] si show ?thesis by auto
qed

text \<open>page metadata and addresses are inverse to each other: every address inside
  the frame of page \<open>i\<close> is mapped back to page \<open>i\<close>.\<close>

theorem page_virt_roundtrip:
  assumes "pool_ok s" "i < pool_pages s" "r < 4096"
  shows "\<exists>a. page_to_virt s i = Inr a \<and> 4096 dvd unat a \<and> virt_to_page s (a + of_nat r) = Inr i"
proof -
  obtain a where a: "page_to_virt s i = Inr a" "unat a = (pool_base s + i) * 4096"
    using page_to_virt_ok [OF assms(1,2)] by blast
  have "(pool_base s + i) * 4096 + r < (pool_base s + pool_pages s) * 4096"
    using mult_le_mono1 [of "Suc i" "pool_pages s" 4096] assms(2,3) by simp
  then have "unat a + r < 2 ^ 64" using pool_ok_addr(4) [OF assms(1)] a(2) by linarith
  moreover have "unat (of_nat r :: u64) = r" using assms(3) by (intro unat_of_nat_less) simp
  ultimately have "unat (a + of_nat r) = (pool_base s + i) * 4096 + r"
    using a(2) by (simp add: unat_word_ariths)
  then have "virt_to_page s (a + of_nat r) = Inr i" by (rule virt_to_page_ok [OF assms(1) _ assms(3,2)])
  with a show ?thesis by simp
qed

theorem page_virt_roundtrip_witness:
  "\<exists>a. page_to_virt booted 5 = Inr a \<and> 4096 dvd unat a \<and> virt_to_page booted (a + 100) = Inr 5"
proof -
  obtain fl where fl: "buddy_inv booted fl {}" using booted_ok(4) by blast
  show ?thesis
    using page_virt_roundtrip [OF buddy_inv_pool [OF fl], of 5 100] by (simp add: booted_ok(6))
qed

end
