(* ===== verification/Page_Interface.thy ===== *)
theory Page_Interface
  imports Prelude
begin

text \<open>
  The contract of a page allocator, as its clients see it: chunks of \<open>2 ^ k\<close> pages, named by
  their address and order. \<open>holds s A\<close> says that in state \<open>s\<close> exactly the chunks \<open>A\<close> are
  handed out. The lemmas of the locale are what a client concludes from the contract alone.
\<close>

fun chunk :: "u64 \<times> nat \<Rightarrow> u64 set" where
  "chunk (a, k) = {x. a \<le> x \<and> unat x < unat a + 2 ^ k * 4096}"

definition chunk_pages :: "(u64 \<times> nat) set \<Rightarrow> nat" where
  "chunk_pages A = (\<Sum>(a, k) \<in> A. 2 ^ k)"

text \<open>Releasing the chunks at the addresses of a list, in its order.\<close>

fun release_all :: "('s \<Rightarrow> u64 \<Rightarrow> 's outcome) \<Rightarrow> u64 list \<Rightarrow> 's \<Rightarrow> 's outcome" where
  "release_all free [] s = Inr s"
| "release_all free (a # as) s = rbind (free s a) (release_all free as)"

locale page_allocator =
  fixes get :: "'s \<Rightarrow> int \<Rightarrow> ('s \<times> u64) outcome"
    and free :: "'s \<Rightarrow> u64 \<Rightarrow> 's outcome"
    and holds :: "'s \<Rightarrow> (u64 \<times> nat) set \<Rightarrow> bool"
    and npages :: "'s \<Rightarrow> nat"
    and same :: "'s \<Rightarrow> 's \<Rightarrow> bool"
  assumes same_refl: "same s s"
    and same_trans: "same s t \<Longrightarrow> same t u \<Longrightarrow> same s u"
    and same_npages: "same s t \<Longrightarrow> npages t = npages s"
    and holds_finite: "holds s A \<Longrightarrow> finite A"
    and chunk_law: "holds s A \<Longrightarrow> (a, k) \<in> A \<Longrightarrow>
      a \<noteq> 0 \<and> 2 ^ k * 4096 dvd unat a \<and> unat a + 2 ^ k * 4096 < 2 ^ 64"
    and apart_law: "holds s A \<Longrightarrow> c \<in> A \<Longrightarrow> d \<in> A \<Longrightarrow> c \<noteq> d \<Longrightarrow> chunk c \<inter> chunk d = {}"
    and get_law: "holds s A \<Longrightarrow> k < 14 \<Longrightarrow> \<exists>s' a. get s (int k) = Inr (s', a) \<and> same s s' \<and>
      (if a = 0 then holds s' A else (a, k) \<notin> A \<and> holds s' (insert (a, k) A))"
    and page_law: "holds s A \<Longrightarrow> chunk_pages A < npages s \<Longrightarrow> get s 0 = Inr (s', a) \<Longrightarrow> a \<noteq> 0"
    and free_law: "holds s A \<Longrightarrow> (a, k) \<in> A \<Longrightarrow>
      \<exists>s'. free s a = Inr s' \<and> same s s' \<and> holds s' (A - {(a, k)})"
begin

lemma head_in_chunk:
  assumes "holds s A" "(a, k) \<in> A"
  shows "a \<in> chunk (a, k)"
  by simp

lemma same_address:
  assumes "holds s A" "(a, k) \<in> A" "(a, j) \<in> A"
  shows "j = k"
proof (rule ccontr)
  assume "j \<noteq> k"
  then have "chunk (a, k) \<inter> chunk (a, j) = {}" using apart_law [OF assms] by simp
  moreover have "a \<in> chunk (a, k) \<inter> chunk (a, j)" by simp
  ultimately show False by blast
qed

text \<open>While a page is free, a request for one page is served with a page of its own.\<close>

lemma get_page_ok:
  assumes h: "holds s A" and room: "chunk_pages A < npages s"
  obtains s' a where "get s 0 = Inr (s', a)" "a \<noteq> 0" "(a, 0) \<notin> A" "holds s' (insert (a, 0) A)"
    "same s s'" "chunk_pages (insert (a, 0) A) = Suc (chunk_pages A)"
    "\<And>c. c \<in> A \<Longrightarrow> chunk (a, 0) \<inter> chunk c = {}"
proof -
  obtain s' a where g: "get s (int 0) = Inr (s', a)" "same s s'"
    "if a = 0 then holds s' A else (a, 0) \<notin> A \<and> holds s' (insert (a, 0) A)"
    using get_law [OF h, of 0] by auto
  have a: "a \<noteq> 0" using page_law [OF h room] g(1) by simp
  with g(3) have n: "(a, 0) \<notin> A" "holds s' (insert (a, 0) A)" by simp_all
  have "chunk_pages (insert (a, 0) A) = Suc (chunk_pages A)"
    using n(1) holds_finite [OF h] by (simp add: chunk_pages_def)
  moreover have "chunk (a, 0) \<inter> chunk c = {}" if "c \<in> A" for c
    using apart_law [OF n(2), of "(a, 0)" c] that n(1) by auto
  ultimately show thesis using that g a n by simp
qed

lemma release_all_ok:
  "holds s A \<Longrightarrow> distinct as \<Longrightarrow> (\<And>a. a \<in> set as \<Longrightarrow> (a, k) \<in> A) \<Longrightarrow>
   \<exists>s'. release_all free as s = Inr s' \<and> same s s' \<and> holds s' (A - (\<lambda>a. (a, k)) ` set as)"
proof (induction as arbitrary: s A)
  case Nil
  then show ?case using same_refl by auto
next
  case (Cons a as)
  obtain s1 where s1: "free s a = Inr s1" "same s s1" "holds s1 (A - {(a, k)})"
    using free_law [OF Cons.prems(1), of a k] Cons.prems(3) by auto
  have "(b, k) \<in> A - {(a, k)}" if "b \<in> set as" for b
    using Cons.prems(2,3) that by auto
  with Cons.IH [OF s1(3)] Cons.prems(2) obtain s' where s': "release_all free as s1 = Inr s'"
    "same s1 s'" "holds s' (A - {(a, k)} - (\<lambda>a. (a, k)) ` set as)" by auto
  moreover have "A - {(a, k)} - (\<lambda>a. (a, k)) ` set as = A - (\<lambda>a. (a, k)) ` set (a # as)" by auto
  ultimately show ?case using s1 same_trans by auto
qed

end

end
