(* ===== verification/Pages.thy ===== *)
theory Pages
  imports Memory Buddy_Correct Page_Interface
begin

text \<open>
  The state of the kernel's memory management and the page-granular interface of
  kernel/mm/kmalloc.c: \<open>get_pages\<close> and \<open>free_pages\<close>. The contract its clients (the slab
  allocator, the page tables, \<open>kmalloc\<close>) rely on is the locale \<open>page_allocator\<close>,
  interpreted on the model of the two functions over the buddy allocator.
\<close>

subsection \<open>State\<close>

text \<open>
  \<open>mem\<close> is the kernel's memory as far as it is accessed through raw pointers, \<open>slabs\<close> the
  array of slab lists of slab.c and \<open>physmem_map\<close> the usable physical range of mm.c.
\<close>

record kernel_state = buddy_state +
  mem :: memory
  slabs :: "nat \<Rightarrow> u64"
  physmem_map :: "u64 \<times> u64"

definition KBASE :: u64 where
  "KBASE = 0xffffff0000000000"

definition phys_to_virt :: "u64 \<Rightarrow> u64" where
  "phys_to_virt x = x + KBASE"

definition virt_to_phys :: "u64 \<Rightarrow> u64" where
  "virt_to_phys x = x - KBASE"

definition read64 :: "'z kernel_state_scheme \<Rightarrow> u64 \<Rightarrow> u64 outcome" where
  "read64 s a = load64 (mem s) a"

definition read32 :: "'z kernel_state_scheme \<Rightarrow> u64 \<Rightarrow> u32 outcome" where
  "read32 s a = load32 (mem s) a"

definition read8 :: "'z kernel_state_scheme \<Rightarrow> u64 \<Rightarrow> u8 outcome" where
  "read8 s a = load8 (mem s) a"

definition write64 :: "u64 \<Rightarrow> u64 \<Rightarrow> 'z kernel_state_scheme \<Rightarrow> 'z kernel_state_scheme outcome" where
  "write64 a v s = rbind (store64 a v (mem s)) (\<lambda>m. Inr (s\<lparr>mem := m\<rparr>))"

definition write32 :: "u64 \<Rightarrow> u32 \<Rightarrow> 'z kernel_state_scheme \<Rightarrow> 'z kernel_state_scheme outcome" where
  "write32 a v s = rbind (store32 a v (mem s)) (\<lambda>m. Inr (s\<lparr>mem := m\<rparr>))"

definition fill :: "u64 \<Rightarrow> u8 \<Rightarrow> u64 \<Rightarrow> 'z kernel_state_scheme \<Rightarrow> 'z kernel_state_scheme outcome" where
  "fill a ch n s = rbind (memset a ch n (mem s)) (\<lambda>m. Inr (s\<lparr>mem := m\<rparr>))"

subsection \<open>Operations\<close>

text \<open>
  The loop over the pools asks pool 0; a second iteration would leave the one-element
  array. A null pointer is 0. \<open>order\<close> is an int, converted to the u64 parameter of
  \<open>buddy_get_pages\<close>.
\<close>

definition get_pages :: "'z kernel_state_scheme \<Rightarrow> int \<Rightarrow> ('z kernel_state_scheme \<times> u64) outcome" where
  "get_pages s order =
     (if 0 < physmem_map_num s then
        rbind (buddy_get_pages s (word_of_int order)) (\<lambda>(s, p_page).
        case p_page of
          Some page \<Rightarrow> rbind (page_to_virt s page) (\<lambda>a. Inr (s, a))
        | None \<Rightarrow> if 1 < physmem_map_num s then Inl Undef else Inr (s, 0))
      else Inr (s, 0))"

text \<open>
  \<open>buddy_free_pages(p_page->pool, p_page)\<close>. With a null pool the function stops in a
  BUG_ON of \<open>page_to_virt\<close> or \<open>merge_page\<close>, or dereferences the pool (order 13).
\<close>

definition free_page_chunk :: "'z kernel_state_scheme \<Rightarrow> nat \<Rightarrow> 'z kernel_state_scheme outcome" where
  "free_page_chunk s p_page =
     rbind (get_page s p_page) (\<lambda>p.
     case page_pool p of
       GlobalMem0 \<Rightarrow> buddy_free_pages s p_page
     | PoolNull \<Rightarrow> Inl (if allocated p = 0 \<or> page_order p \<noteq> 13 then Bug else Undef))"

definition free_pages :: "'z kernel_state_scheme \<Rightarrow> u64 \<Rightarrow> 'z kernel_state_scheme outcome" where
  "free_pages s addr =
     rbind (virt_to_page s addr) (\<lambda>p_page.
     free_page_chunk s p_page)"

subsection \<open>The contract of the page allocator\<close>

text \<open>
  \<open>pages_held s A\<close>: the buddy allocator's invariant holds with the chunks \<open>A\<close> allocated, the
  pool lies in the kernel's linear mapping of physical memory, and its memory is mapped.
\<close>

definition chunk_of :: "'z buddy_state_scheme \<Rightarrow> nat \<times> nat \<Rightarrow> u64 \<times> nat" where
  "chunk_of s b = (of_nat ((pool_base s + fst b) * 4096), snd b)"

definition pool_mapped :: "'z kernel_state_scheme \<Rightarrow> bool" where
  "pool_mapped s \<longleftrightarrow> (\<forall>x. pool_start_addr s \<le> x \<longrightarrow> x < pool_start_addr s + pool_mem_size s \<longrightarrow> x \<in> dom (mem s))"

definition pages_held :: "'z kernel_state_scheme \<Rightarrow> (u64 \<times> nat) set \<Rightarrow> bool" where
  "pages_held s A \<longleftrightarrow> KBASE \<le> pool_start_addr s \<and> pool_mapped s \<and>
     (\<exists>fl B. buddy_inv s fl B \<and> A = chunk_of s ` B)"

definition same_memory :: "'z kernel_state_scheme \<Rightarrow> 'z kernel_state_scheme \<Rightarrow> bool" where
  "same_memory s s' \<longleftrightarrow> same_pool s s'"

lemma chunk_of_unat:
  assumes "buddy_inv s fl B" "(i, k) \<in> B"
  shows "unat (fst (chunk_of s (i, k))) = (pool_base s + i) * 4096"
    and "(pool_base s + i + 2 ^ k) * 4096 \<le> (pool_base s + pool_pages s) * 4096"
proof -
  note b = allocated_block [OF assms]
  note pa = pool_ok_addr [OF buddy_inv_pool [OF assms(1)]]
  show le: "(pool_base s + i + 2 ^ k) * 4096 \<le> (pool_base s + pool_pages s) * 4096"
    using b(3) by (intro mult_le_mono1) simp
  have "(pool_base s + i) * 4096 \<le> (pool_base s + i + 2 ^ k) * 4096" by (intro mult_le_mono1) simp
  then have "(pool_base s + i) * 4096 < 2 ^ 64" using le pa(4) by linarith
  then show "unat (fst (chunk_of s (i, k))) = (pool_base s + i) * 4096"
    unfolding chunk_of_def fst_conv by (rule unat_of_nat_less)
qed

lemma chunk_of_inj:
  assumes "buddy_inv s fl B"
  shows "inj_on (chunk_of s) B"
proof (rule inj_onI)
  fix b c assume bc: "b \<in> B" "c \<in> B" and eq: "chunk_of s b = chunk_of s c"
  obtain i k j l where b: "b = (i, k)" "c = (j, l)" by fastforce
  have "(pool_base s + i) * 4096 = (pool_base s + j) * 4096"
    using chunk_of_unat(1) [OF assms, of i k] chunk_of_unat(1) [OF assms, of j l] bc b eq by simp
  then show "b = c" using eq b by (simp add: chunk_of_def)
qed

lemma chunk_frames:
  assumes "buddy_inv s fl B" "(i, k) \<in> B" "x \<in> chunk (chunk_of s (i, k))"
  shows "\<exists>j \<in> block (i, k). unat x div 4096 = pool_base s + j"
proof -
  note u = chunk_of_unat [OF assms(1,2)]
  have x: "(pool_base s + i) * 4096 \<le> unat x" "unat x < (pool_base s + i) * 4096 + 2 ^ k * 4096"
    using assms(3) u(1) by (auto simp: chunk_of_def word_le_nat_alt)
  then have "pool_base s + i \<le> unat x div 4096" "unat x div 4096 < pool_base s + i + 2 ^ k"
    by (simp_all add: less_eq_div_iff_mult_less_eq div_less_iff_less_mult add_mult_distrib)
  then show ?thesis by (intro bexI [of _ "unat x div 4096 - pool_base s"]) auto
qed

lemma chunk_pages_of:
  assumes "buddy_inv s fl B"
  shows "chunk_pages (chunk_of s ` B) = (\<Sum>(i, k) \<in> B. 2 ^ k)"
proof -
  have "chunk_pages (chunk_of s ` B) = (\<Sum>b \<in> B. 2 ^ snd (chunk_of s b))"
    unfolding chunk_pages_def split_def by (simp add: sum.reindex [OF chunk_of_inj [OF assms]])
  then show ?thesis by (simp add: chunk_of_def split_def)
qed

lemma page_to_virt_chunk:
  assumes "buddy_inv s fl B" "(i, k) \<in> B"
  shows "page_to_virt s i = Inr (fst (chunk_of s (i, k)))"
proof -
  have "0 < (2 :: nat) ^ k" by simp
  then have "i < pool_pages s" using allocated_block(3) [OF assms] by linarith
  then obtain a where a: "page_to_virt s i = Inr a" "unat a = (pool_base s + i) * 4096"
    using page_to_virt_ok [OF buddy_inv_pool [OF assms(1)]] by blast
  then have "a = fst (chunk_of s (i, k))" using chunk_of_unat(1) [OF assms] by (simp add: word_unat_eq_iff)
  with a show ?thesis by simp
qed

lemma free_pages_chunk:
  assumes "buddy_inv s fl B" "(i, k) \<in> B"
  shows "free_pages s (fst (chunk_of s (i, k))) = buddy_free_pages s i"
proof -
  have "0 < (2 :: nat) ^ k" by simp
  then have i: "i < pool_pages s" using allocated_block(3) [OF assms] by linarith
  have "virt_to_page s (fst (chunk_of s (i, k))) = Inr i"
    using chunk_of_unat(1) [OF assms] i
    by (intro virt_to_page_ok [OF buddy_inv_pool [OF assms(1)], of _ _ 0]) simp_all
  moreover obtain p where "page_metadata s i = Some p" "page_pool p = GlobalMem0"
    using pool_ok_page [OF buddy_inv_pool [OF assms(1)] i] by blast
  ultimately show ?thesis by (simp add: free_pages_def free_page_chunk_def get_page_Some)
qed

lemma same_pool_kernel:
  fixes s :: "'z kernel_state_scheme"
  assumes "same_pool s s'"
  shows "mem s' = mem s" "slabs s' = slabs s" "physmem_map s' = physmem_map s"
    "kernel_state.more s' = kernel_state.more s" "chunk_of s' = chunk_of s"
    "pool_mapped s' = pool_mapped s" "pool_start_addr s' = pool_start_addr s"
    "pool_base s' = pool_base s" "pool_pages s' = pool_pages s"
proof -
  have m: "buddy_state.more s' = buddy_state.more s" using assms by (simp add: same_pool_def)
  obtain start sz n addr meta nf l num m0 sl pm z where
    s: "s = \<lparr>pool_start_addr = start, pool_mem_size = sz, pool_phys_page_num = n, page_metadata_addr = addr,
      page_metadata = meta, nr_free = nf, links = l, physmem_map_num = num, mem = m0, slabs = sl,
      physmem_map = pm, \<dots> = z\<rparr>" by (cases s)
  obtain start' sz' n' addr' meta' nf' l' num' m0' sl' pm' z' where
    s': "s' = \<lparr>pool_start_addr = start', pool_mem_size = sz', pool_phys_page_num = n', page_metadata_addr = addr',
      page_metadata = meta', nr_free = nf', links = l', physmem_map_num = num', mem = m0', slabs = sl',
      physmem_map = pm', \<dots> = z'\<rparr>" by (cases s')
  show mm: "mem s' = mem s" "slabs s' = slabs s" "physmem_map s' = physmem_map s"
    "kernel_state.more s' = kernel_state.more s"
    using m unfolding s s' by simp_all
  show "pool_base s' = pool_base s" "pool_pages s' = pool_pages s" "chunk_of s' = chunk_of s"
    using same_pool_base [OF assms] same_pool_pages [OF assms] by (simp_all add: chunk_of_def fun_eq_iff)
  show "pool_mapped s' = pool_mapped s" "pool_start_addr s' = pool_start_addr s"
    using assms mm by (simp_all add: pool_mapped_def same_pool_def)
qed

lemma pages_held_place:
  assumes "pages_held s A" "(a, k) \<in> A"
  shows "pool_start_addr s \<le> a" "unat a + 2 ^ k * 4096 \<le> unat (pool_start_addr s) + unat (pool_mem_size s)"
proof -
  obtain fl B where B: "buddy_inv s fl B" "A = chunk_of s ` B" using assms(1) by (auto simp: pages_held_def)
  then obtain i where i: "(i, k) \<in> B" "chunk_of s (i, k) = (a, k)" using assms(2) by (auto simp: chunk_of_def)
  note u = chunk_of_unat [OF B(1) i(1)] and pa = pool_ok_addr [OF buddy_inv_pool [OF B(1)]]
  have a: "unat a = (pool_base s + i) * 4096" using u(1) i(2) by simp
  show "pool_start_addr s \<le> a" using a pa(1) by (simp add: word_le_nat_alt)
  show "unat a + 2 ^ k * 4096 \<le> unat (pool_start_addr s) + unat (pool_mem_size s)"
    using u(2) unfolding a pa(1,2) by (simp add: add_mult_distrib)
qed

lemma pages_held_chunk:
  assumes "pages_held s A" "(a, k) \<in> A"
  shows "a \<noteq> 0" "2 ^ k * 4096 dvd unat a" "unat a + 2 ^ k * 4096 < 2 ^ 64" "chunk (a, k) \<subseteq> dom (mem s)"
    "KBASE \<le> a"
proof -
  obtain fl B where B: "buddy_inv s fl B" "A = chunk_of s ` B" "KBASE \<le> pool_start_addr s" "pool_mapped s"
    using assms(1) by (auto simp: pages_held_def)
  then obtain i where i: "(i, k) \<in> B" "chunk_of s (i, k) = (a, k)"
    using assms(2) by (auto simp: chunk_of_def)
  note u = chunk_of_unat [OF B(1) i(1)] and b = allocated_block [OF B(1) i(1)]
    and pa = pool_ok_addr [OF buddy_inv_pool [OF B(1)]]
  have a: "unat a = (pool_base s + i) * 4096" using u(1) i(2) by simp
  have "pool_start_addr s \<le> a" using a pa(1) by (simp add: word_le_nat_alt)
  with B(3) show base: "KBASE \<le> a" by (rule order_trans)
  then show "a \<noteq> 0" by (auto simp: KBASE_def)
  show "2 ^ k * 4096 dvd unat a" unfolding a using b(2) by (intro mult_dvd_mono) simp_all
  have le: "unat a + 2 ^ k * 4096 \<le> (pool_base s + pool_pages s) * 4096"
    using u(2) unfolding a by (simp add: add_mult_distrib)
  with pa(4) show "unat a + 2 ^ k * 4096 < 2 ^ 64" by linarith
  show "chunk (a, k) \<subseteq> dom (mem s)"
  proof
    fix x assume "x \<in> chunk (a, k)"
    then have x: "unat a \<le> unat x" "unat x < unat a + 2 ^ k * 4096" by (auto simp: word_le_nat_alt)
    then have "pool_start_addr s \<le> x" using a pa(1) by (simp add: word_le_nat_alt)
    moreover have "x < pool_start_addr s + pool_mem_size s"
      using x(2) le unfolding word_less_nat_alt pa(3) by linarith
    ultimately show "x \<in> dom (mem s)" using B(4) unfolding pool_mapped_def by blast
  qed
qed

text \<open>A run of \<open>2 ^ k\<close> pages of the pool, aligned to its size, of which no page is held.\<close>

definition run_available :: "'z kernel_state_scheme \<Rightarrow> (u64 \<times> nat) set \<Rightarrow> nat \<Rightarrow> bool" where
  "run_available s A k \<longleftrightarrow> (\<exists>b. 2 ^ k * 4096 dvd unat b \<and> pool_start_addr s \<le> b \<and>
     unat b + 2 ^ k * 4096 \<le> unat (pool_start_addr s) + unat (pool_mem_size s) \<and>
     (\<forall>c \<in> A. chunk c \<inter> chunk (b, k) = {}))"

lemma run_available_free:
  assumes inv: "buddy_inv s fl B" and run: "run_available s (chunk_of s ` B) k"
  shows "\<exists>i. run_free (pool_base s) (pool_pages s) B i k"
proof -
  note pa = pool_ok_addr [OF buddy_inv_pool [OF inv]]
  obtain b where b: "2 ^ k * 4096 dvd unat b" "pool_start_addr s \<le> b"
    "unat b + 2 ^ k * 4096 \<le> unat (pool_start_addr s) + unat (pool_mem_size s)"
    "\<forall>c \<in> B. chunk (chunk_of s c) \<inter> chunk (b, k) = {}" using run by (auto simp: run_available_def)
  obtain q where "unat b = 2 ^ k * 4096 * q" using b(1) unfolding dvd_def by blast
  then have q: "unat b = 2 ^ k * q * 4096" by simp
  have lo: "pool_base s \<le> 2 ^ k * q" using b(2) pa(1) q by (simp add: word_le_nat_alt)
  have "(2 ^ k * q + 2 ^ k) * 4096 \<le> (pool_base s + pool_pages s) * 4096"
    using b(3) unfolding pa(1,2) q by (simp only: add_mult_distrib)
  then have hi: "2 ^ k * q + 2 ^ k \<le> pool_base s + pool_pages s" by simp
  define i where "i = 2 ^ k * q - pool_base s"
  have i: "pool_base s + i = 2 ^ k * q" "i + 2 ^ k \<le> pool_pages s" using lo hi by (simp_all add: i_def)
  have "block c \<inter> block (i, k) = {}" if c: "c \<in> B" for c
  proof (rule ccontr)
    assume "block c \<inter> block (i, k) \<noteq> {}"
    then obtain j where j: "j \<in> block c" "j \<in> block (i, k)" by blast
    obtain h l where h: "c = (h, l)" by (cases c)
    have "j < pool_pages s" using j(2) i(2) by simp
    then have "(pool_base s + j) * 4096 \<le> (pool_base s + pool_pages s) * 4096" by (intro mult_le_mono1) simp
    then have x: "unat (of_nat ((pool_base s + j) * 4096) :: u64) = (pool_base s + j) * 4096"
      using pa(4) by (intro unat_of_nat_less) linarith
    let ?x = "of_nat ((pool_base s + j) * 4096) :: u64"
    have "(pool_base s + i) * 4096 \<le> (pool_base s + j) * 4096" "(pool_base s + j) * 4096 < (pool_base s + (i + 2 ^ k)) * 4096"
      using j(2) by (intro mult_le_mono1 mult_less_mono1; simp)+
    then have "?x \<in> chunk (b, k)"
      unfolding chunk.simps mem_Collect_eq word_le_nat_alt x q i(1) [symmetric] by (simp add: add_mult_distrib)
    moreover have "(pool_base s + h) * 4096 \<le> (pool_base s + j) * 4096" "(pool_base s + j) * 4096 < (pool_base s + (h + 2 ^ l)) * 4096"
      using j(1) h by (intro mult_le_mono1 mult_less_mono1; simp)+
    then have "?x \<in> chunk (chunk_of s (h, l))"
      using chunk_of_unat(1) [OF inv c [unfolded h]] x
      by (simp add: chunk_of_def word_le_nat_alt add_mult_distrib del: of_nat_mult of_nat_add)
    ultimately show False using b(4) c h by blast
  qed
  then have "run_free (pool_base s) (pool_pages s) B i k" using i by (simp add: run_free_def)
  then show ?thesis ..
qed

lemma pages_held_get:
  assumes held: "pages_held s A" and k: "k < 14"
  shows "\<exists>s' a. get_pages s (int k) = Inr (s', a) \<and> same_pool s s' \<and>
    (if a = 0 then pages_held s' A \<and> s' = s \<and> \<not> run_available s A k \<and>
       \<not> (\<exists>i fl B. buddy_inv s fl B \<and> A = chunk_of s ` B \<and> run_free (pool_base s) (pool_pages s) B i k)
     else (a, k) \<notin> A \<and> pages_held s' (insert (a, k) A))"
proof -
  obtain fl B where B: "buddy_inv s fl B" "A = chunk_of s ` B" "KBASE \<le> pool_start_addr s" "pool_mapped s"
    using held by (auto simp: pages_held_def)
  have num: "physmem_map_num s = 1" using buddy_inv_pool [OF B(1)] by (simp add: pool_ok_def)
  have w: "(word_of_int (int k) :: u64) = of_nat k" by simp
  show ?thesis
  proof (cases "spec_get fl k")
    case None
    then have none: "buddy_get_pages s (of_nat k) = Inr (s, None)" using buddy_inv_get [OF B(1) k] by simp
    then have "get_pages s (int k) = Inr (s, 0)" using num unfolding get_pages_def w by simp
    moreover have "\<not> run_available s A k"
      using buddy_inv_get_None [OF B(1) k] none run_available_free [OF B(1)] unfolding B(2) by blast
    moreover have "\<not> run_free (pool_base s) (pool_pages s) B' i k" if "buddy_inv s fl' B'" for fl' B' i
      using buddy_inv_get_None [OF that k] none by blast
    ultimately show ?thesis using held by (intro exI [of _ s] exI [of _ 0]) auto
  next
    case (Some r)
    then obtain fl' i s' where s': "buddy_get_pages s (of_nat k) = Inr (s', Some i)"
      using buddy_inv_get [OF B(1) k] by (cases r) auto
    then obtain fl' where fl': "buddy_inv s' fl' (insert (i, k) B)" "same_pool s s'" "(i, k) \<notin> B"
      using buddy_inv_get_Some [OF B(1) k] by blast
    note sk = same_pool_kernel [OF fl'(2)]
    let ?a = "fst (chunk_of s (i, k))"
    have c: "chunk_of s (i, k) = (?a, k)" by (simp add: chunk_of_def)
    have "get_pages s (int k) = Inr (s', ?a)"
      using num s' page_to_virt_chunk [OF fl'(1) insertI1] unfolding get_pages_def w by (simp add: sk)
    moreover have held': "pages_held s' (insert (?a, k) A)"
      unfolding pages_held_def sk using fl'(1) B c by (intro conjI exI [of _ fl'] exI [of _ "insert (i, k) B"]) simp_all
    moreover have "?a \<noteq> 0" using pages_held_chunk(1) [OF held'] by blast
    moreover have "(?a, k) \<notin> A"
    proof
      assume "(?a, k) \<in> A"
      then obtain b where b: "b \<in> B" "chunk_of s b = chunk_of s (i, k)" using B(2) c by auto
      then have "b = (i, k)" using inj_onD [OF chunk_of_inj [OF fl'(1)], of b "(i, k)"] sk by simp
      with b(1) fl'(3) show False by simp
    qed
    ultimately show ?thesis using fl'(2) by (intro exI [of _ s'] exI [of _ ?a]) simp
  qed
qed

lemma pages_held_room:
  assumes held: "pages_held s A" and room: "chunk_pages A < pool_pages s"
    and get: "get_pages s 0 = Inr (s', a)"
  shows "a \<noteq> 0"
proof
  assume a: "a = 0"
  obtain fl B where B: "buddy_inv s fl B" "A = chunk_of s ` B"
    using held by (auto simp: pages_held_def)
  have "\<Union> (block ` B) \<noteq> {..<pool_pages s}"
  proof
    assume eq: "\<Union> (block ` B) = {..<pool_pages s}"
    have "pool_pages s = card (\<Union> (block ` B))" unfolding eq by simp
    also have "\<dots> \<le> (\<Sum>b \<in> B. card (block b))" by (rule card_UN_le [OF allocated_finite [OF B(1)]])
    also have "\<dots> = (\<Sum>(i, k) \<in> B. 2 ^ k)" by (intro sum.cong) (auto simp: split_def)
    finally show False using room unfolding B(2) chunk_pages_of [OF B(1)] by simp
  qed
  moreover have "\<Union> (block ` B) \<subseteq> {..<pool_pages s}"
    using tiles_subset [OF blocks_ok_tiles [OF buddy_inv_blocks [OF B(1)]]] by blast
  ultimately obtain i where i: "i < pool_pages s" "\<And>b. b \<in> B \<Longrightarrow> i \<notin> block b" by blast
  then have "run_free (pool_base s) (pool_pages s) B i 0" by (auto simp: run_free_def)
  then show False using pages_held_get [OF held, of 0] get a B by auto
qed

lemma pages_held_free:
  assumes held: "pages_held s A" and a: "(a, k) \<in> A"
  shows "\<exists>s'. free_pages s a = Inr s' \<and> same_pool s s' \<and> pages_held s' (A - {(a, k)})"
proof -
  obtain fl B where B: "buddy_inv s fl B" "A = chunk_of s ` B" "KBASE \<le> pool_start_addr s" "pool_mapped s"
    using held by (auto simp: pages_held_def)
  then obtain i where i: "(i, k) \<in> B" "chunk_of s (i, k) = (a, k)"
    using a by (auto simp: chunk_of_def)
  obtain s' fl' where s': "buddy_free_pages s i = Inr s'" "same_pool s s'" "buddy_inv s' fl' (B - {(i, k)})"
    using buddy_inv_free [OF B(1) i(1)] by blast
  note sk = same_pool_kernel [OF s'(2)]
  have "chunk_of s ` (B - {(i, k)}) = A - {(a, k)}"
    using inj_on_image_set_diff [OF chunk_of_inj [OF B(1)], of B "{(i, k)}"] i B(2) by simp
  then have "pages_held s' (A - {(a, k)})"
    unfolding pages_held_def sk using s'(3) B(3,4) by auto
  moreover have "free_pages s a = Inr s'" using free_pages_chunk [OF B(1) i(1)] i(2) s'(1) by simp
  ultimately show ?thesis using s'(2) by blast
qed

lemma pages_held_apart:
  assumes held: "pages_held s A" and cd: "c \<in> A" "d \<in> A" "c \<noteq> d"
  shows "chunk c \<inter> chunk d = {}"
proof (rule ccontr)
  assume "chunk c \<inter> chunk d \<noteq> {}"
  then obtain x where x: "x \<in> chunk c" "x \<in> chunk d" by blast
  obtain fl B where B: "buddy_inv s fl B" "A = chunk_of s ` B"
    using held by (auto simp: pages_held_def)
  obtain b e where b: "b \<in> B" "c = chunk_of s b" "e \<in> B" "d = chunk_of s e" using cd(1,2) B(2) by auto
  obtain j where j: "j \<in> block b" "unat x div 4096 = pool_base s + j"
    using chunk_frames [OF B(1), of "fst b" "snd b" x] b x by auto
  obtain j' where j': "j' \<in> block e" "unat x div 4096 = pool_base s + j'"
    using chunk_frames [OF B(1), of "fst e" "snd e" x] b x by auto
  have "block b \<inter> block e \<noteq> {}" using j j' by auto
  then show False using allocated_disjoint [OF B(1), of b e] b cd(3) by auto
qed

interpretation pages: page_allocator get_pages free_pages pages_held pool_pages same_pool
proof
  fix s s' t u :: "'a kernel_state_scheme" and A a k c d
  show "same_pool s s" by simp
  show "same_pool s t \<Longrightarrow> same_pool t u \<Longrightarrow> same_pool s u" by (rule same_pool_trans)
  show "same_pool s t \<Longrightarrow> pool_pages t = pool_pages s" by (rule same_pool_pages)
  show "pages_held s A \<Longrightarrow> finite A" using allocated_finite by (auto simp: pages_held_def)
  show "pages_held s A \<Longrightarrow> (a, k) \<in> A \<Longrightarrow> a \<noteq> 0 \<and> 2 ^ k * 4096 dvd unat a \<and> unat a + 2 ^ k * 4096 < 2 ^ 64"
    using pages_held_chunk by blast
  show "pages_held s A \<Longrightarrow> c \<in> A \<Longrightarrow> d \<in> A \<Longrightarrow> c \<noteq> d \<Longrightarrow> chunk c \<inter> chunk d = {}"
    by (rule pages_held_apart)
  show "pages_held s A \<Longrightarrow> k < 14 \<Longrightarrow> \<exists>s' a. get_pages s (int k) = Inr (s', a) \<and> same_pool s s' \<and>
      (if a = 0 then pages_held s' A else (a, k) \<notin> A \<and> pages_held s' (insert (a, k) A))"
    using pages_held_get [of s A k] by (metis (no_types, lifting))
  show "pages_held s A \<Longrightarrow> chunk_pages A < pool_pages s \<Longrightarrow> get_pages s 0 = Inr (s', a) \<Longrightarrow> a \<noteq> 0"
    by (rule pages_held_room)
  show "pages_held s A \<Longrightarrow> (a, k) \<in> A \<Longrightarrow>
      \<exists>s'. free_pages s a = Inr s' \<and> same_pool s s' \<and> pages_held s' (A - {(a, k)})"
    by (rule pages_held_free)
qed

subsection \<open>Writing memory keeps the allocator's state\<close>

lemma buddy_inv_mem [simp]:
  "buddy_inv (s\<lparr>mem := m\<rparr>) fl B \<longleftrightarrow> buddy_inv s fl B"
  "chunk_of (s\<lparr>mem := m\<rparr>) = chunk_of s"
  "pool_pages (s\<lparr>mem := m\<rparr>) = pool_pages s"
  "pool_base (s\<lparr>mem := m\<rparr>) = pool_base s"
  by (simp_all add: buddy_inv_def buddy_core_def pool_ok_def page_is_def pool_base_def pool_pages_def
      chunk_of_def fun_eq_iff)

lemma pages_held_mem: "dom m = dom (mem s) \<Longrightarrow> pages_held (s\<lparr>mem := m\<rparr>) A \<longleftrightarrow> pages_held s A"
  unfolding pages_held_def pool_mapped_def by simp

lemma held_cell:
  assumes "pages_held s A" "(a, k) \<in> A" "8 * i < 2 ^ k * 4096"
  shows "cell_ok (mem s) (a + of_nat (8 * i))" "a + of_nat (8 * i) \<in> chunk (a, k)"
    "unat (a + of_nat (8 * i)) = unat a + 8 * i"
proof -
  note c = pages_held_chunk [OF assms(1,2)]
  have u: "unat (a + of_nat j) = unat a + j" if "j < 2 ^ k * 4096" for j
    using c(3) that by (simp add: unat_word_ariths unat_of_nat take_bit_eq_mod)
  have ch: "a + of_nat j \<in> chunk (a, k)" if "j < 2 ^ k * 4096" for j
    using u [OF that] that by (simp add: word_le_nat_alt)
  show ui: "unat (a + of_nat (8 * i)) = unat a + 8 * i" and "a + of_nat (8 * i) \<in> chunk (a, k)"
    using u [OF assms(3)] ch [OF assms(3)] by blast+
  have p8: "(8 :: nat) dvd 2 ^ k * 4096" by (rule dvd_mult) simp
  then have "8 dvd unat a" using c(2) by (rule dvd_trans)
  then have "8 dvd unat (a + of_nat (8 * i))" unfolding ui by simp
  moreover have "mapped (mem s) (a + of_nat (8 * i)) 8"
    unfolding mapped_iff
  proof (intro allI impI)
    fix j :: nat assume j: "j < 8"
    obtain q :: nat where q: "2 ^ k * 4096 = 8 * q" using p8 unfolding dvd_def by blast
    have "8 * i + j < 2 ^ k * 4096" using assms(3) j unfolding q by simp
    then have "a + of_nat (8 * i + j) \<in> chunk (a, k)" by (rule ch)
    then have "a + of_nat (8 * i + j) \<in> dom (mem s)" using c(4) by blast
    then show "mem s (a + of_nat (8 * i) + of_nat j) \<noteq> None" by (simp add: domIff add.assoc)
  qed
  ultimately show "cell_ok (mem s) (a + of_nat (8 * i))" by (simp add: cell_ok_def)
qed

lemma pages_held_cell:
  assumes "pages_held s A" "(a, 0) \<in> A" "i < 512"
  shows "cell_ok (mem s) (a + of_nat (8 * i))" "a + of_nat (8 * i) \<in> chunk (a, 0)"
    "unat (a + of_nat (8 * i)) = unat a + 8 * i"
  using held_cell [OF assms(1,2), of i] assms(3) by simp_all

lemma write64_ok:
  assumes "cell_ok (mem s) a"
  shows "\<exists>m'. write64 a v s = Inr (s\<lparr>mem := m'\<rparr>) \<and> store64 a v (mem s) = Inr m' \<and>
    dom m' = dom (mem s) \<and> load64 m' a = Inr v \<and>
    (\<forall>b. 8 dvd unat b \<longrightarrow> b \<noteq> a \<longrightarrow> load64 m' b = load64 (mem s) b) \<and>
    (\<forall>x. 8 \<le> unat (x - a) \<longrightarrow> m' x = mem s x)"
  using store64_ok [OF assms, of v] by (auto simp: write64_def)

subsection \<open>The guarantees of the page interface\<close>

text \<open>C12: \<open>get_pages\<close> for an order below 14 returns, leaves memory and the bounds of the pool alone. It returns
  NULL exactly when no aligned run of \<open>2 ^ k\<close> pages of the pool is free, and then in the state it was
  called in; otherwise the address of a chunk that lies in the pool, is aligned to its size, mapped
  and disjoint from every chunk handed out before, in a state that holds exactly this chunk more.\<close>

theorem get_pages_contract:
  assumes "pages_held s A" "k < 14"
  shows "\<exists>s' a. get_pages s (int k) = Inr (s', a) \<and> same_pool s s' \<and> mem s' = mem s \<and>
    (a = 0 \<longleftrightarrow> \<not> run_available s A k) \<and>
    (if a = 0 then s' = s
     else pages_held s' (insert (a, k) A) \<and> 2 ^ k * 4096 dvd unat a \<and> pool_start_addr s \<le> a \<and>
       unat a + 2 ^ k * 4096 \<le> unat (pool_start_addr s) + unat (pool_mem_size s) \<and>
       chunk (a, k) \<subseteq> dom (mem s) \<and> (\<forall>c \<in> A. chunk c \<inter> chunk (a, k) = {}))"
proof -
  obtain s' a where g: "get_pages s (int k) = Inr (s', a)" "same_pool s s'"
    "if a = 0 then s' = s \<and> \<not> run_available s A k else (a, k) \<notin> A \<and> pages_held s' (insert (a, k) A)"
    using pages_held_get [OF assms] by (metis (no_types, lifting))
  show ?thesis
  proof (cases "a = 0")
    case True
    with g show ?thesis by auto
  next
    case False
    then have h: "pages_held s' (insert (a, k) A)" "(a, k) \<notin> A" using g(3) by simp_all
    have "chunk c \<inter> chunk (a, k) = {}" if "c \<in> A" for c
      using pages.apart_law [OF h(1), of c "(a, k)"] that h(2) by auto
    moreover have "chunk (a, k) \<subseteq> dom (mem s)" "2 ^ k * 4096 dvd unat a"
      using pages_held_chunk [OF h(1) insertI1] same_pool_kernel(1) [OF g(2)] by simp_all
    moreover have "pool_start_addr s \<le> a" "unat a + 2 ^ k * 4096 \<le> unat (pool_start_addr s) + unat (pool_mem_size s)"
      using pages_held_place [OF h(1) insertI1] g(2) by (simp_all add: same_pool_def)
    moreover from calculation have "run_available s A k" unfolding run_available_def by (intro exI [of _ a]) blast
    ultimately show ?thesis using g(1,2) h(1) False same_pool_kernel(1) [OF g(2)] by auto
  qed
qed

text \<open>\<open>free_pages\<close> given the address of a held chunk returns and releases exactly that
  chunk, leaving memory and the rest of the state alone.\<close>

theorem free_pages_contract:
  assumes "pages_held s A" "(a, k) \<in> A"
  shows "\<exists>s'. free_pages s a = Inr s' \<and> pages_held s' (A - {(a, k)}) \<and> mem s' = mem s"
  using pages.free_law [OF assms] same_pool_kernel(1) by blast

text \<open>A kernel state whose pool is the eight pages of \<open>booted\<close>, with 3M of memory mapped.\<close>

definition kernel_booted :: kernel_state where
  "kernel_booted = buddy_state.extend booted
     (kernel_state.fields (\<lambda>x. if 0xffffff0000100000 \<le> x \<and> x < 0xffffff0000400000 then Some 0 else None)
       (\<lambda>_. 0) (0, 0))"

lemma kernel_booted_sel:
  "mem kernel_booted = (\<lambda>x. if 0xffffff0000100000 \<le> x \<and> x < 0xffffff0000400000 then Some 0 else None)"
  "pool_start_addr kernel_booted = pool_start_addr booted" "pool_mem_size kernel_booted = pool_mem_size booted"
  "page_metadata kernel_booted = page_metadata booted" "nr_free kernel_booted = nr_free booted"
  "links kernel_booted = links booted" "physmem_map_num kernel_booted = physmem_map_num booted"
  by (simp_all add: kernel_booted_def buddy_state.extend_def kernel_state.fields_def)

lemma kernel_booted_pool: "pool_start_addr kernel_booted = 0xffffff0000100000" "pool_mem_size kernel_booted = 0x8000"
proof -
  obtain fl where inv: "buddy_inv booted fl {}" using booted_ok(4) by blast
  note pa = pool_ok_addr [OF buddy_inv_pool [OF inv]]
  show "pool_start_addr kernel_booted = 0xffffff0000100000" "pool_mem_size kernel_booted = 0x8000"
    using pa(1,2) by (simp_all add: kernel_booted_sel booted_ok word_unat_eq_iff)
qed

lemma kernel_booted_held: "pages_held kernel_booted {}" "pool_pages kernel_booted = 8"
proof -
  obtain fl where inv: "buddy_inv booted fl {}" using booted_ok(4) by blast
  have bk: "pool_base kernel_booted = pool_base booted" "pool_pages kernel_booted = pool_pages booted"
    by (simp_all add: pool_base_def pool_pages_def kernel_booted_sel)
  then show "pool_pages kernel_booted = 8" by (simp add: booted_ok)
  have booted_start: "pool_start_addr booted = 0xffffff0000100000"
    using pool_ok_addr(1) [OF buddy_inv_pool [OF inv]] by (simp add: booted_ok word_unat_eq_iff)
  have "buddy_inv kernel_booted fl {}"
    using inv bk by (simp add: buddy_inv_def buddy_core_def pool_ok_def page_is_def kernel_booted_sel)
  moreover have "pool_mapped kernel_booted"
  proof -
    note pa = pool_ok_addr [OF buddy_inv_pool [OF inv]]
    have b: "pool_mem_size booted = 0x8000"
      using pa(2) by (simp add: booted_ok word_unat_eq_iff)
    show ?thesis by (auto simp: pool_mapped_def kernel_booted_sel booted_start b elim!: less_trans)
  qed
  ultimately show "pages_held kernel_booted {}"
    unfolding pages_held_def using booted_start by (auto simp: kernel_booted_sel KBASE_def)
qed

theorem get_pages_contract_witness:
  "\<exists>s' a. get_pages kernel_booted 3 = Inr (s', a) \<and> a \<noteq> 0 \<and> pages_held s' {(a, 3)} \<and> get_pages s' 0 = Inr (s', 0)"
proof -
  have p: "pool_start_addr kernel_booted = 0xffffff0000100000" "pool_mem_size kernel_booted = 0x8000"
    by (rule kernel_booted_pool)+
  have "run_available kernel_booted {} 3"
    unfolding run_available_def p by (intro exI [of _ "0xffffff0000100000"]) simp
  then obtain s a where s: "get_pages kernel_booted 3 = Inr (s, a)" "a \<noteq> 0" "pages_held s {(a, 3)}" "same_pool kernel_booted s"
    "pool_start_addr kernel_booted \<le> a" "unat a + 2 ^ 3 * 4096 \<le> unat (pool_start_addr kernel_booted) + unat (pool_mem_size kernel_booted)"
    using get_pages_contract [OF kernel_booted_held(1), of 3] by (auto split: if_splits)
  have a: "a = 0xffffff0000100000" using s(5,6) unfolding p by (simp add: word_le_nat_alt word_unat_eq_iff)
  have q: "pool_start_addr s = 0xffffff0000100000" "pool_mem_size s = 0x8000" using s(4) p by (auto simp: same_pool_def)
  have "\<not> run_available s {(a, 3)} 0"
  proof
    assume "run_available s {(a, 3)} 0"
    then obtain b where b: "0xffffff0000100000 \<le> b" "unat b + 4096 \<le> 0xffffff0000108000" "chunk (a, 3) \<inter> chunk (b, 0) = {}"
      unfolding run_available_def q by (auto simp del: chunk.simps)
    then have "b \<in> chunk (a, 3)" "b \<in> chunk (b, 0)" unfolding a by simp_all
    with b(3) show False by blast
  qed
  with get_pages_contract [OF s(3), of 0] have "get_pages s 0 = Inr (s, 0)" by (auto split: if_splits)
  with s(1-3) show ?thesis by blast
qed

theorem free_pages_contract_witness:
  "\<exists>(s :: kernel_state) a s'. pages_held s {(a, 0)} \<and> free_pages s a = Inr s' \<and> pages_held s' {}"
proof -
  have "chunk_pages {} < pool_pages kernel_booted" by (simp add: chunk_pages_def kernel_booted_held(2))
  then obtain s :: kernel_state and a where s: "pages_held s {(a, 0 :: nat)}"
    using pages.get_page_ok [OF kernel_booted_held(1)] by metis
  from free_pages_contract [OF s(1), of a 0] s(1) show ?thesis by auto
qed

end
