(* ===== verification/Slab.thy ===== *)
theory Slab
  imports Pages
begin

text \<open>
  kernel/mm/slab.c and kernel/include/mm/slab.h: the slab allocator of small objects.

  A slab is a chunk of 2M whose first slot holds the header: \<open>free_list_head\<close> at offset 0,
  \<open>next_slab\<close> at offset 8, \<open>order\<close> at offset 16. A free slot holds the address of the next one
  in its first eight bytes. Headers and slots are addresses in the kernel's memory, the array
  \<open>slabs\<close> is the field of that name, and a page that belongs to a slab has the slab's address
  in its \<open>slab\<close> field. The loops over lists in memory need not end and take fuel.
\<close>

abbreviation (input) SLAB_INIT_SIZE :: int where "SLAB_INIT_SIZE \<equiv> 2097152"
abbreviation (input) SLAB_MIN_ORDER :: int where "SLAB_MIN_ORDER \<equiv> 5"
abbreviation (input) SLAB_MAX_ORDER :: int where "SLAB_MAX_ORDER \<equiv> 11"

subsection \<open>Orders and sizes\<close>

text \<open>
  \<open>size_to_order\<close> counts on an \<open>int\<close> copy of the size, so it looks at the low 32 bits only, as
  a signed number; the comparison at the end is with the full size.
\<close>

function halvings :: "int \<Rightarrow> u64 \<Rightarrow> u64" where
  "halvings tmp order = (if 1 < tmp then halvings (tmp div 2) (order + 1) else order)"
  by pat_completeness auto
termination by (relation "measure (\<lambda>(tmp, order). nat tmp)") auto

declare halvings.simps [simp del]

definition size_to_order :: "u64 \<Rightarrow> u64" where
  "size_to_order sz =
     (let order = halvings (sint (ucast sz :: u32)) 0
      in if push_bit (unat order) 1 < sz then order + 1 else order)"

definition order_to_size :: "u64 \<Rightarrow> u64 outcome" where
  "order_to_size order =
     rbind (undef_if (64 \<le> order)) (\<lambda>_. Inr (push_bit (unat order) 1))"

subsection \<open>Making a slab\<close>

text \<open>
  \<open>get_pages(order)\<close> converts the order to an int. When it returns NULL, \<open>virt_to_page\<close> stops
  in a BUG_ON, so the code's own test of \<open>p_page\<close> is never reached with NULL.
\<close>

fun set_page_slab :: "u64 \<Rightarrow> nat list \<Rightarrow> 'z kernel_state_scheme \<Rightarrow> 'z kernel_state_scheme outcome" where
  "set_page_slab addr [] s = Inr s"
| "set_page_slab addr (i # js) s =
     rbind (virt_to_page s (addr + of_nat i * 0x1000)) (\<lambda>page.
     rbind (upd_page page (\<lambda>p. p\<lparr>page_slab := addr\<rparr>) s) (set_page_slab addr js))"

definition alloc_slab_memory :: "'z kernel_state_scheme \<Rightarrow> u64 \<Rightarrow> ('z kernel_state_scheme \<times> u64) outcome" where
  "alloc_slab_memory s sz =
     (let order = size_to_order (sz div 0x1000) in
      rbind (get_pages s (sint (ucast order :: u32))) (\<lambda>(s, addr).
      rbind (virt_to_page s addr) (\<lambda>p_page.
      rbind (order_to_size order) (\<lambda>page_num.
      rbind (set_page_slab addr [0..<unat page_num] s) (\<lambda>s.
      Inr (s, addr))))))"

fun link_slots ::
  "u64 \<Rightarrow> nat list \<Rightarrow> u64 \<Rightarrow> 'z kernel_state_scheme \<Rightarrow> ('z kernel_state_scheme \<times> u64) outcome"
where
  "link_slots obj_size [] slot s = Inr (s, slot)"
| "link_slots obj_size (i # js) slot s =
     rbind (write64 slot (slot + obj_size) s) (link_slots obj_size js (slot + obj_size))"

definition init_slab_cache ::
  "'z kernel_state_scheme \<Rightarrow> int \<Rightarrow> int \<Rightarrow> ('z kernel_state_scheme \<times> u64) outcome"
where
  "init_slab_cache s order sz =
     rbind (alloc_slab_memory s (word_of_int sz)) (\<lambda>(s, addr).
     rbind (order_to_size (word_of_int order)) (\<lambda>obj_size.
     let cnt = word_of_int sz div obj_size - 1; slot = addr + obj_size in
     rbind (write64 addr slot s) (\<lambda>s.
     rbind (write64 (addr + 8) 0 s) (\<lambda>s.
     rbind (write32 (addr + 16) (word_of_int order) s) (\<lambda>s.
     rbind (undef_if (2 ^ 31 \<le> unat (cnt - 1))) (\<lambda>_.
     rbind (link_slots obj_size [0..<unat (cnt - 1)] slot s) (\<lambda>(s, slot).
     rbind (write64 slot 0 s) (\<lambda>s.
     Inr (s, addr)))))))))"

subsection \<open>Allocating and freeing objects\<close>

definition slab_index :: "int \<Rightarrow> nat outcome" where
  "slab_index order = (if 0 \<le> order \<and> order \<le> SLAB_MAX_ORDER then Inr (nat order) else Inl Undef)"

definition set_slab :: "int \<Rightarrow> u64 \<Rightarrow> 'z kernel_state_scheme \<Rightarrow> 'z kernel_state_scheme outcome" where
  "set_slab order p s =
     rbind (slab_index order) (\<lambda>k. Inr (s\<lparr>slabs := (slabs s)(k := p)\<rparr>))"

text \<open>Take the first free slot of a slab; 0 when it has none.\<close>

definition pop_slot :: "'z kernel_state_scheme \<Rightarrow> u64 \<Rightarrow> ('z kernel_state_scheme \<times> u64) outcome" where
  "pop_slot s slab =
     rbind (read64 s slab) (\<lambda>first_slot.
     if first_slot \<noteq> 0 then
       rbind (read64 s first_slot) (\<lambda>next_slot.
       rbind (write64 slab next_slot s) (\<lambda>s.
       Inr (s, first_slot)))
     else Inr (s, 0))"

fun search_slabs :: "nat \<Rightarrow> 'z kernel_state_scheme \<Rightarrow> u64 \<Rightarrow> ('z kernel_state_scheme \<times> u64) run" where
  "search_slabs 0 s next_slab = (if next_slab = 0 then Some (Inr (s, 0)) else None)"
| "search_slabs (Suc fuel) s next_slab =
     (if next_slab = 0 then Some (Inr (s, 0))
      else fbind (Some (pop_slot s next_slab)) (\<lambda>(s, slot).
        if slot \<noteq> 0 then Some (Inr (s, slot))
        else fbind (Some (read64 s (next_slab + 8))) (search_slabs fuel s)))"

fun alloc_in_slab_nolock ::
  "nat \<Rightarrow> 'z kernel_state_scheme \<Rightarrow> u64 \<Rightarrow> int \<Rightarrow> ('z kernel_state_scheme \<times> u64) run"
where
  "alloc_in_slab_nolock 0 s slab_header order = None"
| "alloc_in_slab_nolock (Suc fuel) s slab_header order =
     fbind (Some (pop_slot s slab_header)) (\<lambda>(s, slot).
     if slot \<noteq> 0 then Some (Inr (s, slot)) else
     fbind (Some (read64 s (slab_header + 8))) (\<lambda>next_slab.
     fbind (search_slabs fuel s next_slab) (\<lambda>(s, slot).
     if slot \<noteq> 0 then Some (Inr (s, slot)) else
     fbind (Some (init_slab_cache s order SLAB_INIT_SIZE)) (\<lambda>(s, new_slab).
     fbind (Some (write64 (new_slab + 8) slab_header s)) (\<lambda>s.
     fbind (Some (set_slab order new_slab s)) (\<lambda>s.
     alloc_in_slab_nolock fuel s new_slab order))))))"

definition alloc_in_slab_unlocked ::
  "nat \<Rightarrow> 'z kernel_state_scheme \<Rightarrow> u64 \<Rightarrow> int \<Rightarrow> ('z kernel_state_scheme \<times> u64) run"
where
  "alloc_in_slab_unlocked fuel s slab_header order = alloc_in_slab_nolock fuel s slab_header order"

fun init_slab_orders :: "int list \<Rightarrow> 'z kernel_state_scheme \<Rightarrow> 'z kernel_state_scheme outcome" where
  "init_slab_orders [] s = Inr s"
| "init_slab_orders (order # os) s =
     rbind (init_slab_cache s order SLAB_INIT_SIZE) (\<lambda>(s, slab).
     rbind (set_slab order slab s) (init_slab_orders os))"

definition init_slab :: "'z kernel_state_scheme \<Rightarrow> 'z kernel_state_scheme outcome" where
  "init_slab s = init_slab_orders [SLAB_MIN_ORDER..SLAB_MAX_ORDER] s"

definition alloc_in_slab :: "nat \<Rightarrow> 'z kernel_state_scheme \<Rightarrow> u64 \<Rightarrow> ('z kernel_state_scheme \<times> u64) run" where
  "alloc_in_slab fuel s sz =
     fbind (Some (order_to_size (word_of_int SLAB_MAX_ORDER))) (\<lambda>max_size.
     fbind (Some (bug_on (max_size < sz))) (\<lambda>_.
     let order = sint (ucast (size_to_order sz) :: u32);
         order = (if order < SLAB_MIN_ORDER then SLAB_MIN_ORDER else order) in
     fbind (Some (slab_index order)) (\<lambda>k.
     alloc_in_slab_unlocked fuel s (slabs s k) order)))"

definition free_in_slab :: "'z kernel_state_scheme \<Rightarrow> u64 \<Rightarrow> 'z kernel_state_scheme outcome" where
  "free_in_slab s addr =
     rbind (virt_to_page s addr) (\<lambda>page.
     rbind (get_page s page) (\<lambda>p.
     let slab = page_slab p in
     rbind (read64 s slab) (\<lambda>head.
     rbind (write64 addr head s) (\<lambda>s.
     write64 slab addr s))))"

subsection \<open>The size of free memory\<close>

fun free_slots_size :: "nat \<Rightarrow> 'z kernel_state_scheme \<Rightarrow> u64 \<Rightarrow> u64 \<Rightarrow> u64 \<Rightarrow> u64 run" where
  "free_slots_size 0 s slot_size slot acc = (if slot = 0 then Some (Inr acc) else None)"
| "free_slots_size (Suc fuel) s slot_size slot acc =
     (if slot = 0 then Some (Inr acc)
      else fbind (Some (read64 s slot)) (\<lambda>nxt.
        free_slots_size fuel s slot_size nxt (acc + slot_size)))"

fun free_slabs_size :: "nat \<Rightarrow> 'z kernel_state_scheme \<Rightarrow> u64 \<Rightarrow> u64 \<Rightarrow> u64 \<Rightarrow> u64 run" where
  "free_slabs_size 0 s slot_size slab acc = (if slab = 0 then Some (Inr acc) else None)"
| "free_slabs_size (Suc fuel) s slot_size slab acc =
     (if slab = 0 then Some (Inr acc)
      else fbind (Some (read64 s slab)) (\<lambda>slot.
        fbind (free_slots_size fuel s slot_size slot acc) (\<lambda>acc.
        fbind (Some (read64 s (slab + 8))) (\<lambda>nxt.
        free_slabs_size fuel s slot_size nxt acc))))"

fun free_orders_size :: "nat \<Rightarrow> 'z kernel_state_scheme \<Rightarrow> int list \<Rightarrow> u64 \<Rightarrow> u64 run" where
  "free_orders_size fuel s [] acc = Some (Inr acc)"
| "free_orders_size fuel s (order # os) acc =
     fbind (Some (slab_index order)) (\<lambda>k.
     fbind (Some (order_to_size (word_of_int order))) (\<lambda>slot_size.
     fbind (free_slabs_size fuel s slot_size (slabs s k) acc)
       (free_orders_size fuel s os)))"

definition get_free_mem_size_from_slab :: "nat \<Rightarrow> 'z kernel_state_scheme \<Rightarrow> u64 run" where
  "get_free_mem_size_from_slab fuel s = free_orders_size fuel s [SLAB_MIN_ORDER..SLAB_MAX_ORDER] 0"

end
