(* ===== verification/Slab_Inv.thy ===== *)
theory Slab_Inv
  imports Slab
begin

text \<open>
  The invariant of the slab allocator and how it survives writes to memory.

  \<open>F k\<close> lists the slabs of order \<open>k\<close>, in the order of the code's list, each with its free slots
  in the order of its free list. Slot \<open>j\<close> of slab \<open>p\<close> is at \<open>p + j * 2 ^ k\<close>; slot 0 is the
  header. A slot that is in no free list belongs to whoever allocated it.
\<close>

subsection \<open>Slots and lists\<close>

definition slot_at :: "nat \<Rightarrow> u64 \<Rightarrow> nat \<Rightarrow> u64" where
  "slot_at k p j = p + of_nat (j * 2 ^ k)"

definition slots_of :: "nat \<Rightarrow> u64 \<Rightarrow> u64 set" where
  "slots_of k p = slot_at k p ` {1..<2 ^ (21 - k)}"

definition order_ok :: "nat \<Rightarrow> bool" where
  "order_ok k \<longleftrightarrow> 5 \<le> k \<and> k \<le> 11"

lemma order_okD: "order_ok k \<Longrightarrow> 5 \<le> k" "order_ok k \<Longrightarrow> k \<le> 11"
  by (simp_all add: order_ok_def)

fun next_path :: "memory \<Rightarrow> u64 \<Rightarrow> u64 \<Rightarrow> u64 list \<Rightarrow> bool" where
  "next_path m off a [] \<longleftrightarrow> a = 0"
| "next_path m off a (x # xs) \<longleftrightarrow> a = x \<and> x \<noteq> 0 \<and> (\<exists>b. load64 m (x + off) = Inr b \<and> next_path m off b xs)"

lemma next_path_cong:
  "(\<And>x. x \<in> set xs \<Longrightarrow> load64 m' (x + off) = load64 m (x + off)) \<Longrightarrow>
   next_path m' off a xs = next_path m off a xs"
  by (induction xs arbitrary: a) auto

lemma next_path_append:
  "next_path m off a (xs @ ys) \<Longrightarrow> \<exists>b. next_path m off b ys"
  by (induction xs arbitrary: a) auto

definition slab_ok :: "memory \<Rightarrow> nat \<Rightarrow> u64 \<Rightarrow> u64 list \<Rightarrow> bool" where
  "slab_ok m k p fs \<longleftrightarrow>
     (\<exists>h. load64 m p = Inr h \<and> next_path m 0 h fs) \<and> distinct fs \<and> set fs \<subseteq> slots_of k p"

definition class_ok :: "memory \<Rightarrow> u64 \<Rightarrow> nat \<Rightarrow> (u64 \<times> u64 list) list \<Rightarrow> bool" where
  "class_ok m head k L \<longleftrightarrow> next_path m 8 head (map fst L) \<and> (\<forall>(p, fs) \<in> set L. slab_ok m k p fs)"

definition slab_orders :: "nat list" where
  "slab_orders = [5..<12]"

lemma slab_orders: "k \<in> set slab_orders \<longleftrightarrow> order_ok k" "distinct slab_orders"
  by (auto simp: slab_orders_def order_ok_def)

definition all_slabs :: "(nat \<Rightarrow> (u64 \<times> u64 list) list) \<Rightarrow> u64 list" where
  "all_slabs F = concat (map (\<lambda>k. map fst (F k)) slab_orders)"

lemma all_slabs_mem: "p \<in> set (all_slabs F) \<longleftrightarrow> (\<exists>k fs. order_ok k \<and> (p, fs) \<in> set (F k))"
  by (force simp: all_slabs_def slab_orders)

subsection \<open>The pages of the slabs\<close>

definition frame :: "'z buddy_state_scheme \<Rightarrow> nat \<Rightarrow> u64" where
  "frame s i = of_nat ((pool_base s + i) * 4096)"

text \<open>\<open>v\<close> is what the \<open>slab\<close> field of the page at \<open>a\<close> must be when \<open>P\<close> are the slabs.\<close>

definition owner_ok :: "u64 set \<Rightarrow> u64 \<Rightarrow> u64 \<Rightarrow> bool" where
  "owner_ok P a v \<longleftrightarrow> (v \<in> P \<and> a \<in> chunk (v, 9)) \<or> (v = 0 \<and> (\<forall>p \<in> P. a \<notin> chunk (p, 9)))"

definition pages_owned :: "'z buddy_state_scheme \<Rightarrow> u64 set \<Rightarrow> bool" where
  "pages_owned s P \<longleftrightarrow> (\<forall>i < pool_pages s. \<forall>pg. page_metadata s i = Some pg \<longrightarrow> owner_ok P (frame s i) (page_slab pg))"

definition slab_inv :: "'z kernel_state_scheme \<Rightarrow> (u64 \<times> nat) set \<Rightarrow> (nat \<Rightarrow> (u64 \<times> u64 list) list) \<Rightarrow> bool" where
  "slab_inv s A F \<longleftrightarrow> pages_held s A \<and>
     (\<forall>k. order_ok k \<longrightarrow> class_ok (mem s) (slabs s k) k (F k)) \<and>
     distinct (all_slabs F) \<and> (\<lambda>p. (p, 9)) ` set (all_slabs F) \<subseteq> A \<and> pages_owned s (set (all_slabs F))"

lemma slab_invD:
  assumes "slab_inv s A F"
  shows "pages_held s A" "order_ok k \<Longrightarrow> class_ok (mem s) (slabs s k) k (F k)" "distinct (all_slabs F)"
    "p \<in> set (all_slabs F) \<Longrightarrow> (p, 9) \<in> A" "pages_owned s (set (all_slabs F))"
  using assms by (auto simp: slab_inv_def)

lemma slab_inv_slab:
  assumes "slab_inv s A F" "order_ok k" "(p, fs) \<in> set (F k)"
  shows "slab_ok (mem s) k p fs" "(p, 9) \<in> A"
proof -
  show "slab_ok (mem s) k p fs" using slab_invD(2) [OF assms(1,2)] assms(3) by (auto simp: class_ok_def)
  show "(p, 9) \<in> A" using assms(2,3) by (intro slab_invD(4) [OF assms(1)]) (auto simp: all_slabs_mem)
qed

text \<open>The objects in use: address and order of each slot that is in no free list.\<close>

definition live_objects :: "(nat \<Rightarrow> (u64 \<times> u64 list) list) \<Rightarrow> (u64 \<times> nat) set" where
  "live_objects F = {(a, k). order_ok k \<and> (\<exists>(p, fs) \<in> set (F k). a \<in> slots_of k p - set fs)}"

subsection \<open>The cells of a slab\<close>

lemma slot_bytes:
  assumes "order_ok k" "(j :: nat) < 2 ^ (21 - k)"
  shows "j * 2 ^ k + 2 ^ k \<le> 2 ^ 21" "2 ^ k = 8 * (2 :: nat) ^ (k - 3)"
proof -
  have "(2 :: nat) ^ (21 - k) * 2 ^ k = 2 ^ 21"
    using order_okD [OF assms(1)] by (simp flip: power_add)
  moreover have "Suc j * 2 ^ k \<le> 2 ^ (21 - k) * 2 ^ k" using assms(2) by (intro mult_le_mono1) simp
  ultimately show "j * 2 ^ k + 2 ^ k \<le> 2 ^ 21" by simp
  have "(2 :: nat) ^ (k - 3 + 3) = 2 ^ (k - 3) * 2 ^ 3" by (rule power_add)
  then show "2 ^ k = 8 * (2 :: nat) ^ (k - 3)" using order_okD [OF assms(1)] by simp
qed

lemma slot_cell:
  assumes "pages_held s A" "(p, 9) \<in> A" "order_ok k" "j < 2 ^ (21 - k)"
  shows "cell_ok (mem s) (slot_at k p j)" "slot_at k p j \<in> chunk (p, 9)" "unat (slot_at k p j) = unat p + j * 2 ^ k"
proof -
  note b = slot_bytes [OF assms(3,4)]
  have e: "slot_at k p j = p + of_nat (8 * (j * 2 ^ (k - 3)))" "j * 2 ^ k = 8 * (j * 2 ^ (k - 3))"
    unfolding slot_at_def b(2) by (simp_all only: mult_ac)
  have "0 < (2 :: nat) ^ k" by simp
  then have "j * 2 ^ k < 2 ^ 21" using b(1) by linarith
  then have "8 * (j * 2 ^ (k - 3)) < 2 ^ 9 * 4096" unfolding e(2) by simp
  note held_cell [OF assms(1,2) this]
  then show "cell_ok (mem s) (slot_at k p j)" "slot_at k p j \<in> chunk (p, 9)" "unat (slot_at k p j) = unat p + j * 2 ^ k"
    unfolding e by simp_all
qed

lemma slots_of_cell:
  assumes "pages_held s A" "(p, 9) \<in> A" "order_ok k" "a \<in> slots_of k p"
  shows "cell_ok (mem s) a" "a \<in> chunk (p, 9)" "a \<noteq> 0" "a \<noteq> p" "a \<noteq> p + 8" "8 dvd unat a"
proof -
  obtain j where j: "1 \<le> j" "j < 2 ^ (21 - k)" "a = slot_at k p j" using assms(4) by (auto simp: slots_of_def)
  note c = slot_cell [OF assms(1-3) j(2)]
  show "cell_ok (mem s) a" "a \<in> chunk (p, 9)" unfolding j(3) by (rule c(1), rule c(2))
  then show "8 dvd unat a" by (simp add: cell_ok_def)
  have "2 ^ 5 \<le> (2 :: nat) ^ k" using order_okD(1) [OF assms(3)] by (rule power_increasing) simp
  then have k: "32 \<le> j * 2 ^ k" using mult_le_mono [OF j(1), of 32 "2 ^ k"] by simp
  have u8: "unat (p + 8) = unat p + 8"
    using held_cell(3) [OF assms(1,2), of 1] by simp
  show "a \<noteq> p" "a \<noteq> p + 8" using c(3) k u8 by (auto simp: j(3))
  show "a \<noteq> 0" using c(3) k by (auto simp: j(3) word_unat_eq_iff)
qed

lemma header_cell:
  assumes "pages_held s A" "(p, 9) \<in> A"
  shows "cell_ok (mem s) p" "cell_ok (mem s) (p + 8)" "p \<in> chunk (p, 9)" "p + 8 \<in> chunk (p, 9)" "p \<noteq> 0" "p + 8 \<noteq> p"
  using held_cell [OF assms, of 0] held_cell [OF assms, of 1] pages_held_chunk(1) [OF assms] by auto

lemma chunk_other:
  assumes "pages_held s A" "(p, 9) \<in> A" "(q, 9) \<in> A" "p \<noteq> q" "x \<in> chunk (q, 9)"
  shows "x \<notin> chunk (p, 9)"
  using pages_held_apart [OF assms(1-3)] assms(4,5) by auto

subsection \<open>Writes\<close>

lemma slab_ok_cong:
  assumes "load64 m' p = load64 m p" "\<And>x. x \<in> set fs \<Longrightarrow> load64 m' x = load64 m x"
  shows "slab_ok m' k p fs = slab_ok m k p fs"
  using next_path_cong [of fs m' 0 m] assms by (auto simp: slab_ok_def)

text \<open>A write that stays inside the chunk of one slab and leaves the link to the next slab alone.\<close>

definition slab_write :: "memory \<Rightarrow> u64 \<Rightarrow> memory \<Rightarrow> bool" where
  "slab_write m p m' \<longleftrightarrow> dom m' = dom m \<and> load64 m' (p + 8) = load64 m (p + 8) \<and>
     (\<forall>c. 8 dvd unat c \<longrightarrow> c \<notin> chunk (p, 9) \<longrightarrow> load64 m' c = load64 m c)"

lemma slab_write_trans: "slab_write m p m1 \<Longrightarrow> slab_write m1 p m2 \<Longrightarrow> slab_write m p m2"
  by (simp add: slab_write_def)

lemma other_slab_ok:
  assumes held: "pages_held s A" and pq: "(p, 9) \<in> A" "(q, 9) \<in> A" "p \<noteq> q" and k: "order_ok k"
    and w: "slab_write (mem s) p m'" and ok: "slab_ok (mem s) k q fs"
  shows "slab_ok m' k q fs" "load64 m' (q + 8) = load64 (mem s) (q + 8)"
proof -
  note h = header_cell [OF held pq(2)]
  have out: "load64 m' c = load64 (mem s) c" if "c \<in> chunk (q, 9)" "8 dvd unat c" for c
    using w chunk_other [OF held pq that(1)] that(2) by (simp add: slab_write_def)
  show "load64 m' (q + 8) = load64 (mem s) (q + 8)" using out h by (simp add: cell_ok_def)
  have "set fs \<subseteq> slots_of k q" using ok by (simp add: slab_ok_def)
  then have "load64 m' x = load64 (mem s) x" if "x \<in> set fs" for x
    using slots_of_cell [OF held pq(2) k] that out by blast
  moreover have "load64 m' q = load64 (mem s) q" using out h by (simp add: cell_ok_def)
  ultimately show "slab_ok m' k q fs" using ok slab_ok_cong by blast
qed

lemma pages_owned_mem [simp]: "pages_owned (s\<lparr>mem := m\<rparr>) P \<longleftrightarrow> pages_owned s P"
  by (simp add: pages_owned_def frame_def)

lemma pool_slabs [simp]:
  "pool_base (s\<lparr>slabs := f\<rparr>) = pool_base s" "pool_pages (s\<lparr>slabs := f\<rparr>) = pool_pages s"
  by (simp_all add: pool_base_def pool_pages_def)

lemma pages_owned_slabs [simp]: "pages_owned (s\<lparr>slabs := f\<rparr>) P \<longleftrightarrow> pages_owned s P"
  by (simp add: pages_owned_def frame_def)

lemma pages_held_slabs [simp]: "pages_held (s\<lparr>slabs := f\<rparr>) A \<longleftrightarrow> pages_held s A"
proof -
  have "buddy_inv (s\<lparr>slabs := f\<rparr>) fl B \<longleftrightarrow> buddy_inv s fl B" for fl B
    by (simp add: buddy_inv_def buddy_core_def pool_ok_def page_is_def pool_base_def pool_pages_def)
  moreover have "chunk_of (s\<lparr>slabs := f\<rparr>) = chunk_of s"
    by (simp add: fun_eq_iff chunk_of_def pool_base_def)
  ultimately show ?thesis by (simp add: pages_held_def pool_mapped_def)
qed

lemma all_slabs_update:
  assumes "map fst L = map fst (F k)"
  shows "all_slabs (F(k := L)) = all_slabs F"
proof -
  have "map fst ((F(k := L)) l) = map fst (F l)" for l using assms by simp
  then show ?thesis unfolding all_slabs_def by (simp only:)
qed

lemma distinct_all_slabs:
  assumes "distinct (all_slabs F)" "order_ok k" "order_ok l" "(p, fs) \<in> set (F k)" "(p, gs) \<in> set (F l)"
  shows "k = l"
proof (rule ccontr)
  assume "k \<noteq> l"
  have *: "distinct (concat (map f ks)) \<Longrightarrow> k \<in> set ks \<Longrightarrow> l \<in> set ks \<Longrightarrow> k \<noteq> l \<Longrightarrow> set (f k) \<inter> set (f l) = {}"
    for f :: "nat \<Rightarrow> u64 list" and ks
    by (induction ks) auto
  have "set (map fst (F k)) \<inter> set (map fst (F l)) = {}"
    by (rule * [OF assms(1) [unfolded all_slabs_def] _ _ \<open>k \<noteq> l\<close>]) (use assms(2,3) slab_orders(1) in blast)+
  then show False using assms(4,5) by force
qed

lemma distinct_class:
  assumes "distinct (all_slabs F)" "order_ok k"
  shows "distinct (map fst (F k))"
proof -
  have *: "distinct (concat (map f ks)) \<Longrightarrow> k \<in> set ks \<Longrightarrow> distinct (f k)" for f :: "nat \<Rightarrow> u64 list" and ks
    by (induction ks) auto
  show ?thesis by (rule * [OF assms(1) [unfolded all_slabs_def]]) (use assms(2) slab_orders(1) in blast)
qed

text \<open>Changing the free list of one slab.\<close>

lemma slab_inv_update:
  assumes inv: "slab_inv s A F" and k: "order_ok k" and F: "F k = xs @ (p, fs) # ys"
    and w: "slab_write (mem s) p m'" and ok: "slab_ok m' k p fs'"
  shows "slab_inv (s\<lparr>mem := m'\<rparr>) A (F(k := xs @ (p, fs') # ys))"
proof -
  note held = slab_invD(1) [OF inv] and dist = slab_invD(3) [OF inv]
  let ?F = "F(k := xs @ (p, fs') # ys)"
  have al: "all_slabs ?F = all_slabs F" by (rule all_slabs_update) (simp add: F)
  have dom: "dom m' = dom (mem s)" using w by (simp add: slab_write_def)
  have pA: "(p, 9) \<in> A" by (rule slab_inv_slab(2) [OF inv k, of _ fs]) (simp add: F)
  have other: "slab_ok m' l q gs" "load64 m' (q + 8) = load64 (mem s) (q + 8)"
    if "order_ok l" "(q, gs) \<in> set (F l)" "q \<noteq> p" for l q gs
    using other_slab_ok [OF held pA slab_inv_slab(2) [OF inv that(1,2)] _ that(1) w slab_inv_slab(1) [OF inv that(1,2)]] that(3)
    by simp_all
  have p8: "load64 m' (p + 8) = load64 (mem s) (p + 8)" using w by (simp add: slab_write_def)
  have link: "load64 m' (q + 8) = load64 (mem s) (q + 8)" if "order_ok l" "q \<in> set (map fst (F l))" for l q
    using other(2) [OF that(1)] that(2) p8 by (cases "q = p") auto
  have "class_ok m' (slabs s l) l (?F l)" if l: "order_ok l" for l
  proof -
    have c: "class_ok (mem s) (slabs s l) l (F l)" by (rule slab_invD(2) [OF inv l])
    have fst: "map fst (?F l) = map fst (F l)" by (simp add: F)
    have path: "next_path m' 8 (slabs s l) (map fst (?F l))"
      unfolding fst using c link [OF l] next_path_cong [of "map fst (F l)" m' 8 "mem s"] by (simp add: class_ok_def)
    have "slab_ok m' l q gs" if q: "(q, gs) \<in> set (?F l)" for q gs
    proof (cases "q = p")
      case False
      then have "(q, gs) \<in> set (F l)" using q F by (auto split: if_splits)
      then show ?thesis using other(1) [OF l] False by blast
    next
      case True
      then have "p \<in> fst ` set (F l)" using q F by (force split: if_splits)
      then obtain gs' where "(p, gs') \<in> set (F l)" by auto
      then have lk: "l = k" using distinct_all_slabs [OF dist l k] F by auto
      have "distinct (map fst (xs @ (p, fs') # ys))" using distinct_class [OF dist k] F by simp
      then have "gs = fs'" using q True unfolding lk by (auto simp: rev_image_eqI)
      then show ?thesis using ok True lk by simp
    qed
    then show ?thesis using path by (auto simp: class_ok_def)
  qed
  then show ?thesis
    using inv pages_held_mem [OF dom] unfolding slab_inv_def al by simp
qed

end
