(* ===== verification/Slab_Ops.thy ===== *)
theory Slab_Ops
  imports Slab_Inv
begin

text \<open>
  The operations of the slab allocator on lists of slabs: taking a slot, searching, freeing, and
  counting the free memory.
\<close>

subsection \<open>The page of an address\<close>

lemma held_page:
  assumes held: "pages_held s A" and a: "(a, k) \<in> A" and x: "x \<in> chunk (a, k)"
  obtains i pg where "i < pool_pages s" "virt_to_page s x = Inr i" "page_metadata s i = Some pg"
    "frame s i \<in> chunk (a, k)" "unat (frame s i) = unat x div 4096 * 4096"
proof -
  obtain fl B where B: "buddy_inv s fl B" "A = chunk_of s ` B" using held by (auto simp: pages_held_def)
  then obtain j where j: "(j, k) \<in> B" "chunk_of s (j, k) = (a, k)" using a by (auto simp: chunk_of_def)
  obtain i where i: "i \<in> block (j, k)" "unat x div 4096 = pool_base s + i"
    using chunk_frames [OF B(1) j(1), of x] x j(2) by auto
  have ip: "i < pool_pages s" using i(1) allocated_block(3) [OF B(1) j(1)] by simp
  note pool = buddy_inv_pool [OF B(1)]
  have v: "virt_to_page s x = Inr i"
    using ip by (intro virt_to_page_ok [OF pool, of _ _ "unat x mod 4096"]) (simp_all flip: i(2))
  have "(pool_base s + i) * 4096 < 2 ^ 64"
    using pool_ok_addr(4) [OF pool] mult_le_mono1 [of "pool_base s + i" "pool_base s + pool_pages s" 4096] ip by simp
  then have f: "unat (frame s i) = unat x div 4096 * 4096"
    unfolding frame_def i(2) by (rule unat_of_nat_less)
  have "unat a \<le> unat x div 4096 * 4096"
  proof -
    have "unat a \<le> unat x" using x by (simp add: word_le_nat_alt)
    moreover have "4096 dvd unat a" using pages_held_chunk(2) [OF held a] by (rule dvd_mult_right)
    ultimately have "unat a div 4096 * 4096 \<le> unat x div 4096 * 4096" by (intro mult_le_mono1 div_le_mono)
    then show ?thesis using \<open>4096 dvd unat a\<close> by simp
  qed
  moreover have "unat x div 4096 * 4096 \<le> unat x" by (rule div_times_less_eq_dividend)
  ultimately have "unat a \<le> unat (frame s i)" "unat (frame s i) < unat a + 2 ^ k * 4096"
    using x unfolding f chunk.simps mem_Collect_eq by linarith+
  then have "frame s i \<in> chunk (a, k)" by (simp add: word_le_nat_alt)
  moreover obtain pg where "page_metadata s i = Some pg" using pool_ok_page [OF pool ip] by blast
  ultimately show thesis using that ip v f by blast
qed

lemma owned_page:
  assumes held: "pages_held s A" and own: "pages_owned s P" "(\<lambda>p. (p, 9)) ` P \<subseteq> A" and p: "p \<in> P" "x \<in> chunk (p, 9)"
  obtains i pg where "virt_to_page s x = Inr i" "page_metadata s i = Some pg" "page_slab pg = p"
proof -
  have pA: "(q, 9) \<in> A" if "q \<in> P" for q using own(2) that by blast
  obtain i pg where i: "i < pool_pages s" "virt_to_page s x = Inr i" "page_metadata s i = Some pg"
    "frame s i \<in> chunk (p, 9)"
    by (rule held_page [OF held pA [OF p(1)] p(2)]) (rule that)
  have o: "owner_ok P (frame s i) (page_slab pg)" using own(1) i(1,3) unfolding pages_owned_def by blast
  have "page_slab pg = p"
  proof (rule ccontr)
    assume n: "page_slab pg \<noteq> p"
    then have "page_slab pg \<in> P" "frame s i \<in> chunk (page_slab pg, 9)"
      using o i(4) p(1) unfolding owner_ok_def by blast+
    then show False using chunk_other [OF held pA [OF p(1)] pA, of "page_slab pg" "frame s i"] n i(4) by blast
  qed
  then show thesis using that i by blast
qed

subsection \<open>Taking and returning a slot\<close>

lemma class_slab:
  assumes "slab_inv s A F" "order_ok k" "F k = xs @ (p, fs) # ys"
  shows "slab_ok (mem s) k p fs" "(p, 9) \<in> A" "p \<in> set (all_slabs F)"
proof -
  have m: "(p, fs) \<in> set (F k)" using assms(3) by simp
  then show "slab_ok (mem s) k p fs" "(p, 9) \<in> A" "p \<in> set (all_slabs F)"
    using slab_inv_slab [OF assms(1,2) m] assms(2) by (auto simp: all_slabs_mem)
qed

lemma slot_not_header:
  assumes "slab_inv s A F" "order_ok k" "F k = xs @ (p, fs) # ys" "x \<in> slots_of k p"
  shows "x \<noteq> p" "x \<noteq> p + 8" "x \<noteq> 0" "8 dvd unat x" "x \<in> chunk (p, 9)" "cell_ok (mem s) x"
  using slots_of_cell [OF slab_invD(1) [OF assms(1)] class_slab(2) [OF assms(1-3)] assms(2,4)] by simp_all

lemma slab_writeI:
  assumes "dom m' = dom m" "\<forall>c. 8 dvd unat c \<longrightarrow> c \<noteq> a \<longrightarrow> load64 m' c = load64 m c"
    and "a \<in> chunk (p, 9)" "a \<noteq> p + 8" "8 dvd unat (p + 8)"
  shows "slab_write m p m'"
  unfolding slab_write_def using assms by metis

text \<open>A write of the header's first cell, the only one an allocation from the slab makes.\<close>

definition header_write :: "memory \<Rightarrow> u64 \<Rightarrow> memory \<Rightarrow> bool" where
  "header_write m p m' \<longleftrightarrow> dom m' = dom m \<and> (\<forall>c. 8 dvd unat c \<longrightarrow> c \<noteq> p \<longrightarrow> load64 m' c = load64 m c)"

lemma pop_slot_empty:
  assumes "slab_inv s A F" "order_ok k" "F k = xs @ (p, []) # ys"
  shows "pop_slot s p = Inr (s, 0)"
  using class_slab(1) [OF assms] by (auto simp: slab_ok_def pop_slot_def read64_def)

lemma pop_slot_ok:
  assumes inv: "slab_inv s A F" and k: "order_ok k" and F: "F k = xs @ (p, x # fs) # ys"
  obtains m' where "pop_slot s p = Inr (s\<lparr>mem := m'\<rparr>, x)" "header_write (mem s) p m'"
    "slab_inv (s\<lparr>mem := m'\<rparr>) A (F(k := xs @ (p, fs) # ys))" "x \<noteq> 0" "x \<in> slots_of k p - set fs"
proof -
  note ok = class_slab(1) [OF inv k F]
  note h = header_cell [OF slab_invD(1) [OF inv] class_slab(2) [OF inv k F]]
  obtain b where b: "load64 (mem s) p = Inr x" "x \<noteq> 0" "load64 (mem s) x = Inr b" "next_path (mem s) 0 b fs"
    using ok by (auto simp: slab_ok_def)
  have fs: "x \<notin> set fs" "distinct fs" "set fs \<subseteq> slots_of k p" "x \<in> slots_of k p" using ok by (auto simp: slab_ok_def)
  obtain m' where m': "write64 p b s = Inr (s\<lparr>mem := m'\<rparr>)" "dom m' = dom (mem s)" "load64 m' p = Inr b"
    "\<forall>c. 8 dvd unat c \<longrightarrow> c \<noteq> p \<longrightarrow> load64 m' c = load64 (mem s) c"
    using write64_ok [OF h(1), of b] by blast
  have w: "slab_write (mem s) p m'"
    using h by (intro slab_writeI [OF m'(2,4)]) (simp_all add: cell_ok_def del: chunk.simps)
  have "load64 m' y = load64 (mem s) y" if "y \<in> set fs" for y
    using slot_not_header [OF inv k F, of y] fs(3) that m'(4) by blast
  then have "next_path m' 0 b fs" using b(4) next_path_cong [of fs m' 0 "mem s" b] by simp
  then have "slab_ok m' k p fs" using m'(3) fs by (simp add: slab_ok_def)
  then have "slab_inv (s\<lparr>mem := m'\<rparr>) A (F(k := xs @ (p, fs) # ys))"
    by (rule slab_inv_update [OF inv k F w])
  moreover have "pop_slot s p = Inr (s\<lparr>mem := m'\<rparr>, x)"
    using b m'(1) by (simp add: pop_slot_def read64_def)
  ultimately show thesis using that m'(2,4) b(2) fs(1,4) unfolding header_write_def by blast
qed

lemma free_in_slab_ok:
  assumes inv: "slab_inv s A F" and k: "order_ok k" and F: "F k = xs @ (p, fs) # ys"
    and a: "a \<in> slots_of k p - set fs"
  obtains m' where "free_in_slab s a = Inr (s\<lparr>mem := m'\<rparr>)" "slab_write (mem s) p m'"
    "slab_inv (s\<lparr>mem := m'\<rparr>) A (F(k := xs @ (p, a # fs) # ys))"
    "\<forall>c. 8 dvd unat c \<longrightarrow> c \<noteq> a \<longrightarrow> c \<noteq> p \<longrightarrow> load64 m' c = load64 (mem s) c"
proof -
  note held = slab_invD(1) [OF inv]
  note ok = class_slab(1) [OF inv k F] and pA = class_slab(2,3) [OF inv k F]
  note h = header_cell [OF held pA(1)]
  have an: "a \<noteq> p" "a \<noteq> p + 8" "a \<noteq> 0" "8 dvd unat a" "a \<in> chunk (p, 9)" "cell_ok (mem s) a" "a \<notin> set fs" "a \<in> slots_of k p"
    using slot_not_header [OF inv k F, of a] a by blast+
  obtain i pg where i: "virt_to_page s a = Inr i" "page_metadata s i = Some pg" "page_slab pg = p"
    by (rule owned_page [OF held slab_invD(5) [OF inv] _ pA(2) an(5)]) (use inv that in \<open>auto simp: slab_inv_def\<close>)
  obtain hd where hd: "load64 (mem s) p = Inr hd" "next_path (mem s) 0 hd fs" "distinct fs" "set fs \<subseteq> slots_of k p"
    using ok by (auto simp: slab_ok_def)
  obtain m1 where m1: "write64 a hd s = Inr (s\<lparr>mem := m1\<rparr>)" "dom m1 = dom (mem s)" "load64 m1 a = Inr hd"
    "\<forall>c. 8 dvd unat c \<longrightarrow> c \<noteq> a \<longrightarrow> load64 m1 c = load64 (mem s) c"
    using write64_ok [OF an(6), of hd] by blast
  let ?s = "s\<lparr>mem := m1\<rparr>"
  have held1: "pages_held ?s A" using pages_held_mem [OF m1(2)] held by simp
  obtain m2 where m2: "write64 p a ?s = Inr (?s\<lparr>mem := m2\<rparr>)" "dom m2 = dom m1" "load64 m2 p = Inr a"
    "\<forall>c. 8 dvd unat c \<longrightarrow> c \<noteq> p \<longrightarrow> load64 m2 c = load64 m1 c"
    using write64_ok [OF header_cell(1) [OF held1 pA(1)], of a] by auto
  have p8: "8 dvd unat (p + 8)" "p \<noteq> p + 8" using h by (simp_all add: cell_ok_def)
  have w: "slab_write (mem s) p m2"
    by (rule slab_write_trans [OF slab_writeI [OF m1(2,4) an(5,2) p8(1)] slab_writeI [OF m2(2,4) h(3) p8(2,1)]])
  have "load64 m2 y = load64 (mem s) y" if "y \<in> set fs" for y
    using slot_not_header [OF inv k F, of y] hd(4) that m1(4) m2(4) an(7) by (metis subsetD)
  then have "next_path m2 0 hd fs" using hd(2) next_path_cong [of fs m2 0 "mem s" hd] by simp
  moreover have "load64 m2 a = Inr hd" using m1(3) m2(4) an(1,4) by simp
  ultimately have "slab_ok m2 k p (a # fs)" using m2(3) an(3,7,8) hd(3,4) by (simp add: slab_ok_def)
  then have "slab_inv (s\<lparr>mem := m2\<rparr>) A (F(k := xs @ (p, a # fs) # ys))"
    by (rule slab_inv_update [OF inv k F w])
  moreover have "free_in_slab s a = Inr (s\<lparr>mem := m2\<rparr>)"
    using i hd(1) m1(1) m2(1) by (simp add: free_in_slab_def get_page_def read64_def Let_def)
  moreover have "\<forall>c. 8 dvd unat c \<longrightarrow> c \<noteq> a \<longrightarrow> c \<noteq> p \<longrightarrow> load64 m2 c = load64 (mem s) c" using m1(4) m2(4) by simp
  ultimately show thesis using that w by blast
qed

subsection \<open>Searching the list of slabs\<close>

definition slabs_full :: "(u64 \<times> u64 list) list \<Rightarrow> bool" where
  "slabs_full L \<longleftrightarrow> (\<forall>(p, fs) \<in> set L. fs = [])"

lemma slabs_full_simps [simp]:
  "slabs_full []" "slabs_full ((p, fs) # L) \<longleftrightarrow> fs = [] \<and> slabs_full L"
  by (auto simp: slabs_full_def)

lemma search_slabs_full:
  "slab_inv s A F \<Longrightarrow> order_ok k \<Longrightarrow> F k = us @ ys \<Longrightarrow> next_path (mem s) 8 q (map fst ys) \<Longrightarrow>
   length ys \<le> fuel \<Longrightarrow> slabs_full ys \<Longrightarrow> search_slabs fuel s q = Some (Inr (s, 0))"
proof (induction ys arbitrary: us q fuel)
  case Nil
  then show ?case by (cases fuel) simp_all
next
  case (Cons y ys)
  obtain p where y: "y = (p, [])" using Cons.prems(6) by (cases y) simp
  obtain fuel' where fuel: "fuel = Suc fuel'" "length ys \<le> fuel'" using Cons.prems(5) by (cases fuel) auto
  obtain b where b: "q = p" "p \<noteq> 0" "load64 (mem s) (p + 8) = Inr b" "next_path (mem s) 8 b (map fst ys)"
    using Cons.prems(4) y by auto
  have "pop_slot s p = Inr (s, 0)" using Cons.prems(3) y by (intro pop_slot_empty [OF Cons.prems(1,2)]) simp
  moreover have "search_slabs fuel' s b = Some (Inr (s, 0))"
    using Cons.prems(3,6) y by (intro Cons.IH [OF Cons.prems(1,2) _ b(4) fuel(2), of "us @ [y]"]) simp_all
  ultimately show ?case using b fuel(1) by (simp add: read64_def)
qed

lemma search_slabs_found:
  "slab_inv s A F \<Longrightarrow> order_ok k \<Longrightarrow> F k = us @ ys \<Longrightarrow> next_path (mem s) 8 q (map fst ys) \<Longrightarrow>
   length ys \<le> fuel \<Longrightarrow> \<not> slabs_full ys \<Longrightarrow>
   \<exists>vs p x fs ws m'. ys = vs @ (p, x # fs) # ws \<and> slabs_full vs \<and> search_slabs fuel s q = Some (Inr (s\<lparr>mem := m'\<rparr>, x)) \<and>
     header_write (mem s) p m' \<and> slab_inv (s\<lparr>mem := m'\<rparr>) A (F(k := us @ vs @ (p, fs) # ws)) \<and>
     x \<noteq> 0 \<and> x \<in> slots_of k p - set fs"
proof (induction ys arbitrary: us q fuel)
  case Nil
  then show ?case by simp
next
  case (Cons y ys)
  obtain p gs where y: "y = (p, gs)" by (cases y)
  obtain fuel' where fuel: "fuel = Suc fuel'" "length ys \<le> fuel'" using Cons.prems(5) by (cases fuel) auto
  obtain b where b: "q = p" "p \<noteq> 0" "load64 (mem s) (p + 8) = Inr b" "next_path (mem s) 8 b (map fst ys)"
    using Cons.prems(4) y by auto
  show ?case
  proof (cases gs)
    case Nil
    have "pop_slot s p = Inr (s, 0)" using Cons.prems(3) y Nil by (intro pop_slot_empty [OF Cons.prems(1,2)]) simp
    then have step: "search_slabs fuel s q = search_slabs fuel' s b"
      using b fuel(1) by (simp add: read64_def)
    have "\<exists>vs p x fs ws m'. ys = vs @ (p, x # fs) # ws \<and> slabs_full vs \<and>
      search_slabs fuel' s b = Some (Inr (s\<lparr>mem := m'\<rparr>, x)) \<and> header_write (mem s) p m' \<and>
      slab_inv (s\<lparr>mem := m'\<rparr>) A (F(k := (us @ [y]) @ vs @ (p, fs) # ws)) \<and> x \<noteq> 0 \<and> x \<in> slots_of k p - set fs"
      using Cons.prems(3,6) y Nil by (intro Cons.IH [OF Cons.prems(1,2) _ b(4) fuel(2)]) simp_all
    then obtain vs p' x fs ws m' where r: "ys = vs @ (p', x # fs) # ws" "slabs_full vs"
      "search_slabs fuel' s b = Some (Inr (s\<lparr>mem := m'\<rparr>, x))" "header_write (mem s) p' m'"
      "slab_inv (s\<lparr>mem := m'\<rparr>) A (F(k := (us @ [y]) @ vs @ (p', fs) # ws))" "x \<noteq> 0" "x \<in> slots_of k p' - set fs"
      by blast
    then show ?thesis using step y Nil
      by (rule_tac x = "y # vs" in exI, rule_tac x = p' in exI, rule_tac x = x in exI, rule_tac x = fs in exI,
          rule_tac x = ws in exI, rule_tac x = m' in exI) (simp add: fun_upd_def)
  next
    case (Cons x fs)
    have F: "F k = us @ (p, x # fs) # ys" using Cons.prems(3) y Cons by simp
    obtain m' where m': "pop_slot s p = Inr (s\<lparr>mem := m'\<rparr>, x)" "header_write (mem s) p m'"
      "slab_inv (s\<lparr>mem := m'\<rparr>) A (F(k := us @ (p, fs) # ys))" "x \<noteq> 0" "x \<in> slots_of k p - set fs"
      by (rule pop_slot_ok [OF Cons.prems(1,2) F]) (rule that)
    then show ?thesis using b fuel(1) y Cons
      by (rule_tac x = "[]" in exI, rule_tac x = p in exI, rule_tac x = x in exI, rule_tac x = fs in exI,
          rule_tac x = ys in exI, rule_tac x = m' in exI) (simp add: fun_upd_def)
  qed
qed

subsection \<open>Counting the free memory\<close>

definition free_slots :: "(u64 \<times> u64 list) list \<Rightarrow> nat" where
  "free_slots L = sum_list (map (length \<circ> snd) L)"

lemma free_slots_size_ok:
  "next_path (mem s) 0 slot fs \<Longrightarrow> length fs \<le> fuel \<Longrightarrow>
   free_slots_size fuel s sz slot acc = Some (Inr (acc + of_nat (length fs) * sz))"
proof (induction fs arbitrary: slot fuel acc)
  case Nil
  then show ?case by (cases fuel) simp_all
next
  case (Cons x fs)
  then obtain fuel' where "fuel = Suc fuel'" "length fs \<le> fuel'" by (cases fuel) auto
  then show ?case using Cons by (auto simp: read64_def algebra_simps)
qed

lemma free_slabs_size_ok:
  "next_path (mem s) 8 q (map fst L) \<Longrightarrow> (\<forall>(p, fs) \<in> set L. slab_ok (mem s) k p fs \<and> length fs \<le> n) \<Longrightarrow>
   length L + n \<le> fuel \<Longrightarrow>
   free_slabs_size fuel s sz q acc = Some (Inr (acc + of_nat (free_slots L) * sz))"
proof (induction L arbitrary: q fuel acc)
  case Nil
  then show ?case by (cases fuel) (simp_all add: free_slots_def)
next
  case (Cons y L)
  obtain p fs where y: "y = (p, fs)" by (cases y)
  obtain fuel' where fuel: "fuel = Suc fuel'" "length L + n \<le> fuel'" using Cons.prems(3) by (cases fuel) auto
  obtain b where b: "q = p" "p \<noteq> 0" "load64 (mem s) (p + 8) = Inr b" "next_path (mem s) 8 b (map fst L)"
    using Cons.prems(1) y by auto
  obtain h where h: "load64 (mem s) p = Inr h" "next_path (mem s) 0 h fs" "length fs \<le> n"
    using Cons.prems(2) y by (auto simp: slab_ok_def)
  have "free_slots_size fuel' s sz h acc = Some (Inr (acc + of_nat (length fs) * sz))"
    using h fuel by (intro free_slots_size_ok) simp_all
  moreover have "free_slabs_size fuel' s sz b (acc + of_nat (length fs) * sz) =
      Some (Inr (acc + of_nat (length fs) * sz + of_nat (free_slots L) * sz))"
    using Cons.prems(2) by (intro Cons.IH [OF b(4) _ fuel(2)]) auto
  ultimately show ?case
    using b h fuel(1) y by (simp add: read64_def free_slots_def algebra_simps)
qed

lemma order_to_size_ok: "order_ok k \<Longrightarrow> order_to_size (word_of_int (int k)) = Inr (of_nat (2 ^ k))"
proof -
  assume "order_ok k"
  then have k: "k < 64" by (simp add: order_ok_def)
  then have u: "unat (of_nat k :: u64) = k" by (intro unat_of_nat_less) simp
  then have "\<not> 64 \<le> (of_nat k :: u64)" using k by (simp add: word_le_nat_alt)
  then show ?thesis by (simp add: order_to_size_def u push_bit_eq_mult)
qed

lemma slab_index_ok: "order_ok k \<Longrightarrow> slab_index (int k) = Inr k"
  by (simp add: slab_index_def order_ok_def)

lemma free_orders_size_ok:
  assumes inv: "slab_inv s A F" and n: "\<And>k. order_ok k \<Longrightarrow> length (F k) + 2 ^ 16 \<le> fuel"
  shows "(\<forall>k \<in> set ks. order_ok k) \<Longrightarrow>
    free_orders_size fuel s (map int ks) acc = Some (Inr (acc + of_nat (\<Sum>k \<leftarrow> ks. free_slots (F k) * 2 ^ k)))"
proof (induction ks arbitrary: acc)
  case (Cons k ks)
  then have k: "order_ok k" by simp
  have c: "class_ok (mem s) (slabs s k) k (F k)" by (rule slab_invD(2) [OF inv k])
  have "length fs \<le> 2 ^ 16" if "(p, fs) \<in> set (F k)" for p fs
  proof -
    have ok: "slab_ok (mem s) k p fs" using c that by (auto simp: class_ok_def)
    then have "length fs = card (set fs)" by (simp add: slab_ok_def distinct_card)
    also have "\<dots> \<le> card (slots_of k p)" using ok by (intro card_mono) (simp_all add: slab_ok_def slots_of_def)
    also have "\<dots> \<le> card {1..<(2 :: nat) ^ (21 - k)}" unfolding slots_of_def by (rule card_image_le) simp
    also have "\<dots> \<le> 2 ^ (21 - k)" by simp
    also have "\<dots> \<le> 2 ^ 16" using order_okD(1) [OF k] by (intro power_increasing) simp_all
    finally show ?thesis .
  qed
  then have L: "\<forall>(p, fs) \<in> set (F k). slab_ok (mem s) k p fs \<and> length fs \<le> 2 ^ 16"
    using c by (auto simp: class_ok_def)
  have "next_path (mem s) 8 (slabs s k) (map fst (F k))" using c by (simp add: class_ok_def)
  note size = free_slabs_size_ok [OF this L n [OF k]]
  show ?case
    using Cons.prems by (simp add: slab_index_ok [OF k] order_to_size_ok [OF k, simplified] size Cons.IH algebra_simps)
qed simp

lemma get_free_mem_size_from_slab_ok:
  assumes inv: "slab_inv s A F" and n: "\<And>k. order_ok k \<Longrightarrow> length (F k) + 2 ^ 16 \<le> fuel"
  shows "get_free_mem_size_from_slab fuel s = Some (Inr (of_nat (\<Sum>k \<leftarrow> slab_orders. free_slots (F k) * 2 ^ k)))"
proof -
  have "[5..11] = map int slab_orders" by (simp add: slab_orders_def upto_rec_numeral upt_rec_numeral)
  moreover have "\<forall>k \<in> set slab_orders. order_ok k" by (simp add: slab_orders)
  ultimately show ?thesis
    using free_orders_size_ok [OF inv n, of slab_orders 0] by (simp add: get_free_mem_size_from_slab_def)
qed

end
