(* ===== verification/Slab_Init.thy ===== *)
theory Slab_Init
  imports Slab_Ops
begin

text \<open>
  Making a slab: \<open>alloc_slab_memory\<close> marks the pages of the chunk, \<open>init_slab_cache\<close> writes the
  header and links all slots into the free list.
\<close>

subsection \<open>Marking the pages\<close>

lemma pages_held_slab_field:
  assumes held: "pages_held s A" and pg: "page_metadata s i = Some pg"
  shows "pages_held (s\<lparr>page_metadata := (page_metadata s)(i \<mapsto> pg\<lparr>page_slab := v\<rparr>)\<rparr>) A"
proof -
  let ?s = "s\<lparr>page_metadata := (page_metadata s)(i \<mapsto> pg\<lparr>page_slab := v\<rparr>)\<rparr>"
  obtain fl B where B: "buddy_inv s fl B" "A = chunk_of s ` B" "KBASE \<le> pool_start_addr s" "pool_mapped s"
    using held by (auto simp: pages_held_def)
  have "page_pool pg = GlobalMem0" using buddy_inv_pool [OF B(1)] pg unfolding pool_ok_def by blast
  then have pool: "pool_ok ?s" using buddy_inv_pool [OF B(1)] pg by (intro pool_ok_page_update) simp_all
  have kept: "page_is s f b \<Longrightarrow> page_is ?s f b" for f b using pg by (auto simp: page_is_def)
  have "buddy_inv ?s fl B"
    using B(1) pool kept unfolding buddy_inv_def buddy_core_def by (simp add: pool_base_def pool_pages_def)
  moreover have "chunk_of ?s = chunk_of s" by (simp add: fun_eq_iff chunk_of_def pool_base_def)
  moreover have "pool_mapped ?s" using B(4) by (simp add: pool_mapped_def)
  ultimately show ?thesis unfolding pages_held_def using B(2,3) by auto
qed

definition page_at :: "u64 \<Rightarrow> nat \<Rightarrow> u64" where
  "page_at p j = p + of_nat j * 0x1000"

lemma page_at_chunk:
  assumes "pages_held s A" "(p, 9) \<in> A" "j < 512"
  shows "page_at p j \<in> chunk (p, 9)" "unat (page_at p j) = unat p + j * 4096"
proof -
  have "8 * (j * 512) < (2 :: nat) ^ 9 * 4096" using assms(3) by simp
  note c = held_cell(2,3) [OF assms(1,2) this]
  have "page_at p j = p + of_nat (8 * (j * 512))" by (simp add: page_at_def)
  then show "page_at p j \<in> chunk (p, 9)" "unat (page_at p j) = unat p + j * 4096" using c by simp_all
qed

lemma set_page_slab_ok:
  "pages_held s A \<Longrightarrow> (p, 9) \<in> A \<Longrightarrow> set js \<subseteq> {..<512} \<Longrightarrow>
   \<exists>pm. set_page_slab p js s = Inr (s\<lparr>page_metadata := pm\<rparr>) \<and> pages_held (s\<lparr>page_metadata := pm\<rparr>) A \<and>
     (\<forall>i < pool_pages s. pm i = (if frame s i \<in> page_at p ` set js
        then map_option (\<lambda>pg. pg\<lparr>page_slab := p\<rparr>) (page_metadata s i) else page_metadata s i))"
proof (induction js arbitrary: s)
  case Nil
  then show ?case by (intro exI [of _ "page_metadata s"]) simp
next
  case (Cons j js)
  have j: "j < 512" using Cons.prems(3) by simp
  note pj = page_at_chunk [OF Cons.prems(1,2) j]
  obtain i pg where i: "i < pool_pages s" "virt_to_page s (page_at p j) = Inr i" "page_metadata s i = Some pg"
    "unat (frame s i) = unat (page_at p j) div 4096 * 4096"
    by (rule held_page [OF Cons.prems(1,2) pj(1)]) (rule that)
  have "4096 dvd unat p"
    using pages_held_chunk(2) [OF Cons.prems(1,2)] by (rule dvd_mult_right)
  then have "4096 dvd unat (page_at p j)" by (simp add: pj(2))
  then have fi: "frame s i = page_at p j" using i(4) by (simp add: word_unat_eq_iff)
  let ?pm = "(page_metadata s)(i \<mapsto> pg\<lparr>page_slab := p\<rparr>)"
  let ?s = "s\<lparr>page_metadata := ?pm\<rparr>"
  have held: "pages_held ?s A" by (rule pages_held_slab_field [OF Cons.prems(1) i(3)])
  have fr: "frame ?s = frame s" "pool_pages ?s = pool_pages s" by (simp_all add: fun_eq_iff frame_def)
  obtain pm where pm: "set_page_slab p js ?s = Inr (?s\<lparr>page_metadata := pm\<rparr>)" "pages_held (?s\<lparr>page_metadata := pm\<rparr>) A"
    "\<forall>i < pool_pages s. pm i = (if frame s i \<in> page_at p ` set js
        then map_option (\<lambda>pg. pg\<lparr>page_slab := p\<rparr>) (?pm i) else ?pm i)"
    using Cons.IH [OF held Cons.prems(2)] Cons.prems(3) fr by auto
  have inj: "i' = i" if "i' < pool_pages s" "frame s i' = page_at p j" for i'
  proof -
    obtain fl B where "buddy_inv s fl B" using Cons.prems(1) by (auto simp: pages_held_def)
    then have "(pool_base s + pool_pages s) * 4096 < 2 ^ 64" using pool_ok_addr(4) buddy_inv_pool by blast
    then have "unat (frame s x) = (pool_base s + x) * 4096" if "x < pool_pages s" for x
      unfolding frame_def using mult_le_mono1 [of "pool_base s + x" "pool_base s + pool_pages s" 4096] that
      by (intro unat_of_nat_less) simp
    then have "(pool_base s + i') * 4096 = (pool_base s + i) * 4096" using that i(1) fi by metis
    then show ?thesis by simp
  qed
  have "pm i' = (if frame s i' \<in> page_at p ` set (j # js)
        then map_option (\<lambda>pg. pg\<lparr>page_slab := p\<rparr>) (page_metadata s i') else page_metadata s i')"
    if i': "i' < pool_pages s" for i'
  proof (cases "i' = i")
    case True
    have "page_at p j \<in> page_at p ` set (j # js)" by simp
    moreover have "pm i = Some (pg\<lparr>page_slab := p\<rparr>)" using pm(3) [rule_format, OF i(1)] by (simp split: if_splits)
    ultimately show ?thesis using i(3) by (simp only: True fi if_True option.map)
  next
    case False
    then have "frame s i' \<noteq> page_at p j" using inj [OF i'] by blast
    then have "frame s i' \<in> page_at p ` set (j # js) \<longleftrightarrow> frame s i' \<in> page_at p ` set js" by simp
    then show ?thesis using pm(3) [rule_format, OF i'] False by (simp only: fun_upd_apply if_False)
  qed
  moreover have "upd_page i (\<lambda>pg. pg\<lparr>page_slab := p\<rparr>) s = Inr ?s"
    by (simp add: upd_page_def get_page_def i(3))
  then have "set_page_slab p (j # js) s = Inr (?s\<lparr>page_metadata := pm\<rparr>)"
    by (simp only: set_page_slab.simps page_at_def [symmetric] i(2) rbind.simps pm(1))
  then have "set_page_slab p (j # js) s = Inr (s\<lparr>page_metadata := pm\<rparr>)" by simp
  moreover have "pages_held (s\<lparr>page_metadata := pm\<rparr>) A" using pm(2) by simp
  ultimately show ?case by blast
qed

text \<open>A frame in the chunk of a slab is one of its 512 pages.\<close>

lemma frame_in_chunk:
  assumes held: "pages_held s A" and p: "(p, 9) \<in> A" and i: "i < pool_pages s" and f: "frame s i \<in> chunk (p, 9)"
  shows "frame s i \<in> page_at p ` {..<512}"
proof -
  have p4: "4096 dvd unat p" using pages_held_chunk(2) [OF held p] by (rule dvd_mult_right)
  obtain fl B where "buddy_inv s fl B" using held by (auto simp: pages_held_def)
  then have "(pool_base s + pool_pages s) * 4096 < 2 ^ 64" using pool_ok_addr(4) buddy_inv_pool by blast
  then have fi: "unat (frame s i) = (pool_base s + i) * 4096"
    unfolding frame_def using mult_le_mono1 [of "pool_base s + i" "pool_base s + pool_pages s" 4096] i
    by (intro unat_of_nat_less) simp
  define j where "j = (unat (frame s i) - unat p) div 4096"
  have le: "unat p \<le> unat (frame s i)" "unat (frame s i) < unat p + 2 ^ 9 * 4096"
    using f by (simp_all add: word_le_nat_alt)
  have "4096 dvd unat (frame s i) - unat p" using p4 by (simp add: fi dvd_diff_nat)
  then have j4: "j * 4096 = unat (frame s i) - unat p" unfolding j_def by (rule dvd_div_mult_self)
  then have "j * 4096 < 512 * 4096" using le by simp
  then have j: "j < 512" by simp
  then have "unat (page_at p j) = unat (frame s i)" using page_at_chunk(2) [OF held p] j4 le(1) by simp
  then show ?thesis using j by (auto simp: word_unat_eq_iff intro!: rev_image_eqI [of j])
qed

lemma pages_owned_insert:
  assumes held: "pages_held s A" and p: "(p, 9) \<in> A" "p \<noteq> 0" and own: "pages_owned s P"
    and pm: "\<forall>i < pool_pages s. pm i = (if frame s i \<in> page_at p ` {..<512}
        then map_option (\<lambda>pg. pg\<lparr>page_slab := p\<rparr>) (page_metadata s i) else page_metadata s i)"
  shows "pages_owned (s\<lparr>page_metadata := pm\<rparr>) (insert p P)"
  unfolding pages_owned_def
proof (intro allI impI)
  fix i pg
  assume "i < pool_pages (s\<lparr>page_metadata := pm\<rparr>)" and q: "page_metadata (s\<lparr>page_metadata := pm\<rparr>) i = Some pg"
  then have i: "i < pool_pages s" by simp
  have fr: "frame (s\<lparr>page_metadata := pm\<rparr>) i = frame s i" by (simp add: frame_def)
  show "owner_ok (insert p P) (frame (s\<lparr>page_metadata := pm\<rparr>) i) (page_slab pg)"
    unfolding fr
  proof (cases "frame s i \<in> page_at p ` {..<512}")
    case True
    then have "pm i = map_option (\<lambda>pg. pg\<lparr>page_slab := p\<rparr>) (page_metadata s i)" using pm i by presburger
    moreover have "pm i = Some pg" using q by simp
    ultimately obtain pg0 where "pg = pg0\<lparr>page_slab := p\<rparr>" by (cases "page_metadata s i") simp_all
    then have "page_slab pg = p" by simp
    moreover obtain j where "j < 512" "frame s i = page_at p j" using True by (elim imageE) simp
    then have "frame s i \<in> chunk (p, 9)" using page_at_chunk(1) [OF held p(1)] by (simp del: chunk.simps)
    ultimately show "owner_ok (insert p P) (frame s i) (page_slab pg)" unfolding owner_ok_def by blast
  next
    case False
    then have n: "frame s i \<notin> chunk (p, 9)" using frame_in_chunk [OF held p(1) i] by blast
    have "pm i = page_metadata s i" using pm i False by presburger
    then have "page_metadata s i = Some pg" using q by simp
    then have "owner_ok P (frame s i) (page_slab pg)" using own i unfolding pages_owned_def by blast
    then show "owner_ok (insert p P) (frame s i) (page_slab pg)"
      using n unfolding owner_ok_def by blast
  qed
qed

subsection \<open>Writing the slab\<close>

lemma write32_ok:
  assumes "cell_ok (mem s) a"
  obtains m' where "write32 a v s = Inr (s\<lparr>mem := m'\<rparr>)" "dom m' = dom (mem s)"
    "\<forall>b. 8 dvd unat b \<longrightarrow> b \<noteq> a \<longrightarrow> load64 m' b = load64 (mem s) b"
proof -
  have al: "8 dvd unat a" "4 dvd unat a" and mp: "mapped (mem s) a (length (bytes_of_word 4 v))"
    using assms dvd_trans [of 4 8 "unat a"] by (auto simp: cell_ok_def mapped_iff)
  obtain m' where m': "store_bytes a (bytes_of_word 4 v) (mem s) = Inr m'" "dom m' = dom (mem s)"
    "\<And>x. m' x = (if unat (x - a) < length (bytes_of_word 4 v) then Some (bytes_of_word 4 v ! unat (x - a)) else mem s x)"
    using store_bytes_ok [OF mp] by blast
  have "load64 m' b = load64 (mem s) b" if "8 dvd unat b" "b \<noteq> a" for b
  proof (rule load64_cong)
    fix i :: nat assume "i < 8"
    then have "8 \<le> unat (b + of_nat i - a)" using aligned_apart [OF al(1) that(1)] that(2) by simp
    then show "m' (b + of_nat i) = mem s (b + of_nat i)" by (simp add: m'(3))
  qed
  moreover have "write32 a v s = Inr (s\<lparr>mem := m'\<rparr>)" using m'(1) al(2) by (simp add: write32_def store32_def)
  ultimately show thesis using that m'(2) by blast
qed

lemma slot_at_inj:
  assumes "pages_held s A" "(p, 9) \<in> A" "order_ok k" "i < 2 ^ (21 - k)" "j < 2 ^ (21 - k)" "slot_at k p i = slot_at k p j"
  shows "i = j"
proof -
  have "unat p + i * 2 ^ k = unat p + j * 2 ^ k"
    using slot_cell(3) [OF assms(1-3,4)] slot_cell(3) [OF assms(1-3,5)] unfolding assms(6) by linarith
  then show ?thesis by simp
qed

lemma slot_at_Suc: "slot_at k p j + of_nat (2 ^ k) = slot_at k p (Suc j)"
  by (simp add: slot_at_def algebra_simps)

lemma link_slots_ok:
  "pages_held s A \<Longrightarrow> (p, 9) \<in> A \<Longrightarrow> order_ok k \<Longrightarrow> j + length js < 2 ^ (21 - k) \<Longrightarrow>
   \<exists>m'. link_slots (of_nat (2 ^ k)) js (slot_at k p j) s = Inr (s\<lparr>mem := m'\<rparr>, slot_at k p (j + length js)) \<and>
     dom m' = dom (mem s) \<and>
     (\<forall>i. j \<le> i \<longrightarrow> i < j + length js \<longrightarrow> load64 m' (slot_at k p i) = Inr (slot_at k p (Suc i))) \<and>
     (\<forall>c. 8 dvd unat c \<longrightarrow> c \<notin> slot_at k p ` {j..<j + length js} \<longrightarrow> load64 m' c = load64 (mem s) c)"
proof (induction js arbitrary: s j)
  case Nil
  then show ?case by (intro exI [of _ "mem s"]) simp
next
  case (Cons x js)
  note held = Cons.prems(1) and p = Cons.prems(2) and k = Cons.prems(3)
  have j: "j < 2 ^ (21 - k)" and j': "Suc j + length js < 2 ^ (21 - k)" using Cons.prems(4) by simp_all
  obtain m1 where m1: "write64 (slot_at k p j) (slot_at k p (Suc j)) s = Inr (s\<lparr>mem := m1\<rparr>)" "dom m1 = dom (mem s)"
    "load64 m1 (slot_at k p j) = Inr (slot_at k p (Suc j))"
    "\<forall>c. 8 dvd unat c \<longrightarrow> c \<noteq> slot_at k p j \<longrightarrow> load64 m1 c = load64 (mem s) c"
    using write64_ok [OF slot_cell(1) [OF held p k j], of "slot_at k p (Suc j)"] by blast
  let ?s = "s\<lparr>mem := m1\<rparr>"
  have held1: "pages_held ?s A" using pages_held_mem [OF m1(2)] held by simp
  obtain m2 where m2: "link_slots (of_nat (2 ^ k)) js (slot_at k p (Suc j)) ?s = Inr (?s\<lparr>mem := m2\<rparr>, slot_at k p (Suc j + length js))"
    "dom m2 = dom m1"
    "\<forall>i. Suc j \<le> i \<longrightarrow> i < Suc j + length js \<longrightarrow> load64 m2 (slot_at k p i) = Inr (slot_at k p (Suc i))"
    "\<forall>c. 8 dvd unat c \<longrightarrow> c \<notin> slot_at k p ` {Suc j..<Suc j + length js} \<longrightarrow> load64 m2 c = load64 m1 c"
    using Cons.IH [OF held1 p k j'] by auto
  have al: "8 dvd unat (slot_at k p j)" using slot_cell(1) [OF held p k j] by (simp add: cell_ok_def)
  have nj: "slot_at k p j \<notin> slot_at k p ` {Suc j..<Suc j + length js}"
  proof
    assume "slot_at k p j \<in> slot_at k p ` {Suc j..<Suc j + length js}"
    then obtain i where "Suc j \<le> i" "i < Suc j + length js" "slot_at k p j = slot_at k p i" by auto
    then show False using slot_at_inj [OF held p k j, of i] j' by simp
  qed
  have "load64 m2 (slot_at k p i) = Inr (slot_at k p (Suc i))" if "j \<le> i" "i < j + length (x # js)" for i
  proof (cases "i = j")
    case True
    then show ?thesis using m2(4) al nj m1(3) by simp
  next
    case False
    then show ?thesis using m2(3) that by simp
  qed
  moreover have "load64 m2 c = load64 (mem s) c" if "8 dvd unat c" "c \<notin> slot_at k p ` {j..<j + length (x # js)}" for c
  proof -
    have "c \<noteq> slot_at k p j" "c \<notin> slot_at k p ` {Suc j..<Suc j + length js}" using that(2) by auto
    then show ?thesis using m1(4) m2(4) that(1) by simp
  qed
  moreover have "link_slots (of_nat (2 ^ k)) (x # js) (slot_at k p j) s = Inr (s\<lparr>mem := m2\<rparr>, slot_at k p (j + length (x # js)))"
    unfolding link_slots.simps slot_at_Suc using m1(1) m2(1) by simp
  ultimately show ?case using m1(2) m2(2) by (intro exI [of _ m2]) blast
qed

lemma chain_path:
  "j \<le> n \<Longrightarrow> (\<And>i. j \<le> i \<Longrightarrow> i \<le> n \<Longrightarrow> slot_at k p i \<noteq> 0) \<Longrightarrow>
   (\<And>i. j \<le> i \<Longrightarrow> i < n \<Longrightarrow> load64 m (slot_at k p i) = Inr (slot_at k p (Suc i))) \<Longrightarrow>
   load64 m (slot_at k p n) = Inr 0 \<Longrightarrow>
   next_path m 0 (slot_at k p j) (map (slot_at k p) [j..<Suc n])"
proof (induction "n - j" arbitrary: j)
  case 0
  then show ?case by simp
next
  case (Suc d)
  then have j: "j < n" by simp
  have "next_path m 0 (slot_at k p (Suc j)) (map (slot_at k p) [Suc j..<Suc n])"
    using Suc j by (intro Suc.hyps(1)) simp_all
  then show ?case using Suc.prems j by (simp add: upt_conv_Cons del: upt_Suc)
qed

subsection \<open>A new slab\<close>

lemma slab_page_order: "size_to_order (0x200000 div 0x1000) = 9"
  by code_simp

lemma pages_owned_same_pool:
  assumes "same_pool s s'" "pages_owned s P"
  shows "pages_owned s' P"
  unfolding pages_owned_def
proof (intro allI impI)
  fix i pg assume i: "i < pool_pages s'" "page_metadata s' i = Some pg"
  have "map_option page_slab (page_metadata s i) = Some (page_slab pg)"
    using assms(1) i(2) unfolding same_pool_def by (metis option.simps(9))
  then obtain pg0 where "page_metadata s i = Some pg0" "page_slab pg0 = page_slab pg" by auto
  moreover have "i < pool_pages s" "frame s' i = frame s i"
    using i(1) same_pool_pages [OF assms(1)] same_pool_base [OF assms(1)] by (simp_all add: frame_def)
  ultimately show "owner_ok P (frame s' i) (page_slab pg)" using assms(2) unfolding pages_owned_def by metis
qed

lemma virt_to_page_NULL:
  assumes "pages_held s A"
  shows "virt_to_page s 0 = Inl Bug"
proof -
  obtain fl B where "buddy_inv s fl B" and b: "KBASE \<le> pool_start_addr s" using assms by (auto simp: pages_held_def)
  then have "physmem_map_num s = 1" using buddy_inv_pool by (auto simp: pool_ok_def)
  moreover have "\<not> pool_start_addr s \<le> 0" using b by (auto simp: KBASE_def)
  ultimately show ?thesis by (simp add: virt_to_page_def)
qed

text \<open>Where the pool lies: what no operation changes after \<open>init_buddy\<close>.\<close>

definition pool_place :: "'z buddy_state_scheme \<Rightarrow> nat \<times> u64 \<times> u64" where
  "pool_place s = (pool_pages s, pool_start_addr s, page_metadata_addr s)"

lemma pool_place_simps [simp]:
  "pool_place (s\<lparr>page_metadata := pm\<rparr>) = pool_place s"
  "pool_place (k\<lparr>mem := m\<rparr>) = pool_place k" "pool_place (k\<lparr>slabs := f\<rparr>) = pool_place k"
  by (simp_all add: pool_place_def pool_pages_def)

lemma pool_placeD: "pool_place s' = pool_place s \<Longrightarrow> pool_pages s' = pool_pages s"
  by (simp add: pool_place_def)

lemma pool_place_same_pool: "same_pool s s' \<Longrightarrow> pool_place s' = pool_place s"
  using same_pool_pages [of s s'] by (simp add: pool_place_def same_pool_def)

lemma alloc_slab_memory_ok:
  assumes held: "pages_held s A" and own: "pages_owned s P"
  shows "\<exists>s1 a. get_pages s 9 = Inr (s1, a) \<and>
    (if a = 0 then alloc_slab_memory s 0x200000 = Inl Bug
     else (a, 9) \<notin> A \<and> (\<exists>s'. alloc_slab_memory s 0x200000 = Inr (s', a) \<and> pages_held s' (insert (a, 9) A) \<and>
       pages_owned s' (insert a P) \<and> mem s' = mem s \<and> slabs s' = slabs s \<and> pool_place s' = pool_place s))"
proof -
  obtain s1 a where g: "get_pages s 9 = Inr (s1, a)" "same_pool s s1"
    "if a = 0 then pages_held s1 A else (a, 9) \<notin> A \<and> pages_held s1 (insert (a, 9) A)"
    using pages.get_law [OF held, of 9] by auto
  note sk = same_pool_kernel [OF g(2)]
  have ord: "size_to_order 512 = 9" using slab_page_order by simp
  have step: "alloc_slab_memory s 0x200000 =
      rbind (virt_to_page s1 a) (\<lambda>_. rbind (set_page_slab a [0..<512] s1) (\<lambda>s. Inr (s, a)))"
    using g(1) by (simp add: alloc_slab_memory_def ord order_to_size_def word_le_nat_alt)
  show ?thesis
  proof (cases "a = 0")
    case True
    then have "virt_to_page s1 a = Inl Bug" using virt_to_page_NULL g(3) by simp
    then show ?thesis using g(1) step True by simp
  next
    case False
    then have h: "pages_held s1 (insert (a, 9) A)" "(a, 9) \<notin> A" using g(3) by simp_all
    have a9: "(a, 9) \<in> insert (a, 9) A" by simp
    obtain i where i: "virt_to_page s1 a = Inr i"
      by (rule held_page [OF h(1) a9 header_cell(3) [OF h(1) a9]])
    have sub: "set [0..<512] \<subseteq> {..<512 :: nat}" by auto
    obtain pm where pm: "set_page_slab a [0..<512] s1 = Inr (s1\<lparr>page_metadata := pm\<rparr>)"
      "pages_held (s1\<lparr>page_metadata := pm\<rparr>) (insert (a, 9) A)"
      "\<forall>i < pool_pages s1. pm i = (if frame s1 i \<in> page_at a ` set [0..<512]
        then map_option (\<lambda>pg. pg\<lparr>page_slab := a\<rparr>) (page_metadata s1 i) else page_metadata s1 i)"
      using set_page_slab_ok [OF h(1) a9 sub] by blast
    have "set [0..<512] = {..<512 :: nat}" by auto
    note own1 = pages_owned_insert [OF h(1) a9 False pages_owned_same_pool [OF g(2) own] pm(3) [unfolded this]]
    have "alloc_slab_memory s 0x200000 = Inr (s1\<lparr>page_metadata := pm\<rparr>, a)"
      by (simp only: step i pm(1) rbind.simps)
    then show ?thesis using g(1) False h(2) pm(2) own1 sk pool_place_same_pool [OF g(2)] by (intro exI [of _ s1] exI [of _ a]) simp
  qed
qed

lemma slab_counts:
  assumes "order_ok k"
  shows "(word_of_int 2097152 :: u64) div of_nat (2 ^ k) = of_nat (2 ^ (21 - k))"
    and "unat (of_nat (2 ^ (21 - k)) - 1 - 1 :: u64) = 2 ^ (21 - k) - 2"
    and "2 ^ 10 \<le> (2 :: nat) ^ (21 - k)" and "2 ^ (21 - k) \<le> (2 :: nat) ^ 16"
proof -
  have "k \<in> {5, 6, 7, 8, 9, 10, 11}" using assms by (auto simp: order_ok_def)
  then show "(word_of_int 2097152 :: u64) div of_nat (2 ^ k) = of_nat (2 ^ (21 - k))"
    "unat (of_nat (2 ^ (21 - k)) - 1 - 1 :: u64) = 2 ^ (21 - k) - 2" by auto
  show "2 ^ 10 \<le> (2 :: nat) ^ (21 - k)" "2 ^ (21 - k) \<le> (2 :: nat) ^ 16"
    using power_increasing [of 10 "21 - k" "2 :: nat"] power_increasing [of "21 - k" 16 "2 :: nat"] order_okD [OF assms]
    by simp_all
qed

definition new_slots :: "nat \<Rightarrow> u64 \<Rightarrow> u64 list" where
  "new_slots k p = map (slot_at k p) [1..<2 ^ (21 - k)]"

lemma init_slab_cache_ok:
  assumes held: "pages_held s A" and own: "pages_owned s P" and k: "order_ok k"
  shows "\<exists>s1 a. get_pages s 9 = Inr (s1, a) \<and>
    (if a = 0 then init_slab_cache s (int k) SLAB_INIT_SIZE = Inl Bug
     else (a, 9) \<notin> A \<and> (\<exists>s'. init_slab_cache s (int k) SLAB_INIT_SIZE = Inr (s', a) \<and>
       pages_held s' (insert (a, 9) A) \<and> pages_owned s' (insert a P) \<and>
       slab_ok (mem s') k a (new_slots k a) \<and> load64 (mem s') (a + 8) = Inr 0 \<and>
       dom (mem s') = dom (mem s) \<and>
       (\<forall>c. 8 dvd unat c \<longrightarrow> c \<notin> chunk (a, 9) \<longrightarrow> load64 (mem s') c = load64 (mem s) c) \<and>
       slabs s' = slabs s \<and> pool_place s' = pool_place s))"
proof -
  obtain s1 a where g: "get_pages s 9 = Inr (s1, a)"
    "if a = 0 then alloc_slab_memory s 0x200000 = Inl Bug
     else (a, 9) \<notin> A \<and> (\<exists>s'. alloc_slab_memory s 0x200000 = Inr (s', a) \<and> pages_held s' (insert (a, 9) A) \<and>
       pages_owned s' (insert a P) \<and> mem s' = mem s \<and> slabs s' = slabs s \<and> pool_place s' = pool_place s)"
    using alloc_slab_memory_ok [OF held own] by blast
  note c = slab_counts [OF k]
  show ?thesis
  proof (cases "a = 0")
    case True
    then show ?thesis using g by (intro exI [of _ s1] exI [of _ a]) (simp add: init_slab_cache_def)
  next
    case False
    then obtain s2 where s2: "alloc_slab_memory s 0x200000 = Inr (s2, a)" "pages_held s2 (insert (a, 9) A)"
      "pages_owned s2 (insert a P)" "mem s2 = mem s" "slabs s2 = slabs s" "pool_place s2 = pool_place s"
      and a: "(a, 9) \<notin> A" using g(2) by auto
    have a9: "(a, 9) \<in> insert (a, 9) A" by simp
    let ?n = "(2 :: nat) ^ (21 - k)"
    have n: "2 \<le> ?n" "1 < ?n" using c(3) by simp_all
    have n1: "1 + length [0..<?n - 2] < ?n" using n by simp
    note h = header_cell [OF s2(2) a9]
    have h16: "cell_ok (mem s2) (a + 16)" "a + 16 \<in> chunk (a, 9)" "a \<noteq> a + 16" "a + 8 \<noteq> a + 16"
      using held_cell [OF s2(2) a9, of 2] by simp_all
    let ?held = "\<lambda>m. pages_held (s2\<lparr>mem := m\<rparr>) (insert (a, 9) A)"
    have H: "?held m \<and> cell_ok m (a + 8) \<and> cell_ok m (a + 16)" if "dom m = dom (mem s2)" for m
      using pages_held_mem [OF that] s2(2) cell_ok_dom [OF that] h h16 by simp
    obtain m1 where m1: "write64 a (slot_at k a 1) s2 = Inr (s2\<lparr>mem := m1\<rparr>)" "dom m1 = dom (mem s2)"
      "load64 m1 a = Inr (slot_at k a 1)" "\<forall>c. 8 dvd unat c \<longrightarrow> c \<noteq> a \<longrightarrow> load64 m1 c = load64 (mem s2) c"
      using write64_ok [OF h(1)] by blast
    have c1: "cell_ok (mem (s2\<lparr>mem := m1\<rparr>)) (a + 8)" using H [OF m1(2)] by simp
    obtain m2 where m2: "write64 (a + 8) 0 (s2\<lparr>mem := m1\<rparr>) = Inr (s2\<lparr>mem := m2\<rparr>)" "dom m2 = dom (mem s2)"
      "load64 m2 (a + 8) = Inr 0" "\<forall>c. 8 dvd unat c \<longrightarrow> c \<noteq> a + 8 \<longrightarrow> load64 m2 c = load64 m1 c"
      using write64_ok [OF c1, of 0] m1(2) by auto
    have c2: "cell_ok (mem (s2\<lparr>mem := m2\<rparr>)) (a + 16)" using H [OF m2(2)] by simp
    obtain m3 where m3: "write32 (a + 16) (word_of_int (int k)) (s2\<lparr>mem := m2\<rparr>) = Inr (s2\<lparr>mem := m3\<rparr>)" "dom m3 = dom (mem s2)"
      "\<forall>c. 8 dvd unat c \<longrightarrow> c \<noteq> a + 16 \<longrightarrow> load64 m3 c = load64 m2 c"
      by (rule write32_ok [OF c2, of "word_of_int (int k)"]) (use that m2(2) in simp)
    obtain m4 where m4: "link_slots (of_nat (2 ^ k)) [0..<?n - 2] (slot_at k a 1) (s2\<lparr>mem := m3\<rparr>) =
        Inr (s2\<lparr>mem := m4\<rparr>, slot_at k a (1 + length [0..<?n - 2]))" "dom m4 = dom (mem s2)"
      "\<forall>i. 1 \<le> i \<longrightarrow> i < 1 + length [0..<?n - 2] \<longrightarrow> load64 m4 (slot_at k a i) = Inr (slot_at k a (Suc i))"
      "\<forall>c. 8 dvd unat c \<longrightarrow> c \<notin> slot_at k a ` {1..<1 + length [0..<?n - 2]} \<longrightarrow> load64 m4 c = load64 m3 c"
      using link_slots_ok [OF conjunct1 [OF H [OF m3(2)]] a9 k n1] m3(2) by auto
    have last: "1 + length [0..<?n - 2] = ?n - 1" using n by simp
    have lt: "?n - 1 < ?n" using n by simp
    have c4: "cell_ok (mem (s2\<lparr>mem := m4\<rparr>)) (slot_at k a (?n - 1))"
      by (rule slot_cell(1) [OF conjunct1 [OF H [OF m4(2)]] a9 k lt])
    obtain m5 where m5: "write64 (slot_at k a (?n - 1)) 0 (s2\<lparr>mem := m4\<rparr>) = Inr (s2\<lparr>mem := m5\<rparr>)" "dom m5 = dom (mem s2)"
      "load64 m5 (slot_at k a (?n - 1)) = Inr 0"
      "\<forall>c. 8 dvd unat c \<longrightarrow> c \<noteq> slot_at k a (?n - 1) \<longrightarrow> load64 m5 c = load64 m4 c"
      using write64_ok [OF c4, of 0] m4(2) by auto
    have sl: "slot_at k a i \<in> slots_of k a" if "1 \<le> i" "i < ?n" for i using that by (auto simp: slots_of_def)
    note sc = slots_of_cell [OF s2(2) a9 k]
    have keep: "load64 m5 c = load64 m3 c" if "8 dvd unat c" "c \<notin> slots_of k a" for c
    proof -
      have "c \<notin> slot_at k a ` {1..<1 + length [0..<?n - 2]}" "c \<noteq> slot_at k a (?n - 1)"
        using that(2) sl n unfolding last by auto
      then show ?thesis using m4(4) m5(4) that(1) by simp
    qed
    have hs: "a \<notin> slots_of k a" "a + 8 \<notin> slots_of k a" using sc(4,5) by blast+
    have al: "8 dvd unat a" "8 dvd unat (a + 8)" using h by (simp_all add: cell_ok_def)
    have "load64 m5 a = Inr (slot_at k a 1)" using keep al hs m3(3) m2(4) m1(3) h h16 by simp
    moreover have "load64 m5 (a + 8) = Inr 0" using keep al hs m3(3) m2(3) h16 by simp
    moreover have "next_path m5 0 (slot_at k a 1) (map (slot_at k a) [1..<Suc (?n - 1)])"
    proof (rule chain_path)
      show "1 \<le> ?n - 1" using n by simp
      show "slot_at k a i \<noteq> 0" if "1 \<le> i" "i \<le> ?n - 1" for i using sc(3) [OF sl [of i]] that n by simp
      show "load64 m5 (slot_at k a (?n - 1)) = Inr 0" by (rule m5(3))
      fix i assume i: "1 \<le> i" "i < ?n - 1"
      have "slot_at k a i \<noteq> slot_at k a (?n - 1)" using slot_at_inj [OF s2(2) a9 k, of i "?n - 1"] i lt by auto
      moreover have "8 dvd unat (slot_at k a i)" using sc(6) [OF sl [of i]] i by simp
      ultimately show "load64 m5 (slot_at k a i) = Inr (slot_at k a (Suc i))"
        using m5(4) m4(3) i last by simp
    qed
    moreover have "distinct (new_slots k a)"
      unfolding new_slots_def distinct_map using slot_at_inj [OF s2(2) a9 k] by (auto intro: inj_onI)
    moreover have "set (new_slots k a) \<subseteq> slots_of k a" by (auto simp: new_slots_def slots_of_def)
    ultimately have ok: "slab_ok m5 k a (new_slots k a)" "load64 m5 (a + 8) = Inr 0"
      using n by (simp_all add: slab_ok_def new_slots_def)
    have out: "load64 m5 c = load64 (mem s) c" if "8 dvd unat c" "c \<notin> chunk (a, 9)" for c
    proof -
      have "c \<notin> slots_of k a" "c \<noteq> a" "c \<noteq> a + 8" "c \<noteq> a + 16" using that(2) sc(2) h h16 by blast+
      then show ?thesis using keep that(1) m3(3) m2(4) m1(4) s2(4) by simp
    qed
    have "init_slab_cache s (int k) SLAB_INIT_SIZE = Inr (s2\<lparr>mem := m5\<rparr>, a)"
    proof -
      have slot1: "a + of_nat (2 ^ k) = slot_at k a 1" by (simp add: slot_at_def)
      have nl: "\<not> 2 ^ 31 \<le> ?n - 2" using c(4) by simp
      show ?thesis
        using s2(1) nl by (simp add: init_slab_cache_def order_to_size_ok [OF k, simplified] c(1) [simplified] c(2) [simplified]
            slot1 [simplified] m1(1) [simplified] m2(1) m3(1) [simplified]
            m4(1) [unfolded last, simplified] m5(1) [simplified] Let_def)
    qed
    moreover have "pages_held (s2\<lparr>mem := m5\<rparr>) (insert (a, 9) A)" using H [OF m5(2)] by blast
    ultimately show ?thesis
      using g(1) False a s2 ok out m5(2) by (intro exI [of _ s1] exI [of _ a]) auto
  qed
qed

end
