(* ===== verification/Slab_Alloc.thy ===== *)
theory Slab_Alloc
  imports Slab_Init
begin

text \<open>
  Allocation over the lists of slabs, the making of all lists by \<open>init_slab\<close>, and what both mean
  for the set of objects in use.
\<close>

subsection \<open>The objects in use\<close>

lemma slot_unique:
  assumes inv: "slab_inv s A F" and k: "order_ok k" and pq: "(p, fs) \<in> set (F k)" "(q, gs) \<in> set (F k)"
    and x: "x \<in> slots_of k p" "x \<in> slots_of k q"
  shows "p = q \<and> fs = gs"
proof -
  note held = slab_invD(1) [OF inv] and A = slab_inv_slab(2) [OF inv k]
  have "p = q"
  proof (rule ccontr)
    assume "p \<noteq> q"
    then show False
      using chunk_other [OF held A [OF pq(1)] A [OF pq(2)] _ slots_of_cell(2) [OF held A [OF pq(2)] k x(2)]]
        slots_of_cell(2) [OF held A [OF pq(1)] k x(1)] by blast
  qed
  then show ?thesis using eq_key_imp_eq_value [OF distinct_class [OF slab_invD(3) [OF inv] k], of p fs gs] pq by simp
qed

lemma live_update:
  assumes inv: "slab_inv s A F" and k: "order_ok k" and F: "F k = xs @ (p, x # fs) # ys"
  shows "(x, k) \<notin> live_objects F" "live_objects (F(k := xs @ (p, fs) # ys)) = insert (x, k) (live_objects F)"
proof -
  have p: "(p, x # fs) \<in> set (F k)" using F by simp
  have ok: "distinct (x # fs)" "x \<in> slots_of k p" using slab_inv_slab(1) [OF inv k p] by (auto simp: slab_ok_def)
  have only: "q = p \<and> gs = x # fs" if "(q, gs) \<in> set (F k)" "x \<in> slots_of k q" for q gs
    using slot_unique [OF inv k that(1) p that(2) ok(2)] by blast
  show "(x, k) \<notin> live_objects F" using only by (fastforce simp: live_objects_def)
  show "live_objects (F(k := xs @ (p, fs) # ys)) = insert (x, k) (live_objects F)"
  proof (intro set_eqI iffI)
    fix o' assume "o' \<in> live_objects (F(k := xs @ (p, fs) # ys))"
    then obtain a l q gs where o': "o' = (a, l)" "order_ok l" "(q, gs) \<in> set ((F(k := xs @ (p, fs) # ys)) l)"
      "a \<in> slots_of l q - set gs" by (auto simp: live_objects_def)
    show "o' \<in> insert (x, k) (live_objects F)"
    proof (cases "l = k \<and> (q, gs) = (p, fs)")
      case True
      then show ?thesis using o' p by (cases "a = x") (auto simp: live_objects_def intro!: bexI [of _ "(p, x # fs)"])
    next
      case False
      then have "(q, gs) \<in> set (F l)" using o'(3) F by (auto split: if_splits)
      then show ?thesis using o' by (auto simp: live_objects_def)
    qed
  next
    fix o' assume o': "o' \<in> insert (x, k) (live_objects F)"
    show "o' \<in> live_objects (F(k := xs @ (p, fs) # ys))"
    proof (cases "o' = (x, k)")
      case True
      then show ?thesis using ok k by (auto simp: live_objects_def intro!: bexI [of _ "(p, fs)"])
    next
      case False
      then obtain a l q gs where l: "o' = (a, l)" "order_ok l" "(q, gs) \<in> set (F l)" "a \<in> slots_of l q - set gs"
        using o' by (auto simp: live_objects_def)
      show ?thesis
      proof (cases "l = k \<and> (q, gs) = (p, x # fs)")
        case True
        then show ?thesis using l by (auto simp: live_objects_def intro!: bexI [of _ "(p, fs)"])
      next
        case False
        then have "(q, gs) \<in> set ((F(k := xs @ (p, fs) # ys)) l)" using l(3) F by (auto split: if_splits)
        then show ?thesis using l by (auto simp: live_objects_def)
      qed
    qed
  qed
qed

lemma live_new_slab:
  "live_objects (F(k := (a, new_slots k a) # F k)) = live_objects F"
proof -
  have "set (new_slots k a) = slots_of k a" by (auto simp: new_slots_def slots_of_def)
  then show ?thesis by (auto simp: live_objects_def split: if_splits)
qed

subsection \<open>The bytes of the objects\<close>

fun object_bytes :: "u64 \<times> nat \<Rightarrow> u64 set" where
  "object_bytes (a, k) = {x. a \<le> x \<and> unat x < unat a + 2 ^ k}"

text \<open>Slot \<open>j\<close> of a slab: the objects of one slab are told apart by \<open>j\<close>.\<close>

lemma live_slot:
  assumes inv: "slab_inv s A F" and a: "(a, k) \<in> live_objects F"
  obtains p fs j where "order_ok k" "(p, fs) \<in> set (F k)" "(p, 9) \<in> A" "1 \<le> j" "j < 2 ^ (21 - k)" "a = slot_at k p j"
    "a \<notin> set fs" "unat a = unat p + j * 2 ^ k" "object_bytes (a, k) \<subseteq> chunk (p, 9)"
proof -
  obtain p fs where p: "order_ok k" "(p, fs) \<in> set (F k)" "a \<in> slots_of k p" "a \<notin> set fs"
    using a by (auto simp: live_objects_def)
  then obtain j where j: "1 \<le> j" "j < 2 ^ (21 - k)" "a = slot_at k p j" by (auto simp: slots_of_def)
  note pA = slab_inv_slab(2) [OF inv p(1,2)]
  note c = slot_cell(3) [OF slab_invD(1) [OF inv] pA p(1) j(2)] and b = slot_bytes(1) [OF p(1) j(2)]
  have u: "unat a = unat p + j * 2 ^ k" using c j(3) by simp
  have "object_bytes (a, k) \<subseteq> chunk (p, 9)"
  proof
    fix x assume "x \<in> object_bytes (a, k)"
    then have "unat a \<le> unat x" "unat x < unat a + 2 ^ k" by (simp_all add: word_le_nat_alt)
    then have "unat p \<le> unat x" "unat x < unat p + 2 ^ 9 * 4096" using u b by simp_all
    then show "x \<in> chunk (p, 9)" by (simp add: word_le_nat_alt)
  qed
  then show thesis using that p j pA u by blast
qed

definition objects_kept :: "(nat \<Rightarrow> (u64 \<times> u64 list) list) \<Rightarrow> memory \<Rightarrow> memory \<Rightarrow> bool" where
  "objects_kept F m m' \<longleftrightarrow>
     (\<forall>b \<in> live_objects F. \<forall>c \<in> object_bytes b. 8 dvd unat c \<longrightarrow> load64 m' c = load64 m c)"

lemma all_slabs_Cons:
  assumes "order_ok k"
  shows "set (all_slabs (F(k := (a, fs) # F k))) = insert a (set (all_slabs F))"
    and "a \<notin> set (all_slabs F) \<Longrightarrow> distinct (all_slabs F) \<Longrightarrow> distinct (all_slabs (F(k := (a, fs) # F k)))"
proof -
  let ?F = "F(k := (a, fs) # F k)"
  obtain us vs where o: "slab_orders = us @ k # vs" using slab_orders(1) [of k] assms by (metis in_set_conv_decomp)
  have "distinct (us @ k # vs)" using slab_orders(2) unfolding o .
  then have uv: "k \<notin> set us" "k \<notin> set vs" by simp_all
  have eq: "concat (map (\<lambda>l. map fst (?F l)) us) = concat (map (\<lambda>l. map fst (F l)) us)"
    "concat (map (\<lambda>l. map fst (?F l)) vs) = concat (map (\<lambda>l. map fst (F l)) vs)"
    using uv by (auto intro!: arg_cong [where f = concat])
  have al: "all_slabs ?F = concat (map (\<lambda>l. map fst (F l)) us) @ (a # map fst (F k)) @ concat (map (\<lambda>l. map fst (F l)) vs)"
    "all_slabs F = concat (map (\<lambda>l. map fst (F l)) us) @ map fst (F k) @ concat (map (\<lambda>l. map fst (F l)) vs)"
    unfolding all_slabs_def o using eq by simp_all
  show "set (all_slabs ?F) = insert a (set (all_slabs F))" unfolding al by auto
  show "a \<notin> set (all_slabs F) \<Longrightarrow> distinct (all_slabs F) \<Longrightarrow> distinct (all_slabs ?F)" unfolding al by auto
qed

text \<open>The chunks that are not slabs: they belong to clients of the page allocator.\<close>

definition pages_kept ::
  "(u64 \<times> nat) set \<Rightarrow> (nat \<Rightarrow> (u64 \<times> u64 list) list) \<Rightarrow> memory \<Rightarrow> memory \<Rightarrow> bool"
where
  "pages_kept A F m m' \<longleftrightarrow>
     (\<forall>(b, j) \<in> A. b \<notin> set (all_slabs F) \<longrightarrow> (\<forall>c \<in> chunk (b, j). 8 dvd unat c \<longrightarrow> load64 m' c = load64 m c))"

lemma pages_keptI:
  "(\<And>b j c. (b, j) \<in> A \<Longrightarrow> b \<notin> set (all_slabs F) \<Longrightarrow> c \<in> chunk (b, j) \<Longrightarrow> 8 dvd unat c \<Longrightarrow> load64 m' c = load64 m c) \<Longrightarrow>
   pages_kept A F m m'"
  unfolding pages_kept_def by blast

lemma pages_keptD:
  "pages_kept A F m m' \<Longrightarrow> (b, j) \<in> A \<Longrightarrow> b \<notin> set (all_slabs F) \<Longrightarrow> c \<in> chunk (b, j) \<Longrightarrow> 8 dvd unat c \<Longrightarrow>
   load64 m' c = load64 m c"
  unfolding pages_kept_def by blast

lemma header_not_object:
  assumes inv: "slab_inv s A F" and k: "order_ok k" "(q, gs) \<in> set (F k)" and b: "b \<in> live_objects F"
  shows "q \<notin> object_bytes b"
proof -
  obtain x l where x: "b = (x, l)" by (cases b)
  obtain p j where p: "(p, 9) \<in> A" "1 \<le> j" "unat x = unat p + j * 2 ^ l" "object_bytes b \<subseteq> chunk (p, 9)"
    using live_slot [OF inv, of x l] b unfolding x by metis
  note held = slab_invD(1) [OF inv] and qA = slab_inv_slab(2) [OF inv k]
  show ?thesis
  proof (cases "p = q")
    case True
    have "0 < j * 2 ^ l" using p(2) by simp
    then have "\<not> x \<le> q" using p(3) True by (simp add: word_le_nat_alt)
    then show ?thesis by (simp add: x)
  next
    case False
    have "q \<in> chunk (q, 9)" by simp
    then have "q \<notin> chunk (p, 9)" by (rule chunk_other [OF held p(1) qA False])
    then show ?thesis using p(4) by blast
  qed
qed

lemma header_write_objects:
  assumes "slab_inv s A F" "order_ok k" "(q, gs) \<in> set (F k)" "header_write (mem s) q m'"
  shows "objects_kept F (mem s) m'"
  using header_not_object [OF assms(1-3)] assms(4) unfolding objects_kept_def header_write_def by blast

lemma header_write_pages:
  assumes inv: "slab_inv s A F" and k: "order_ok k" "(q, gs) \<in> set (F k)" and w: "header_write (mem s) q m'"
  shows "pages_kept A F (mem s) m'"
proof (rule pages_keptI)
  fix b j c assume b: "(b, j) \<in> A" "b \<notin> set (all_slabs F)" "c \<in> chunk (b, j)" "8 dvd unat c"
  have "q \<in> set (all_slabs F)" using k all_slabs_mem by blast
  then have "(q, 9) \<noteq> (b, j)" using b(2) by auto
  then have "chunk (q, 9) \<inter> chunk (b, j) = {}"
    using pages_held_apart [OF slab_invD(1) [OF inv] slab_inv_slab(2) [OF inv k] b(1)] by blast
  moreover have "q \<in> chunk (q, 9)" by simp
  ultimately have "c \<noteq> q" using b(3) by blast
  then show "load64 m' c = load64 (mem s) c" using w b(4) unfolding header_write_def by blast
qed

lemma new_chunk_pages:
  assumes inv: "slab_inv s A F" and k: "order_ok k" and a: "(a, 9) \<notin> A" and held: "pages_held s' (insert (a, 9) A)"
    and out: "\<And>c. 8 dvd unat c \<Longrightarrow> c \<notin> chunk (a, 9) \<Longrightarrow> load64 m c = load64 (mem s) c"
    and kept: "pages_kept (insert (a, 9) A) (F(k := (a, fs) # F k)) m m'"
  shows "pages_kept A F (mem s) m'"
proof (rule pages_keptI)
  fix b j c assume b: "(b, j) \<in> A" "b \<notin> set (all_slabs F)" "c \<in> chunk (b, j)" "8 dvd unat c"
  have "(a, 9) \<noteq> (b, j)" using a b(1) by auto
  then have apart: "chunk (a, 9) \<inter> chunk (b, j) = {}"
    using pages_held_apart [OF held, of "(a, 9)" "(b, j)"] b(1) by blast
  moreover have "a \<in> chunk (a, 9)" "b \<in> chunk (b, j)" by simp_all
  ultimately have "b \<noteq> a" by blast
  then have "b \<notin> set (all_slabs (F(k := (a, fs) # F k)))" using b(2) by (simp add: all_slabs_Cons(1) [OF k])
  then have "load64 m' c = load64 m c" using pages_keptD [OF kept _ _ b(3,4)] b(1) by blast
  moreover have "c \<notin> chunk (a, 9)" using apart b(3) by blast
  ultimately show "load64 m' c = load64 (mem s) c" using out b(4) by simp
qed

lemma new_chunk_objects:
  assumes inv: "slab_inv s A F" and a: "(a, 9) \<notin> A" and held: "pages_held s' (insert (a, 9) A)"
    and out: "\<And>c. 8 dvd unat c \<Longrightarrow> c \<notin> chunk (a, 9) \<Longrightarrow> load64 m' c = load64 (mem s) c"
  shows "objects_kept F (mem s) m'"
  unfolding objects_kept_def
proof (intro ballI impI)
  fix b c assume b: "b \<in> live_objects F" and c: "c \<in> object_bytes b" "8 dvd unat c"
  obtain p where p: "(p, 9) \<in> A" "object_bytes b \<subseteq> chunk (p, 9)"
    using live_slot [OF inv, of "fst b" "snd b"] b by (metis prod.collapse)
  have "a \<noteq> p" using a p(1) by blast
  then have "c \<notin> chunk (a, 9)"
    using chunk_other [OF held, of a p c] p c(1) by blast
  then show "load64 m' c = load64 (mem s) c" by (rule out [OF c(2)])
qed

subsection \<open>Adding a slab\<close>

lemma slab_inv_add:
  assumes inv: "slab_inv s A F" and k: "order_ok k" and a: "(a, 9) \<notin> A"
    and held: "pages_held s' (insert (a, 9) A)" and own: "pages_owned s' (insert a (set (all_slabs F)))"
    and ok: "slab_ok (mem s') k a fs" "load64 (mem s') (a + 8) = Inr (slabs s k)"
    and out: "\<And>c. 8 dvd unat c \<Longrightarrow> c \<notin> chunk (a, 9) \<Longrightarrow> load64 (mem s') c = load64 (mem s) c"
    and sl: "slabs s' = (slabs s)(k := a)"
  shows "slab_inv s' (insert (a, 9) A) (F(k := (a, fs) # F k))"
proof -
  let ?F = "F(k := (a, fs) # F k)"
  have new: "a \<notin> set (all_slabs F)" using slab_invD(4) [OF inv] a by blast
  have a9: "(a, 9) \<in> insert (a, 9) A" by simp
  have keep: "slab_ok (mem s') l p gs" "load64 (mem s') (p + 8) = load64 (mem s) (p + 8)"
    if l: "order_ok l" "(p, gs) \<in> set (F l)" for l p gs
  proof -
    have pA: "(p, 9) \<in> A" by (rule slab_inv_slab(2) [OF inv l])
    then have p: "(p, 9) \<in> insert (a, 9) A" "a \<noteq> p" using a by auto
    have o: "load64 (mem s') c = load64 (mem s) c" if "c \<in> chunk (p, 9)" "8 dvd unat c" for c
      by (rule out [OF that(2) chunk_other [OF held a9 p that(1)]])
    note h = header_cell [OF slab_invD(1) [OF inv] pA]
    show "load64 (mem s') (p + 8) = load64 (mem s) (p + 8)" using o h by (simp add: cell_ok_def)
    have sok: "slab_ok (mem s) l p gs" by (rule slab_inv_slab(1) [OF inv l])
    then have "load64 (mem s') x = load64 (mem s) x" if "x \<in> set gs" for x
      using slots_of_cell [OF slab_invD(1) [OF inv] pA l(1), of x] that o by (auto simp: slab_ok_def)
    moreover have "load64 (mem s') p = load64 (mem s) p" using o h by (simp add: cell_ok_def)
    ultimately show "slab_ok (mem s') l p gs" using sok slab_ok_cong by blast
  qed
  have "class_ok (mem s') (slabs s' l) l (?F l)" if l: "order_ok l" for l
  proof -
    have c: "class_ok (mem s) (slabs s l) l (F l)" by (rule slab_invD(2) [OF inv l])
    have "load64 (mem s') (q + 8) = load64 (mem s) (q + 8)" if q: "q \<in> set (map fst (F l))" for q
      using keep(2) [OF l] q by auto
    then have "next_path (mem s') 8 (slabs s l) (map fst (F l))"
      using c next_path_cong [of "map fst (F l)" "mem s'" 8 "mem s"] by (simp add: class_ok_def)
    moreover have "\<forall>(p, gs) \<in> set (F l). slab_ok (mem s') l p gs" using keep(1) [OF l] by blast
    moreover have "a \<noteq> 0" using pages_held_chunk(1) [OF held a9] .
    ultimately show ?thesis using sl ok by (cases "l = k") (simp_all add: class_ok_def)
  qed
  moreover have "distinct (all_slabs ?F)" by (rule all_slabs_Cons(2) [OF k new slab_invD(3) [OF inv]])
  moreover have "(\<lambda>p. (p, 9)) ` set (all_slabs ?F) \<subseteq> insert (a, 9) A"
    unfolding all_slabs_Cons(1) [OF k] using slab_invD(4) [OF inv] by blast
  moreover have "pages_owned s' (set (all_slabs ?F))" unfolding all_slabs_Cons(1) [OF k] by (rule own)
  ultimately show ?thesis using held unfolding slab_inv_def by blast
qed

subsection \<open>Allocation\<close>

lemma added_slabs:
  assumes "snd ` (A' - insert (a, 9 :: nat) A) \<subseteq> {9}"
  shows "snd ` (A' - A) \<subseteq> {9}"
proof (rule image_subsetI)
  fix c assume "c \<in> A' - A"
  then have "c = (a, 9) \<or> c \<in> A' - insert (a, 9) A" by blast
  then show "snd c \<in> {9}" using assms by auto
qed

text \<open>The chunks in use that are no slabs.\<close>

definition client_chunks :: "(u64 \<times> nat) set \<Rightarrow> (nat \<Rightarrow> (u64 \<times> u64 list) list) \<Rightarrow> (u64 \<times> nat) set" where
  "client_chunks A F = {(a, k) \<in> A. a \<notin> set (all_slabs F)}"

lemma client_chunks_slab:
  assumes k: "order_ok k" and a: "(a, 9) \<notin> A" and held: "pages_held s (insert (a, 9) A)"
  shows "client_chunks (insert (a, 9) A) (F(k := (a, fs) # F k)) = client_chunks A F"
proof -
  have "b \<noteq> a" if b: "(b, j) \<in> A" for b j
  proof -
    have "(a, 9) \<noteq> (b, j)" using a b by auto
    then have "chunk (a, 9) \<inter> chunk (b, j) = {}"
      using pages_held_apart [OF held, of "(a, 9)" "(b, j)"] b by blast
    moreover have "a \<in> chunk (a, 9)" "b \<in> chunk (b, j)" by simp_all
    ultimately show ?thesis by blast
  qed
  then show ?thesis by (auto simp: client_chunks_def all_slabs_Cons(1) [OF k])
qed

text \<open>What \<open>alloc_in_slab_nolock\<close> promises for a list \<open>F k\<close> that is not empty.\<close>

definition object_taken ::
  "'z kernel_state_scheme \<Rightarrow> (u64 \<times> nat) set \<Rightarrow> (nat \<Rightarrow> (u64 \<times> u64 list) list) \<Rightarrow> nat \<Rightarrow> 'z kernel_state_scheme \<Rightarrow> u64 \<Rightarrow> bool"
where
  "object_taken s A F k s' x \<longleftrightarrow> (\<exists>A' F'. slab_inv s' A' F' \<and> A \<subseteq> A' \<and> snd ` (A' - A) \<subseteq> {9} \<and>
     (\<forall>l. F l \<noteq> [] \<longrightarrow> F' l \<noteq> []) \<and> client_chunks A' F' = client_chunks A F \<and>
     (x, k) \<notin> live_objects F \<and> live_objects F' = insert (x, k) (live_objects F) \<and> objects_kept F (mem s) (mem s') \<and>
     pages_kept A F (mem s) (mem s') \<and> dom (mem s') = dom (mem s))"

lemma object_takenI:
  assumes "slab_inv s A F" "order_ok k" "F k = xs @ (p, x # fs) # ys"
    and "slab_inv s' A (F(k := xs @ (p, fs) # ys))" "header_write (mem s) p (mem s')"
  shows "object_taken s A F k s' x"
proof -
  have "dom (mem s') = dom (mem s)" using assms(5) by (simp add: header_write_def)
  moreover have "objects_kept F (mem s) (mem s')"
    using header_write_objects [OF assms(1,2) _ assms(5)] assms(3) by (metis in_set_conv_decomp)
  moreover have "pages_kept A F (mem s) (mem s')"
    using header_write_pages [OF assms(1,2) _ assms(5)] assms(3) by (metis in_set_conv_decomp)
  moreover have "client_chunks A (F(k := xs @ (p, fs) # ys)) = client_chunks A F"
    using all_slabs_update [of "xs @ (p, fs) # ys" F k] assms(3) by (simp add: client_chunks_def)
  ultimately show ?thesis
    unfolding object_taken_def using live_update [OF assms(1-3)] assms(4)
    by (intro exI [of _ A] exI [of _ "F(k := xs @ (p, fs) # ys)"]) simp
qed

lemma alloc_nolock_pop:
  assumes inv: "slab_inv s A F" and k: "order_ok k" and F: "F k = (p, x # fs) # ys" and fuel: "0 < fuel"
  shows "\<exists>s'. alloc_in_slab_nolock fuel s p (int k) = Some (Inr (s', x)) \<and> object_taken s A F k s' x"
proof -
  have F': "F k = [] @ (p, x # fs) # ys" using F by simp
  obtain m' where m': "pop_slot s p = Inr (s\<lparr>mem := m'\<rparr>, x)" "header_write (mem s) p m'"
    "slab_inv (s\<lparr>mem := m'\<rparr>) A (F(k := [] @ (p, fs) # ys))" "x \<noteq> 0"
    by (rule pop_slot_ok [OF inv k F']) (rule that)
  have "object_taken s A F k (s\<lparr>mem := m'\<rparr>) x"
    using m'(2) by (intro object_takenI [OF inv k F' m'(3)]) simp
  moreover obtain fuel' where "fuel = Suc fuel'" using fuel by (cases fuel) auto
  ultimately show ?thesis using m'(1,4) by simp
qed

lemma alloc_nolock_ok:
  assumes inv: "slab_inv s A F" and k: "order_ok k" and ne: "F k \<noteq> []" and fuel: "length (F k) < fuel"
  shows "(slabs_full (F k) \<and> (\<exists>s1. get_pages s 9 = Inr (s1, 0)) \<and>
      alloc_in_slab_nolock fuel s (slabs s k) (int k) = Some (Inl Bug)) \<or>
    (\<exists>s' x. alloc_in_slab_nolock fuel s (slabs s k) (int k) = Some (Inr (s', x)) \<and> object_taken s A F k s' x)"
proof -
  obtain p fs ys where F: "F k = (p, fs) # ys" using ne by (cases "F k") auto
  have c: "class_ok (mem s) (slabs s k) k (F k)" by (rule slab_invD(2) [OF inv k])
  obtain b where b: "slabs s k = p" "p \<noteq> 0" "load64 (mem s) (p + 8) = Inr b" "next_path (mem s) 8 b (map fst ys)"
    using c F by (auto simp: class_ok_def)
  obtain fuel' where fuel': "fuel = Suc fuel'" "length ys < fuel'" using fuel F by (cases fuel) auto
  show ?thesis
  proof (cases fs)
    case (Cons x fs')
    then show ?thesis using alloc_nolock_pop [OF inv k, of p x fs' ys fuel] F fuel' b(1) by auto
  next
    case Nil
    have pop: "pop_slot s p = Inr (s, 0)" using F Nil by (intro pop_slot_empty [OF inv k, of "[]"]) simp
    have F1: "F k = [(p, fs)] @ ys" using F by simp
    show ?thesis
    proof (cases "slabs_full ys")
      case False
      obtain vs q x gs ws m' where r: "ys = vs @ (q, x # gs) # ws"
        "search_slabs fuel' s b = Some (Inr (s\<lparr>mem := m'\<rparr>, x))" "header_write (mem s) q m'"
        "slab_inv (s\<lparr>mem := m'\<rparr>) A (F(k := [(p, fs)] @ vs @ (q, gs) # ws))" "x \<noteq> 0"
        using search_slabs_found [OF inv k F1 b(4) less_imp_le [OF fuel'(2)] False] by blast
      have "object_taken s A F k (s\<lparr>mem := m'\<rparr>) x"
        using r(1,3,4) F1 by (intro object_takenI [OF inv k, of "[(p, fs)] @ vs" q x gs ws]) simp_all
      moreover have "alloc_in_slab_nolock fuel s (slabs s k) (int k) = Some (Inr (s\<lparr>mem := m'\<rparr>, x))"
        using pop b(1,3) r(2,5) fuel'(1) by (simp add: read64_def)
      ultimately show ?thesis by blast
    next
      case True
      then have full: "slabs_full (F k)" using F Nil by simp
      have srch: "search_slabs fuel' s b = Some (Inr (s, 0))"
        by (rule search_slabs_full [OF inv k F1 b(4) less_imp_le [OF fuel'(2)] True])
      note held = slab_invD(1) [OF inv]
      obtain s1 a where g: "get_pages s 9 = Inr (s1, a)"
        "if a = 0 then init_slab_cache s (int k) SLAB_INIT_SIZE = Inl Bug
         else (a, 9) \<notin> A \<and> (\<exists>s'. init_slab_cache s (int k) SLAB_INIT_SIZE = Inr (s', a) \<and>
           pages_held s' (insert (a, 9) A) \<and> pages_owned s' (insert a (set (all_slabs F))) \<and>
           slab_ok (mem s') k a (new_slots k a) \<and> load64 (mem s') (a + 8) = Inr 0 \<and>
           dom (mem s') = dom (mem s) \<and>
           (\<forall>c. 8 dvd unat c \<longrightarrow> c \<notin> chunk (a, 9) \<longrightarrow> load64 (mem s') c = load64 (mem s) c) \<and>
           slabs s' = slabs s \<and> pool_place s' = pool_place s)"
        using init_slab_cache_ok [OF held slab_invD(5) [OF inv] k] by blast
      have start: "alloc_in_slab_nolock fuel s (slabs s k) (int k) =
          fbind (Some (init_slab_cache s (int k) SLAB_INIT_SIZE)) (\<lambda>(s, new_slab).
          fbind (Some (write64 (new_slab + 8) p s)) (\<lambda>s.
          fbind (Some (set_slab (int k) new_slab s)) (\<lambda>s.
          alloc_in_slab_nolock fuel' s new_slab (int k))))"
        using pop b(1,3) srch fuel'(1) by (simp add: read64_def)
      show ?thesis
      proof (cases "a = 0")
        case True
        then show ?thesis using g start full by auto
      next
        case False
        then obtain s2 where s2: "init_slab_cache s (int k) SLAB_INIT_SIZE = Inr (s2, a)"
          "pages_held s2 (insert (a, 9) A)" "pages_owned s2 (insert a (set (all_slabs F)))"
          "slab_ok (mem s2) k a (new_slots k a)" "dom (mem s2) = dom (mem s)"
          "\<forall>c. 8 dvd unat c \<longrightarrow> c \<notin> chunk (a, 9) \<longrightarrow> load64 (mem s2) c = load64 (mem s) c"
          "slabs s2 = slabs s" and aA: "(a, 9) \<notin> A" using g(2) by auto
        have a9: "(a, 9) \<in> insert (a, 9) A" by simp
        note h = header_cell [OF s2(2) a9]
        obtain m3 where m3: "write64 (a + 8) p s2 = Inr (s2\<lparr>mem := m3\<rparr>)" "dom m3 = dom (mem s2)"
          "load64 m3 (a + 8) = Inr p" "\<forall>c. 8 dvd unat c \<longrightarrow> c \<noteq> a + 8 \<longrightarrow> load64 m3 c = load64 (mem s2) c"
          using write64_ok [OF h(2)] by blast
        let ?s3 = "s2\<lparr>mem := m3\<rparr>"
        let ?s4 = "?s3\<lparr>slabs := (slabs s)(k := a)\<rparr>"
        have held3: "pages_held ?s3 (insert (a, 9) A)" using pages_held_mem [OF m3(2)] s2(2) by simp
        have "load64 m3 x = load64 (mem s2) x" if "x \<in> set (new_slots k a)" for x
        proof -
          have "x \<in> slots_of k a" using s2(4) that by (auto simp: slab_ok_def)
          then show ?thesis using slots_of_cell(5,6) [OF s2(2) a9 k] m3(4) by blast
        qed
        moreover have "load64 m3 a = load64 (mem s2) a" using m3(4) h by (simp add: cell_ok_def)
        ultimately have ok3: "slab_ok m3 k a (new_slots k a)" using s2(4) slab_ok_cong by blast
        have out: "load64 m3 c = load64 (mem s) c" if "8 dvd unat c" "c \<notin> chunk (a, 9)" for c
          using m3(4) s2(6) that h(4) by metis
        have held4: "pages_held ?s4 (insert (a, 9) A)" using held3 by simp
        have inv4: "slab_inv ?s4 (insert (a, 9) A) (F(k := (a, new_slots k a) # F k))"
          using s2(3) ok3 m3(3) out b(1)
          by (intro slab_inv_add [OF inv k aA held4]) simp_all
        have "(1 :: nat) < 2 ^ (21 - k)" using slab_counts(3) [OF k] by simp
        then obtain x gs where ns: "new_slots k a = x # gs" by (simp add: new_slots_def upt_conv_Cons)
        have F4: "(F(k := (a, new_slots k a) # F k)) k = (a, x # gs) # F k" using ns by simp
        obtain s5 where s5: "alloc_in_slab_nolock fuel' ?s4 a (int k) = Some (Inr (s5, x))"
          "object_taken ?s4 (insert (a, 9) A) (F(k := (a, new_slots k a) # F k)) k s5 x"
          using alloc_nolock_pop [OF inv4 k F4, of fuel'] fuel'(2) by (metis gr_implies_not0 neq0_conv)
        have "alloc_in_slab_nolock fuel s (slabs s k) (int k) = Some (Inr (s5, x))"
          using start s2(1,7) m3(1) s5(1) by (simp add: set_slab_def slab_index_ok [OF k])
        moreover have "object_taken s A F k s5 x"
        proof -
          obtain A' F' where F': "slab_inv s5 A' F'" "insert (a, 9) A \<subseteq> A'" "snd ` (A' - insert (a, 9) A) \<subseteq> {9}"
            "\<forall>l. (F(k := (a, new_slots k a) # F k)) l \<noteq> [] \<longrightarrow> F' l \<noteq> []" "(x, k) \<notin> live_objects F"
            "live_objects F' = insert (x, k) (live_objects F)" "objects_kept F m3 (mem s5)"
            "pages_kept (insert (a, 9) A) (F(k := (a, new_slots k a) # F k)) m3 (mem s5)" "dom (mem s5) = dom (mem ?s4)"
            "client_chunks A' F' = client_chunks A F"
            using s5(2) unfolding object_taken_def live_new_slab objects_kept_def client_chunks_slab [OF k aA held3] by auto
          have "\<forall>l. F l \<noteq> [] \<longrightarrow> F' l \<noteq> []" using F'(4) by (auto split: if_splits)
          moreover have "snd ` (A' - A) \<subseteq> {9}"
            by (rule added_slabs [OF F'(3)])
          moreover have "dom (mem s5) = dom (mem s)" using F'(9) m3(2) s2(5) by simp
          moreover have "objects_kept F (mem s) (mem s5)"
            using F'(7) new_chunk_objects [OF inv aA held3 out] unfolding objects_kept_def by simp
          moreover have "pages_kept A F (mem s) (mem s5)"
            by (rule new_chunk_pages [OF inv k aA held3 out F'(8)])
          ultimately show ?thesis using F' unfolding object_taken_def by blast
        qed
        ultimately show ?thesis by blast
      qed
    qed
  qed
qed

subsection \<open>Making all lists\<close>

text \<open>\<open>init_slab\<close> needs one chunk of 2M per order; without it, it stops in a BUG_ON.\<close>

definition no_chunk :: "'z kernel_state_scheme \<Rightarrow> (u64 \<times> nat) set \<Rightarrow> nat \<Rightarrow> bool" where
  "no_chunk s A n \<longleftrightarrow> (\<exists>(s1 :: 'z kernel_state_scheme) A1. pages_held s1 A1 \<and> A \<subseteq> A1 \<and> snd ` (A1 - A) \<subseteq> {9} \<and> card (A1 - A) < n \<and>
     pool_pages s1 = pool_pages s \<and> (\<exists>s2 :: 'z kernel_state_scheme. get_pages s1 9 = Inr (s2, 0)))"

lemma no_chunk_now: "pages_held s A \<Longrightarrow> get_pages s 9 = Inr (s2, 0) \<Longrightarrow> 0 < n \<Longrightarrow> no_chunk s A n"
  unfolding no_chunk_def by (rule exI [of _ s], rule exI [of _ A]) auto

lemma no_chunk_step:
  fixes s s' :: "'z kernel_state_scheme"
  assumes "no_chunk s' (insert (a, 9) A) n" "pool_pages s' = pool_pages s" "(a, 9) \<notin> A"
  shows "no_chunk s A (Suc n)"
proof -
  obtain s1 :: "'z kernel_state_scheme" and A1 s2 where r: "pages_held s1 A1" "insert (a, 9) A \<subseteq> A1" "snd ` (A1 - insert (a, 9) A) \<subseteq> {9}"
    "card (A1 - insert (a, 9) A) < n" "pool_pages s1 = pool_pages s" "get_pages s1 9 = Inr (s2, 0)"
    using assms(1,2) unfolding no_chunk_def by auto
  have e: "A1 - A = insert (a, 9) (A1 - insert (a, 9) A)" using r(2) assms(3) by blast
  have "card (A1 - A) < Suc n" using r(4) pages.holds_finite [OF r(1)] unfolding e by simp
  moreover have "A \<subseteq> A1" using r(2) by blast
  ultimately show ?thesis using r(1,5,6) added_slabs [OF r(3)] unfolding no_chunk_def by blast
qed

lemma init_slab_orders_ok:
  "slab_inv s A F \<Longrightarrow> (\<forall>k \<in> set ks. order_ok k \<and> F k = [] \<and> slabs s k = 0) \<Longrightarrow> distinct ks \<Longrightarrow>
   (init_slab_orders (map int ks) s = Inl Bug \<and> no_chunk s A (length ks)) \<or>
   (\<exists>s' A' F'. init_slab_orders (map int ks) s = Inr s' \<and> slab_inv s' A' F' \<and> A \<subseteq> A' \<and> snd ` (A' - A) \<subseteq> {9} \<and> card (A' - A) = length ks \<and>
     (\<forall>k \<in> set ks. F' k \<noteq> []) \<and> (\<forall>k. k \<notin> set ks \<longrightarrow> F' k = F k) \<and> live_objects F' = live_objects F \<and>
     dom (mem s') = dom (mem s) \<and> pool_place s' = pool_place s \<and> client_chunks A' F' = client_chunks A F)"
proof (induction ks arbitrary: s A F)
  case Nil
  then show ?case by (auto intro!: exI [of _ A] exI [of _ F])
next
  case (Cons k ks)
  have k: "order_ok k" "F k = []" "slabs s k = 0" using Cons.prems(2) by simp_all
  note inv = Cons.prems(1)
  obtain s1 a where g: "get_pages s 9 = Inr (s1, a)"
    "if a = 0 then init_slab_cache s (int k) SLAB_INIT_SIZE = Inl Bug
     else (a, 9) \<notin> A \<and> (\<exists>s'. init_slab_cache s (int k) SLAB_INIT_SIZE = Inr (s', a) \<and>
       pages_held s' (insert (a, 9) A) \<and> pages_owned s' (insert a (set (all_slabs F))) \<and>
       slab_ok (mem s') k a (new_slots k a) \<and> load64 (mem s') (a + 8) = Inr 0 \<and>
       dom (mem s') = dom (mem s) \<and>
       (\<forall>c. 8 dvd unat c \<longrightarrow> c \<notin> chunk (a, 9) \<longrightarrow> load64 (mem s') c = load64 (mem s) c) \<and>
       slabs s' = slabs s \<and> pool_place s' = pool_place s)"
    using init_slab_cache_ok [OF slab_invD(1) [OF inv] slab_invD(5) [OF inv] k(1)] by blast
  show ?case
  proof (cases "a = 0")
    case True
    then have "init_slab_orders (map int (k # ks)) s = Inl Bug" "get_pages s 9 = Inr (s1, 0)" using g by simp_all
    moreover have "no_chunk s A (length (k # ks))"
      using no_chunk_now [OF slab_invD(1) [OF inv]] g(1) True by simp
    ultimately show ?thesis by blast
  next
    case False
    then obtain s2 where s2: "init_slab_cache s (int k) SLAB_INIT_SIZE = Inr (s2, a)"
      "pages_held s2 (insert (a, 9) A)" "pages_owned s2 (insert a (set (all_slabs F)))"
      "slab_ok (mem s2) k a (new_slots k a)" "load64 (mem s2) (a + 8) = Inr 0" "dom (mem s2) = dom (mem s)"
      "\<forall>c. 8 dvd unat c \<longrightarrow> c \<notin> chunk (a, 9) \<longrightarrow> load64 (mem s2) c = load64 (mem s) c"
      "slabs s2 = slabs s" "pool_place s2 = pool_place s" and aA: "(a, 9) \<notin> A" using g(2) by auto
    let ?s3 = "s2\<lparr>slabs := (slabs s)(k := a)\<rparr>" and ?F = "F(k := (a, new_slots k a) # F k)"
    have inv3: "slab_inv ?s3 (insert (a, 9) A) ?F"
      using s2 k(3) by (intro slab_inv_add [OF inv k(1) aA]) simp_all
    have step: "init_slab_orders (map int (k # ks)) s = init_slab_orders (map int ks) ?s3"
      using s2(1,8) by (simp add: set_slab_def slab_index_ok [OF k(1)])
    have pre: "\<forall>l \<in> set ks. order_ok l \<and> ?F l = [] \<and> slabs ?s3 l = 0" "distinct ks"
      using Cons.prems(2,3) by auto
    from Cons.IH [OF inv3 pre] show ?thesis
    proof (elim disjE exE conjE)
      assume "init_slab_orders (map int ks) ?s3 = Inl Bug" "no_chunk ?s3 (insert (a, 9) A) (length ks)"
      then show ?thesis using step no_chunk_step [of ?s3 a A "length ks" s] pool_placeD [OF s2(9)] aA by simp
    next
      fix s' A' F'
      assume r: "init_slab_orders (map int ks) ?s3 = Inr s'" "slab_inv s' A' F'" "insert (a, 9) A \<subseteq> A'"
        "snd ` (A' - insert (a, 9) A) \<subseteq> {9}" "\<forall>l \<in> set ks. F' l \<noteq> []" "\<forall>l. l \<notin> set ks \<longrightarrow> F' l = ?F l"
        "live_objects F' = live_objects ?F" "dom (mem s') = dom (mem ?s3)" "pool_place s' = pool_place ?s3"
        "client_chunks A' F' = client_chunks (insert (a, 9) A) ?F" "card (A' - insert (a, 9) A) = length ks"
      have e: "A' - A = insert (a, 9) (A' - insert (a, 9) A)" using r(3) aA by blast
      have card: "card (A' - A) = length (k # ks)"
        unfolding e using r(11) pages.holds_finite [OF slab_invD(1) [OF r(2)]] by simp
      have sup: "A \<subseteq> A'" using r(3) by blast
      have sub: "snd ` (A' - A) \<subseteq> {9}" by (rule added_slabs [OF r(4)])
      have "F' k \<noteq> []" using r(6) Cons.prems(3) by simp
      then have "\<forall>l \<in> set (k # ks). F' l \<noteq> []" using r(5) by simp
      moreover have "\<forall>l. l \<notin> set (k # ks) \<longrightarrow> F' l = F l" using r(6) by simp
      moreover have "live_objects F' = live_objects F" using r(7) unfolding live_new_slab .
      ultimately show ?thesis
        using r(1,2,8,9) r(10) [unfolded client_chunks_slab [OF k(1) aA s2(2)]] sub sup card step s2(6,9)
        by (intro disjI2 exI [of _ s'] exI [of _ A'] exI [of _ F'] conjI) simp_all
    qed
  qed
qed

end
