(* ===== verification/Slab_Props.thy ===== *)
theory Slab_Props
  imports Slab_Alloc
begin

text \<open>
  What the slab allocator guarantees: the size classes, the objects it hands out, the release of
  an object, the freedom of clients to write their objects, and \<open>init_slab\<close>.
\<close>

subsection \<open>Size classes\<close>

lemma halvings_log:
  "0 < t \<Longrightarrow> \<exists>n. halvings t ord = ord + of_nat n \<and> 2 ^ n \<le> t \<and> t < 2 ^ Suc n"
proof (induction t ord rule: halvings.induct)
  case (1 t ord)
  show ?case
  proof (cases "1 < t")
    case True
    moreover have "0 < t div 2" using True by presburger
    ultimately obtain n where n: "halvings (t div 2) (ord + 1) = ord + 1 + of_nat n" "2 ^ n \<le> t div 2" "t div 2 < 2 ^ Suc n"
      using 1 by auto
    then have "halvings t ord = ord + of_nat (Suc n)" using True by (simp add: halvings.simps [of t])
    moreover have "2 ^ Suc n \<le> t" "t < 2 ^ Suc (Suc n)" using n(2,3) by simp_all
    ultimately show ?thesis by blast
  next
    case False
    then have "t = 1" using 1 by simp
    then show ?thesis by (intro exI [of _ 0]) (simp add: halvings.simps [of 1])
  qed
qed

lemma sint_ucast_nat:
  assumes "j < 2 ^ 31"
  shows "sint (ucast (of_nat j :: u64) :: u32) = int j"
proof -
  have "(ucast (of_nat j :: u64) :: u32) = word_of_int (int j)" by (rule bit_word_eqI) (simp add: bit_simps)
  moreover have "int j < 2 ^ 31" using assms by simp
  ultimately show ?thesis by (simp only: sint_sbintrunc') (simp add: signed_take_bit_int_eq_self)
qed

lemma size_to_order_log:
  assumes "0 < unat sz" "unat sz < 2 ^ 31"
  shows "\<exists>k. size_to_order sz = of_nat k \<and> k \<le> 31 \<and> unat sz \<le> 2 ^ k \<and> (k = 0 \<or> 2 ^ (k - 1) < unat sz)"
proof -
  have t: "sint (ucast sz :: u32) = int (unat sz)" using sint_ucast_nat [OF assms(2)] by simp
  obtain n where n: "halvings (int (unat sz)) 0 = of_nat n" "2 ^ n \<le> int (unat sz)" "int (unat sz) < 2 ^ Suc n"
    using halvings_log [of "int (unat sz)" 0] assms(1) by (metis add_0 of_nat_0_less_iff)
  have n': "2 ^ n \<le> unat sz" "unat sz < 2 ^ Suc n"
    using n(2,3) by (simp_all flip: of_nat_le_iff [where 'a = int] of_nat_less_iff [where 'a = int])
  have n30: "n < 31"
  proof (rule ccontr)
    assume "\<not> n < 31"
    then have "(2 :: nat) ^ 31 \<le> 2 ^ n" by (intro power_increasing) simp_all
    then show False using n'(1) assms(2) by linarith
  qed
  then have un: "unat (of_nat n :: u64) = n" by (intro unat_of_nat_less) simp
  have "push_bit n 1 < sz \<longleftrightarrow> 2 ^ n < unat sz"
    using n30 by (simp add: word_less_nat_alt unat_push_bit_1 del: push_bit_of_1)
  then have "size_to_order sz = (if 2 ^ n < unat sz then of_nat (Suc n) else of_nat n)"
    unfolding size_to_order_def t n(1) Let_def un by simp
  moreover have "n = 0 \<or> 2 ^ (n - 1) < unat sz"
  proof (cases n)
    case (Suc i)
    have "(2 :: nat) ^ i < 2 ^ Suc i" by simp
    then show ?thesis using n'(1) unfolding Suc diff_Suc_1 by linarith
  qed simp
  ultimately show ?thesis using n' n30
    by (intro exI [of _ "if 2 ^ n < unat sz then Suc n else n"]) auto
qed

lemma alloc_class:
  assumes "unat sz \<le> 2048"
  obtains k where "order_ok k" "unat sz \<le> 2 ^ k" "k = 5 \<or> 2 ^ (k - 1) < unat sz"
    "(let order = sint (ucast (size_to_order sz) :: u32) in if order < SLAB_MIN_ORDER then SLAB_MIN_ORDER else order) = int k"
proof -
  obtain j where j: "size_to_order sz = of_nat j" "j \<le> 11" "unat sz \<le> 2 ^ j" "j = 0 \<or> 2 ^ (j - 1) < unat sz"
  proof (cases "unat sz = 0")
    case True
    then have "size_to_order sz = 0"
      by (simp add: size_to_order_def halvings.simps [of 0] unat_eq_0 Let_def)
    then show ?thesis using that [of 0] True by simp
  next
    case False
    then obtain j where j: "size_to_order sz = of_nat j" "j \<le> 31" "unat sz \<le> 2 ^ j" "j = 0 \<or> 2 ^ (j - 1) < unat sz"
      using size_to_order_log [of sz] assms by auto
    have "j \<le> 11"
    proof (rule ccontr)
      assume "\<not> j \<le> 11"
      then have "(2 :: nat) ^ 11 \<le> 2 ^ (j - 1)" by (intro power_increasing) simp_all
      then show False using j(4) \<open>\<not> j \<le> 11\<close> assms by simp
    qed
    with j show ?thesis using that by blast
  qed
  have s: "sint (ucast (of_nat j :: u64) :: u32) = int j" by (rule sint_ucast_nat) (use j(2) in simp)
  show thesis
  proof (rule that [of "max 5 j"])
    show "order_ok (max 5 j)" using j(2) by (simp add: order_ok_def)
    have "(2 :: nat) ^ j \<le> 2 ^ max 5 j" by (intro power_increasing) simp_all
    then show "unat sz \<le> 2 ^ max 5 j" using j(3) by linarith
    show "max 5 j = 5 \<or> 2 ^ (max 5 j - 1) < unat sz" using j(4) by (auto simp: max_def)
  qed (simp add: j(1) s max_def)
qed

subsection \<open>The interface functions\<close>

lemma alloc_in_slab_ok:
  assumes inv: "slab_inv s A F" and sz: "unat sz \<le> 2048"
    and ne: "\<forall>k. order_ok k \<longrightarrow> F k \<noteq> [] \<and> length (F k) < fuel"
  shows "\<exists>k. order_ok k \<and> unat sz \<le> 2 ^ k \<and> (k = 5 \<or> 2 ^ (k - 1) < unat sz) \<and>
    ((slabs_full (F k) \<and> (\<exists>s1. get_pages s 9 = Inr (s1, 0)) \<and> alloc_in_slab fuel s sz = Some (Inl Bug)) \<or>
     (\<exists>s' x. alloc_in_slab fuel s sz = Some (Inr (s', x)) \<and> object_taken s A F k s' x))"
proof -
  obtain k where k: "order_ok k" "unat sz \<le> 2 ^ k" "k = 5 \<or> 2 ^ (k - 1) < unat sz"
    "(let order = sint (ucast (size_to_order sz) :: u32) in if order < SLAB_MIN_ORDER then SLAB_MIN_ORDER else order) = int k"
    by (rule alloc_class [OF sz])
  have big: "order_to_size (word_of_int SLAB_MAX_ORDER) = Inr 2048" by (simp add: order_to_size_def)
  have le: "\<not> 2048 < sz" using sz by (simp add: word_less_nat_alt)
  have "alloc_in_slab fuel s sz = alloc_in_slab_nolock fuel s (slabs s k) (int k)"
    using k(4) big le by (simp add: alloc_in_slab_def alloc_in_slab_unlocked_def slab_index_ok [OF k(1)] Let_def del: word_of_int_numeral)
  then show ?thesis using alloc_nolock_ok [OF inv k(1), of fuel] ne k(1-3) by (intro exI [of _ k]) simp
qed

lemma live_objectE:
  assumes "(a, k) \<in> live_objects F"
  obtains p fs xs ys where "order_ok k" "F k = xs @ (p, fs) # ys" "a \<in> slots_of k p - set fs"
  using assms by (auto simp: live_objects_def in_set_conv_decomp)

subsection \<open>The bytes of the objects\<close>

lemma live_object_place:
  assumes inv: "slab_inv s A F" and a: "(a, k) \<in> live_objects F"
  shows "a \<noteq> 0" "2 ^ k dvd unat a" "object_bytes (a, k) \<subseteq> dom (mem s)"
proof -
  obtain p j where p: "order_ok k" "(p, 9) \<in> A" "1 \<le> j" "unat a = unat p + j * 2 ^ k" "object_bytes (a, k) \<subseteq> chunk (p, 9)"
    by (rule live_slot [OF inv a]) (rule that)
  note c = pages_held_chunk [OF slab_invD(1) [OF inv] p(2)]
  show "object_bytes (a, k) \<subseteq> dom (mem s)" using p(5) c(4) by blast
  have "0 < j * 2 ^ k" using p(3) by simp
  then show "a \<noteq> 0" using p(4) by auto
  have "(2 :: nat) ^ k dvd 2 ^ 21" using order_okD(2) [OF p(1)] by (intro le_imp_power_dvd) simp
  also have "(2 :: nat) ^ 21 = 2 ^ 9 * 4096" by simp
  finally have "2 ^ k dvd unat p" using c(2) by (rule dvd_trans)
  then show "2 ^ k dvd unat a" unfolding p(4) by simp
qed

lemma slots_apart:
  assumes "i < j" "unat a = p + i * 2 ^ k" "unat b = p + j * 2 ^ k"
  shows "object_bytes (a, k) \<inter> object_bytes (b, k) = {}"
proof -
  have "Suc i * 2 ^ k \<le> j * 2 ^ k" using assms(1) by (intro mult_le_mono1) simp
  then show ?thesis using assms(2,3) by (auto simp: word_le_nat_alt)
qed

lemma live_objects_apart:
  assumes inv: "slab_inv s A F" and ab: "(a, k) \<in> live_objects F" "(b, l) \<in> live_objects F" "(a, k) \<noteq> (b, l)"
  shows "object_bytes (a, k) \<inter> object_bytes (b, l) = {}"
proof -
  obtain p fs i where p: "order_ok k" "(p, fs) \<in> set (F k)" "(p, 9) \<in> A" "a = slot_at k p i" "unat a = unat p + i * 2 ^ k"
    "object_bytes (a, k) \<subseteq> chunk (p, 9)"
    by (rule live_slot [OF inv ab(1)]) (rule that)
  obtain q gs j where q: "order_ok l" "(q, gs) \<in> set (F l)" "(q, 9) \<in> A" "b = slot_at l q j" "unat b = unat q + j * 2 ^ l"
    "object_bytes (b, l) \<subseteq> chunk (q, 9)"
    by (rule live_slot [OF inv ab(2)]) (rule that)
  show ?thesis
  proof (cases "p = q")
    case False
    have "chunk (p, 9) \<inter> chunk (q, 9) = {}"
      using pages_held_apart [OF slab_invD(1) [OF inv] p(3) q(3)] False by simp
    with p(6) q(6) show ?thesis by blast
  next
    case True
    have kl: "k = l" using distinct_all_slabs [OF slab_invD(3) [OF inv] p(1) q(1)] p(2) q(2) True by blast
    with ab(3) p(4) q(4) True have "i \<noteq> j" by auto
    then show ?thesis using slots_apart [of i j a "unat p" k b] slots_apart [of j i b "unat p" k a] p(5) q(5) True kl
      by (cases "i < j") (auto simp del: object_bytes.simps)
  qed
qed

lemma free_in_slab_live:
  assumes inv: "slab_inv s A F" and a: "(a, k) \<in> live_objects F"
  shows "\<exists>s' F'. free_in_slab s a = Inr s' \<and> slab_inv s' A F' \<and> live_objects F' = live_objects F - {(a, k)} \<and>
    objects_kept F' (mem s) (mem s') \<and>
    (\<forall>l. map fst (F' l) = map fst (F l)) \<and> slabs s' = slabs s \<and> dom (mem s') = dom (mem s) \<and> s' = s\<lparr>mem := mem s'\<rparr>"
proof -
  obtain p fs xs ys where F: "order_ok k" "F k = xs @ (p, fs) # ys" "a \<in> slots_of k p - set fs"
    by (rule live_objectE [OF a])
  obtain m' where m': "free_in_slab s a = Inr (s\<lparr>mem := m'\<rparr>)" "slab_write (mem s) p m'"
    "slab_inv (s\<lparr>mem := m'\<rparr>) A (F(k := xs @ (p, a # fs) # ys))"
    "\<forall>c. 8 dvd unat c \<longrightarrow> c \<noteq> a \<longrightarrow> c \<noteq> p \<longrightarrow> load64 m' c = load64 (mem s) c"
    by (rule free_in_slab_ok [OF inv F]) (rule that)
  let ?F = "F(k := xs @ (p, a # fs) # ys)"
  have undo: "?F(k := xs @ (p, fs) # ys) = F" using F(2) by auto
  have F': "?F k = xs @ (p, a # fs) # ys" by simp
  note l = live_update [OF m'(3) F(1) F']
  have "live_objects F = insert (a, k) (live_objects ?F)" using l(2) unfolding undo .
  then have live: "live_objects ?F = live_objects F - {(a, k)}" using l(1) by (metis Diff_insert_absorb)
  have "objects_kept ?F (mem s) m'"
    unfolding objects_kept_def live
  proof (intro ballI impI)
    fix b c assume b: "b \<in> live_objects F - {(a, k)}" and c: "c \<in> object_bytes b" "8 dvd unat c"
    have "(p, fs) \<in> set (F k)" using F(2) by simp
    then have "c \<noteq> p" using header_not_object [OF inv F(1) _, of p fs b] b c(1) by blast
    moreover have "object_bytes (a, k) \<inter> object_bytes b = {}"
      using live_objects_apart [OF inv a, of "fst b" "snd b"] b by auto
    then have "c \<noteq> a" using c(1) by auto
    ultimately show "load64 m' c = load64 (mem s) c" using m'(4) c(2) by blast
  qed
  moreover note live
  moreover have "\<forall>l. map fst (?F l) = map fst (F l)" using F(2) by simp
  moreover have "dom m' = dom (mem s)" using m'(2) by (simp add: slab_write_def)
  ultimately show ?thesis using m'(1,3) by (intro exI [of _ "s\<lparr>mem := m'\<rparr>"] exI [of _ ?F]) simp
qed

text \<open>A cell outside an object's bytes is unchanged when only those bytes change.\<close>

lemma load64_outside:
  assumes same: "\<forall>x. x \<notin> object_bytes (a, k) \<longrightarrow> m' x = m x" and out: "\<forall>i < 8. c + of_nat i \<notin> object_bytes (a, k)"
  shows "load64 m' c = load64 m c"
  using assms by (intro load64_cong) auto

lemma aligned_bytes:
  assumes "8 dvd unat (c :: u64)" "i < 8"
  shows "unat (c + of_nat i) = unat c + i"
proof -
  have "unat c < 2 ^ 64" by (rule order_less_le_trans [OF unsigned_less]) simp
  moreover obtain q where "unat c = 8 * q" using assms(1) by auto
  ultimately have "unat c + i < 2 ^ 64" using assms(2) by simp
  then show ?thesis by (simp add: unat_word_ariths unat_of_nat take_bit_eq_mod)
qed

lemma client_write_ok:
  assumes inv: "slab_inv s A F" and a: "(a, k) \<in> live_objects F"
    and dom: "dom m' = dom (mem s)" and same: "\<forall>x. x \<notin> object_bytes (a, k) \<longrightarrow> m' x = mem s x"
  shows "slab_inv (s\<lparr>mem := m'\<rparr>) A F"
proof -
  obtain p fs j where p: "order_ok k" "(p, fs) \<in> set (F k)" "(p, 9) \<in> A" "1 \<le> j" "j < 2 ^ (21 - k)" "a = slot_at k p j"
    "a \<notin> set fs" "unat a = unat p + j * 2 ^ k" "object_bytes (a, k) \<subseteq> chunk (p, 9)"
    by (rule live_slot [OF inv a]) (rule that)
  note held = slab_invD(1) [OF inv]
  note h = header_cell [OF held p(3)]
  have al: "8 dvd unat p" "8 dvd unat (p + 8)" using h by (simp_all add: cell_ok_def)
  have "2 ^ 5 \<le> (2 :: nat) ^ k" using order_okD(1) [OF p(1)] by (rule power_increasing) simp
  then have far: "unat p + 32 \<le> unat a" using mult_le_mono [OF p(4), of 32 "2 ^ k"] p(8) by simp
  have p8: "unat (p + 8) = unat p + 8" using held_cell(3) [OF held p(3), of 1] by simp
  have low: "load64 m' c = load64 (mem s) c" if "8 dvd unat c" "unat c + 8 \<le> unat a" for c
  proof (rule load64_outside [OF same], intro allI impI)
    fix i :: nat assume "i < 8"
    then have "unat (c + of_nat i) < unat a" using aligned_bytes [OF that(1)] that(2) by simp
    then show "c + of_nat i \<notin> object_bytes (a, k)" by (simp add: word_le_nat_alt)
  qed
  have out: "load64 m' c = load64 (mem s) c" if c: "8 dvd unat c" "c \<notin> chunk (p, 9)" for c
  proof (rule load64_outside [OF same], intro allI impI)
    fix i :: nat assume i: "i < 8"
    note u = aligned_bytes [OF c(1) i]
    obtain d where d: "unat c = 8 * d" using c(1) by auto
    obtain e where e: "unat p = 8 * e" using al(1) by auto
    have "unat c < unat p \<or> unat p + 2 ^ 9 * 4096 \<le> unat c" using c(2) by (auto simp: word_le_nat_alt)
    then have "d < e \<or> e + 2 ^ 9 * 512 \<le> d" using d e by linarith
    then have "unat c + i < unat p \<or> unat p + 2 ^ 9 * 4096 \<le> unat c + i" using i d e by auto
    then have "c + of_nat i \<notin> chunk (p, 9)" unfolding chunk.simps mem_Collect_eq word_le_nat_alt u by linarith
    then show "c + of_nat i \<notin> object_bytes (a, k)" using p(9) by blast
  qed
  have w: "slab_write (mem s) p m'"
    unfolding slab_write_def using dom low [OF al(2)] far p8 out by simp
  have ok: "slab_ok (mem s) k p fs" by (rule slab_inv_slab(1) [OF inv p(1,2)])
  have slots: "load64 m' x = load64 (mem s) x" if x: "x \<in> set fs" for x
  proof -
    have "x \<in> slots_of k p" using ok x by (auto simp: slab_ok_def)
    then obtain i where i: "i < 2 ^ (21 - k)" "x = slot_at k p i" by (auto simp: slots_of_def)
    note c = slot_cell [OF held p(3,1) i(1)]
    have ux: "unat x = unat p + i * 2 ^ k" and al: "8 dvd unat x" using c(1,3) i(2) by (simp_all add: cell_ok_def)
    have "x \<noteq> a" using x p(7) by blast
    then have "i \<noteq> j" using ux p(8) by (auto simp: word_unat_eq_iff)
    then have apart: "object_bytes (a, k) \<inter> object_bytes (x, k) = {}"
      using slots_apart [of i j x "unat p" k a] slots_apart [of j i a "unat p" k x] p(8) ux
      by (cases "i < j") (auto simp del: object_bytes.simps)
    have k8: "(8 :: nat) \<le> 2 ^ k" using \<open>2 ^ 5 \<le> (2 :: nat) ^ k\<close> by simp
    have "\<forall>i < 8. x + of_nat i \<notin> object_bytes (a, k)"
    proof (intro allI impI)
      fix i :: nat assume "i < 8"
      then have "x + of_nat i \<in> object_bytes (x, k)" using aligned_bytes [OF al] k8 by (simp add: word_le_nat_alt)
      with apart show "x + of_nat i \<notin> object_bytes (a, k)" by blast
    qed
    then show ?thesis by (rule load64_outside [OF same])
  qed
  obtain xs ys where F: "F k = xs @ (p, fs) # ys" using p(2) by (auto simp: in_set_conv_decomp)
  have "load64 m' p = load64 (mem s) p" using low [OF al(1)] far by simp
  then have "slab_ok m' k p fs" using slab_ok_cong [of m' p "mem s" fs k] slots ok by blast
  then have "slab_inv (s\<lparr>mem := m'\<rparr>) A (F(k := xs @ (p, fs) # ys))" by (rule slab_inv_update [OF inv p(1) F w])
  moreover have "F(k := xs @ (p, fs) # ys) = F" using F by auto
  ultimately show ?thesis by simp
qed

subsection \<open>Room for the first slabs\<close>

text \<open>A run of 512 aligned pages is free as long as fewer chunks of that size are held than fit.\<close>

lemma aligned_blocks_apart:
  assumes "2 ^ k dvd base + i" "2 ^ k dvd base + j" "i \<noteq> j"
  shows "block (i, k) \<inter> block (j, k) = {}"
proof -
  obtain a b where ab: "base + i = 2 ^ k * a" "base + j = 2 ^ k * b" using assms(1,2) by (auto simp: dvd_def)
  have "\<not> (i < j + 2 ^ k \<and> j < i + 2 ^ k)"
  proof
    assume *: "i < j + 2 ^ k \<and> j < i + 2 ^ k"
    then have "2 ^ k * a < 2 ^ k * Suc b" "2 ^ k * b < 2 ^ k * Suc a" using ab by simp_all
    then have "a < Suc b" "b < Suc a" by (simp_all only: nat_mult_less_cancel1 nat_mult_less_cancel_disj)
    then have "a = b" by simp
    then show False using ab assms(3) by simp
  qed
  then show ?thesis by auto
qed

lemma run_of_order_9:
  assumes inv: "buddy_inv s fl B" and o9: "snd ` B \<subseteq> {9}" and room: "(card B + 2) * 512 \<le> pool_pages s"
  shows "\<exists>i. run_free (pool_base s) (pool_pages s) B i 9"
proof -
  define base where "base = pool_base s"
  define i0 where "i0 = 512 * Suc (base div 512) - base"
  have i0: "base + i0 = 512 * Suc (base div 512)" "i0 \<le> 512"
  proof -
    have "512 * (base div 512) + base mod 512 = base" "base mod 512 < 512" by simp_all
    then show "base + i0 = 512 * Suc (base div 512)" "i0 \<le> 512" unfolding i0_def mult_Suc_right by linarith+
  qed
  define C where "C = (\<lambda>t. i0 + 512 * t) ` {..card B}"
  have "card C = Suc (card B)" unfolding C_def by (subst card_image) (auto simp: inj_on_def)
  moreover have "card (fst ` B) \<le> card B" by (rule card_image_le [OF allocated_finite [OF inv]])
  ultimately have "\<not> C \<subseteq> fst ` B"
    using card_mono [OF finite_imageI [OF allocated_finite [OF inv]], of C fst] by auto
  then obtain t where t: "t \<le> card B" "i0 + 512 * t \<notin> fst ` B" by (auto simp: C_def)
  let ?i = "i0 + 512 * t"
  have "base + ?i = 2 ^ 9 * (Suc (base div 512) + t)" using i0(1) by simp
  then have al: "2 ^ 9 dvd base + ?i" by (metis dvd_triv_left)
  have "(t + 2) * 512 \<le> (card B + 2) * 512" using t(1) by (intro mult_le_mono1) simp
  then have fits: "?i + 2 ^ 9 \<le> pool_pages s" using i0(2) room by simp
  have "block b \<inter> block (?i, 9) = {}" if b: "b \<in> B" for b
  proof -
    obtain j where j: "b = (j, 9)" using b o9 by (cases b) auto
    have "2 ^ 9 dvd base + j" using allocated_block(2) [OF inv, of j 9] b j by (simp add: base_def)
    moreover have "j \<noteq> ?i" using t(2) b j by force
    ultimately show ?thesis unfolding j by (intro aligned_blocks_apart [OF _ al])
  qed
  then show ?thesis using al fits unfolding run_free_def base_def by blast
qed

lemma chunk_for_slab:
  assumes held: "pages_held s A" and o9: "snd ` A \<subseteq> {9}" and room: "(card A + 2) * 512 \<le> pool_pages s"
    and get: "get_pages s 9 = Inr (s', a)"
  shows "a \<noteq> 0"
proof
  assume a: "a = 0"
  obtain fl B where B: "buddy_inv s fl B" "A = chunk_of s ` B" using held by (auto simp: pages_held_def)
  have "card B = card A" unfolding B(2) by (rule card_image [OF chunk_of_inj [OF B(1)], symmetric])
  moreover have "snd ` B \<subseteq> {9}" using o9 unfolding B(2) image_image by (simp add: chunk_of_def)
  ultimately obtain i where "run_free (pool_base s) (pool_pages s) B i 9" using run_of_order_9 [OF B(1)] room by auto
  then show False using pages_held_get [OF held, of 9] get a B by auto
qed

lemma init_slab_ok:
  assumes inv: "slab_inv s {} (\<lambda>_. [])" and empty: "\<forall>k. slabs s k = 0" and room: "8 * 512 \<le> pool_pages s"
  shows "\<exists>s' A F. init_slab s = Inr s' \<and> slab_inv s' A F \<and> snd ` A \<subseteq> {9} \<and> card A = 7 \<and> (\<forall>k. order_ok k \<longrightarrow> F k \<noteq> []) \<and>
    live_objects F = {} \<and> dom (mem s') = dom (mem s) \<and> pool_place s' = pool_place s \<and> client_chunks A F = {}"
proof -
  have ks: "[5..11] = map int slab_orders" by (simp add: slab_orders_def upto_rec_numeral upt_rec_numeral)
  have pre: "\<forall>k \<in> set slab_orders. order_ok k \<and> (\<lambda>_. []) k = [] \<and> slabs s k = 0" using empty by (simp add: slab_orders)
  have "\<not> no_chunk s {} (length slab_orders)"
  proof
    assume "no_chunk s {} (length slab_orders)"
    then obtain s1 :: "'a kernel_state_scheme" and A1 s2 where r: "pages_held s1 A1" "snd ` A1 \<subseteq> {9}" "card A1 < 7"
      "pool_pages s1 = pool_pages s" "get_pages s1 9 = Inr (s2, 0)"
      unfolding no_chunk_def by (auto simp: slab_orders_def)
    have "(card A1 + 2) * 512 \<le> 8 * 512" using r(3) by (intro mult_le_mono1) simp
    then have "(card A1 + 2) * 512 \<le> pool_pages s1" using room r(4) by linarith
    then show False using chunk_for_slab [OF r(1,2) _ r(5)] by simp
  qed
  then obtain s' A F where "init_slab_orders (map int slab_orders) s = Inr s'" "slab_inv s' A F" "snd ` A \<subseteq> {9}" "card A = 7"
    "\<forall>k \<in> set slab_orders. F k \<noteq> []" "live_objects F = live_objects (\<lambda>_. [])" "dom (mem s') = dom (mem s)"
    "pool_place s' = pool_place s" "client_chunks A F = client_chunks {} (\<lambda>_. [])"
    using init_slab_orders_ok [OF inv pre slab_orders(2)] by (auto simp: slab_orders_def)
  moreover have "live_objects (\<lambda>_. []) = {}" "client_chunks {} (\<lambda>_. []) = {}"
    by (simp_all add: live_objects_def client_chunks_def)
  ultimately show ?thesis unfolding init_slab_def ks
    by (intro exI [of _ s'] exI [of _ A] exI [of _ F]) (simp add: slab_orders)
qed

subsection \<open>The guarantees of the slab allocator\<close>

text \<open>A kernel state before \<open>init_slab\<close>: 8192 free pages at \<open>0x200000\<close>, with 63M of memory mapped.\<close>

definition booted_32M :: buddy_state where
  "booted_32M = projr (init_buddy global_mem 0xffffff0000100000 0xffffff0000200000 8192)"

definition kernel_32M :: kernel_state where
  "kernel_32M = buddy_state.extend booted_32M
     (kernel_state.fields (\<lambda>x. if 0xffffff0000100000 \<le> x \<and> x < 0xffffff0004000000 then Some 0 else None)
       (\<lambda>_. 0) (0, 0))"

lemma kernel_32M_sel:
  "mem kernel_32M = (\<lambda>x. if 0xffffff0000100000 \<le> x \<and> x < 0xffffff0004000000 then Some 0 else None)"
  "slabs kernel_32M = (\<lambda>_. 0)"
  "pool_start_addr kernel_32M = pool_start_addr booted_32M" "pool_mem_size kernel_32M = pool_mem_size booted_32M"
  "page_metadata kernel_32M = page_metadata booted_32M" "nr_free kernel_32M = nr_free booted_32M"
  "links kernel_32M = links booted_32M" "physmem_map_num kernel_32M = physmem_map_num booted_32M"
  by (simp_all add: kernel_32M_def buddy_state.extend_def kernel_state.fields_def)

lemma kernel_32M_ok: "slab_inv kernel_32M {} (\<lambda>_. [])" "pool_pages kernel_32M = 8192"
proof -
  have a: "init_addr_ok 0xffffff0000200000 8192" by (simp add: init_addr_ok_def)
  from init_buddy_ok [OF a global_mem_nodes, of "0xffffff0000100000"]
  obtain s fl where s: "init_buddy global_mem 0xffffff0000100000 0xffffff0000200000 8192 = Inr s"
    "buddy_inv s fl {}" "pool_start_addr s = 0xffffff0000200000" "pool_pages s = 8192"
    "\<forall>i pg. page_metadata s i = Some pg \<longrightarrow> page_slab pg = 0" by auto
  then have b: "booted_32M = s" by (simp add: booted_32M_def)
  note pa = pool_ok_addr [OF buddy_inv_pool [OF s(2)]]
  have sz: "pool_mem_size s = 0x2000000" using pa(2) s(4) by (simp add: word_unat_eq_iff)
  have bk: "pool_base kernel_32M = pool_base s" "pool_pages kernel_32M = pool_pages s"
    by (simp_all add: pool_base_def pool_pages_def kernel_32M_sel b)
  then show "pool_pages kernel_32M = 8192" by (simp add: s)
  have "buddy_inv kernel_32M fl {}"
    using s(2) bk by (simp add: buddy_inv_def buddy_core_def pool_ok_def page_is_def kernel_32M_sel b)
  moreover have "pool_mapped kernel_32M"
    by (auto simp: pool_mapped_def kernel_32M_sel b s(3) sz elim!: less_trans elim!: order_trans [rotated])
  ultimately have "pages_held kernel_32M {}"
    unfolding pages_held_def using s(3) by (auto simp: kernel_32M_sel b KBASE_def)
  moreover have "pages_owned kernel_32M {}"
    using s(5) by (simp add: pages_owned_def kernel_32M_sel b owner_ok_def)
  moreover have "concat (map (\<lambda>k. []) ks) = ([] :: u64 list)" for ks :: "nat list" by (induction ks) auto
  then have "all_slabs (\<lambda>_. []) = []" by (simp add: all_slabs_def)
  ultimately show "slab_inv kernel_32M {} (\<lambda>_. [])"
    by (simp add: slab_inv_def class_ok_def kernel_32M_sel)
qed

text \<open>For sizes from 1 to \<open>2 ^ 31 - 1\<close>, \<open>size_to_order\<close> is the least order whose slots are
  large enough, and \<open>order_to_size\<close> of it is defined and at least the size.\<close>

theorem size_to_order_least:
  assumes "0 < unat sz" "unat sz < 2 ^ 31"
  shows "\<exists>k. size_to_order sz = of_nat k \<and> (\<forall>j. unat sz \<le> 2 ^ j \<longleftrightarrow> k \<le> j) \<and>
    order_to_size (size_to_order sz) = Inr (of_nat (2 ^ k))"
proof -
  obtain k where k: "size_to_order sz = of_nat k" "k \<le> 31" "unat sz \<le> 2 ^ k" "k = 0 \<or> 2 ^ (k - 1) < unat sz"
    using size_to_order_log [OF assms] by blast
  have "unat sz \<le> 2 ^ j \<longleftrightarrow> k \<le> j" for j
  proof
    assume j: "unat sz \<le> 2 ^ j"
    show "k \<le> j"
    proof (rule ccontr)
      assume "\<not> k \<le> j"
      then have "(2 :: nat) ^ j \<le> 2 ^ (k - 1)" by (intro power_increasing) simp_all
      moreover have "2 ^ (k - 1) < unat sz" using k(4) \<open>\<not> k \<le> j\<close> by auto
      ultimately show False using j by linarith
    qed
  next
    assume "k \<le> j"
    then have "(2 :: nat) ^ k \<le> 2 ^ j" by (intro power_increasing) simp_all
    then show "unat sz \<le> 2 ^ j" using k(3) by linarith
  qed
  moreover have "unat (of_nat k :: u64) = k" using k(2) by (intro unat_of_nat_less) simp
  then have "order_to_size (of_nat k) = Inr (of_nat (2 ^ k))"
    using k(2) by (simp add: order_to_size_def word_le_nat_alt)
  ultimately show ?thesis using k(1) by (intro exI [of _ k]) simp
qed

theorem size_to_order_least_witness: "\<exists>k. size_to_order 100 = of_nat k \<and> k \<le> 7 \<and> \<not> k \<le> 6"
proof -
  obtain k where "size_to_order 100 = of_nat k" "\<forall>j. unat (100 :: u64) \<le> 2 ^ j \<longleftrightarrow> k \<le> j"
    using size_to_order_least [of 100] by auto
  moreover have "unat (100 :: u64) \<le> 2 ^ 7" "\<not> unat (100 :: u64) \<le> 2 ^ 6" by simp_all
  ultimately show ?thesis by blast
qed

text \<open>C27: \<open>init_slab\<close> on a pool of at least eight aligned runs of 2M returns without a BUG_ON; then
  the slab lists of every order are set up, hold no object in use, and occupy chunks of 2M that
  belong to nobody else.\<close>

theorem init_slab_correct:
  assumes "slab_inv s {} (\<lambda>_. [])" "\<forall>k. slabs s k = 0" "8 * 512 \<le> pool_pages s"
  shows "\<exists>s' A F. init_slab s = Inr s' \<and> slab_inv s' A F \<and> snd ` A \<subseteq> {9} \<and> (\<forall>k. order_ok k \<longrightarrow> F k \<noteq> []) \<and>
    live_objects F = {}"
  using init_slab_ok [OF assms] by blast

lemma slab_ready:
  obtains s :: kernel_state and A F where "init_slab kernel_32M = Inr s" "slab_inv s A F" "\<forall>k. order_ok k \<longrightarrow> F k \<noteq> []"
    "live_objects F = {}"
  using init_slab_ok [OF kernel_32M_ok(1)] by (auto simp: kernel_32M_ok(2) kernel_32M_sel)

theorem init_slab_correct_witness:
  "\<exists>s' A F. init_slab kernel_32M = Inr s' \<and> slab_inv s' A F \<and> live_objects F = {}"
  using init_slab_correct [OF kernel_32M_ok(1)] by (auto simp: kernel_32M_ok(2) kernel_32M_sel)

text \<open>C25: \<open>alloc_in_slab\<close> for a size up to 2048 either stops in a BUG_ON because every slot of the
  order is taken and the page allocator has no 2M chunk left, or returns an object that is large
  enough, lies in mapped memory and shares no byte with any object in use, whose contents stay
  as they are.\<close>

theorem alloc_in_slab_correct:
  assumes inv: "slab_inv s A F" and sz: "unat sz \<le> 2048"
    and ready: "\<forall>k. order_ok k \<longrightarrow> F k \<noteq> [] \<and> length (F k) < fuel"
  shows "\<exists>k. order_ok k \<and> unat sz \<le> 2 ^ k \<and> (k = 5 \<or> 2 ^ (k - 1) < unat sz) \<and>
    ((slabs_full (F k) \<and> (\<exists>s1. get_pages s 9 = Inr (s1, 0)) \<and> alloc_in_slab fuel s sz = Some (Inl Bug)) \<or>
     (\<exists>s' x A' F'. alloc_in_slab fuel s sz = Some (Inr (s', x)) \<and> slab_inv s' A' F' \<and> A \<subseteq> A' \<and>
       live_objects F' = insert (x, k) (live_objects F) \<and> x \<noteq> 0 \<and> 2 ^ k dvd unat x \<and>
       object_bytes (x, k) \<subseteq> dom (mem s') \<and>
       (\<forall>b \<in> live_objects F. object_bytes b \<inter> object_bytes (x, k) = {}) \<and> objects_kept F (mem s) (mem s')))"
proof -
  obtain k where k: "order_ok k" "unat sz \<le> 2 ^ k" "k = 5 \<or> 2 ^ (k - 1) < unat sz"
    "(slabs_full (F k) \<and> (\<exists>s1. get_pages s 9 = Inr (s1, 0)) \<and> alloc_in_slab fuel s sz = Some (Inl Bug)) \<or>
     (\<exists>s' x. alloc_in_slab fuel s sz = Some (Inr (s', x)) \<and> object_taken s A F k s' x)"
    using alloc_in_slab_ok [OF inv sz ready] by blast
  show ?thesis
  proof (cases "\<exists>s' x. alloc_in_slab fuel s sz = Some (Inr (s', x)) \<and> object_taken s A F k s' x")
    case False
    then show ?thesis using k by blast
  next
    case True
    then obtain s' x A' F' where t: "alloc_in_slab fuel s sz = Some (Inr (s', x))" "slab_inv s' A' F'" "A \<subseteq> A'"
      "(x, k) \<notin> live_objects F" "live_objects F' = insert (x, k) (live_objects F)" "objects_kept F (mem s) (mem s')"
      unfolding object_taken_def by blast
    have x: "(x, k) \<in> live_objects F'" using t(5) by simp
    have "object_bytes b \<inter> object_bytes (x, k) = {}" if "b \<in> live_objects F" for b
      using live_objects_apart [OF t(2) _ x, of "fst b" "snd b"] that t(4,5) by auto
    moreover have "object_bytes (x, k) \<subseteq> dom (mem s')" "x \<noteq> 0" "2 ^ k dvd unat x"
      by (rule live_object_place [OF t(2) x])+
    ultimately have given: "\<exists>s' x A' F'. alloc_in_slab fuel s sz = Some (Inr (s', x)) \<and> slab_inv s' A' F' \<and> A \<subseteq> A' \<and>
       live_objects F' = insert (x, k) (live_objects F) \<and> x \<noteq> 0 \<and> 2 ^ k dvd unat x \<and>
       object_bytes (x, k) \<subseteq> dom (mem s') \<and>
       (\<forall>b \<in> live_objects F. object_bytes b \<inter> object_bytes (x, k) = {}) \<and> objects_kept F (mem s) (mem s')"
      using t by (rule_tac x = s' in exI, rule_tac x = x in exI, rule_tac x = A' in exI, rule_tac x = F' in exI) simp
    show ?thesis
    proof (rule exI [of _ k], intro conjI)
      show "order_ok k" "unat sz \<le> 2 ^ k" "k = 5 \<or> 2 ^ (k - 1) < unat sz" by (rule k)+
    qed (rule disjI2, rule given)
  qed
qed

lemma finite_lists: "\<exists>n. \<forall>k. order_ok k \<longrightarrow> length (F k) < n"
proof -
  have "finite {k. order_ok k}" by (rule finite_subset [of _ "{..11}"]) (auto simp: order_ok_def)
  then have "\<exists>n. \<forall>m \<in> (\<lambda>k. length (F k)) ` {k. order_ok k}. m < n"
    by (intro finite_nat_set_iff_bounded [THEN iffD1] finite_imageI)
  then show ?thesis by blast
qed

lemma object_ready:
  obtains s :: kernel_state and A F a fuel where "slab_inv s A F" "live_objects F = {(a, 7)}"
    "\<forall>k. order_ok k \<longrightarrow> length (F k) < fuel"
proof -
  obtain s :: kernel_state and A F where s: "slab_inv s A F" "\<forall>k. order_ok k \<longrightarrow> F k \<noteq> []" "live_objects F = {}"
    by (rule slab_ready) (rule that)
  have k: "order_ok 7" by (simp add: order_ok_def)
  obtain n where n: "length (F 7) < n" by blast
  obtain p fs where p: "(p, fs) \<in> set (F 7)" using s(2) k by (cases "F 7") auto
  have "slot_at 7 p 1 \<in> slots_of 7 p" by (simp add: slots_of_def)
  then have "slot_at 7 p 1 \<in> set fs" using s(3) p k by (auto simp: live_objects_def)
  then have "\<not> slabs_full (F 7)" using p by (fastforce simp: slabs_full_def)
  then obtain s' :: kernel_state and x A' F' where t: "slab_inv s' A' F'" "live_objects F' = {(x, 7)}"
    using alloc_nolock_ok [OF s(1) k _ n] s(2,3) k by (auto simp: object_taken_def)
  obtain m where "\<forall>k. order_ok k \<longrightarrow> length (F' k) < m" using finite_lists by blast
  with t show thesis using that by blast
qed

theorem alloc_in_slab_correct_witness:
  "\<exists>(s :: kernel_state) A F fuel. slab_inv s A F \<and> live_objects F = {} \<and>
    (alloc_in_slab fuel s 100 = Some (Inl Bug) \<or> (\<exists>s' x A' F'. alloc_in_slab fuel s 100 = Some (Inr (s', x)) \<and>
      slab_inv s' A' F' \<and> live_objects F' = {(x, 7)}))"
proof -
  obtain s :: kernel_state and A F where s: "slab_inv s A F" "\<forall>k. order_ok k \<longrightarrow> F k \<noteq> []" "live_objects F = {}"
    by (rule slab_ready) (rule that)
  obtain n where "\<forall>k. order_ok k \<longrightarrow> length (F k) < n" using finite_lists by blast
  then have "\<forall>k. order_ok k \<longrightarrow> F k \<noteq> [] \<and> length (F k) < n" using s(2) by blast
  note alloc = alloc_in_slab_correct [OF s(1) _ this, of 100]
  show ?thesis
  proof (cases "alloc_in_slab n s 100 = Some (Inl Bug)")
    case True
    then show ?thesis using s(1,3) by blast
  next
    case False
    obtain k s' x A' F' where k: "order_ok k" "unat (100 :: u64) \<le> 2 ^ k" "k = 5 \<or> 2 ^ (k - 1) < unat (100 :: u64)"
      "alloc_in_slab n s 100 = Some (Inr (s', x))" "slab_inv s' A' F'" "live_objects F' = insert (x, k) (live_objects F)"
      using alloc False by (simp only:) auto
    have "k \<in> {5, 6, 7, 8, 9, 10, 11}" using k(1) by (auto simp: order_ok_def)
    then have "k = 7" using k(2,3) by auto
    then show ?thesis using k(4-6) s(1,3) by blast
  qed
qed

text \<open>C26: \<open>free_in_slab\<close> of an object in use returns, makes exactly that object free again and
  leaves the contents of every other object in use alone.\<close>

theorem free_in_slab_correct:
  assumes "slab_inv s A F" "(a, k) \<in> live_objects F"
  shows "\<exists>s' F'. free_in_slab s a = Inr s' \<and> slab_inv s' A F' \<and> live_objects F' = live_objects F - {(a, k)} \<and>
    objects_kept F' (mem s) (mem s')"
  using free_in_slab_live [OF assms] by blast

theorem free_in_slab_correct_witness:
  "\<exists>(s :: kernel_state) A F a s' F'. live_objects F = {(a, 7)} \<and> free_in_slab s a = Inr s' \<and> slab_inv s' A F' \<and>
    live_objects F' = {}"
proof -
  obtain s :: kernel_state and A F a fuel where s: "slab_inv s A F" "live_objects F = {(a, 7)}"
    by (rule object_ready) (rule that)
  from free_in_slab_correct [OF s(1), of a 7] obtain s' F' where "free_in_slab s a = Inr s'" "slab_inv s' A F'" "live_objects F' = {}"
    using s(2) by auto
  with s(2) show ?thesis by blast
qed

text \<open>Whatever a client writes into the bytes of an object it holds, the invariant of the
  allocator survives; so do the objects in use.\<close>

theorem object_write_harmless:
  assumes "slab_inv s A F" "(a, k) \<in> live_objects F"
    and "dom m' = dom (mem s)" "\<forall>x. x \<notin> object_bytes (a, k) \<longrightarrow> m' x = mem s x"
  shows "slab_inv (s\<lparr>mem := m'\<rparr>) A F"
  by (rule client_write_ok [OF assms])

theorem object_write_harmless_witness:
  "\<exists>(s :: kernel_state) A F a. live_objects F = {(a, 7)} \<and> slab_inv (s\<lparr>mem := (mem s)(a \<mapsto> 0xff)\<rparr>) A F"
proof -
  obtain s :: kernel_state and A F a fuel where s: "slab_inv s A F" "live_objects F = {(a, 7)}"
    by (rule object_ready) (rule that)
  have "a \<in> object_bytes (a, 7)" by simp
  then have "a \<in> dom (mem s)" using live_object_place(3) [OF s(1), of a 7] s(2) by blast
  then have d: "dom ((mem s)(a \<mapsto> 0xff)) = dom (mem s)" by auto
  have "slab_inv (s\<lparr>mem := (mem s)(a \<mapsto> 0xff)\<rparr>) A F"
    by (rule object_write_harmless [OF s(1) _ d, of a 7]) (use s(2) in auto)
  with s(2) show ?thesis by blast
qed

text \<open>\<open>get_free_mem_size_from_slab\<close> returns the sum of the sizes of the free slots, given fuel
  for the slabs of each order and the slots of a slab.\<close>

theorem get_free_mem_size_from_slab_correct:
  assumes "slab_inv s A F" "\<And>k. order_ok k \<Longrightarrow> length (F k) + 2 ^ 16 \<le> fuel"
  shows "get_free_mem_size_from_slab fuel s = Some (Inr (of_nat (\<Sum>k \<leftarrow> slab_orders. free_slots (F k) * 2 ^ k)))"
  by (rule get_free_mem_size_from_slab_ok [OF assms])

theorem get_free_mem_size_from_slab_correct_witness:
  "\<exists>(s :: kernel_state) F fuel. init_slab kernel_32M = Inr s \<and>
    get_free_mem_size_from_slab fuel s = Some (Inr (of_nat (\<Sum>k \<leftarrow> slab_orders. free_slots (F k) * 2 ^ k)))"
proof -
  obtain s :: kernel_state and A F where s: "init_slab kernel_32M = Inr s" "slab_inv s A F"
    by (rule slab_ready) (rule that)
  obtain n where n: "\<forall>k. order_ok k \<longrightarrow> length (F k) < n" using finite_lists by blast
  then have "length (F k) + 2 ^ 16 \<le> n + 2 ^ 16" if "order_ok k" for k using that by (simp add: less_imp_le)
  from get_free_mem_size_from_slab_correct [OF s(2) this] s(1) show ?thesis by blast
qed

end
