(* ===== verification/Kmalloc.thy ===== *)
theory Kmalloc
  imports Slab
begin

text \<open>
  kernel/mm/kmalloc.c: the general-purpose allocator on top of the slab and the buddy allocator,
  and kernel/mm/mm.c with plat/raspi3/mm/mmparse.c: the initialisation of memory management.

  \<open>kmalloc\<close> takes the fuel of \<open>alloc_in_slab\<close>. \<open>sizeof(struct page)\<close> is 40. The metadata array
  that \<open>mm_init\<close> places in front of the pages is the map \<open>page_metadata\<close> of the model, apart from
  \<open>mem\<close>; that the array and the pages do not overlap is a lemma about \<open>mm_init\<close>.
\<close>

definition ROUND_UP :: "u64 \<Rightarrow> u64 \<Rightarrow> u64" where
  "ROUND_UP x n = (x + n - 1) AND NOT (n - 1)"

subsection \<open>kmalloc and kfree\<close>

lemma unat_half: "unat (drop_bit (Suc 0) w) = unat (w :: u64) div 2"
  by (simp add: drop_bit_eq_div unat_div)

text \<open>The loop counts the halvings of \<open>tmp\<close>; \<open>1 << order\<close> is a shift of an int.\<close>

function page_halvings :: "u64 \<Rightarrow> u64 \<Rightarrow> u64" where
  "page_halvings tmp order = (if 1 < tmp then page_halvings (drop_bit 1 tmp) (order + 1) else order)"
  by pat_completeness auto
termination
proof (relation "measure (\<lambda>(tmp, order). unat tmp)")
  fix tmp :: u64 assume "1 < tmp"
  then have "1 < unat tmp" by (simp add: word_less_nat_alt)
  then show "((drop_bit 1 tmp, order + 1), tmp, order) \<in> measure (\<lambda>(tmp, order). unat tmp)" for order :: u64
    by (simp add: unat_half)
qed simp

declare page_halvings.simps [simp del]

definition size_to_page_order :: "u64 \<Rightarrow> u64 outcome" where
  "size_to_page_order sz =
     (let pg_num = ROUND_UP sz 0x1000 div 0x1000;
          order = page_halvings pg_num 0
      in rbind (undef_if (31 \<le> order)) (\<lambda>_.
         Inr (if push_bit (unat order) 1 < pg_num then order + 1 else order)))"

definition kmalloc :: "nat \<Rightarrow> 'z kernel_state_scheme \<Rightarrow> u64 \<Rightarrow> ('z kernel_state_scheme \<times> u64) run" where
  "kmalloc fuel s sz =
     (if sz \<le> push_bit (nat SLAB_MAX_ORDER) 1 then alloc_in_slab fuel s sz
      else fbind (Some (if sz \<le> 0x1000 then Inr 0 else size_to_page_order sz)) (\<lambda>order.
           Some (get_pages s (sint (ucast order :: u32)))))"

definition kzalloc :: "nat \<Rightarrow> 'z kernel_state_scheme \<Rightarrow> u64 \<Rightarrow> ('z kernel_state_scheme \<times> u64) run" where
  "kzalloc fuel s sz =
     fbind (kmalloc fuel s sz) (\<lambda>(s, ptr).
     if ptr = 0 then Some (Inr (s, 0))
     else fbind (Some (fill ptr 0 sz s)) (\<lambda>s. Some (Inr (s, ptr))))"

definition kfree :: "'z kernel_state_scheme \<Rightarrow> u64 \<Rightarrow> 'z kernel_state_scheme outcome" where
  "kfree s ptr =
     rbind (virt_to_page s ptr) (\<lambda>p_page.
     rbind (get_page s p_page) (\<lambda>p.
     if page_slab p \<noteq> 0 then free_in_slab s ptr
     else free_page_chunk s p_page))"

subsection \<open>Initialisation\<close>

text \<open>\<open>img_end\<close> is the address of the symbol of that name, the end of the kernel image.\<close>

definition parse_mem_map :: "u64 \<Rightarrow> 'z kernel_state_scheme \<Rightarrow> 'z kernel_state_scheme" where
  "parse_mem_map img_end s =
     s\<lparr>physmem_map_num := 1, physmem_map := (ROUND_UP img_end 0x1000, 0x3f000000 - 0x2000000)\<rparr>"

text \<open>The pool is brought up first; with \<open>CHCORE_KERNEL_TEST\<close> the test of the buddy allocator runs next.\<close>

definition mm_init_buddy :: "u64 \<Rightarrow> 'z kernel_state_scheme \<Rightarrow> 'z kernel_state_scheme outcome" where
  "mm_init_buddy img_end s =
     (let s = parse_mem_map img_end (s\<lparr>physmem_map_num := 0\<rparr>)
      in if physmem_map_num s = 1 then
           let free_mem_start = phys_to_virt (fst (physmem_map s));
               free_mem_end = phys_to_virt (snd (physmem_map s));
               npages = (free_mem_end - free_mem_start) div (0x1000 + 40);
               start_vaddr = ROUND_UP (free_mem_start + npages * 40) 0x1000
           in init_buddy s free_mem_start start_vaddr npages
         else Inl Bug)"

definition mm_init :: "u64 \<Rightarrow> 'z kernel_state_scheme \<Rightarrow> 'z kernel_state_scheme outcome" where
  "mm_init img_end s = rbind (mm_init_buddy img_end s) init_slab"

end
