(* ===== verification/Heap_Interface.thy ===== *)
theory Heap_Interface
  imports Page_Interface
begin

text \<open>
  The contract of a heap of blocks of bytes, as its clients see it. A block is its address and its
  size; \<open>holds s H\<close> says that in state \<open>s\<close> the blocks \<open>H\<close> are in use, \<open>kept H s s'\<close> that the
  blocks \<open>H\<close> have the same contents in \<open>s'\<close> as in \<open>s\<close>. A request may stop in a BUG_ON when
  \<open>stuck s H n\<close>, and return NULL when \<open>empty s H n\<close>: then it leaves the state alone. The lemmas of the locale follow from the contract alone.
\<close>

fun block_bytes :: "u64 \<times> nat \<Rightarrow> u64 set" where
  "block_bytes (a, n) = {x. a \<le> x \<and> unat x < unat a + n}"

locale heap_allocator =
  fixes alloc :: "nat \<Rightarrow> 's \<Rightarrow> u64 \<Rightarrow> ('s \<times> u64) run"
    and free :: "'s \<Rightarrow> u64 \<Rightarrow> 's outcome"
    and holds :: "'s \<Rightarrow> (u64 \<times> nat) set \<Rightarrow> bool"
    and kept :: "(u64 \<times> nat) set \<Rightarrow> 's \<Rightarrow> 's \<Rightarrow> bool"
    and stuck :: "'s \<Rightarrow> (u64 \<times> nat) set \<Rightarrow> u64 \<Rightarrow> bool"
    and empty :: "'s \<Rightarrow> (u64 \<times> nat) set \<Rightarrow> u64 \<Rightarrow> bool"
  assumes kept_refl: "kept H s s"
    and kept_trans: "kept H s t \<Longrightarrow> kept H t u \<Longrightarrow> kept H s u"
    and kept_mono: "H \<subseteq> H' \<Longrightarrow> kept H' s t \<Longrightarrow> kept H s t"
    and apart_law: "holds s H \<Longrightarrow> b \<in> H \<Longrightarrow> c \<in> H \<Longrightarrow> b \<noteq> c \<Longrightarrow> block_bytes b \<inter> block_bytes c = {}"
    and alloc_law: "holds s H \<Longrightarrow> unat n \<le> 2 ^ 42 \<Longrightarrow> \<exists>fuel.
      alloc fuel s n = Some (Inl Bug) \<and> stuck s H n \<or>
      (\<exists>s' a. alloc fuel s n = Some (Inr (s', a)) \<and> kept H s s' \<and>
        (if a = 0 then s' = s \<and> empty s H n
         else \<exists>m. unat n \<le> m \<and> (a, m) \<notin> H \<and> holds s' (insert (a, m) H)))"
    and free_law: "holds s H \<Longrightarrow> (a, m) \<in> H \<Longrightarrow>
      \<exists>s'. free s a = Inr s' \<and> holds s' (H - {(a, m)}) \<and> kept (H - {(a, m)}) s s'"
begin

text \<open>Releasing blocks one after the other releases them all and leaves the others alone.\<close>

lemma release_blocks:
  "holds s (set bs \<union> H) \<Longrightarrow> distinct bs \<Longrightarrow> set bs \<inter> H = {} \<Longrightarrow>
   \<exists>s'. release_all free (map fst bs) s = Inr s' \<and> holds s' H \<and> kept H s s'"
proof (induction bs arbitrary: s)
  case Nil
  then show ?case by (simp add: kept_refl)
next
  case (Cons b bs)
  obtain s1 where s1: "free s (fst b) = Inr s1" "holds s1 (set (b # bs) \<union> H - {b})" "kept (set (b # bs) \<union> H - {b}) s s1"
    using free_law [OF Cons.prems(1), of "fst b" "snd b"] by auto
  have e: "set (b # bs) \<union> H - {b} = set bs \<union> H" using Cons.prems(2,3) by auto
  obtain s2 where s2: "release_all free (map fst bs) s1 = Inr s2" "holds s2 H" "kept H s1 s2"
    using Cons.IH [of s1] s1(2) Cons.prems(2,3) unfolding e by auto
  have "kept H s s1" using kept_mono [OF _ s1(3)] unfolding e by blast
  then show ?case using s1(1) s2 kept_trans by auto
qed

text \<open>A block that was just handed out can be released, after which the same blocks are in use.\<close>

lemma alloc_free:
  assumes "holds s H" "unat n \<le> 2 ^ 42"
  shows "\<exists>fuel. alloc fuel s n = Some (Inl Bug) \<and> stuck s H n \<or>
    (\<exists>s' a. alloc fuel s n = Some (Inr (s', a)) \<and>
      (a = 0 \<and> empty s H n \<or> (\<exists>s''. free s' a = Inr s'' \<and> holds s'' H \<and> kept H s s'')))"
proof -
  obtain fuel where "alloc fuel s n = Some (Inl Bug) \<and> stuck s H n \<or>
      (\<exists>s' a. alloc fuel s n = Some (Inr (s', a)) \<and> kept H s s' \<and>
        (if a = 0 then s' = s \<and> empty s H n else \<exists>m. unat n \<le> m \<and> (a, m) \<notin> H \<and> holds s' (insert (a, m) H)))"
    using alloc_law [OF assms] by blast
  then consider "alloc fuel s n = Some (Inl Bug)" "stuck s H n"
    | s' where "alloc fuel s n = Some (Inr (s', 0))" "empty s H n"
    | s' a m where "alloc fuel s n = Some (Inr (s', a))" "kept H s s'" "(a, m) \<notin> H" "holds s' (insert (a, m) H)"
    by (auto split: if_splits)
  then show ?thesis
  proof cases
    case (3 s' a m)
    then obtain s'' where "free s' a = Inr s''" "holds s'' (insert (a, m) H - {(a, m)})" "kept (insert (a, m) H - {(a, m)}) s' s''"
      using free_law [OF 3(4), of a m] by auto
    moreover have "insert (a, m) H - {(a, m)} = H" using 3(3) by simp
    ultimately show ?thesis using 3(1,2) kept_trans by metis
  qed blast+
qed

end

end
