(* ===== verification/Kmalloc_Props.thy ===== *)
theory Kmalloc_Props
  imports Slab_Props Kmalloc Heap_Interface
begin

text \<open>
  What \<open>kmalloc\<close>, \<open>kzalloc\<close> and \<open>kfree\<close> guarantee: blocks of memory that are apart from each
  other, keep their contents and can be released, over any history of calls.
\<close>

subsection \<open>Rounding and page orders\<close>

lemma ROUND_UP_bits: "ROUND_UP x 0x1000 = push_bit 12 (drop_bit 12 (x + 0x1000 - 1))"
proof -
  have "y AND NOT (mask 12) = push_bit 12 (drop_bit 12 y)" for y :: u64
    by (rule bit_word_eqI) (auto simp: bit_simps)
  then show ?thesis unfolding ROUND_UP_def by (simp add: mask_eq_exp_minus_1)
qed

lemma ROUND_UP_eq:
  assumes "unat x + 4095 < 2 ^ 64"
  shows "unat (ROUND_UP x 0x1000) = (unat x + 4095) div 4096 * 4096"
proof -
  have u: "unat (x + 0x1000 - 1) = unat x + 4095"
  proof -
    have "x + 0x1000 - 1 = of_nat (unat x + 4095)" by simp
    then show ?thesis using assms by (simp only: unat_of_nat_less)
  qed
  have "ROUND_UP x 0x1000 = push_bit 12 (drop_bit 12 (x + 0x1000 - 1))" by (rule ROUND_UP_bits)
  also have "\<dots> = of_nat (unat (x + 0x1000 - 1) div 4096 * 4096)"
  proof -
    have "push_bit 12 (drop_bit 12 z) = of_nat (unat z div 4096 * 4096)" for z :: u64
      by (simp add: push_bit_eq_mult drop_bit_eq_div word_unat_eq_iff unat_word_ariths unat_of_nat take_bit_eq_mod unat_div)
    then show ?thesis .
  qed
  finally have "ROUND_UP x 0x1000 = of_nat ((unat x + 4095) div 4096 * 4096)" unfolding u .
  moreover have "(unat x + 4095) div 4096 * 4096 < 2 ^ 64"
    using assms by (rule le_less_trans [OF div_times_less_eq_dividend])
  ultimately show ?thesis by (simp only: unat_of_nat_less)
qed

lemma page_halvings_log:
  "0 < t \<Longrightarrow> \<exists>n. page_halvings t ord = ord + of_nat n \<and> 2 ^ n \<le> unat t \<and> unat t < 2 ^ Suc n"
proof (induction t ord rule: page_halvings.induct)
  case (1 t ord)
  show ?case
  proof (cases "1 < t")
    case True
    have half: "unat (drop_bit 1 t) = unat t div 2" by (simp add: unat_half)
    have "1 < unat t" using True by (simp add: word_less_nat_alt)
    then have "0 < unat (drop_bit 1 t)" unfolding half by (simp add: div_greater_zero_iff)
    then have "0 < drop_bit 1 t" by (simp add: word_less_nat_alt)
    then obtain n where n: "page_halvings (drop_bit 1 t) (ord + 1) = ord + 1 + of_nat n" "2 ^ n \<le> unat t div 2"
      "unat t div 2 < 2 ^ Suc n" using 1(1) [OF True] unfolding half by blast
    then have "page_halvings t ord = ord + of_nat (Suc n)" using True by (simp add: page_halvings.simps [of t])
    moreover have "2 ^ Suc n \<le> unat t" "unat t < 2 ^ Suc (Suc n)" using n(2,3) by simp_all
    ultimately show ?thesis by blast
  next
    case False
    then have "unat t = 1" using 1(2) by (simp add: word_less_nat_alt)
    then have "t = 1" by (simp add: word_unat_eq_iff)
    then show ?thesis by (intro exI [of _ 0]) (simp add: page_halvings.simps [of 1])
  qed
qed

lemma size_to_page_order_ok:
  assumes "0 < unat sz" "unat sz \<le> 2 ^ 42"
  shows "\<exists>k. size_to_page_order sz = Inr (of_nat k) \<and> k \<le> 31 \<and> (\<forall>j. unat sz \<le> 2 ^ j * 4096 \<longleftrightarrow> k \<le> j)"
proof -
  define pg where "pg = ROUND_UP sz 0x1000 div 0x1000"
  have "unat (ROUND_UP sz 0x1000) = (unat sz + 4095) div 4096 * 4096" using assms(2) by (intro ROUND_UP_eq) simp
  then have pg: "unat pg = (unat sz + 4095) div 4096" by (simp add: pg_def unat_div)
  have "unat sz + 4095 < 2 ^ 31 * 4096" using assms(2) by simp
  then have hi: "unat pg < 2 ^ 31" unfolding pg by (intro less_mult_imp_div_less)
  have "4096 \<le> unat sz + 4095" using assms(1) by simp
  then have pos: "0 < unat pg" unfolding pg by (simp add: div_greater_zero_iff)
  then have "0 < pg" by (simp add: word_less_nat_alt)
  then obtain n where n: "page_halvings pg 0 = of_nat n" "2 ^ n \<le> unat pg" "unat pg < 2 ^ Suc n"
    using page_halvings_log [of pg 0] by auto
  have n31: "n < 31" using le_less_trans [OF n(2) hi] by (rule power_less_imp_less_exp [rotated]) simp
  have un: "unat (of_nat n :: u64) = n" using n31 by (intro unat_of_nat_less) simp
  define k where "k = (if 2 ^ n < unat pg then Suc n else n)"
  have "push_bit n 1 < pg \<longleftrightarrow> 2 ^ n < unat pg"
    using n31 by (simp add: word_less_nat_alt unat_push_bit_1 del: push_bit_of_1)
  then have "size_to_page_order sz = Inr (of_nat k)"
    using n31 un unfolding size_to_page_order_def pg_def [symmetric] n(1) Let_def k_def by (simp add: word_le_nat_alt)
  moreover have "unat sz \<le> 2 ^ j * 4096 \<longleftrightarrow> k \<le> j" for j
  proof -
    have "unat sz \<le> 2 ^ j * 4096 \<longleftrightarrow> unat pg \<le> 2 ^ j" unfolding pg by linarith
    also have "\<dots> \<longleftrightarrow> k \<le> j"
    proof
      assume "unat pg \<le> 2 ^ j"
      then have "2 ^ n \<le> (2 :: nat) ^ j" "2 ^ n < unat pg \<Longrightarrow> (2 :: nat) ^ n < 2 ^ j" using n(2) by linarith+
      then show "k \<le> j" by (auto simp: k_def Suc_le_eq)
    next
      assume "k \<le> j"
      then have "(2 :: nat) ^ k \<le> 2 ^ j" by (intro power_increasing) simp_all
      moreover have "unat pg \<le> 2 ^ k" using n(2,3) by (simp add: k_def)
      ultimately show "unat pg \<le> 2 ^ j" by linarith
    qed
    finally show ?thesis .
  qed
  ultimately show ?thesis using n31 by (intro exI [of _ k]) (simp add: k_def)
qed

text \<open>For the last 4095 sizes the rounding wraps to 0 and \<open>kmalloc\<close> asks for a single page.\<close>

lemma kmalloc_wraps:
  assumes "2 ^ 64 - 4096 < unat n"
  shows "kmalloc fuel s n = Some (get_pages s 0)"
proof -
  have lt: "unat n < 2 ^ 64" by (rule order_less_le_trans [OF unsigned_less]) simp
  have "unat (n + 0xfff) = (unat n + 4095) mod 2 ^ 64" by (simp add: unat_word_ariths)
  also have "\<dots> = unat n + 4095 - 2 ^ 64" using assms lt by (simp add: mod_if)
  finally have "unat (n + 0xfff) < 4096" using lt by simp
  then have "unat (n + 0xfff) div 4096 = 0" by simp
  then have "drop_bit 12 (n + 0xfff) = 0" by (simp add: drop_bit_eq_div word_unat_eq_iff unat_div)
  moreover have "n + 0x1000 - 1 = n + 0xfff" by simp
  ultimately have "ROUND_UP n 0x1000 = 0" by (simp only: ROUND_UP_bits) simp
  then have "size_to_page_order n = Inr 0"
    by (simp add: size_to_page_order_def page_halvings.simps [of 0])
  moreover have "\<not> n \<le> 2048" "\<not> n \<le> 0x1000" using assms by (simp_all add: word_le_nat_alt)
  ultimately show ?thesis by (simp add: kmalloc_def)
qed

subsection \<open>The blocks in use\<close>

text \<open>
  A block is an object of a slab or a chunk of pages that is no slab. Blocks of the first kind
  have at most 2048 bytes, those of the second at least 4096.
\<close>

definition heap_blocks :: "(u64 \<times> nat) set \<Rightarrow> (nat \<Rightarrow> (u64 \<times> u64 list) list) \<Rightarrow> (u64 \<times> nat) set" where
  "heap_blocks A F = (\<lambda>(a, k). (a, 2 ^ k)) ` live_objects F \<union>
     (\<lambda>(a, k). (a, 2 ^ k * 4096)) ` client_chunks A F"

definition heap_inv :: "'z kernel_state_scheme \<Rightarrow> (u64 \<times> nat) set \<Rightarrow> bool" where
  "heap_inv s H \<longleftrightarrow> (\<exists>A F. slab_inv s A F \<and> (\<forall>k. order_ok k \<longrightarrow> F k \<noteq> []) \<and> H = heap_blocks A F)"

definition blocks_kept :: "(u64 \<times> nat) set \<Rightarrow> 'z kernel_state_scheme \<Rightarrow> 'z kernel_state_scheme \<Rightarrow> bool" where
  "blocks_kept H s s' \<longleftrightarrow> (\<forall>b \<in> H. \<forall>c \<in> block_bytes b. 8 dvd unat c \<longrightarrow> load64 (mem s') c = load64 (mem s) c)"

lemma heap_blocksE:
  assumes "(a, n) \<in> heap_blocks A F"
  obtains (object) k where "n = 2 ^ k" "(a, k) \<in> live_objects F"
    | (pages) k where "n = 2 ^ k * 4096" "(a, k) \<in> A" "a \<notin> set (all_slabs F)"
  using assms by (auto simp: heap_blocks_def client_chunks_def)

lemma object_block: "block_bytes (a, 2 ^ k) = object_bytes (a, k)"
  by simp

lemma chunk_block: "block_bytes (a, 2 ^ k * 4096) = chunk (a, k)"
  by simp

lemma live_order: "(a, k) \<in> live_objects F \<Longrightarrow> order_ok k"
  by (simp add: live_objects_def)

lemma object_small:
  assumes "(a, k) \<in> live_objects F"
  shows "(2 :: nat) ^ k < 2 ^ j * 4096"
proof -
  have "(2 :: nat) ^ k \<le> 2 ^ 11" using order_okD(2) [OF live_order [OF assms]] by (intro power_increasing) simp_all
  moreover have "(1 :: nat) \<le> 2 ^ j" by simp
  ultimately have "(2 :: nat) ^ k \<le> 2048" "(1 :: nat) \<le> 2 ^ j" by simp_all
  then show ?thesis by linarith
qed

lemma block_place:
  assumes inv: "slab_inv s A F" and b: "(a, n) \<in> heap_blocks A F"
  shows "a \<noteq> 0" "8 dvd unat a" "block_bytes (a, n) \<subseteq> dom (mem s)" "unat a + n < 2 ^ 64"
proof -
  note held = slab_invD(1) [OF inv]
  have "a \<noteq> 0 \<and> 8 dvd unat a \<and> block_bytes (a, n) \<subseteq> dom (mem s) \<and> unat a + n < 2 ^ 64"
    using b
  proof (cases rule: heap_blocksE)
    case (object k)
    obtain p j where p: "order_ok k" "(p, 9) \<in> A" "j < 2 ^ (21 - k)" "unat a = unat p + j * 2 ^ k"
      by (rule live_slot [OF inv object(2)]) (rule that)
    have "(8 :: nat) dvd 2 ^ k" using slot_bytes(2) [OF p(1,3)] by simp
    then have "8 dvd unat a" using live_object_place(2) [OF inv object(2)] by (rule dvd_trans)
    moreover have "unat a + n < 2 ^ 64"
      using p(4) object(1) slot_bytes(1) [OF p(1,3)] pages_held_chunk(3) [OF held p(2)] by simp
    moreover have "block_bytes (a, n) \<subseteq> dom (mem s)"
      using live_object_place(3) [OF inv object(2)] unfolding object(1) object_block .
    ultimately show ?thesis using live_object_place(1) [OF inv object(2)] by blast
  next
    case (pages k)
    note c = pages_held_chunk [OF held pages(2)]
    have "(8 :: nat) dvd 2 ^ k * 4096" by (rule dvd_mult) simp
    then have "8 dvd unat a" using c(2) by (rule dvd_trans)
    moreover have "block_bytes (a, n) \<subseteq> dom (mem s)" using c(4) unfolding pages(1) chunk_block .
    ultimately show ?thesis using c(1,3) pages(1) by blast
  qed
  then show "a \<noteq> 0" "8 dvd unat a" "block_bytes (a, n) \<subseteq> dom (mem s)" "unat a + n < 2 ^ 64" by blast+
qed

lemma object_in_slab:
  assumes "slab_inv s A F" "(a, k) \<in> live_objects F"
  obtains p where "(p, 9) \<in> A" "p \<in> set (all_slabs F)" "object_bytes (a, k) \<subseteq> chunk (p, 9)"
proof -
  obtain p fs where "order_ok k" "(p, fs) \<in> set (F k)" "(p, 9) \<in> A" "object_bytes (a, k) \<subseteq> chunk (p, 9)"
    by (rule live_slot [OF assms]) (rule that)
  then show thesis using that all_slabs_mem by blast
qed

lemma object_pages_apart:
  assumes inv: "slab_inv s A F" and o: "(a, k) \<in> live_objects F" and c: "(b, j) \<in> A" "b \<notin> set (all_slabs F)"
  shows "object_bytes (a, k) \<inter> chunk (b, j) = {}"
proof -
  obtain p where p: "(p, 9) \<in> A" "p \<in> set (all_slabs F)" "object_bytes (a, k) \<subseteq> chunk (p, 9)"
    by (rule object_in_slab [OF inv o])
  have "(p, 9) \<noteq> (b, j)" using p(2) c(2) by auto
  then show ?thesis using pages_held_apart [OF slab_invD(1) [OF inv] p(1) c(1)] p(3) by blast
qed

lemma blocks_apart:
  assumes inv: "slab_inv s A F" and bc: "b \<in> heap_blocks A F" "c \<in> heap_blocks A F" "b \<noteq> c"
  shows "block_bytes b \<inter> block_bytes c = {}"
proof -
  obtain x m y n where b: "b = (x, m)" "c = (y, n)" by (cases b, cases c) auto
  show ?thesis using bc(1) [unfolded b]
  proof (cases rule: heap_blocksE)
    case (object k)
    note o1 = this
    show ?thesis using bc(2) [unfolded b]
    proof (cases rule: heap_blocksE)
      case (object j)
      then have "(x, k) \<noteq> (y, j)" using o1 bc(3) b by auto
      from live_objects_apart [OF inv o1(2) object(2) this] show ?thesis
        unfolding b o1(1) object(1) object_block .
    next
      case (pages j)
      from object_pages_apart [OF inv o1(2) pages(2,3)] show ?thesis
        unfolding b o1(1) pages(1) object_block chunk_block .
    qed
  next
    case (pages k)
    note p1 = this
    show ?thesis using bc(2) [unfolded b]
    proof (cases rule: heap_blocksE)
      case (object j)
      from object_pages_apart [OF inv object(2) p1(2,3)] show ?thesis
        unfolding b p1(1) object(1) object_block chunk_block by blast
    next
      case (pages j)
      then have "(x, k) \<noteq> (y, j)" using p1 bc(3) b by auto
      from pages_held_apart [OF slab_invD(1) [OF inv] p1(2) pages(2) this] show ?thesis
        unfolding b p1(1) pages(1) chunk_block .
    qed
  qed
qed

subsection \<open>Release\<close>

text \<open>Freeing an object writes no chunk that is not a slab.\<close>

lemma free_outside:
  assumes inv: "slab_inv s A F" and o: "(a, k) \<in> live_objects F" and s': "free_in_slab s a = Inr s'"
    and c: "(b, j) \<in> A" "b \<notin> set (all_slabs F)" "c \<in> chunk (b, j)" "8 dvd unat c"
  shows "load64 (mem s') c = load64 (mem s) c"
proof -
  obtain p fs xs ys where F: "order_ok k" "F k = xs @ (p, fs) # ys" "a \<in> slots_of k p - set fs"
    by (rule live_objectE [OF o])
  obtain m' where m': "free_in_slab s a = Inr (s\<lparr>mem := m'\<rparr>)" "slab_write (mem s) p m'"
    by (rule free_in_slab_ok [OF inv F]) (rule that)
  note pA = class_slab(2,3) [OF inv F(1,2)]
  have "(p, 9) \<noteq> (b, j)" using pA(2) c(2) by auto
  then have "c \<notin> chunk (p, 9)" using pages_held_apart [OF slab_invD(1) [OF inv] pA(1) c(1)] c(3) by blast
  then show ?thesis using m' s' c(4) unfolding slab_write_def by auto
qed

lemma slab_inv_free_pages:
  assumes inv: "slab_inv s A F" and a: "(a, k) \<in> A" "a \<notin> set (all_slabs F)"
    and s': "same_pool s s'" "pages_held s' (A - {(a, k)})"
  shows "slab_inv s' (A - {(a, k)}) F"
proof -
  note sk = same_pool_kernel [OF s'(1)]
  have "(\<lambda>p. (p, 9)) ` set (all_slabs F) \<subseteq> A - {(a, k)}" using slab_invD(4) [OF inv] a(2) by auto
  moreover have "pages_owned s' (set (all_slabs F))" by (rule pages_owned_same_pool [OF s'(1) slab_invD(5) [OF inv]])
  ultimately show ?thesis using inv s'(2) sk(1,2) by (simp add: slab_inv_def)
qed

lemma kfree_object:
  assumes inv: "slab_inv s A F" and a: "(a, k) \<in> live_objects F"
  shows "kfree s a = free_in_slab s a"
proof -
  obtain p where p: "(p, 9) \<in> A" "p \<in> set (all_slabs F)" "object_bytes (a, k) \<subseteq> chunk (p, 9)"
    by (rule object_in_slab [OF inv a])
  have "a \<in> object_bytes (a, k)" by simp
  then have "a \<in> chunk (p, 9)" using p(3) by blast
  then obtain i pg where i: "virt_to_page s a = Inr i" "page_metadata s i = Some pg" "page_slab pg = p"
    using owned_page [OF slab_invD(1) [OF inv] slab_invD(5) [OF inv] _ p(2)] slab_invD(4) [OF inv] by blast
  have "p \<noteq> 0" by (rule pages_held_chunk(1) [OF slab_invD(1) [OF inv] p(1)])
  then show ?thesis using i by (simp add: kfree_def get_page_Some)
qed

lemma kfree_pages:
  assumes inv: "slab_inv s A F" and a: "(a, k) \<in> A" "a \<notin> set (all_slabs F)"
  shows "kfree s a = free_pages s a"
proof -
  note held = slab_invD(1) [OF inv]
  have "a \<in> chunk (a, k)" by simp
  then obtain i pg where i: "i < pool_pages s" "virt_to_page s a = Inr i" "page_metadata s i = Some pg" "frame s i \<in> chunk (a, k)"
    by (rule held_page [OF held a(1)]) (rule that)
  have "page_slab pg = 0"
  proof (rule ccontr)
    assume n: "page_slab pg \<noteq> 0"
    have "owner_ok (set (all_slabs F)) (frame s i) (page_slab pg)"
      using slab_invD(5) [OF inv] i(1,3) unfolding pages_owned_def by blast
    then have o: "page_slab pg \<in> set (all_slabs F)" "frame s i \<in> chunk (page_slab pg, 9)"
      using n unfolding owner_ok_def by blast+
    have "(page_slab pg, 9) \<noteq> (a, k)" using o(1) a(2) by auto
    then show False using pages_held_apart [OF held slab_invD(4) [OF inv o(1)] a(1)] o(2) i(4) by blast
  qed
  then show ?thesis using i(2,3) by (simp add: kfree_def free_pages_def get_page_Some)
qed

lemma kfree_ok:
  assumes heap: "heap_inv s H" and b: "(a, n) \<in> H"
  shows "\<exists>s'. kfree s a = Inr s' \<and> heap_inv s' (H - {(a, n)}) \<and> blocks_kept (H - {(a, n)}) s s' \<and> dom (mem s') = dom (mem s)"
proof -
  obtain A F where inv: "slab_inv s A F" and ne: "\<forall>k. order_ok k \<longrightarrow> F k \<noteq> []" and H: "H = heap_blocks A F"
    using heap by (auto simp: heap_inv_def)
  show ?thesis using b [unfolded H]
  proof (cases rule: heap_blocksE)
    case (object k)
    obtain s' F' where s': "free_in_slab s a = Inr s'" "slab_inv s' A F'" "live_objects F' = live_objects F - {(a, k)}"
      "objects_kept F' (mem s) (mem s')" "\<forall>l. map fst (F' l) = map fst (F l)" "dom (mem s') = dom (mem s)"
      using free_in_slab_live [OF inv object(2)] by blast
    have al: "all_slabs F' = all_slabs F" unfolding all_slabs_def using s'(5) by simp
    have ne': "\<forall>l. order_ok l \<longrightarrow> F' l \<noteq> []" using ne s'(5) by (metis map_is_Nil_conv)
    have H': "heap_blocks A F' = H - {(a, n)}"
    proof -
      have "(a, n) \<notin> (\<lambda>(a, k). (a, 2 ^ k * 4096)) ` {(a, k) \<in> A. a \<notin> set (all_slabs F)}"
        using object_small [OF object(2)] object(1) by (auto simp: less_le)
      moreover have "(\<lambda>(a, k). (a, 2 ^ k :: nat)) ` (live_objects F - {(a, k)}) = (\<lambda>(a, k). (a, 2 ^ k)) ` live_objects F - {(a, n)}"
        using object by (auto simp: image_iff)
      ultimately show ?thesis unfolding H heap_blocks_def client_chunks_def al s'(3) by blast
    qed
    have "blocks_kept (H - {(a, n)}) s s'"
      unfolding blocks_kept_def H' [symmetric]
    proof (intro ballI impI)
      fix b c assume b: "b \<in> heap_blocks A F'" "c \<in> block_bytes b" "8 dvd unat c"
      obtain x m where x: "b = (x, m)" by (cases b)
      show "load64 (mem s') c = load64 (mem s) c" using b(1) [unfolded x]
      proof (cases rule: heap_blocksE)
        case (object j)
        then show ?thesis using s'(4) b(2,3) unfolding objects_kept_def x object(1) object_block by blast
      next
        case (pages j)
        have "c \<in> chunk (x, j)" using b(2) unfolding x pages(1) chunk_block .
        then show ?thesis using free_outside [OF inv object(2) s'(1)] pages(2,3) b(3) unfolding al by blast
      qed
    qed
    then show ?thesis using kfree_object [OF inv object(2)] s'(1,2,6) ne' H' unfolding heap_inv_def by metis
  next
    case (pages k)
    obtain s' where s': "free_pages s a = Inr s'" "same_pool s s'" "pages_held s' (A - {(a, k)})"
      using pages_held_free [OF slab_invD(1) [OF inv] pages(2)] by blast
    have inv': "slab_inv s' (A - {(a, k)}) F" by (rule slab_inv_free_pages [OF inv pages(2,3) s'(2,3)])
    note m = same_pool_kernel(1) [OF s'(2)]
    have H': "heap_blocks (A - {(a, k)}) F = H - {(a, n)}"
    proof -
      have "(a, n) \<notin> (\<lambda>(a, k). (a, 2 ^ k)) ` live_objects F"
      proof
        assume "(a, n) \<in> (\<lambda>(a, k). (a, 2 ^ k)) ` live_objects F"
        then obtain j where "(a, j) \<in> live_objects F" "n = 2 ^ j" by auto
        then show False using object_small [of a j F k] pages(1) by simp
      qed
      moreover have "(\<lambda>(a, k). (a, 2 ^ k * 4096 :: nat)) ` {(x, j) \<in> A - {(a, k)}. x \<notin> set (all_slabs F)} =
          (\<lambda>(a, k). (a, 2 ^ k * 4096)) ` {(a, k) \<in> A. a \<notin> set (all_slabs F)} - {(a, n)}"
        using pages by (auto simp: image_iff)
      ultimately show ?thesis unfolding H heap_blocks_def client_chunks_def by blast
    qed
    have "blocks_kept (H - {(a, n)}) s s'" using m by (simp add: blocks_kept_def)
    then show ?thesis using kfree_pages [OF inv pages(2,3)] s'(1) inv' ne H' m unfolding heap_inv_def by metis
  qed
qed

subsection \<open>Allocation\<close>

lemma blocks_keptI:
  assumes "objects_kept F (mem s) (mem s')" "pages_kept A F (mem s) (mem s')"
  shows "blocks_kept (heap_blocks A F) s s'"
  unfolding blocks_kept_def
proof (intro ballI impI)
  fix b c assume b: "b \<in> heap_blocks A F" "c \<in> block_bytes b" "8 dvd unat c"
  obtain x m where x: "b = (x, m)" by (cases b)
  show "load64 (mem s') c = load64 (mem s) c" using b(1) [unfolded x]
  proof (cases rule: heap_blocksE)
    case (object j)
    then show ?thesis using assms(1) b(2,3) unfolding objects_kept_def x object(1) object_block by blast
  next
    case (pages j)
    have "c \<in> chunk (x, j)" using b(2) unfolding x pages(1) chunk_block .
    then show ?thesis using pages_keptD [OF assms(2) pages(2,3) _ b(3)] by blast
  qed
qed

lemma blocks_at_once: "(a, m) \<in> heap_blocks A F \<Longrightarrow> slab_inv s A F \<Longrightarrow> (a, n) \<in> heap_blocks A F \<Longrightarrow> m = n"
proof (rule ccontr)
  assume b: "(a, m) \<in> heap_blocks A F" "slab_inv s A F" "(a, n) \<in> heap_blocks A F" "m \<noteq> n"
  have "0 < m" "0 < n" using b(1,3) by (auto simp: heap_blocks_def)
  then have "a \<in> block_bytes (a, m)" "a \<in> block_bytes (a, n)" by simp_all
  then show False using blocks_apart [OF b(2,1,3)] b(4) by blast
qed

text \<open>What \<open>kmalloc\<close> promises when it returns \<open>a\<close>.\<close>

definition block_given ::
  "'z kernel_state_scheme \<Rightarrow> (u64 \<times> nat) set \<Rightarrow> nat \<Rightarrow> 'z kernel_state_scheme \<Rightarrow> u64 \<Rightarrow> bool"
where
  "block_given s H n s' a \<longleftrightarrow> blocks_kept H s s' \<and> dom (mem s') = dom (mem s) \<and>
     (if a = 0 then heap_inv s' H else \<exists>m. n \<le> m \<and> (a, m) \<notin> H \<and> heap_inv s' (insert (a, m) H))"

lemma object_given:
  assumes inv: "slab_inv s A F" and ne: "\<forall>k. order_ok k \<longrightarrow> F k \<noteq> []" and k: "order_ok k" "n \<le> 2 ^ k"
    and t: "object_taken s A F k s' a"
  shows "block_given s (heap_blocks A F) n s' a"
proof -
  obtain A' F' where F': "slab_inv s' A' F'" "\<forall>l. F l \<noteq> [] \<longrightarrow> F' l \<noteq> []" "client_chunks A' F' = client_chunks A F"
    "(a, k) \<notin> live_objects F" "live_objects F' = insert (a, k) (live_objects F)"
    "objects_kept F (mem s) (mem s')" "pages_kept A F (mem s) (mem s')" "dom (mem s') = dom (mem s)"
    using t unfolding object_taken_def by blast
  have live: "(a, k) \<in> live_objects F'" using F'(5) by simp
  have H': "heap_blocks A' F' = insert (a, 2 ^ k) (heap_blocks A F)"
    unfolding heap_blocks_def F'(3,5) by simp
  have "(a, 2 ^ k) \<notin> heap_blocks A F"
  proof
    assume "(a, 2 ^ k) \<in> heap_blocks A F"
    then show False
    proof (cases rule: heap_blocksE)
      case (object j)
      then show False using F'(4) by simp
    next
      case (pages j)
      then show False using object_small [OF live, of j] by simp
    qed
  qed
  moreover have "heap_inv s' (heap_blocks A' F')" using F'(1,2) ne unfolding heap_inv_def by blast
  moreover have "a \<noteq> 0" by (rule live_object_place(1) [OF F'(1) live])
  ultimately show ?thesis
    unfolding block_given_def using blocks_keptI [OF F'(6,7)] F'(8) k(2) H' by auto
qed

text \<open>A chunk that is not a slab can be added to the chunks held.\<close>

lemma slab_inv_get_pages:
  assumes inv: "slab_inv s A F" and s': "same_pool s s'" "pages_held s' A'" "A \<subseteq> A'"
  shows "slab_inv s' A' F"
  using inv pages_owned_same_pool [OF s'(1) slab_invD(5) [OF inv]] s'(2,3) same_pool_kernel(1,2) [OF s'(1)]
  unfolding slab_inv_def by simp blast

lemma new_chunk_no_slab:
  assumes inv: "slab_inv s A F" and a: "(a, k) \<notin> A" "pages_held s' (insert (a, k) A)"
  shows "a \<notin> set (all_slabs F)"
proof
  assume p: "a \<in> set (all_slabs F)"
  then have a9: "(a, 9) \<in> A" by (rule slab_invD(4) [OF inv])
  then have "(a, 9) \<noteq> (a, k)" using a(1) by auto
  then have "chunk (a, 9) \<inter> chunk (a, k) = {}"
    using pages_held_apart [OF a(2), of "(a, 9)" "(a, k)"] a9 by blast
  moreover have "a \<in> chunk (a, 9)" "a \<in> chunk (a, k)" by simp_all
  ultimately show False by blast
qed

text \<open>
  The two ways in which a request for \<open>n\<close> bytes finds no memory. Up to 2048 bytes: in the smallest
  sufficient size class every slot of every slab is in use, and there is no chunk of 2M left for a
  new slab. Above: the smallest sufficient order is none of the buddy allocator's, or no aligned
  run of that many pages is free.
\<close>

definition slab_exhausted :: "'z kernel_state_scheme \<Rightarrow> (u64 \<times> nat) set \<Rightarrow> u64 \<Rightarrow> bool" where
  "slab_exhausted s H n \<longleftrightarrow> unat n \<le> 2048 \<and>
     (\<exists>A F k. slab_inv s A F \<and> H = heap_blocks A F \<and> order_ok k \<and> unat n \<le> 2 ^ k \<and> (k = 5 \<or> 2 ^ (k - 1) < unat n) \<and>
        slabs_full (F k) \<and> \<not> run_available s A 9)"

definition pages_exhausted :: "'z kernel_state_scheme \<Rightarrow> (u64 \<times> nat) set \<Rightarrow> u64 \<Rightarrow> bool" where
  "pages_exhausted s H n \<longleftrightarrow> 2048 < unat n \<and>
     (\<exists>A F k. slab_inv s A F \<and> H = heap_blocks A F \<and> (\<forall>j. unat n \<le> 2 ^ j * 4096 \<longleftrightarrow> k \<le> j) \<and>
        (14 \<le> k \<or> \<not> run_available s A k))"

lemma taken_not_null:
  assumes "object_taken s A F k s' x"
  shows "x \<noteq> 0"
proof -
  obtain A' F' where F': "slab_inv s' A' F'" "live_objects F' = insert (x, k) (live_objects F)"
    using assms unfolding object_taken_def by blast
  show ?thesis by (rule live_object_place(1) [OF F'(1), of x k]) (simp add: F'(2))
qed

lemma no_slab_chunk:
  assumes "slab_inv s A F" "get_pages s 9 = Inr (s1, 0)"
  shows "\<not> run_available s A 9"
  using pages_held_get [OF slab_invD(1) [OF assms(1)], of 9] assms(2) by auto

lemma pages_given:
  assumes inv: "slab_inv s A F" and ne: "\<forall>k. order_ok k \<longrightarrow> F k \<noteq> []" and n: "n \<le> 2 ^ k * 4096" and k: "k \<le> 31"
  shows "\<exists>s' a. get_pages s (int k) = Inr (s', a) \<and> block_given s (heap_blocks A F) n s' a \<and>
    (a = 0 \<longrightarrow> s' = s \<and> (14 \<le> k \<or> \<not> run_available s A k))"
proof (cases "k < 14")
  case True
  note held = slab_invD(1) [OF inv]
  obtain s' a where g: "get_pages s (int k) = Inr (s', a)" "same_pool s s'"
    "if a = 0 then pages_held s' A \<and> s' = s \<and> \<not> run_available s A k else (a, k) \<notin> A \<and> pages_held s' (insert (a, k) A)"
    using pages_held_get [OF held True] by (metis (no_types, lifting))
  note sk = same_pool_kernel [OF g(2)]
  have kept: "blocks_kept H s s'" "dom (mem s') = dom (mem s)" for H using sk(1) by (simp_all add: blocks_kept_def)
  note inv' = slab_inv_get_pages [OF inv g(2)]
  show ?thesis
  proof (cases "a = 0")
    case True
    then have "heap_inv s' (heap_blocks A F)" using inv' [of A] g(3) ne unfolding heap_inv_def by auto
    moreover have "s' = s \<and> \<not> run_available s A k" using g(3) True by simp
    ultimately show ?thesis using g(1) kept True by (intro exI [of _ s'] exI [of _ a]) (auto simp: block_given_def)
  next
    case False
    then have a: "(a, k) \<notin> A" "pages_held s' (insert (a, k) A)" using g(3) by simp_all
    have i: "slab_inv s' (insert (a, k) A) F" by (rule inv' [OF a(2)]) blast
    note new = new_chunk_no_slab [OF inv a]
    have H': "heap_blocks (insert (a, k) A) F = insert (a, 2 ^ k * 4096) (heap_blocks A F)"
      using new by (auto simp: heap_blocks_def client_chunks_def)
    have "(a, 2 ^ k * 4096) \<notin> heap_blocks A F"
    proof
      assume "(a, 2 ^ k * 4096) \<in> heap_blocks A F"
      then show False
      proof (cases rule: heap_blocksE)
        case (object j)
        then show False using object_small [of a j F k] by simp
      next
        case (pages j)
        then show False using a(1) by simp
      qed
    qed
    moreover have "heap_inv s' (heap_blocks (insert (a, k) A) F)" using i ne unfolding heap_inv_def by blast
    ultimately show ?thesis using g(1) kept False n H' by (auto simp: block_given_def)
  qed
next
  case False
  have num: "physmem_map_num s = 1" using slab_invD(1) [OF inv] by (auto simp: pages_held_def dest!: buddy_inv_pool simp: pool_ok_def)
  have "(14 :: u64) \<le> of_nat k" using False k by (simp add: word_le_nat_alt unat_of_nat)
  then have "get_pages s (int k) = Inr (s, 0)" using num by (simp add: get_pages_def buddy_get_invalid)
  moreover have "heap_inv s (heap_blocks A F)" using inv ne unfolding heap_inv_def by blast
  ultimately show ?thesis using False by (intro exI [of _ s] exI [of _ 0]) (simp add: block_given_def blocks_kept_def)
qed

lemma kmalloc_ok:
  assumes heap: "heap_inv s H" and n: "unat n \<le> 2 ^ 42"
  shows "\<exists>fuel. kmalloc fuel s n = Some (Inl Bug) \<and> slab_exhausted s H n \<or>
    (\<exists>s' a. kmalloc fuel s n = Some (Inr (s', a)) \<and> block_given s H (unat n) s' a \<and>
      (a = 0 \<longrightarrow> s' = s \<and> pages_exhausted s H n))"
proof -
  obtain A F where inv: "slab_inv s A F" and ne: "\<forall>k. order_ok k \<longrightarrow> F k \<noteq> []" and H: "H = heap_blocks A F"
    using heap by (auto simp: heap_inv_def)
  have small: "push_bit (nat SLAB_MAX_ORDER) 1 = (2048 :: u64)" by simp
  show ?thesis
  proof (cases "unat n \<le> 2048")
    case True
    obtain fuel where "\<forall>k. order_ok k \<longrightarrow> length (F k) < fuel" using finite_lists by blast
    then have "\<forall>k. order_ok k \<longrightarrow> F k \<noteq> [] \<and> length (F k) < fuel" using ne by blast
    from alloc_in_slab_ok [OF inv True this] obtain k where k: "order_ok k" "unat n \<le> 2 ^ k" "k = 5 \<or> 2 ^ (k - 1) < unat n"
      "slabs_full (F k) \<and> (\<exists>s1. get_pages s 9 = Inr (s1, 0)) \<and> alloc_in_slab fuel s n = Some (Inl Bug) \<or>
       (\<exists>s' x. alloc_in_slab fuel s n = Some (Inr (s', x)) \<and> object_taken s A F k s' x)" by blast
    have eq: "kmalloc fuel s n = alloc_in_slab fuel s n"
      unfolding kmalloc_def small using True by (simp add: word_le_nat_alt)
    show ?thesis using k(4)
    proof (elim disjE conjE exE)
      fix s1 assume full: "slabs_full (F k)" "get_pages s 9 = Inr (s1, 0)" "alloc_in_slab fuel s n = Some (Inl Bug)"
      have "slab_exhausted s H n"
        unfolding slab_exhausted_def using True inv H k(1-3) full(1) no_slab_chunk [OF inv full(2)] by blast
      then show ?thesis using full(3) eq by auto
    next
      fix s' x assume t: "alloc_in_slab fuel s n = Some (Inr (s', x))" "object_taken s A F k s' x"
      have "x \<noteq> 0" by (rule taken_not_null [OF t(2)])
      then show ?thesis using t(1) eq object_given [OF inv ne k(1,2) t(2)] unfolding H by auto
    qed
  next
    case False
    have "\<exists>k. (if n \<le> 0x1000 then Inr 0 else size_to_page_order n) = Inr (of_nat k) \<and> k \<le> 31 \<and>
      (\<forall>j. unat n \<le> 2 ^ j * 4096 \<longleftrightarrow> k \<le> j)"
    proof (cases "unat n \<le> 4096")
      case True
      have "unat n \<le> 2 ^ j * 4096" for j using one_le_power [of "2 :: nat" j] True by linarith
      then show ?thesis using True by (intro exI [of _ 0]) (simp add: word_le_nat_alt)
    next
      case big: False
      then obtain k where "size_to_page_order n = Inr (of_nat k)" "k \<le> 31" "\<forall>j. unat n \<le> 2 ^ j * 4096 \<longleftrightarrow> k \<le> j"
        using size_to_page_order_ok [OF _ n] by auto
      then show ?thesis using big by (auto simp: word_le_nat_alt)
    qed
    then obtain k where k: "(if n \<le> 0x1000 then Inr 0 else size_to_page_order n) = Inr (of_nat k)" "k \<le> 31"
      "\<forall>j. unat n \<le> 2 ^ j * 4096 \<longleftrightarrow> k \<le> j" by blast
    then have fits: "unat n \<le> 2 ^ k * 4096" by simp
    have "sint (ucast (of_nat k :: u64) :: u32) = int k" by (rule sint_ucast_nat) (use k(2) in simp)
    moreover obtain s' a where "get_pages s (int k) = Inr (s', a)" "block_given s H (unat n) s' a"
      "a = 0 \<longrightarrow> s' = s \<and> (14 \<le> k \<or> \<not> run_available s A k)"
      using pages_given [OF inv ne fits k(2)] unfolding H by blast
    moreover from calculation have "kmalloc 0 s n = Some (Inr (s', a))"
      unfolding kmalloc_def small k(1) using False by (simp add: word_le_nat_alt)
    moreover have "pages_exhausted s H n" if "14 \<le> k \<or> \<not> run_available s A k"
      unfolding pages_exhausted_def using False inv H k(3) that by (intro conjI exI [of _ A] exI [of _ F] exI [of _ k]) simp_all
    ultimately show ?thesis by blast
  qed
qed

end
