(* ===== verification/Mm_Init.thy ===== *)
theory Mm_Init
  imports Kmalloc_Props
begin

text \<open>
  \<open>mm_init\<close> on the memory map of the raspi3: the array of page metadata and the pages behind it
  fit into the usable physical memory, and the allocators start with no block in use.
\<close>

subsection \<open>The layout\<close>

lemma round_up_fits:
  fixes r e n :: nat
  assumes "4096 dvd r" "4096 dvd e" "r + n * 4136 \<le> e"
  shows "(r + n * 40 + 4095) div 4096 * 4096 + n * 4096 \<le> e"
proof -
  obtain r' e' where re: "r = 4096 * r'" "e = 4096 * e'" using assms(1,2) by (auto simp: dvd_def)
  have "(r + n * 40 + 4095) div 4096 \<le> e' - n"
    using assms(3) unfolding re by linarith
  moreover have "n \<le> e'" using assms(3) unfolding re by linarith
  ultimately show ?thesis unfolding re by linarith
qed

definition mm_pages :: "u64 \<Rightarrow> nat" where
  "mm_pages img_end = (0x3d000000 - unat (ROUND_UP img_end 0x1000)) div 4136"

definition mm_start :: "u64 \<Rightarrow> u64" where
  "mm_start img_end = KBASE + of_nat ((unat (ROUND_UP img_end 0x1000) + mm_pages img_end * 40 + 4095) div 4096 * 4096)"

lemma mm_layout:
  assumes img: "unat img_end \<le> 0x3b000000"
  defines "r \<equiv> unat (ROUND_UP img_end 0x1000)"
  shows "4096 dvd r" "unat img_end \<le> r" "unat (KBASE + ROUND_UP img_end 0x1000) = unat KBASE + r"
    "unat (mm_start img_end) = unat KBASE + (r + mm_pages img_end * 40 + 4095) div 4096 * 4096"
    "unat KBASE + r + mm_pages img_end * 40 \<le> unat (mm_start img_end)"
    "unat (mm_start img_end) + mm_pages img_end * 4096 \<le> unat KBASE + 0x3d000000"
    "8 * 512 \<le> mm_pages img_end" "mm_pages img_end < 2 ^ 31"
    "mm_init_buddy img_end s = init_buddy (s\<lparr>physmem_map_num := 1, physmem_map := (ROUND_UP img_end 0x1000, 0x3d000000)\<rparr>)
       (KBASE + ROUND_UP img_end 0x1000) (mm_start img_end) (of_nat (mm_pages img_end))"
proof -
  let ?n = "mm_pages img_end"
  have kb: "unat KBASE = 0xffffff0000000000" by (simp add: KBASE_def)
  have ru: "r = (unat img_end + 4095) div 4096 * 4096" unfolding r_def using img by (intro ROUND_UP_eq) simp
  show r4: "4096 dvd r" unfolding ru by simp
  show "unat img_end \<le> r" unfolding ru by linarith
  have "(unat img_end + 4095) div 4096 \<le> (0x3b000000 + 4095) div 4096" using img by (intro div_le_mono) simp
  then have hi: "r \<le> 0x3b000000" unfolding ru by simp
  have n: "?n = (0x3d000000 - r) div 4136" by (simp add: mm_pages_def r_def)
  show "8 * 512 \<le> ?n" "?n < 2 ^ 31" unfolding n using hi by simp_all
  have "4096 dvd (0x3d000000 :: nat)" by simp
  moreover have fit: "r + ?n * 4136 \<le> 0x3d000000" unfolding n using hi by linarith
  ultimately have up: "(r + ?n * 40 + 4095) div 4096 * 4096 + ?n * 4096 \<le> 0x3d000000"
    by (rule round_up_fits [OF r4])
  have rw: "ROUND_UP img_end 0x1000 = of_nat r" by (simp add: r_def)
  show base: "unat (KBASE + ROUND_UP img_end 0x1000) = unat KBASE + r"
    unfolding rw using hi by (simp add: unat_word_ariths unat_of_nat take_bit_eq_mod kb)
  define p where "p = (r + ?n * 40 + 4095) div 4096 * 4096"
  have st: "mm_start img_end = KBASE + of_nat p" by (simp add: mm_start_def p_def r_def)
  have p: "p + ?n * 4096 \<le> 0x3d000000" using up unfolding p_def .
  show start: "unat (mm_start img_end) = unat KBASE + (r + ?n * 40 + 4095) div 4096 * 4096"
    unfolding p_def [symmetric] st using p by (simp add: unat_word_ariths unat_of_nat take_bit_eq_mod kb)
  show "unat KBASE + r + ?n * 40 \<le> unat (mm_start img_end)" unfolding start by linarith
  show "unat (mm_start img_end) + ?n * 4096 \<le> unat KBASE + 0x3d000000" unfolding start using up by linarith
  have np: "(phys_to_virt 0x3d000000 - phys_to_virt (ROUND_UP img_end 0x1000)) div (0x1000 + 40) = of_nat ?n"
  proof -
    have "(0x3d000000 - ROUND_UP img_end 0x1000) div 0x1028 = of_nat ?n"
      using hi by (simp add: word_unat_eq_iff unat_div unat_sub word_le_nat_alt n r_def [symmetric] unat_of_nat take_bit_eq_mod)
    then show ?thesis by (simp add: phys_to_virt_def)
  qed
  have e: "KBASE + ROUND_UP img_end 0x1000 + of_nat ?n * 40 = KBASE + of_nat (r + ?n * 40)"
    unfolding rw by simp
  have ek: "unat (KBASE + of_nat (r + ?n * 40)) = unat KBASE + r + ?n * 40"
    using fit by (simp add: unat_word_ariths unat_of_nat take_bit_eq_mod kb)
  have "unat (ROUND_UP (KBASE + of_nat (r + ?n * 40)) 0x1000) = (unat KBASE + r + ?n * 40 + 4095) div 4096 * 4096"
    unfolding ek [symmetric] by (rule ROUND_UP_eq) (use ek fit kb in simp)
  also have "\<dots> = unat (mm_start img_end)"
  proof -
    have "(unat KBASE + r + ?n * 40 + 4095) div 4096 = unat KBASE div 4096 + (r + ?n * 40 + 4095) div 4096"
      unfolding kb by simp
    then show ?thesis unfolding start kb by simp
  qed
  finally have sv: "ROUND_UP (KBASE + ROUND_UP img_end 0x1000 + of_nat ?n * 40) 0x1000 = mm_start img_end"
    unfolding e by (simp add: word_unat_eq_iff)
  have k: "phys_to_virt (ROUND_UP img_end 0x1000) = KBASE + ROUND_UP img_end 0x1000" by (simp add: phys_to_virt_def)
  show "mm_init_buddy img_end s = init_buddy (s\<lparr>physmem_map_num := 1, physmem_map := (ROUND_UP img_end 0x1000, 0x3d000000)\<rparr>)
       (KBASE + ROUND_UP img_end 0x1000) (mm_start img_end) (of_nat ?n)"
    using np sv by (simp add: mm_init_buddy_def parse_mem_map_def Let_def k)
qed

subsection \<open>The state after initialisation\<close>

text \<open>
  What \<open>mm_init\<close> needs: an image that leaves 32M, zero-initialised globals, and the physical
  memory from the end of the image to the memory of the GPU mapped in the kernel's half.
\<close>

definition mm_ready :: "u64 \<Rightarrow> 'z kernel_state_scheme \<Rightarrow> bool" where
  "mm_ready img_end s \<longleftrightarrow> unat img_end \<le> 0x3b000000 \<and>
     dom (links s) - range PageNode = FreeListHead ` {..<14} \<and> (\<forall>k. slabs s k = 0) \<and>
     (\<forall>x. KBASE + ROUND_UP img_end 0x1000 \<le> x \<longrightarrow> x < KBASE + 0x3d000000 \<longrightarrow> x \<in> dom (mem s))"

lemma same_more:
  fixes s s' :: "'z kernel_state_scheme"
  assumes "buddy_state.more s' = buddy_state.more s"
  shows "mem s' = mem s" "slabs s' = slabs s" "physmem_map s' = physmem_map s"
proof -
  obtain start sz n addr meta nf l num m0 sl pm z where
    s: "s = \<lparr>pool_start_addr = start, pool_mem_size = sz, pool_phys_page_num = n, page_metadata_addr = addr,
      page_metadata = meta, nr_free = nf, links = l, physmem_map_num = num, mem = m0, slabs = sl,
      physmem_map = pm, \<dots> = z\<rparr>" by (cases s)
  obtain start' sz' n' addr' meta' nf' l' num' m0' sl' pm' z' where
    s': "s' = \<lparr>pool_start_addr = start', pool_mem_size = sz', pool_phys_page_num = n', page_metadata_addr = addr',
      page_metadata = meta', nr_free = nf', links = l', physmem_map_num = num', mem = m0', slabs = sl',
      physmem_map = pm', \<dots> = z'\<rparr>" by (cases s')
  show "mem s' = mem s" "slabs s' = slabs s" "physmem_map s' = physmem_map s"
    using assms unfolding s s' by simp_all
qed

lemma no_slabs: "slab_inv s {} (\<lambda>_. []) \<longleftrightarrow> pages_held s {} \<and> (\<forall>k. order_ok k \<longrightarrow> slabs s k = 0) \<and>
  (\<forall>i < pool_pages s. \<forall>pg. page_metadata s i = Some pg \<longrightarrow> page_slab pg = 0)"
proof -
  have "concat (map (\<lambda>k. []) ks) = ([] :: u64 list)" for ks :: "nat list" by (induction ks) auto
  then have "all_slabs (\<lambda>_. []) = []" by (simp add: all_slabs_def)
  then show ?thesis by (simp add: slab_inv_def class_ok_def pages_owned_def owner_ok_def)
qed

text \<open>An idle heap: nothing is held, and no page belongs to a slab.\<close>

definition idle_heap :: "'z kernel_state_scheme \<Rightarrow> bool" where
  "idle_heap s \<longleftrightarrow> pages_held s {} \<and> (\<forall>k. slabs s k = 0) \<and> (\<forall>i pg. page_metadata s i = Some pg \<longrightarrow> page_slab pg = 0)"

lemma mm_init_buddy_ok:
  assumes "mm_ready img_end s"
  shows "\<exists>s'. mm_init_buddy img_end s = Inr s' \<and> idle_heap s' \<and> mem s' = mem s \<and> pool_pages s' = mm_pages img_end \<and>
    pool_phys_page_num s' = of_nat (mm_pages img_end) \<and>
    pool_place s' = (mm_pages img_end, mm_start img_end, KBASE + ROUND_UP img_end 0x1000)"
proof -
  have img: "unat img_end \<le> 0x3b000000" using assms by (simp add: mm_ready_def)
  note l = mm_layout [OF img]
  let ?s0 = "s\<lparr>physmem_map_num := 1, physmem_map := (ROUND_UP img_end 0x1000, 0x3d000000)\<rparr>"
  have un: "unat (of_nat (mm_pages img_end) :: u64) = mm_pages img_end" using l(8) by (intro unat_of_nat_less) simp
  have kb: "unat KBASE = 0xffffff0000000000" by (simp add: KBASE_def)
  have "4096 dvd unat (mm_start img_end)"
    unfolding l(4) kb by (intro dvd_add) simp_all
  then have addr: "init_addr_ok (mm_start img_end) (of_nat (mm_pages img_end))"
    using l(6,8) kb unfolding init_addr_ok_def un by simp
  have nodes: "dom (links ?s0) - range PageNode = FreeListHead ` {..<14}" "physmem_map_num ?s0 = 1"
    using assms by (simp_all add: mm_ready_def)
  obtain s1 fl where s1: "init_buddy ?s0 (KBASE + ROUND_UP img_end 0x1000) (mm_start img_end) (of_nat (mm_pages img_end)) = Inr s1"
    "buddy_inv s1 fl {}" "pool_start_addr s1 = mm_start img_end" "pool_pages s1 = mm_pages img_end"
    "pool_phys_page_num s1 = of_nat (mm_pages img_end)"
    "page_metadata_addr s1 = KBASE + ROUND_UP img_end 0x1000" "buddy_state.more s1 = buddy_state.more ?s0"
    "\<forall>i pg. page_metadata s1 i = Some pg \<longrightarrow> page_slab pg = 0"
    using init_buddy_ok [OF addr nodes, of "KBASE + ROUND_UP img_end 0x1000"] unfolding un by blast
  have m: "mem s1 = mem s" "slabs s1 = slabs s" using same_more [OF s1(7)] by simp_all
  have "pool_mapped s1"
    unfolding pool_mapped_def
  proof (intro allI impI)
    fix x assume x: "pool_start_addr s1 \<le> x" "x < pool_start_addr s1 + pool_mem_size s1"
    note pa = pool_ok_addr [OF buddy_inv_pool [OF s1(2)]]
    have "unat (pool_start_addr s1 + pool_mem_size s1) = unat (mm_start img_end) + mm_pages img_end * 4096"
      unfolding pa(3) using pa(1) s1(3,4) by (simp add: algebra_simps)
    then have "unat x < unat KBASE + 0x3d000000" using x(2) l(6) by (simp add: word_less_nat_alt)
    then have "x < KBASE + 0x3d000000" by (simp add: word_less_nat_alt KBASE_def)
    moreover have "KBASE + ROUND_UP img_end 0x1000 \<le> x"
      using x(1) l(3,5) s1(3) by (simp add: word_le_nat_alt)
    ultimately show "x \<in> dom (mem s1)" using assms unfolding mm_ready_def m(1) by blast
  qed
  moreover have "KBASE \<le> pool_start_addr s1" using l(5) s1(3) by (simp add: word_le_nat_alt)
  ultimately have "pages_held s1 {}" using s1(2) unfolding pages_held_def by blast
  then have "idle_heap s1" using s1(8) m(2) assms by (simp add: idle_heap_def mm_ready_def)
  moreover have "mm_init_buddy img_end s = Inr s1" unfolding l(9) s1(1) ..
  moreover have "pool_place s1 = (mm_pages img_end, mm_start img_end, KBASE + ROUND_UP img_end 0x1000)"
    using s1(3,4,6) by (simp add: pool_place_def)
  ultimately show ?thesis using s1(4,5) m(1) by blast
qed

lemma init_slab_idle:
  assumes idle: "idle_heap s" and room: "8 * 512 \<le> pool_pages s"
  obtains s' A F where "init_slab s = Inr s'" "slab_inv s' A F" "\<forall>k. order_ok k \<longrightarrow> F k \<noteq> []" "live_objects F = {}"
    "snd ` A \<subseteq> {9}" "card A = 7" "client_chunks A F = {}" "dom (mem s') = dom (mem s)" "pool_place s' = pool_place s"
proof -
  have "slab_inv s {} (\<lambda>_. [])" unfolding no_slabs using idle by (simp add: idle_heap_def)
  moreover have "\<forall>k. slabs s k = 0" using idle by (simp add: idle_heap_def)
  ultimately show thesis using init_slab_ok [OF _ _ room] that by metis
qed

lemma mm_init_ok:
  assumes "mm_ready img_end s"
  shows "\<exists>s'. mm_init img_end s = Inr s' \<and> heap_inv s' {} \<and> dom (mem s') = dom (mem s) \<and>
    pool_place s' = (mm_pages img_end, mm_start img_end, KBASE + ROUND_UP img_end 0x1000)"
proof -
  have img: "unat img_end \<le> 0x3b000000" using assms by (simp add: mm_ready_def)
  obtain s1 where s1: "mm_init_buddy img_end s = Inr s1" "idle_heap s1" "mem s1 = mem s" "pool_pages s1 = mm_pages img_end"
    "pool_place s1 = (mm_pages img_end, mm_start img_end, KBASE + ROUND_UP img_end 0x1000)"
    using mm_init_buddy_ok [OF assms] by blast
  have room: "8 * 512 \<le> pool_pages s1" using mm_layout(7) [OF img] s1(4) by simp
  obtain s' A F where s': "init_slab s1 = Inr s'" "slab_inv s' A F" "\<forall>k. order_ok k \<longrightarrow> F k \<noteq> []"
    "live_objects F = {}" "client_chunks A F = {}" "dom (mem s') = dom (mem s1)" "pool_place s' = pool_place s1"
    by (rule init_slab_idle [OF s1(2) room])
  have "heap_blocks A F = {}" using s'(4,5) by (simp add: heap_blocks_def)
  then have "heap_inv s' {}" using s'(2,3) unfolding heap_inv_def by blast
  moreover have "mm_init img_end s = Inr s'" using s1(1) s'(1) by (simp add: mm_init_def)
  ultimately show ?thesis using s'(6,7) s1(3,5) by simp
qed

text \<open>A kernel state before \<open>mm_init\<close>, with the usable memory mapped.\<close>

definition kernel_cold :: kernel_state where
  "kernel_cold = buddy_state.extend global_mem
     (kernel_state.fields (\<lambda>x. if 0xffffff0000080000 \<le> x \<and> x < 0xffffff003d000000 then Some 0 else None)
       (\<lambda>_. 0) (0, 0))"

lemma kernel_cold_ready: "mm_ready 0x100000 kernel_cold"
proof -
  have "mem kernel_cold = (\<lambda>x. if 0xffffff0000080000 \<le> x \<and> x < 0xffffff003d000000 then Some 0 else None)"
    "slabs kernel_cold = (\<lambda>_. 0)" "links kernel_cold = links global_mem"
    by (simp_all add: kernel_cold_def buddy_state.extend_def kernel_state.fields_def)
  moreover have "ROUND_UP 0x100000 0x1000 = 0x100000" by (simp add: ROUND_UP_def)
  ultimately show ?thesis
    using global_mem_nodes(1) by (auto simp: mm_ready_def KBASE_def word_le_nat_alt)
qed

end
