(* ===== verification/Heap_Props.thy ===== *)
theory Heap_Props
  imports Mm_Init
begin

text \<open>
  The model of \<open>kmalloc\<close> and \<open>kfree\<close> provides the heap contract; writes of clients to their
  blocks; zeroed blocks; more fuel does not change a result; blocks that are kept are kept byte
  by byte.
\<close>

subsection \<open>The contract\<close>

interpretation heap: heap_allocator kmalloc kfree heap_inv blocks_kept slab_exhausted pages_exhausted
proof (unfold_locales, goal_cases)
  case (1 H s)
  show ?case by (simp add: blocks_kept_def)
next
  case (2 H s t u)
  then show ?case by (simp add: blocks_kept_def)
next
  case (3 H H' s t)
  then show ?case unfolding blocks_kept_def by blast
next
  case (4 s H b c)
  then show ?case using blocks_apart unfolding heap_inv_def by blast
next
  case (5 s H n)
  then obtain fuel where "kmalloc fuel s n = Some (Inl Bug) \<and> slab_exhausted s H n \<or>
    (\<exists>s' a. kmalloc fuel s n = Some (Inr (s', a)) \<and> block_given s H (unat n) s' a \<and> (a = 0 \<longrightarrow> s' = s \<and> pages_exhausted s H n))"
    using kmalloc_ok by blast
  then show ?case unfolding block_given_def by (metis (no_types, lifting))
next
  case (6 s H a m)
  then show ?case using kfree_ok by metis
qed

subsection \<open>Writes to a block\<close>

lemma slab_inv_outside:
  assumes inv: "slab_inv s A F" and dom: "dom m' = dom (mem s)"
    and same: "\<And>p c. p \<in> set (all_slabs F) \<Longrightarrow> c \<in> chunk (p, 9) \<Longrightarrow> 8 dvd unat c \<Longrightarrow> load64 m' c = load64 (mem s) c"
  shows "slab_inv (s\<lparr>mem := m'\<rparr>) A F"
proof -
  note held = slab_invD(1) [OF inv]
  have "class_ok m' (slabs s k) k (F k)" if k: "order_ok k" for k
  proof -
    have c: "class_ok (mem s) (slabs s k) k (F k)" by (rule slab_invD(2) [OF inv k])
    have slab: "p \<in> set (all_slabs F)" "(p, 9) \<in> A" "slab_ok (mem s) k p fs" if "(p, fs) \<in> set (F k)" for p fs
      using that k slab_inv_slab [OF inv k that] all_slabs_mem by blast+
    have "load64 m' (p + 8) = load64 (mem s) (p + 8)" if "p \<in> set (map fst (F k))" for p
    proof -
      obtain fs where fs: "(p, fs) \<in> set (F k)" using \<open>p \<in> set (map fst (F k))\<close> by auto
      note h = header_cell [OF held slab(2) [OF fs]]
      show ?thesis using same [OF slab(1) [OF fs] h(4)] h(2) by (simp add: cell_ok_def)
    qed
    then have "next_path m' 8 (slabs s k) (map fst (F k))"
      using c next_path_cong [of "map fst (F k)" m' 8 "mem s"] by (simp add: class_ok_def)
    moreover have "slab_ok m' k p fs" if fs: "(p, fs) \<in> set (F k)" for p fs
    proof -
      note h = header_cell [OF held slab(2) [OF fs]]
      have "load64 m' p = load64 (mem s) p" using same [OF slab(1) [OF fs] h(3)] h(1) by (simp add: cell_ok_def)
      moreover have "load64 m' x = load64 (mem s) x" if "x \<in> set fs" for x
        using slots_of_cell [OF held slab(2) [OF fs] k, of x] same [OF slab(1) [OF fs]] slab(3) [OF fs] that
        by (auto simp: slab_ok_def)
      ultimately show ?thesis using slab_ok_cong slab(3) [OF fs] by blast
    qed
    ultimately show ?thesis unfolding class_ok_def by blast
  qed
  then show ?thesis using inv pages_held_mem [OF dom] unfolding slab_inv_def by simp
qed

text \<open>A block is made of whole cells of eight bytes.\<close>

lemma block_cells:
  assumes inv: "slab_inv s A F" and b: "(a, n) \<in> heap_blocks A F" and c: "c \<in> block_bytes (a, n)" "8 dvd unat c" and i: "i < 8"
  shows "c + of_nat i \<in> block_bytes (a, n)"
proof -
  have "8 dvd n" using b
  proof (cases rule: heap_blocksE)
    case (object k)
    then show ?thesis using order_okD(1) [OF live_order [OF object(2)]] le_imp_power_dvd [of 3 k "2 :: nat"] by simp
  next
    case (pages k)
    have "(8 :: nat) dvd 2 ^ k * 4096" by (rule dvd_mult) simp
    then show ?thesis unfolding pages(1) .
  qed
  then obtain n' a' c' where e: "n = 8 * n'" "unat a = 8 * a'" "unat c = 8 * c'"
    using block_place(2) [OF inv b] c(2) unfolding dvd_def by blast
  have "8 * a' \<le> 8 * c'" "8 * c' < 8 * a' + 8 * n'" using c(1) unfolding block_bytes.simps mem_Collect_eq word_le_nat_alt e by auto
  then have "a' \<le> c'" "c' < a' + n'" by linarith+
  then have "unat a \<le> unat c + i" "unat c + i < unat a + n" using i unfolding e by linarith+
  then show ?thesis unfolding block_bytes.simps mem_Collect_eq word_le_nat_alt aligned_bytes [OF c(2) i] by blast
qed

lemma chunk_cell:
  assumes held: "pages_held s A" and p: "(p, k) \<in> A" and c: "c \<in> chunk (p, k)" "8 dvd unat c" and i: "i < 8"
  shows "c + of_nat i \<in> chunk (p, k)"
proof -
  have "(8 :: nat) dvd 2 ^ k * 4096" by (rule dvd_mult) simp
  moreover from this have "8 dvd unat p" using pages_held_chunk(2) [OF held p] by (rule dvd_trans)
  ultimately obtain n p' c' where e: "2 ^ k * 4096 = 8 * (n :: nat)" "unat p = 8 * p'" "unat c = 8 * c'"
    using c(2) unfolding dvd_def by blast
  have "8 * p' \<le> 8 * c'" "8 * c' < 8 * p' + 8 * n" using c(1) unfolding chunk.simps mem_Collect_eq word_le_nat_alt e by auto
  then have "p' \<le> c'" "c' < p' + n" by linarith+
  then have "unat p \<le> unat c + i" "unat c + i < unat p + 2 ^ k * 4096" using i unfolding e by linarith+
  then show ?thesis unfolding chunk.simps mem_Collect_eq word_le_nat_alt aligned_bytes [OF c(2) i] by blast
qed

lemma block_write:
  assumes heap: "heap_inv s H" and b: "(a, n) \<in> H" and dom: "dom m' = dom (mem s)"
    and same: "\<And>x. x \<notin> block_bytes (a, n) \<Longrightarrow> m' x = mem s x"
  shows "heap_inv (s\<lparr>mem := m'\<rparr>) H \<and> blocks_kept (H - {(a, n)}) s (s\<lparr>mem := m'\<rparr>)"
proof -
  obtain A F where inv: "slab_inv s A F" and ne: "\<forall>k. order_ok k \<longrightarrow> F k \<noteq> []" and H: "H = heap_blocks A F"
    using heap by (auto simp: heap_inv_def)
  have "slab_inv (s\<lparr>mem := m'\<rparr>) A F" using b [unfolded H]
  proof (cases rule: heap_blocksE)
    case (object k)
    show ?thesis
      by (rule client_write_ok [OF inv object(2) dom]) (use same [unfolded object(1) object_block] in blast)
  next
    case (pages k)
    show ?thesis
    proof (rule slab_inv_outside [OF inv dom])
      fix p c assume p: "p \<in> set (all_slabs F)" "c \<in> chunk (p, 9)" "8 dvd unat c"
      have "c + of_nat i \<in> chunk (p, 9)" if "i < 8" for i
        by (rule chunk_cell [OF slab_invD(1) [OF inv] slab_invD(4) [OF inv p(1)] p(2,3) that])
      moreover have "(p, 9) \<noteq> (a, k)" using p(1) pages(3) by auto
      then have "chunk (p, 9) \<inter> chunk (a, k) = {}"
        using pages_held_apart [OF slab_invD(1) [OF inv] slab_invD(4) [OF inv p(1)] pages(2)] by blast
      ultimately show "load64 m' c = load64 (mem s) c"
        using same [unfolded pages(1) chunk_block] by (intro load64_cong) blast
    qed
  qed
  moreover have "blocks_kept (H - {(a, n)}) s (s\<lparr>mem := m'\<rparr>)"
    unfolding blocks_kept_def
  proof (intro ballI impI)
    fix b c assume c: "b \<in> H - {(a, n)}" "c \<in> block_bytes b" "8 dvd unat c"
    obtain x k where x: "b = (x, k)" by (cases b)
    have bH: "b \<in> heap_blocks A F" "b \<noteq> (a, n)" using c(1) unfolding H by blast+
    note apart = blocks_apart [OF inv bH(1) b [unfolded H] bH(2)]
    have "load64 m' c = load64 (mem s) c"
    proof (rule load64_cong)
      fix i :: nat assume "i < 8"
      then have "c + of_nat i \<in> block_bytes b"
        using block_cells [OF inv bH(1) [unfolded x] c(2) [unfolded x] c(3)] unfolding x by blast
      then show "m' (c + of_nat i) = mem s (c + of_nat i)" using apart by (intro same) blast
    qed
    then show "load64 (mem (s\<lparr>mem := m'\<rparr>)) c = load64 (mem s) c" by simp
  qed
  ultimately show ?thesis using ne H unfolding heap_inv_def by blast
qed

subsection \<open>Zeroed blocks\<close>

definition zeroed :: "'z kernel_state_scheme \<Rightarrow> u64 \<Rightarrow> nat \<Rightarrow> bool" where
  "zeroed s a n \<longleftrightarrow> (\<forall>x. a \<le> x \<longrightarrow> unat x < unat a + n \<longrightarrow> mem s x = Some 0)"

lemma fill_block:
  assumes heap: "heap_inv s H" and b: "(a, m) \<in> H" and n: "unat sz \<le> m"
  shows "\<exists>s'. fill a 0 sz s = Inr s' \<and> heap_inv s' H \<and> blocks_kept (H - {(a, m)}) s s' \<and>
    dom (mem s') = dom (mem s) \<and> zeroed s' a (unat sz) \<and> s' = s\<lparr>mem := mem s'\<rparr> \<and>
    (\<forall>x. x \<notin> block_bytes (a, unat sz) \<longrightarrow> mem s' x = mem s x)"
proof -
  obtain A F where inv: "slab_inv s A F" and H: "H = heap_blocks A F"
    using heap by (auto simp: heap_inv_def)
  note place = block_place [OF inv b [unfolded H]]
  have d: "unat (x - a) = unat x - unat a" if "unat a \<le> unat x" for x using that by (simp add: unat_sub word_le_nat_alt)
  have "mapped (mem s) a (unat sz)"
    unfolding mapped_iff
  proof (intro allI impI)
    fix i assume "i < unat sz"
    then have "unat (a + of_nat i) = unat a + i" "i < m"
      using place(4) n by (simp_all add: unat_word_ariths unat_of_nat take_bit_eq_mod)
    then have "a + of_nat i \<in> block_bytes (a, m)" by (simp add: word_le_nat_alt)
    then show "mem s (a + of_nat i) \<noteq> None" using place(3) by blast
  qed
  from memset_ok [OF this, of 0] obtain m' where m': "memset a 0 sz (mem s) = Inr m'" "dom m' = dom (mem s)"
    "\<forall>x. m' x = (if unat (x - a) < unat sz then Some 0 else mem s x)" by blast
  have in_block: "x \<in> block_bytes (a, m)" "x \<in> block_bytes (a, unat sz)" if "unat (x - a) < unat sz" for x
  proof -
    have "unat x = (unat a + unat (x - a)) mod 2 ^ 64" using unat_word_ariths(1) [of a "x - a"] by simp
    then have "unat x = unat a + unat (x - a)" using that place(4) n by simp
    then show "x \<in> block_bytes (a, m)" "x \<in> block_bytes (a, unat sz)" using that n by (simp_all add: word_le_nat_alt)
  qed
  have same: "m' x = mem s x" if "x \<notin> block_bytes (a, m)" for x
    using m'(3) in_block(1) [of x] that by auto
  have frame: "m' x = mem s x" if "x \<notin> block_bytes (a, unat sz)" for x
    using m'(3) in_block(2) [of x] that by auto
  have "zeroed (s\<lparr>mem := m'\<rparr>) a (unat sz)"
    unfolding zeroed_def using m'(3) d by (auto simp: word_le_nat_alt)
  then show ?thesis using m'(1,2) block_write [OF heap b m'(2) same] frame by (simp add: fill_def del: block_bytes.simps)
qed

text \<open>
  \<open>kzalloc\<close> next to \<open>kmalloc\<close> in the same state: it stops and returns NULL where \<open>kmalloc\<close> does, and
  otherwise returns the same block with its first \<open>n\<close> bytes zeroed.
\<close>

definition zeroed_block :: "'z kernel_state_scheme \<Rightarrow> u64 \<Rightarrow> nat \<Rightarrow> 'z kernel_state_scheme \<Rightarrow> bool" where
  "zeroed_block s1 a n s' \<longleftrightarrow> s' = s1\<lparr>mem := mem s'\<rparr> \<and>
     (\<forall>x. mem s' x = (if x \<in> block_bytes (a, n) then Some 0 else mem s1 x))"

lemma kzalloc_ok:
  assumes heap: "heap_inv s H" and n: "unat n \<le> 2 ^ 42"
  shows "\<exists>fuel.
    kmalloc fuel s n = Some (Inl Bug) \<and> kzalloc fuel s n = Some (Inl Bug) \<and> slab_exhausted s H n \<or>
    kmalloc fuel s n = Some (Inr (s, 0)) \<and> kzalloc fuel s n = Some (Inr (s, 0)) \<and> pages_exhausted s H n \<and>
      block_given s H (unat n) s 0 \<or>
    (\<exists>s1 s' a. kmalloc fuel s n = Some (Inr (s1, a)) \<and> kzalloc fuel s n = Some (Inr (s', a)) \<and> a \<noteq> 0 \<and>
      zeroed_block s1 a (unat n) s' \<and> block_given s H (unat n) s' a)"
proof -
  obtain fuel where "kmalloc fuel s n = Some (Inl Bug) \<and> slab_exhausted s H n \<or>
    (\<exists>s' a. kmalloc fuel s n = Some (Inr (s', a)) \<and> block_given s H (unat n) s' a \<and> (a = 0 \<longrightarrow> s' = s \<and> pages_exhausted s H n))"
    using kmalloc_ok [OF assms] by blast
  then consider "kmalloc fuel s n = Some (Inl Bug)" "slab_exhausted s H n"
    | "kmalloc fuel s n = Some (Inr (s, 0))" "block_given s H (unat n) s 0" "pages_exhausted s H n"
    | s1 a where "kmalloc fuel s n = Some (Inr (s1, a))" "block_given s H (unat n) s1 a" "a \<noteq> 0"
    by metis
  then show ?thesis
  proof cases
    case 1
    then show ?thesis by (intro exI [of _ fuel] disjI1) (simp add: kzalloc_def)
  next
    case 2
    then show ?thesis by (intro exI [of _ fuel] disjI2 disjI1) (simp add: kzalloc_def)
  next
    case (3 s1 a)
    then obtain m where m: "unat n \<le> m" "(a, m) \<notin> H" "heap_inv s1 (insert (a, m) H)" "blocks_kept H s s1" "dom (mem s1) = dom (mem s)"
      by (auto simp: block_given_def)
    obtain s2 where s2: "fill a 0 n s1 = Inr s2" "heap_inv s2 (insert (a, m) H)" "blocks_kept (insert (a, m) H - {(a, m)}) s1 s2"
      "dom (mem s2) = dom (mem s1)" "zeroed s2 a (unat n)" "s2 = s1\<lparr>mem := mem s2\<rparr>"
      "\<forall>x. x \<notin> block_bytes (a, unat n) \<longrightarrow> mem s2 x = mem s1 x"
      using fill_block [OF m(3) insertI1 m(1)] by blast
    have "insert (a, m) H - {(a, m)} = H" using m(2) by simp
    then have "block_given s H (unat n) s2 a"
      using s2(2-4) m 3(3) heap.kept_trans [OF m(4)] unfolding block_given_def by auto
    moreover have "zeroed_block s1 a (unat n) s2"
      using s2(5-7) by (simp add: zeroed_block_def zeroed_def)
    ultimately show ?thesis using 3 s2(1)
      by (intro exI [of _ fuel] disjI2 exI [of _ s1] exI [of _ s2] exI [of _ a]) (simp add: kzalloc_def)
  qed
qed

subsection \<open>More fuel gives the same result\<close>

lemma fbind_mono:
  assumes "fbind x f = Some r" "\<And>q. x = Some q \<Longrightarrow> y = Some q" "\<And>z q. f z = Some q \<Longrightarrow> g z = Some q"
  shows "fbind y g = Some r"
proof (cases x)
  case (Some q)
  then have "y = Some q" by (rule assms(2))
  then show ?thesis using assms(1,3) Some by (cases q) auto
qed (use assms(1) in simp)

lemma search_slabs_mono: "search_slabs fuel s p = Some r \<Longrightarrow> fuel \<le> fuel' \<Longrightarrow> search_slabs fuel' s p = Some r"
proof (induction fuel arbitrary: s p fuel' r)
  case 0
  then have "p = 0" by (simp split: if_splits)
  with 0 show ?case by (cases fuel') simp_all
next
  case (Suc fuel)
  obtain g where g: "fuel' = Suc g" "fuel \<le> g" using Suc.prems(2) by (cases fuel') auto
  show ?case
  proof (cases "p = 0")
    case False
    have step: "search_slabs (Suc f) s p = fbind (Some (pop_slot s p)) (\<lambda>(s, slot).
        if slot \<noteq> 0 then Some (Inr (s, slot)) else fbind (Some (read64 s (p + 8))) (search_slabs f s))" for f
      using False by simp
    show ?thesis using Suc.prems(1) unfolding g(1) step
      by (rule fbind_mono) (auto split: if_splits elim!: fbind_mono intro: Suc.IH [OF _ g(2)])
  qed (use Suc.prems(1) g in simp)
qed

lemma alloc_in_slab_nolock_mono:
  "alloc_in_slab_nolock fuel s p ord = Some r \<Longrightarrow> fuel \<le> fuel' \<Longrightarrow> alloc_in_slab_nolock fuel' s p ord = Some r"
proof (induction fuel arbitrary: s p fuel' r)
  case (Suc fuel)
  obtain g where g: "fuel' = Suc g" "fuel \<le> g" using Suc.prems(2) by (cases fuel') auto
  show ?case using Suc.prems(1) unfolding g(1) alloc_in_slab_nolock.simps
    by (rule fbind_mono)
      (auto split: if_splits elim!: fbind_mono, (erule search_slabs_mono [OF _ g(2)] Suc.IH [OF _ g(2)])+)
qed simp

lemma kmalloc_mono: "kmalloc fuel s n = Some r \<Longrightarrow> fuel \<le> fuel' \<Longrightarrow> kmalloc fuel' s n = Some r"
  unfolding kmalloc_def alloc_in_slab_def alloc_in_slab_unlocked_def Let_def
  by (auto split: if_splits elim!: fbind_mono intro: alloc_in_slab_nolock_mono)

lemma kzalloc_mono: "kzalloc fuel s n = Some r \<Longrightarrow> fuel \<le> fuel' \<Longrightarrow> kzalloc fuel' s n = Some r"
  unfolding kzalloc_def by (elim fbind_mono) (auto intro: kmalloc_mono)

lemma same_result:
  fixes f g :: nat
  assumes "\<And>(f :: nat) g q. c f = Some q \<Longrightarrow> f \<le> g \<Longrightarrow> c g = Some q" "c f = Some q" "c g = Some r"
  shows "q = r"
proof -
  have "c (max f g) = Some q" "c (max f g) = Some r" 
    using assms(1) [OF assms(2), of "max f g"] assms(1) [OF assms(3), of "max f g"] by simp_all
  then show ?thesis by simp
qed

lemma kmalloc_same: "kmalloc f s n = Some q \<Longrightarrow> kmalloc g s n = Some r \<Longrightarrow> q = r"
  by (rule same_result [where c = "\<lambda>f. kmalloc f s n", OF kmalloc_mono])

lemma kzalloc_same: "kzalloc f s n = Some q \<Longrightarrow> kzalloc g s n = Some r \<Longrightarrow> q = r"
  by (rule same_result [where c = "\<lambda>f. kzalloc f s n", OF kzalloc_mono])

lemma kmalloc_result:
  assumes "heap_inv s H" "unat n \<le> 2 ^ 42" "kmalloc fuel s n = Some (Inr (s', a))"
  shows "block_given s H (unat n) s' a"
proof -
  obtain g where "kmalloc g s n = Some (Inl Bug) \<or> (\<exists>t b. kmalloc g s n = Some (Inr (t, b)) \<and> block_given s H (unat n) t b)"
    using kmalloc_ok [OF assms(1,2)] by blast
  then show ?thesis using kmalloc_same [OF assms(3)] by fastforce
qed

lemma kzalloc_result:
  assumes "heap_inv s H" "unat n \<le> 2 ^ 42" "kzalloc fuel s n = Some (Inr (s', a))" "a \<noteq> 0"
  shows "block_given s H (unat n) s' a" "zeroed s' a (unat n)"
proof -
  obtain g where "kzalloc g s n = Some (Inl Bug) \<or> kzalloc g s n = Some (Inr (s, 0)) \<or>
    (\<exists>s1 t b. kzalloc g s n = Some (Inr (t, b)) \<and> zeroed_block s1 b (unat n) t \<and> block_given s H (unat n) t b)"
    using kzalloc_ok [OF assms(1,2)] by blast
  then obtain s1 where "zeroed_block s1 a (unat n) s'" "block_given s H (unat n) s' a"
    using kzalloc_same [OF assms(3)] assms(4) by fastforce
  then show "block_given s H (unat n) s' a" "zeroed s' a (unat n)"
    by (simp_all add: zeroed_block_def zeroed_def)
qed

subsection \<open>Bytes that are kept\<close>

lemma bit_u64_of_bytes:
  "i < length bs \<Longrightarrow> j < 8 \<Longrightarrow> 8 * i + j < 64 \<Longrightarrow> bit (u64_of_bytes bs) (8 * i + j) \<longleftrightarrow> bit (bs ! i) j"
proof (induction bs arbitrary: i)
  case (Cons b bs)
  show ?case
  proof (cases i)
    case 0
    then show ?thesis using Cons.prems by (simp add: bit_simps)
  next
    case (Suc i')
    have "\<not> bit b (8 * i + j)" using bit_imp_le_length [of b "8 * i + j"] Suc by auto
    then show ?thesis using Cons.IH [of i'] Cons.prems Suc by (simp add: bit_simps)
  qed
qed simp

lemma load64_bytes:
  assumes "load64 m' c = load64 m c" "cell_ok m c" "i < 8"
  shows "m' (c + of_nat i) = m (c + of_nat i)"
proof -
  obtain v where v: "load64 m c = Inr v" "load64 m' c = Inr v" using load64_total [OF assms(2)] assms(1) by auto
  then have c': "cell_ok m' c" using load64_iff by blast
  define bs where "bs = (\<lambda>m. map (\<lambda>i. the (m (c + of_nat i)) :: u8) [0..<8])"
  have eq: "u64_of_bytes (bs m) = v" "u64_of_bytes (bs m') = v"
    using v assms(2) c' by (simp_all add: load64_def load_bytes_eq cell_ok_def bs_def)
  have "bs m ! i = bs m' ! i"
  proof (rule bit_word_eqI)
    fix j assume "j < LENGTH(8)"
    then have j: "j < 8" by simp
    have "8 * i + j < 64" "i < length (bs m)" "i < length (bs m')" using j assms(3) by (simp_all add: bs_def)
    then show "bit (bs m ! i) j = bit (bs m' ! i) j" using bit_u64_of_bytes [OF _ j] eq by metis
  qed
  then have "the (m (c + of_nat i)) = the (m' (c + of_nat i))" using assms(3) by (simp add: bs_def)
  moreover have "m (c + of_nat i) \<noteq> None" "m' (c + of_nat i) \<noteq> None"
    using assms(2,3) c' by (simp_all add: cell_ok_def mapped_iff)
  ultimately show ?thesis by auto
qed

lemma heap_inv_blockD:
  assumes "heap_inv s H" "(a, n) \<in> H"
  shows "a \<noteq> 0" "8 dvd unat a" "block_bytes (a, n) \<subseteq> dom (mem s)" "unat a + n < 2 ^ 64" "0 < n"
proof -
  obtain A F where i: "slab_inv s A F" "H = heap_blocks A F" using assms(1) by (auto simp: heap_inv_def)
  show "a \<noteq> 0" "8 dvd unat a" "block_bytes (a, n) \<subseteq> dom (mem s)" "unat a + n < 2 ^ 64"
    using block_place [OF i(1)] assms(2) i(2) by blast+
  show "0 < n" using assms(2) unfolding i(2) by (auto simp: heap_blocks_def)
qed

lemma kept_bytes:
  assumes heap: "heap_inv s H" and b: "(a, n) \<in> H" "(a, n) \<in> K" and kept: "blocks_kept K s s'" and x: "x \<in> block_bytes (a, n)"
  shows "mem s' x = mem s x"
proof -
  obtain A F where inv: "slab_inv s A F" "H = heap_blocks A F" using heap by (auto simp: heap_inv_def)
  define i where "i = unat x mod 8"
  define c :: u64 where "c = of_nat (8 * (unat x div 8))"
  have "8 * (unat x div 8) < 2 ^ 64" by (rule le_less_trans [of _ "unat x"]) (simp, rule order_less_le_trans [OF unsigned_less], simp)
  then have uc: "unat c = 8 * (unat x div 8)" unfolding c_def by (rule unat_of_nat_less)
  then have c8: "8 dvd unat c" by simp
  have i: "i < 8" by (simp add: i_def)
  have xe: "x = c + of_nat i"
    using aligned_bytes [OF c8 i] by (simp add: word_unat_eq_iff uc i_def)
  obtain a' where a': "unat a = 8 * a'" using heap_inv_blockD(2) [OF heap b(1)] by (auto simp: dvd_def)
  have "a' \<le> unat x div 8" using x a' by (auto simp: word_le_nat_alt)
  then have c: "c \<in> block_bytes (a, n)" using x a' uc by (auto simp: word_le_nat_alt)
  have "c + of_nat j \<in> dom (mem s)" if "j < 8" for j
    using block_cells [OF inv(1) b(1) [unfolded inv(2)] c c8 that] heap_inv_blockD(3) [OF heap b(1)] by blast
  then have "cell_ok (mem s) c" using c8 by (auto simp: cell_ok_def mapped_iff domIff)
  moreover have "load64 (mem s') c = load64 (mem s) c" using kept b(2) c c8 unfolding blocks_kept_def by blast
  ultimately show ?thesis using load64_bytes i unfolding xe by blast
qed

end
