(* ===== verification/Heap_History.thy ===== *)
theory Heap_History
  imports Heap_Props
begin

text \<open>
  Histories of requests, releases and writes from the start of the kernel on, the invariant they
  keep, and the properties of the general allocator and of \<open>mm_init\<close>.
\<close>

subsection \<open>Histories\<close>

text \<open>
  What can have happened since the start of the kernel. \<open>R\<close> maps the address of each block that
  was requested and not yet released to the number of bytes requested; \<open>D\<close> holds the bytes that
  clients wrote (or had zeroed) in these blocks. Requests of more than \<open>2 ^ 42\<close> bytes, for which
  \<open>size_to_page_order\<close> shifts an int too far, are excluded.
\<close>

inductive heap_history :: "'z kernel_state_scheme \<Rightarrow> (u64 \<Rightarrow> nat option) \<Rightarrow> (u64 \<Rightarrow> u8 option) \<Rightarrow> bool" where
  hist_boot: "mm_ready img_end s0 \<Longrightarrow> mm_init img_end s0 = Inr s \<Longrightarrow> heap_history s Map.empty Map.empty"
| hist_fail: "heap_history s R D \<Longrightarrow> unat n \<le> 2 ^ 42 \<Longrightarrow> kmalloc fuel s n = Some (Inr (s', 0)) \<Longrightarrow> heap_history s' R D"
| hist_alloc: "heap_history s R D \<Longrightarrow> unat n \<le> 2 ^ 42 \<Longrightarrow> kmalloc fuel s n = Some (Inr (s', a)) \<Longrightarrow> a \<noteq> 0 \<Longrightarrow>
    heap_history s' (R(a \<mapsto> unat n)) D"
| hist_zalloc: "heap_history s R D \<Longrightarrow> unat n \<le> 2 ^ 42 \<Longrightarrow> kzalloc fuel s n = Some (Inr (s', a)) \<Longrightarrow> a \<noteq> 0 \<Longrightarrow>
    heap_history s' (R(a \<mapsto> unat n)) (\<lambda>x. if x \<in> block_bytes (a, unat n) then Some 0 else D x)"
| hist_free: "heap_history s R D \<Longrightarrow> R a = Some n \<Longrightarrow> kfree s a = Inr s' \<Longrightarrow>
    heap_history s' (R(a := None)) (\<lambda>x. if x \<in> block_bytes (a, n) then None else D x)"
| hist_write: "heap_history s R D \<Longrightarrow> R a = Some n \<Longrightarrow> i < n \<Longrightarrow>
    heap_history (s\<lparr>mem := (mem s)(a + of_nat i \<mapsto> v)\<rparr>) R (D(a + of_nat i \<mapsto> v))"

inductive_cases heap_history_cases: "heap_history s R D"

text \<open>The ghost state of a history: \<open>H\<close> are the blocks behind the requests.\<close>

definition requests_in :: "(u64 \<Rightarrow> nat option) \<Rightarrow> (u64 \<times> nat) set \<Rightarrow> bool" where
  "requests_in R H \<longleftrightarrow> (\<forall>a n. R a = Some n \<longrightarrow> (\<exists>m \<ge> n. (a, m) \<in> H))"

definition contents_in :: "'z kernel_state_scheme \<Rightarrow> (u64 \<Rightarrow> nat option) \<Rightarrow> (u64 \<Rightarrow> u8 option) \<Rightarrow> bool" where
  "contents_in s R D \<longleftrightarrow>
     (\<forall>x v. D x = Some v \<longrightarrow> mem s x = Some v \<and> (\<exists>a n. R a = Some n \<and> x \<in> block_bytes (a, n)))"

lemma requests_inE:
  assumes "requests_in R H" "R a = Some n"
  obtains m where "n \<le> m" "(a, m) \<in> H" "block_bytes (a, n) \<subseteq> block_bytes (a, m)"
proof -
  obtain m where "n \<le> m" "(a, m) \<in> H" using assms unfolding requests_in_def by blast
  moreover from this have "block_bytes (a, n) \<subseteq> block_bytes (a, m)" by auto
  ultimately show thesis by (rule that)
qed

lemma contents_inE:
  assumes "contents_in s R D" "D x = Some v"
  obtains a n where "mem s x = Some v" "R a = Some n" "x \<in> block_bytes (a, n)"
  using assms unfolding contents_in_def by blast

text \<open>A block just handed out starts at an address that was not in use.\<close>

lemma fresh_request:
  assumes R: "requests_in R H" and new: "(a, m) \<notin> H" "heap_inv s' (insert (a, m) H)"
  shows "R a = None"
proof (rule ccontr)
  assume "R a \<noteq> None"
  then obtain n k where k: "(a, k) \<in> H" using R unfolding requests_in_def by blast
  obtain A F where inv: "slab_inv s' A F" "insert (a, m) H = heap_blocks A F" using new(2) by (auto simp: heap_inv_def)
  have "m = k" by (rule blocks_at_once [OF _ inv(1)]) (use k inv(2) in blast)+
  then show False using k new(1) by simp
qed

lemma contents_kept:
  assumes heap: "heap_inv s H" and R: "requests_in R H" and D: "contents_in s R D" and kept: "blocks_kept H s s'"
  shows "D x = Some v \<Longrightarrow> mem s' x = Some v"
proof -
  assume x: "D x = Some v"
  obtain a n where a: "mem s x = Some v" "R a = Some n" "x \<in> block_bytes (a, n)" by (rule contents_inE [OF D x])
  obtain m where m: "(a, m) \<in> H" "block_bytes (a, n) \<subseteq> block_bytes (a, m)" by (rule requests_inE [OF R a(2)])
  show ?thesis using kept_bytes [OF heap m(1,1) kept] m(2) a(1,3) by auto
qed

lemma history_alloc:
  assumes heap: "heap_inv s H" and R: "requests_in R H" and D: "contents_in s R D" and a: "a \<noteq> 0"
    and given: "block_given s H n s' a"
  shows "R a = None \<and> (\<exists>H'. heap_inv s' H' \<and> requests_in (R(a \<mapsto> n)) H') \<and> contents_in s' (R(a \<mapsto> n)) D"
proof -
  obtain m where m: "n \<le> m" "(a, m) \<notin> H" "heap_inv s' (insert (a, m) H)" "blocks_kept H s s'"
    using given a by (auto simp: block_given_def)
  have fresh: "R a = None" by (rule fresh_request [OF R m(2,3)])
  have "requests_in (R(a \<mapsto> n)) (insert (a, m) H)" using R m(1) unfolding requests_in_def by (auto split: if_splits)
  moreover have "contents_in s' (R(a \<mapsto> n)) D"
    unfolding contents_in_def
  proof (intro allI impI conjI)
    fix x v assume x: "D x = Some v"
    then show "mem s' x = Some v" by (rule contents_kept [OF heap R D m(4)])
    obtain b k where "R b = Some k" "x \<in> block_bytes (b, k)" by (rule contents_inE [OF D x])
    then show "\<exists>b k. (R(a \<mapsto> n)) b = Some k \<and> x \<in> block_bytes (b, k)"
      using fresh by (intro exI [of _ b] exI [of _ k]) (auto simp del: block_bytes.simps)
  qed
  ultimately show ?thesis using fresh m(3) by blast
qed

lemma heap_history_inv: "heap_history s R D \<Longrightarrow> \<exists>H. heap_inv s H \<and> requests_in R H \<and> contents_in s R D"
proof (induction rule: heap_history.induct)
  case (hist_boot img_end s0 s)
  then show ?case using mm_init_ok [OF hist_boot(1)] by (auto simp: requests_in_def contents_in_def)
next
  case (hist_fail s R D n fuel s')
  then obtain H where H: "heap_inv s H" "requests_in R H" "contents_in s R D" by blast
  have "block_given s H (unat n) s' 0" by (rule kmalloc_result [OF H(1) hist_fail(2,3)])
  then have "heap_inv s' H" "blocks_kept H s s'" by (simp_all add: block_given_def)
  moreover from this have "contents_in s' R D"
    using contents_kept [OF H] H(3) unfolding contents_in_def by blast
  ultimately show ?case using H(2) by blast
next
  case (hist_alloc s R D n fuel s' a)
  then obtain H where H: "heap_inv s H" "requests_in R H" "contents_in s R D" by blast
  have "block_given s H (unat n) s' a" by (rule kmalloc_result [OF H(1) hist_alloc(2,3)])
  then show ?case using history_alloc [OF H hist_alloc(4)] by blast
next
  case (hist_zalloc s R D n fuel s' a)
  then obtain H where H: "heap_inv s H" "requests_in R H" "contents_in s R D" by blast
  note g = kzalloc_result [OF H(1) hist_zalloc(2,3,4)]
  then have h: "\<exists>H'. heap_inv s' H' \<and> requests_in (R(a \<mapsto> unat n)) H'" "contents_in s' (R(a \<mapsto> unat n)) D"
    using history_alloc [OF H hist_zalloc(4)] by blast+
  have "contents_in s' (R(a \<mapsto> unat n)) (\<lambda>x. if x \<in> block_bytes (a, unat n) then Some 0 else D x)"
    unfolding contents_in_def
  proof (intro allI impI)
    fix x v assume x: "(if x \<in> block_bytes (a, unat n) then Some 0 else D x) = Some v"
    show "mem s' x = Some v \<and> (\<exists>b k. (R(a \<mapsto> unat n)) b = Some k \<and> x \<in> block_bytes (b, k))"
    proof (cases "x \<in> block_bytes (a, unat n)")
      case True
      then have "mem s' x = Some 0" using g(2) unfolding zeroed_def by simp
      then show ?thesis using x True by (intro conjI exI [of _ a] exI [of _ "unat n"]) simp_all
    next
      case False
      then have "D x = Some v" using x by (simp del: block_bytes.simps)
      then show ?thesis using h(2) unfolding contents_in_def by blast
    qed
  qed
  then show ?case using h(1) by blast
next
  case (hist_free s R D a n s')
  then obtain H where H: "heap_inv s H" "requests_in R H" "contents_in s R D" by blast
  obtain m where m: "n \<le> m" "(a, m) \<in> H" by (rule requests_inE [OF H(2) hist_free(2)])
  have f: "heap_inv s' (H - {(a, m)})" "blocks_kept (H - {(a, m)}) s s'" using kfree_ok [OF H(1) m(2)] hist_free(3) by auto
  have "requests_in (R(a := None)) (H - {(a, m)})" using H(2) unfolding requests_in_def by (auto split: if_splits)
  moreover have "contents_in s' (R(a := None)) (\<lambda>x. if x \<in> block_bytes (a, n) then None else D x)"
    unfolding contents_in_def
  proof (intro allI impI)
    fix x v assume "(if x \<in> block_bytes (a, n) then None else D x) = Some v"
    then have x: "x \<notin> block_bytes (a, n)" "D x = Some v" by (simp_all del: block_bytes.simps split: if_splits)
    obtain b k where b: "mem s x = Some v" "R b = Some k" "x \<in> block_bytes (b, k)" by (rule contents_inE [OF H(3) x(2)])
    have "b \<noteq> a" using b(2,3) x(1) hist_free(2) by auto
    obtain l where l: "(b, l) \<in> H" "block_bytes (b, k) \<subseteq> block_bytes (b, l)" by (rule requests_inE [OF H(2) b(2)])
    have "(b, l) \<in> H - {(a, m)}" "x \<in> block_bytes (b, l)" using l b(3) \<open>b \<noteq> a\<close> by (auto simp del: block_bytes.simps)
    then have "mem s' x = Some v" using kept_bytes [OF H(1) l(1) _ f(2)] b(1) by metis
    then show "mem s' x = Some v \<and> (\<exists>b k. (R(a := None)) b = Some k \<and> x \<in> block_bytes (b, k))"
      using b(2,3) \<open>b \<noteq> a\<close> by (intro conjI exI [of _ b] exI [of _ k]) (auto simp del: block_bytes.simps)
  qed
  ultimately show ?case using f(1) by blast
next
  case (hist_write s R D a n i v)
  then obtain H where H: "heap_inv s H" "requests_in R H" "contents_in s R D" by blast
  obtain m where m: "n \<le> m" "(a, m) \<in> H" "block_bytes (a, n) \<subseteq> block_bytes (a, m)" by (rule requests_inE [OF H(2) hist_write(2)])
  let ?x = "a + of_nat i"
  have "unat ?x = unat a + i"
    using heap_inv_blockD(4) [OF H(1) m(2)] m(1) hist_write(3) by (simp add: unat_word_ariths unat_of_nat take_bit_eq_mod)
  then have x: "?x \<in> block_bytes (a, n)" using hist_write(3) by (simp add: word_le_nat_alt)
  then have "?x \<in> dom (mem s)" using m(3) heap_inv_blockD(3) [OF H(1) m(2)] by blast
  then have "dom ((mem s)(?x \<mapsto> v)) = dom (mem s)" by auto
  moreover have "((mem s)(?x \<mapsto> v)) y = mem s y" if "y \<notin> block_bytes (a, m)" for y
    using x m(3) that by auto
  ultimately have "heap_inv (s\<lparr>mem := (mem s)(?x \<mapsto> v)\<rparr>) H" using block_write [OF H(1) m(2)] by blast
  moreover have "contents_in (s\<lparr>mem := (mem s)(?x \<mapsto> v)\<rparr>) R (D(?x \<mapsto> v))"
    using H(3) x hist_write(2) unfolding contents_in_def by (auto simp del: block_bytes.simps)
  ultimately show ?case using H(2) by blast
qed

subsection \<open>First requests\<close>

text \<open>With no block in use, a small request succeeds.\<close>

lemma first_kmalloc:
  assumes heap: "heap_inv s {}" and n: "unat n \<le> 2048"
  shows "\<exists>fuel s' a. kmalloc fuel s n = Some (Inr (s', a)) \<and> a \<noteq> 0 \<and> block_given s {} (unat n) s' a"
proof -
  obtain A F where inv: "slab_inv s A F" and ne: "\<forall>k. order_ok k \<longrightarrow> F k \<noteq> []" and none: "heap_blocks A F = {}"
    using heap by (auto simp: heap_inv_def)
  obtain fuel where "\<forall>k. order_ok k \<longrightarrow> length (F k) < fuel" using finite_lists by blast
  then have "\<forall>k. order_ok k \<longrightarrow> F k \<noteq> [] \<and> length (F k) < fuel" using ne by blast
  from alloc_in_slab_ok [OF inv n this] obtain k where k: "order_ok k" "unat n \<le> 2 ^ k"
    "slabs_full (F k) \<or> (\<exists>s' x. alloc_in_slab fuel s n = Some (Inr (s', x)) \<and> object_taken s A F k s' x)" by blast
  obtain p fs where p: "(p, fs) \<in> set (F k)" using ne k(1) by (cases "F k") auto
  have "1 < (2 :: nat) ^ (21 - k)" using slab_counts(3) [OF k(1)] by simp
  then have "slot_at k p 1 \<in> slots_of k p" by (simp add: slots_of_def)
  moreover have "live_objects F = {}" using none by (simp add: heap_blocks_def)
  ultimately have "slot_at k p 1 \<in> set fs" using p k(1) by (auto simp: live_objects_def)
  then have "\<not> slabs_full (F k)" using p by (fastforce simp: slabs_full_def)
  then obtain s' x where t: "alloc_in_slab fuel s n = Some (Inr (s', x))" "object_taken s A F k s' x" using k(3) by blast
  have "kmalloc fuel s n = alloc_in_slab fuel s n" using n by (simp add: kmalloc_def word_le_nat_alt)
  moreover obtain A' F' where F': "slab_inv s' A' F'" "live_objects F' = insert (x, k) (live_objects F)"
    using t(2) unfolding object_taken_def by blast
  have "x \<noteq> 0" by (rule live_object_place(1) [OF F'(1), of x k]) (simp add: F'(2))
  moreover have "block_given s {} (unat n) s' x" using object_given [OF inv ne k(1,2) t(2)] unfolding none .
  ultimately show ?thesis using t(1) by (intro exI [of _ fuel] exI [of _ s'] exI [of _ x]) simp
qed

lemma cold_ready:
  obtains s :: kernel_state where "mm_init 0x100000 kernel_cold = Inr s" "heap_inv s {}"
  using mm_init_ok [OF kernel_cold_ready] by blast

lemma cold_block:
  obtains s s' :: kernel_state and a m fuel where "heap_history s Map.empty Map.empty"
    "kmalloc fuel s 100 = Some (Inr (s', a))" "a \<noteq> 0" "100 \<le> m" "heap_inv s' {(a, m)}"
proof -
  obtain s :: kernel_state where s: "mm_init 0x100000 kernel_cold = Inr s" "heap_inv s {}" by (rule cold_ready) (rule that)
  obtain fuel s' a where a: "kmalloc fuel s 100 = Some (Inr (s', a))" "a \<noteq> 0" "block_given s {} (unat (100 :: u64)) s' a"
    using first_kmalloc [OF s(2), of 100] by auto
  then obtain m where "100 \<le> m" "heap_inv s' {(a, m)}" by (auto simp: block_given_def)
  with a hist_boot [OF kernel_cold_ready s(1)] show thesis using that by blast
qed

subsection \<open>The guarantees of the general allocator\<close>

text \<open>C33: a call of \<open>kmalloc\<close> for at most \<open>2 ^ 42\<close> bytes does one of three things. For more than 2048
  bytes it may return NULL, in an unchanged state, when no run of pages of the smallest sufficient
  order is free; for up to 2048 bytes it may stop in a BUG_ON, when every slot of the size class is in
  use and no chunk of 2M is left. Otherwise it returns a block of at least the size asked for,
  aligned to 8 bytes, in mapped memory and apart from every block in use, and the contents of the
  blocks in use stay as they are.\<close>

theorem kmalloc_correct:
  assumes heap: "heap_inv s H" and n: "unat n \<le> 2 ^ 42"
  shows "\<exists>fuel.
    kmalloc fuel s n = Some (Inl Bug) \<and> slab_exhausted s H n \<or>
    kmalloc fuel s n = Some (Inr (s, 0)) \<and> pages_exhausted s H n \<or>
    (\<exists>s' a m. kmalloc fuel s n = Some (Inr (s', a)) \<and> a \<noteq> 0 \<and> unat n \<le> m \<and> (a, m) \<notin> H \<and>
      heap_inv s' (insert (a, m) H) \<and> blocks_kept H s s' \<and> 8 dvd unat a \<and>
      block_bytes (a, m) \<subseteq> dom (mem s') \<and> (\<forall>b \<in> H. block_bytes b \<inter> block_bytes (a, m) = {}))"
proof -
  obtain fuel where f: "kmalloc fuel s n = Some (Inl Bug) \<and> slab_exhausted s H n \<or>
    (\<exists>s' a. kmalloc fuel s n = Some (Inr (s', a)) \<and> block_given s H (unat n) s' a \<and> (a = 0 \<longrightarrow> s' = s \<and> pages_exhausted s H n))"
    using kmalloc_ok [OF assms] by blast
  have "\<exists>m. unat n \<le> m \<and> (a, m) \<notin> H \<and> heap_inv s' (insert (a, m) H) \<and> blocks_kept H s s' \<and> 8 dvd unat a \<and>
      block_bytes (a, m) \<subseteq> dom (mem s') \<and> (\<forall>b \<in> H. block_bytes b \<inter> block_bytes (a, m) = {})"
    if given: "block_given s H (unat n) s' a" and a: "a \<noteq> 0" for s' a
  proof -
    obtain m where m: "unat n \<le> m" "(a, m) \<notin> H" "heap_inv s' (insert (a, m) H)" "blocks_kept H s s'"
      using given a by (auto simp: block_given_def)
    have "block_bytes b \<inter> block_bytes (a, m) = {}" if "b \<in> H" for b
      using heap.apart_law [OF m(3), of b "(a, m)"] \<open>b \<in> H\<close> m(2) by blast
    then show ?thesis using m heap_inv_blockD(2,3) [OF m(3) insertI1] by blast
  qed
  then show ?thesis using f by (intro exI [of _ fuel]) metis
qed

theorem kmalloc_correct_witness:
  "\<exists>(s :: kernel_state) fuel s' a m. mm_init 0x100000 kernel_cold = Inr s \<and> kmalloc fuel s 100 = Some (Inr (s', a)) \<and>
    a \<noteq> 0 \<and> 100 \<le> m \<and> heap_inv s' {(a, m)} \<and> block_bytes (a, m) \<subseteq> dom (mem s')"
proof -
  obtain s :: kernel_state where s: "mm_init 0x100000 kernel_cold = Inr s" "heap_inv s {}" by (rule cold_ready) (rule that)
  have n: "unat (100 :: u64) = 100" by simp
  obtain g t b where "kmalloc g s 100 = Some (Inr (t, b))" "b \<noteq> 0" using first_kmalloc [OF s(2), of 100] by auto
  then have "kmalloc fuel s 100 \<noteq> Some (Inl Bug) \<and> kmalloc fuel s 100 \<noteq> Some (Inr (s, 0))" for fuel
    using kmalloc_same [of g s 100 "Inr (t, b)" fuel] by auto
  moreover have "unat (100 :: u64) \<le> 2 ^ 42" unfolding n by simp
  from kmalloc_correct [OF s(2) this, unfolded n] obtain fuel where
    "kmalloc fuel s 100 = Some (Inl Bug) \<or> kmalloc fuel s 100 = Some (Inr (s, 0)) \<or>
     (\<exists>s' a m. kmalloc fuel s 100 = Some (Inr (s', a)) \<and> a \<noteq> 0 \<and> 100 \<le> m \<and> heap_inv s' {(a, m)} \<and> block_bytes (a, m) \<subseteq> dom (mem s'))"
    by blast
  ultimately show ?thesis using s(1) by blast
qed

text \<open>C34: \<open>kfree\<close> of a block in use returns, releases exactly this block and keeps the contents of
  all others.\<close>

theorem kfree_correct:
  assumes "heap_inv s H" "(a, m) \<in> H"
  shows "\<exists>s'. kfree s a = Inr s' \<and> heap_inv s' (H - {(a, m)}) \<and> blocks_kept (H - {(a, m)}) s s'"
  using heap.free_law [OF assms] by blast

theorem kfree_correct_witness:
  "\<exists>(s :: kernel_state) fuel s' a s''. kmalloc fuel s 100 = Some (Inr (s', a)) \<and> a \<noteq> 0 \<and> kfree s' a = Inr s'' \<and> heap_inv s'' {}"
proof -
  obtain s s' :: kernel_state and a m fuel where s: "kmalloc fuel s 100 = Some (Inr (s', a))" "a \<noteq> 0" "heap_inv s' {(a, m)}"
    by (rule cold_block) (rule that)
  obtain s'' where "kfree s' a = Inr s''" "heap_inv s'' {}"
    using kfree_correct [OF s(3) insertI1] by auto
  with s(1,2) show ?thesis by blast
qed

text \<open>C35: called in the same state, \<open>kzalloc\<close> does what \<open>kmalloc\<close> does: it stops in a BUG_ON or returns
  NULL when \<open>kmalloc\<close> does, with the state unchanged; otherwise it returns the block that \<open>kmalloc\<close>
  returns, in the state that \<open>kmalloc\<close> leaves but for memory, where exactly the \<open>n\<close> bytes from the start of
  the block have become zero.\<close>

theorem kzalloc_correct:
  assumes "heap_inv s H" "unat n \<le> 2 ^ 42"
  shows "\<exists>fuel.
    kmalloc fuel s n = Some (Inl Bug) \<and> kzalloc fuel s n = Some (Inl Bug) \<and> slab_exhausted s H n \<or>
    kmalloc fuel s n = Some (Inr (s, 0)) \<and> kzalloc fuel s n = Some (Inr (s, 0)) \<and> pages_exhausted s H n \<or>
    (\<exists>s1 s' a m. kmalloc fuel s n = Some (Inr (s1, a)) \<and> kzalloc fuel s n = Some (Inr (s', a)) \<and> a \<noteq> 0 \<and>
      s' = s1\<lparr>mem := mem s'\<rparr> \<and> (\<forall>x. mem s' x = (if x \<in> block_bytes (a, unat n) then Some 0 else mem s1 x)) \<and>
      unat n \<le> m \<and> (a, m) \<notin> H \<and> heap_inv s' (insert (a, m) H) \<and> blocks_kept H s s')"
proof -
  obtain fuel where "kmalloc fuel s n = Some (Inl Bug) \<and> kzalloc fuel s n = Some (Inl Bug) \<and> slab_exhausted s H n \<or>
    kmalloc fuel s n = Some (Inr (s, 0)) \<and> kzalloc fuel s n = Some (Inr (s, 0)) \<and> pages_exhausted s H n \<and>
      block_given s H (unat n) s 0 \<or>
    (\<exists>s1 s' a. kmalloc fuel s n = Some (Inr (s1, a)) \<and> kzalloc fuel s n = Some (Inr (s', a)) \<and> a \<noteq> 0 \<and>
      zeroed_block s1 a (unat n) s' \<and> block_given s H (unat n) s' a)"
    using kzalloc_ok [OF assms] by blast
  moreover have "\<exists>m. unat n \<le> m \<and> (a, m) \<notin> H \<and> heap_inv s' (insert (a, m) H) \<and> blocks_kept H s s'"
    if "block_given s H (unat n) s' a" "a \<noteq> 0" for s' a
    using that by (auto simp: block_given_def)
  ultimately show ?thesis unfolding zeroed_block_def by (intro exI [of _ fuel]) blast
qed

theorem kzalloc_correct_witness:
  "\<exists>(s :: kernel_state) fuel s' a. mm_init 0x100000 kernel_cold = Inr s \<and> kzalloc fuel s 24 = Some (Inr (s', a)) \<and>
    a \<noteq> 0 \<and> mem s' a = Some 0"
proof -
  obtain s :: kernel_state where s: "mm_init 0x100000 kernel_cold = Inr s" "heap_inv s {}" by (rule cold_ready) (rule that)
  have n: "unat (24 :: u64) = 24" by simp
  obtain g t b where "kmalloc g s 24 = Some (Inr (t, b))" "b \<noteq> 0" using first_kmalloc [OF s(2), of 24] by auto
  then have no: "kmalloc fuel s 24 \<noteq> Some (Inl Bug) \<and> kmalloc fuel s 24 \<noteq> Some (Inr (s, 0))" for fuel
    using kmalloc_same [of g s 24 "Inr (t, b)" fuel] by auto
  have "unat (24 :: u64) \<le> 2 ^ 42" unfolding n by simp
  from kzalloc_correct [OF s(2) this, unfolded n] no obtain fuel s' a where
    "kzalloc fuel s 24 = Some (Inr (s', a))" "a \<noteq> 0" "\<forall>x. x \<in> block_bytes (a, 24) \<longrightarrow> mem s' x = Some 0" by metis
  moreover have "a \<in> block_bytes (a, 24)" by simp
  ultimately show ?thesis using s(1) by blast
qed

text \<open>C36: after any history since the start of the kernel, the blocks requested and not yet
  released lie apart from each other in mapped memory, every byte written to them reads back as
  written last, each of them can be released without a BUG_ON, and a request of up to \<open>2 ^ 42\<close>
  bytes is answered with an address not in use; or with NULL, if it is for more than 2048 bytes and no
  sufficient run of pages is free; or it stops in a BUG_ON, if it is for at most 2048 bytes and neither a
  slot of its size class nor a chunk for a new slab is free.\<close>

theorem heap_history_live:
  assumes "heap_history s R D"
  shows "(\<forall>a n. R a = Some n \<longrightarrow> a \<noteq> 0 \<and> 8 dvd unat a \<and> block_bytes (a, n) \<subseteq> dom (mem s) \<and> (\<exists>s'. kfree s a = Inr s')) \<and>
    (\<forall>a b m n. R a = Some m \<longrightarrow> R b = Some n \<longrightarrow> a \<noteq> b \<longrightarrow> block_bytes (a, m) \<inter> block_bytes (b, n) = {}) \<and>
    (\<forall>x v. D x = Some v \<longrightarrow> mem s x = Some v) \<and>
    (\<forall>n. unat n \<le> 2 ^ 42 \<longrightarrow> (\<exists>fuel H. requests_in R H \<and>
       (kmalloc fuel s n = Some (Inl Bug) \<and> slab_exhausted s H n \<or>
        kmalloc fuel s n = Some (Inr (s, 0)) \<and> pages_exhausted s H n \<or>
        (\<exists>s' a. kmalloc fuel s n = Some (Inr (s', a)) \<and> a \<noteq> 0 \<and> R a = None))))"
proof (intro conjI allI impI)
  obtain H where H: "heap_inv s H" "requests_in R H" "contents_in s R D" using heap_history_inv [OF assms] by blast
  have use: "\<exists>m. (a, m) \<in> H \<and> block_bytes (a, n) \<subseteq> block_bytes (a, m)" if "R a = Some n" for a n
    by (rule requests_inE [OF H(2) that]) blast
  show "a \<noteq> 0" "8 dvd unat a" "block_bytes (a, n) \<subseteq> dom (mem s)" "\<exists>s'. kfree s a = Inr s'" if a: "R a = Some n" for a n
  proof -
    obtain m where m: "(a, m) \<in> H" "block_bytes (a, n) \<subseteq> block_bytes (a, m)" using use [OF a] by blast
    note b = heap_inv_blockD [OF H(1) m(1)]
    show "a \<noteq> 0" "8 dvd unat a" by (rule b)+
    show "block_bytes (a, n) \<subseteq> dom (mem s)" by (rule order_trans [OF m(2) b(3)])
    show "\<exists>s'. kfree s a = Inr s'" using heap.free_law [OF H(1) m(1)] by blast
  qed
  show "block_bytes (a, m) \<inter> block_bytes (b, n) = {}" if ab: "R a = Some m" "R b = Some n" "a \<noteq> b" for a b m n
  proof -
    obtain k l where kl: "(a, k) \<in> H" "block_bytes (a, m) \<subseteq> block_bytes (a, k)"
      "(b, l) \<in> H" "block_bytes (b, n) \<subseteq> block_bytes (b, l)" using use [OF ab(1)] use [OF ab(2)] by blast
    have "block_bytes (a, k) \<inter> block_bytes (b, l) = {}"
      by (rule heap.apart_law [OF H(1) kl(1,3)]) (use ab(3) in simp)
    then show ?thesis using kl(2,4) by blast
  qed
  show "mem s x = Some v" if "D x = Some v" for x v by (rule contents_inE [OF H(3) that])
  show "\<exists>fuel H. requests_in R H \<and> (kmalloc fuel s n = Some (Inl Bug) \<and> slab_exhausted s H n \<or>
      kmalloc fuel s n = Some (Inr (s, 0)) \<and> pages_exhausted s H n \<or>
      (\<exists>s' a. kmalloc fuel s n = Some (Inr (s', a)) \<and> a \<noteq> 0 \<and> R a = None))" if n: "unat n \<le> 2 ^ 42" for n
  proof -
    obtain fuel where f: "kmalloc fuel s n = Some (Inl Bug) \<and> slab_exhausted s H n \<or>
      (\<exists>s' a. kmalloc fuel s n = Some (Inr (s', a)) \<and> block_given s H (unat n) s' a \<and> (a = 0 \<longrightarrow> s' = s \<and> pages_exhausted s H n))"
      using kmalloc_ok [OF H(1) n] by blast
    have "R a = None" if g: "block_given s H (unat n) s' a" and a: "a \<noteq> 0" for s' a
    proof -
      obtain m where "(a, m) \<notin> H" "heap_inv s' (insert (a, m) H)" using g a by (auto simp: block_given_def)
      then show ?thesis by (rule fresh_request [OF H(2)])
    qed
    then show ?thesis using f H(2) by (intro exI [of _ fuel] exI [of _ H]) metis
  qed
qed

theorem heap_history_live_witness:
  "\<exists>(s :: kernel_state) a v. heap_history s [a \<mapsto> 100] [a \<mapsto> v] \<and> mem s a = Some v \<and> (\<exists>s'. kfree s a = Inr s')"
proof -
  obtain s s' :: kernel_state and a m fuel where s: "heap_history s Map.empty Map.empty"
    "kmalloc fuel s 100 = Some (Inr (s', a))" "a \<noteq> 0" by (rule cold_block) (rule that)
  have n: "unat (100 :: u64) \<le> 2 ^ 42" by simp
  have "heap_history s' [a \<mapsto> 100] Map.empty" using hist_alloc [OF s(1) n s(2,3)] by simp
  from hist_write [OF this, of a 100 0 7]
  have h: "heap_history (s'\<lparr>mem := (mem s')(a \<mapsto> 7)\<rparr>) [a \<mapsto> 100] [a \<mapsto> 7]" by simp
  have "mem (s'\<lparr>mem := (mem s')(a \<mapsto> 7)\<rparr>) a = Some 7" "\<exists>s''. kfree (s'\<lparr>mem := (mem s')(a \<mapsto> 7)\<rparr>) a = Inr s''"
    using heap_history_live [OF h] by simp_all
  with h show ?thesis by blast
qed

text \<open>C37: on the memory map of the raspi3, \<open>mm_init\<close> returns with an empty heap; the array of page
  metadata starts at the end of the kernel image, the pages follow it without overlap and end
  inside the usable physical memory, and there are as many as fit.\<close>

theorem mm_init_correct:
  assumes "mm_ready img_end s"
  shows "\<exists>s'. mm_init img_end s = Inr s' \<and> heap_inv s' {} \<and>
    page_metadata_addr s' = KBASE + ROUND_UP img_end 0x1000 \<and>
    pool_pages s' = (0x3d000000 - unat (ROUND_UP img_end 0x1000)) div (4096 + 40) \<and>
    unat (page_metadata_addr s') + pool_pages s' * 40 \<le> unat (pool_start_addr s') \<and>
    unat (pool_start_addr s') + pool_pages s' * 4096 \<le> unat KBASE + 0x3d000000"
proof -
  have img: "unat img_end \<le> 0x3b000000" using assms by (simp add: mm_ready_def)
  obtain s' where s': "mm_init img_end s = Inr s'" "heap_inv s' {}"
    "pool_place s' = (mm_pages img_end, mm_start img_end, KBASE + ROUND_UP img_end 0x1000)"
    using mm_init_ok [OF assms] by blast
  then have "pool_pages s' = mm_pages img_end" "pool_start_addr s' = mm_start img_end"
    "page_metadata_addr s' = KBASE + ROUND_UP img_end 0x1000" by (simp_all add: pool_place_def)
  moreover have "mm_pages img_end = (0x3d000000 - unat (ROUND_UP img_end 0x1000)) div (4096 + 40)" by (simp add: mm_pages_def)
  ultimately show ?thesis using s'(1,2) mm_layout(3,5,6) [OF img] by simp
qed

theorem mm_init_correct_witness:
  "\<exists>s'. mm_init 0x100000 kernel_cold = Inr s' \<and> heap_inv s' {} \<and> pool_pages s' = 247186"
proof -
  have "ROUND_UP 0x100000 0x1000 = 0x100000" by (simp add: ROUND_UP_def)
  then show ?thesis using mm_init_correct [OF kernel_cold_ready] by auto
qed

end
