(* ===== verification/Boot_Mmu.thy ===== *)
theory Boot_Mmu
  imports Memory
begin

text \<open>
  kernel/arch/aarch64/boot/raspi3/init/mmu.c: the page tables the kernel boots with.

  The six tables are arrays of the boot image; their addresses, which the linker chooses, are a
  parameter. The code runs before the MMU is on, so the memory here is physical memory. The
  loops take fuel.
\<close>

record boot_tables =
  boot_ttbr0_l0 :: u64
  boot_ttbr0_l1 :: u64
  boot_ttbr0_l2 :: u64
  boot_ttbr1_l0 :: u64
  boot_ttbr1_l1 :: u64
  boot_ttbr1_l2 :: u64

abbreviation (input) PHYSMEM_START :: u64 where "PHYSMEM_START \<equiv> 0"
abbreviation (input) PERIPHERAL_BASE :: u64 where "PERIPHERAL_BASE \<equiv> 0x3F000000"
abbreviation (input) PHYSMEM_END :: u64 where "PHYSMEM_END \<equiv> 0x40000000"
abbreviation (input) KERNEL_VADDR :: u64 where "KERNEL_VADDR \<equiv> 0xffffff0000000000"
abbreviation (input) SIZE_2M :: u64 where "SIZE_2M \<equiv> 2 * 1024 * 1024"

subsection \<open>Entries\<close>

abbreviation (input) IS_VALID :: u64 where "IS_VALID \<equiv> push_bit 0 1"
abbreviation (input) IS_TABLE :: u64 where "IS_TABLE \<equiv> push_bit 1 1"
abbreviation (input) BOOT_UXN :: u64 where "BOOT_UXN \<equiv> push_bit 54 1"
abbreviation (input) ACCESSED :: u64 where "ACCESSED \<equiv> push_bit 10 1"
abbreviation (input) BOOT_NG :: u64 where "BOOT_NG \<equiv> push_bit 11 1"
abbreviation (input) INNER_SHARABLE :: u64 where "INNER_SHARABLE \<equiv> push_bit 8 3"
abbreviation (input) NORMAL_MEMORY :: u64 where "NORMAL_MEMORY \<equiv> push_bit 2 0"
abbreviation (input) DEVICE_MEMORY :: u64 where "DEVICE_MEMORY \<equiv> push_bit 2 1"

definition boot_table_pte :: "u64 \<Rightarrow> u64" where
  "boot_table_pte next_table = next_table OR IS_TABLE OR IS_VALID OR BOOT_NG"

definition boot_normal_pte :: "u64 \<Rightarrow> u64" where
  "boot_normal_pte pa = pa OR BOOT_UXN OR ACCESSED OR BOOT_NG OR INNER_SHARABLE OR NORMAL_MEMORY OR IS_VALID"

definition boot_device_pte :: "u64 \<Rightarrow> u64" where
  "boot_device_pte pa = pa OR BOOT_UXN OR ACCESSED OR BOOT_NG OR DEVICE_MEMORY OR IS_VALID"

definition BOOT_L0_INDEX :: "u64 \<Rightarrow> nat" where
  "BOOT_L0_INDEX x = unat (drop_bit (12 + 9 + 9 + 9) x AND 0x1ff)"

definition BOOT_L1_INDEX :: "u64 \<Rightarrow> nat" where
  "BOOT_L1_INDEX x = unat (drop_bit (12 + 9 + 9) x AND 0x1ff)"

definition BOOT_L2_INDEX :: "u64 \<Rightarrow> nat" where
  "BOOT_L2_INDEX x = unat (drop_bit (12 + 9) x AND 0x1ff)"

subsection \<open>The tables\<close>

text \<open>\<open>arr[i] = v\<close> for an array of 64-bit entries.\<close>

definition set_entry :: "u64 \<Rightarrow> nat \<Rightarrow> u64 \<Rightarrow> memory \<Rightarrow> memory outcome" where
  "set_entry arr i v m = store64 (arr + of_nat (8 * i)) v m"

text \<open>\<open>for (; vaddr < bound; vaddr += SIZE_2M)\<close>\<close>

fun block_loop :: "nat \<Rightarrow> (u64 \<Rightarrow> memory \<Rightarrow> memory outcome) \<Rightarrow> u64 \<Rightarrow> u64 \<Rightarrow> memory \<Rightarrow> memory run" where
  "block_loop 0 body bound vaddr m = (if vaddr < bound then None else Some (Inr m))"
| "block_loop (Suc fuel) body bound vaddr m =
     (if vaddr < bound then fbind (Some (body vaddr m)) (block_loop fuel body bound (vaddr + SIZE_2M))
      else Some (Inr m))"

definition init_boot_pt :: "nat \<Rightarrow> boot_tables \<Rightarrow> memory \<Rightarrow> memory run" where
  "init_boot_pt fuel T m =
    (let vaddr = PHYSMEM_START in
     fbind (Some (set_entry (boot_ttbr0_l0 T) (BOOT_L0_INDEX vaddr) (boot_table_pte (boot_ttbr0_l1 T)) m)) (\<lambda>m.
     fbind (Some (set_entry (boot_ttbr0_l1 T) (BOOT_L1_INDEX vaddr) (boot_table_pte (boot_ttbr0_l2 T)) m)) (\<lambda>m.
     fbind (block_loop fuel (\<lambda>vaddr. set_entry (boot_ttbr0_l2 T) (BOOT_L2_INDEX vaddr) (boot_normal_pte vaddr))
       PERIPHERAL_BASE vaddr m) (\<lambda>m.
     fbind (block_loop fuel (\<lambda>vaddr. set_entry (boot_ttbr0_l2 T) (BOOT_L2_INDEX vaddr) (boot_device_pte vaddr))
       PHYSMEM_END PERIPHERAL_BASE m) (\<lambda>m.
     let vaddr = KERNEL_VADDR + PHYSMEM_START in
     fbind (Some (set_entry (boot_ttbr1_l0 T) (BOOT_L0_INDEX vaddr) (boot_table_pte (boot_ttbr1_l1 T)) m)) (\<lambda>m.
     fbind (Some (set_entry (boot_ttbr1_l1 T) (BOOT_L1_INDEX vaddr) (boot_table_pte (boot_ttbr1_l2 T)) m)) (\<lambda>m.
     fbind (block_loop fuel
       (\<lambda>vaddr. set_entry (boot_ttbr1_l2 T) (BOOT_L2_INDEX vaddr) (boot_normal_pte (vaddr - KERNEL_VADDR)))
       (KERNEL_VADDR + PERIPHERAL_BASE) vaddr m) (\<lambda>m.
     fbind (block_loop fuel
       (\<lambda>vaddr. set_entry (boot_ttbr1_l2 T) (BOOT_L2_INDEX vaddr) (boot_device_pte (vaddr - KERNEL_VADDR)))
       (KERNEL_VADDR + PHYSMEM_END) (KERNEL_VADDR + PERIPHERAL_BASE) m) (\<lambda>m.
     let vaddr = KERNEL_VADDR + PHYSMEM_END in
     Some (set_entry (boot_ttbr1_l1 T) (BOOT_L1_INDEX vaddr) (boot_device_pte PHYSMEM_END) m))))))))))"

end
