(* ===== verification/Uart.thy ===== *)
theory Uart
  imports Memory
begin

text \<open>
  The mini UART of the raspi3: kernel/arch/aarch64/plat/raspi3/uart/uart.c (the kernel's driver)
  and kernel/arch/aarch64/boot/raspi3/peripherals/uart.c (the driver of the boot code, before and
  just after the MMU is switched on), with the register addresses of their peripherals.h and uart.h.

  The device is a parameter: \<open>get32\<close> and \<open>put32\<close>, a single load and store instruction on device
  memory (tools.S), act on a state \<open>'w\<close> the driver knows nothing of, and a load may change it. The
  loops that poll the device may run for ever: they are partial functions, \<open>None\<close> when they do
  not return.
\<close>

record 'w mmio =
  get32 :: "u64 \<Rightarrow> 'w \<Rightarrow> u32 \<times> 'w"
  put32 :: "u64 \<Rightarrow> u32 \<Rightarrow> 'w \<Rightarrow> 'w"

subsection \<open>Registers\<close>

text \<open>The peripherals as seen from the base of the linear mapping: 0 for the boot code.\<close>

abbreviation (input) UART_KBASE :: u64 where "UART_KBASE \<equiv> 0xFFFFFF0000000000"

definition PHYSADDR_OFFSET :: "u64 \<Rightarrow> u64" where "PHYSADDR_OFFSET base = base + 0x3F000000"

definition GPFSEL1 :: "u64 \<Rightarrow> u64" where "GPFSEL1 base = PHYSADDR_OFFSET base + 0x00200004"
definition GPPUD :: "u64 \<Rightarrow> u64" where "GPPUD base = PHYSADDR_OFFSET base + 0x00200094"
definition GPPUDCLK0 :: "u64 \<Rightarrow> u64" where "GPPUDCLK0 base = PHYSADDR_OFFSET base + 0x00200098"
definition AUX_ENABLES :: "u64 \<Rightarrow> u64" where "AUX_ENABLES base = PHYSADDR_OFFSET base + 0x00215004"
definition AUX_MU_IO_REG :: "u64 \<Rightarrow> u64" where "AUX_MU_IO_REG base = PHYSADDR_OFFSET base + 0x00215040"
definition AUX_MU_IER_REG :: "u64 \<Rightarrow> u64" where "AUX_MU_IER_REG base = PHYSADDR_OFFSET base + 0x00215044"
definition AUX_MU_LCR_REG :: "u64 \<Rightarrow> u64" where "AUX_MU_LCR_REG base = PHYSADDR_OFFSET base + 0x0021504C"
definition AUX_MU_MCR_REG :: "u64 \<Rightarrow> u64" where "AUX_MU_MCR_REG base = PHYSADDR_OFFSET base + 0x00215050"
definition AUX_MU_LSR_REG :: "u64 \<Rightarrow> u64" where "AUX_MU_LSR_REG base = PHYSADDR_OFFSET base + 0x00215054"
definition AUX_MU_CNTL_REG :: "u64 \<Rightarrow> u64" where "AUX_MU_CNTL_REG base = PHYSADDR_OFFSET base + 0x00215060"
definition AUX_MU_BAUD_REG :: "u64 \<Rightarrow> u64" where "AUX_MU_BAUD_REG base = PHYSADDR_OFFSET base + 0x00215068"

lemmas register_defs = PHYSADDR_OFFSET_def GPFSEL1_def GPPUD_def GPPUDCLK0_def AUX_ENABLES_def
  AUX_MU_IO_REG_def AUX_MU_IER_REG_def AUX_MU_LCR_REG_def AUX_MU_MCR_REG_def AUX_MU_LSR_REG_def
  AUX_MU_CNTL_REG_def AUX_MU_BAUD_REG_def

subsection \<open>The kernel's driver\<close>

text \<open>\<open>while (cnt != 0) cnt--;\<close>\<close>

function delay :: "u32 \<Rightarrow> u32" where
  "delay cnt = (if cnt \<noteq> 0 then delay (cnt - 1) else cnt)"
  by pat_completeness auto
termination by (relation "measure unat") (auto simp: measure_unat)

declare delay.simps [simp del]

definition uart_lsr :: "'w mmio \<Rightarrow> 'w \<Rightarrow> u32 \<times> 'w" where
  "uart_lsr d w = get32 d (AUX_MU_LSR_REG UART_KBASE) w"

text \<open>The loops of \<open>uart_recv\<close> and \<open>uart_send\<close>: poll the line status for a bit.\<close>

partial_function (option) poll :: "('w \<Rightarrow> u32 \<times> 'w) \<Rightarrow> u32 \<Rightarrow> 'w \<Rightarrow> 'w option" where
  "poll lsr msk w =
     (case lsr w of (v, w) \<Rightarrow> if v AND msk \<noteq> 0 then Some w else poll lsr msk w)"

declare poll.simps [code]

definition uart_recv :: "'w mmio \<Rightarrow> 'w \<Rightarrow> (u32 \<times> 'w) option" where
  "uart_recv d w =
     Option.bind (poll (uart_lsr d) 0x01 w) (\<lambda>w.
     let (v, w) = get32 d (AUX_MU_IO_REG UART_KBASE) w in
     Some (v AND 0xFF, w))"

definition NB_UART_NRET :: u32 where "NB_UART_NRET = - 1"

definition nb_uart_recv :: "'w mmio \<Rightarrow> 'w \<Rightarrow> u32 \<times> 'w" where
  "nb_uart_recv d w =
     (let (lsr, w) = uart_lsr d w in
      if lsr AND 0x01 \<noteq> 0
      then let (v, w) = get32 d (AUX_MU_IO_REG UART_KBASE) w in (v AND 0xFF, w)
      else (NB_UART_NRET, w))"

definition uart_send :: "'w mmio \<Rightarrow> u32 \<Rightarrow> 'w \<Rightarrow> 'w option" where
  "uart_send d c w =
     Option.bind (poll (uart_lsr d) 0x20 w) (\<lambda>w.
     Some (put32 d (AUX_MU_IO_REG UART_KBASE) c w))"

definition uart_init :: "'w mmio \<Rightarrow> 'w \<Rightarrow> 'w option" where
  "uart_init d w =
     (let b = UART_KBASE;
          (ra, w) = get32 d (GPFSEL1 b) w;
          ra = ra AND NOT (push_bit 12 7);
          ra = ra OR push_bit 12 2;
          ra = ra AND NOT (push_bit 15 7);
          ra = ra OR push_bit 15 2;
          w = put32 d (GPFSEL1 b) ra w;
          w = put32 d (GPPUD b) 0 w;
          _ = delay 150;
          w = put32 d (GPPUDCLK0 b) (push_bit 14 1 OR push_bit 15 1) w;
          _ = delay 150;
          w = put32 d (GPPUDCLK0 b) 0 w;
          w = put32 d (AUX_ENABLES b) 1 w;
          w = put32 d (AUX_MU_IER_REG b) 0 w;
          w = put32 d (AUX_MU_CNTL_REG b) 0 w;
          w = put32 d (AUX_MU_IER_REG b) 0 w;
          w = put32 d (AUX_MU_LCR_REG b) 3 w;
          w = put32 d (AUX_MU_MCR_REG b) 0 w;
          w = put32 d (AUX_MU_BAUD_REG b) 270 w;
          w = put32 d (AUX_MU_CNTL_REG b) 3 w
      in Option.bind (uart_send d 12 w) (\<lambda>w.
         Option.bind (uart_send d 27 w) (\<lambda>w.
         Option.bind (uart_send d (of_char CHR ''['') w) (\<lambda>w.
         Option.bind (uart_send d (of_char CHR ''2'') w) (\<lambda>w.
         uart_send d (of_char CHR ''J'') w)))))"

text \<open>A sequence of characters, one after the other.\<close>

fun send_all :: "'w mmio \<Rightarrow> u32 list \<Rightarrow> 'w \<Rightarrow> 'w option" where
  "send_all d [] w = Some w"
| "send_all d (c # cs) w = Option.bind (uart_send d c w) (send_all d cs)"

subsection \<open>The driver of the boot code\<close>

text \<open>\<open>delay\<close> of tools.S: subtract one, and go on unless the result is zero.\<close>

function early_delay :: "u64 \<Rightarrow> u64" where
  "early_delay x0 = (let x0 = x0 - 1 in if x0 \<noteq> 0 then early_delay x0 else x0)"
  by pat_completeness auto
termination
proof (relation "measure (\<lambda>x. unat (x - 1))", goal_cases)
  case (2 x0 y)
  then show ?case using measure_unat [of "x0 - 1"] by simp
qed simp

declare early_delay.simps [simp del]

definition early_uart_init :: "'w mmio \<Rightarrow> 'w \<Rightarrow> 'w" where
  "early_uart_init d w =
     (let b = 0;
          (ra, w) = get32 d (GPFSEL1 b) w;
          ra = ra AND NOT (push_bit 12 7);
          ra = ra OR push_bit 12 2;
          ra = ra AND NOT (push_bit 15 7);
          ra = ra OR push_bit 15 2;
          w = put32 d (GPFSEL1 b) ra w;
          w = put32 d (GPPUD b) 0 w;
          _ = early_delay 150;
          w = put32 d (GPPUDCLK0 b) (push_bit 14 1 OR push_bit 15 1) w;
          _ = early_delay 150;
          w = put32 d (GPPUDCLK0 b) 0 w;
          w = put32 d (AUX_ENABLES b) 1 w;
          w = put32 d (AUX_MU_IER_REG b) 0 w;
          w = put32 d (AUX_MU_CNTL_REG b) 0 w;
          w = put32 d (AUX_MU_IER_REG b) 0 w;
          w = put32 d (AUX_MU_LCR_REG b) 3 w;
          w = put32 d (AUX_MU_MCR_REG b) 0 w;
          w = put32 d (AUX_MU_BAUD_REG b) 270 w
      in put32 d (AUX_MU_CNTL_REG b) 3 w)"

definition early_uart_lsr :: "'w mmio \<Rightarrow> 'w \<Rightarrow> u32 \<times> 'w" where
  "early_uart_lsr d w = get32 d (AUX_MU_LSR_REG 0) w"

definition early_uart_send :: "'w mmio \<Rightarrow> u32 \<Rightarrow> 'w \<Rightarrow> 'w option" where
  "early_uart_send d c w =
     Option.bind (poll (early_uart_lsr d) 0x20 w) (\<lambda>w.
     Some (put32 d (AUX_MU_IO_REG 0) c w))"

text \<open>\<open>char\<close> is unsigned on AArch64. The string is read from memory up to its NUL.\<close>

partial_function (option) uart_send_string :: "'w mmio \<Rightarrow> memory \<Rightarrow> u64 \<Rightarrow> 'w \<Rightarrow> 'w run" where
  "uart_send_string d m str w =
     (case m str of
        None \<Rightarrow> Some (Inl Undef)
      | Some c \<Rightarrow>
          if c \<noteq> 0
          then Option.bind (early_uart_send d (ucast c) w) (uart_send_string d m (str + 1))
          else Some (Inr w))"

declare uart_send_string.simps [code]

end
