(* ===== verification/Init_C.thy ===== *)
theory Init_C
  imports Boot_Mmu Uart
begin

text \<open>
  kernel/arch/aarch64/boot/raspi3/init/init_c.c: the C part of the boot code, and
  \<open>el1_mmu_activate\<close> of tools.S as far as it sets system registers (cache and TLB maintenance have
  no effect on this state).

  What the linker decides is a parameter, the record \<open>boot_image\<close>: the bounds of the bss section,
  the addresses of variables, of the boot tables and of the string literals. \<open>start_kernel\<close>, the
  assembly that jumps to the kernel proper, is a continuation.
\<close>

record sys_regs =
  mair_el1 :: u64
  tcr_el1 :: u64
  ttbr0_el1 :: u64
  ttbr1_el1 :: u64
  sctlr_el1 :: u64

record boot_image =
  bss_start :: u64
  bss_end :: u64
  clear_bss_flag :: u64
  secondary_boot_flag :: u64
  boot_pt :: boot_tables
  literal :: "string \<Rightarrow> u64"

record 'w boot_state =
  boot_mem :: memory
  uart_dev :: 'w
  sys :: sys_regs

subsection \<open>System registers\<close>

definition MMU_MAIR :: u64 where
  "MMU_MAIR = push_bit (8 * 0) 0xff OR push_bit (8 * 1) 0x04 OR push_bit (8 * 2) 0x44"

definition MMU_TCR_FLAGS1 :: u64 where
  "MMU_TCR_FLAGS1 = push_bit 14 0 OR push_bit 28 3 OR push_bit 26 1 OR push_bit 24 1 OR push_bit 16 (64 - 48)"

definition MMU_TCR_FLAGS0 :: u64 where
  "MMU_TCR_FLAGS0 = push_bit 30 0 OR push_bit 12 3 OR push_bit 10 1 OR push_bit 8 1 OR push_bit 0 (64 - 48)"

definition MMU_TCR :: u64 where
  "MMU_TCR = MMU_TCR_FLAGS1 OR MMU_TCR_FLAGS0 OR push_bit 32 0b101 OR push_bit 36 1"

abbreviation (input) SCTLR_M :: u64 where "SCTLR_M \<equiv> push_bit 0 1"
abbreviation (input) SCTLR_A :: u64 where "SCTLR_A \<equiv> push_bit 1 1"
abbreviation (input) SCTLR_C :: u64 where "SCTLR_C \<equiv> push_bit 2 1"
abbreviation (input) SCTLR_SA :: u64 where "SCTLR_SA \<equiv> push_bit 3 1"
abbreviation (input) SCTLR_SA0 :: u64 where "SCTLR_SA0 \<equiv> push_bit 4 1"
abbreviation (input) SCTLR_nAA :: u64 where "SCTLR_nAA \<equiv> push_bit 6 1"
abbreviation (input) SCTLR_I :: u64 where "SCTLR_I \<equiv> push_bit 12 1"

definition el1_mmu_activate :: "boot_tables \<Rightarrow> sys_regs \<Rightarrow> sys_regs" where
  "el1_mmu_activate T r =
     (let r = r\<lparr>mair_el1 := MMU_MAIR\<rparr>;
          r = r\<lparr>tcr_el1 := MMU_TCR\<rparr>;
          r = r\<lparr>ttbr0_el1 := boot_ttbr0_l0 T AND NOT 0xFFF\<rparr>;
          r = r\<lparr>ttbr1_el1 := boot_ttbr1_l0 T AND NOT 0xFFF\<rparr>;
          x8 = sctlr_el1 r;
          x8 = x8 OR SCTLR_M;
          x8 = x8 AND NOT SCTLR_A;
          x8 = x8 AND NOT SCTLR_SA0;
          x8 = x8 AND NOT SCTLR_SA;
          x8 = x8 OR SCTLR_nAA;
          x8 = x8 OR SCTLR_C;
          x8 = x8 OR SCTLR_I
      in r\<lparr>sctlr_el1 := x8\<rparr>)"

subsection \<open>The boot code\<close>

definition CRLF :: string where "CRLF = [CHR 0x0D, CHR 0x0A]"

definition send_literal :: "'w mmio \<Rightarrow> boot_image \<Rightarrow> string \<Rightarrow> 'w boot_state \<Rightarrow> 'w boot_state run" where
  "send_literal d im str s =
     fbind (uart_send_string d (boot_mem s) (literal im str) (uart_dev s)) (\<lambda>w.
     Some (Inr (s\<lparr>uart_dev := w\<rparr>)))"

definition init_c ::
  "nat \<Rightarrow> 'w mmio \<Rightarrow> boot_image \<Rightarrow> (u64 \<Rightarrow> 'w boot_state \<Rightarrow> 'a run) \<Rightarrow> 'w boot_state \<Rightarrow> 'a run" where
  "init_c fuel d im start_kernel s =
     fbind (Some (clear_bss (bss_start im) (bss_end im) (clear_bss_flag im) (boot_mem s))) (\<lambda>m.
     let s = s\<lparr>boot_mem := m\<rparr>;
         s = s\<lparr>uart_dev := early_uart_init d (uart_dev s)\<rparr> in
     fbind (send_literal d im (''boot: init_c'' @ CRLF) s) (\<lambda>s.
     fbind (send_literal d im (''[BOOT] Install boot page table'' @ CRLF) s) (\<lambda>s.
     fbind (init_boot_pt fuel (boot_pt im) (boot_mem s)) (\<lambda>m.
     let s = s\<lparr>boot_mem := m\<rparr>;
         s = s\<lparr>sys := el1_mmu_activate (boot_pt im) (sys s)\<rparr> in
     fbind (send_literal d im (''[BOOT] Enable el1 MMU'' @ CRLF) s) (\<lambda>s.
     fbind (send_literal d im (''[BOOT] Jump to kernel main'' @ CRLF) s) (\<lambda>s.
     start_kernel (secondary_boot_flag im) s))))))"

end
