(* ===== verification/Page_Table.thy ===== *)
theory Page_Table
  imports Pages
begin

text \<open>
  kernel/include/arch/aarch64/arch/mm/page_table.h and
  kernel/arch/aarch64/mm/page_table.c: the layout of page table entries, the walk of the
  four-level table, translation, mapping and unmapping with 4K pages and with 1G and 2M
  blocks, and the release of a table.

  A \<open>ptp_t *\<close> and a \<open>pte_t *\<close> are addresses; an entry is a 64-bit cell of memory. Every
  assignment to a bit-field reads, changes and writes the cell. A result parameter that a
  call may leave unwritten is an option, \<open>None\<close> while the caller's variable is
  uninitialised.
\<close>

subsection \<open>Bit-fields\<close>

type_synonym layout = "(string \<times> nat) list"

definition table_layout :: layout where
  "table_layout = [(''is_valid'', 1), (''is_table'', 1), (''ignored1'', 10), (''next_table_addr'', 36),
     (''reserved'', 4), (''ignored2'', 7), (''PXNTable'', 1), (''XNTable'', 1), (''APTable'', 2),
     (''NSTable'', 1)]"

definition l1_block_layout :: layout where
  "l1_block_layout = [(''is_valid'', 1), (''is_table'', 1), (''attr_index'', 3), (''NS'', 1), (''AP'', 2),
     (''SH'', 2), (''AF'', 1), (''nG'', 1), (''reserved1'', 4), (''nT'', 1), (''reserved2'', 13),
     (''pfn'', 18), (''reserved3'', 2), (''GP'', 1), (''reserved4'', 1), (''DBM'', 1),
     (''Contiguous'', 1), (''PXN'', 1), (''UXN'', 1), (''soft_reserved'', 4), (''PBHA'', 4)]"

definition l2_block_layout :: layout where
  "l2_block_layout = [(''is_valid'', 1), (''is_table'', 1), (''attr_index'', 3), (''NS'', 1), (''AP'', 2),
     (''SH'', 2), (''AF'', 1), (''nG'', 1), (''reserved1'', 4), (''nT'', 1), (''reserved2'', 4),
     (''pfn'', 27), (''reserved3'', 2), (''GP'', 1), (''reserved4'', 1), (''DBM'', 1),
     (''Contiguous'', 1), (''PXN'', 1), (''UXN'', 1), (''soft_reserved'', 4), (''PBHA'', 4)]"

definition l3_page_layout :: layout where
  "l3_page_layout = [(''is_valid'', 1), (''is_page'', 1), (''attr_index'', 3), (''NS'', 1), (''AP'', 2),
     (''SH'', 2), (''AF'', 1), (''nG'', 1), (''pfn'', 36), (''reserved'', 3), (''DBM'', 1),
     (''Contiguous'', 1), (''PXN'', 1), (''UXN'', 1), (''soft_reserved'', 4), (''PBHA'', 4),
     (''ignored'', 1)]"

text \<open>Offset and width of a bit-field: fields are allocated from bit 0 up.\<close>

fun field_of :: "nat \<Rightarrow> layout \<Rightarrow> string \<Rightarrow> nat \<times> nat" where
  "field_of off [] f = (off, 0)"
| "field_of off ((g, w) # fs) f = (if g = f then (off, w) else field_of (off + w) fs f)"

definition get_field :: "layout \<Rightarrow> string \<Rightarrow> u64 \<Rightarrow> u64" where
  "get_field lay f pte = (case field_of 0 lay f of (off, w) \<Rightarrow> take_bit w (drop_bit off pte))"

definition set_field :: "layout \<Rightarrow> string \<Rightarrow> u64 \<Rightarrow> u64 \<Rightarrow> u64" where
  "set_field lay f v pte = (case field_of 0 lay f of (off, w) \<Rightarrow>
     (pte AND NOT (push_bit off (mask w))) OR push_bit off (take_bit w v))"

subsection \<open>Constants and macros of the header\<close>

definition IS_PTE_INVALID :: "u64 \<Rightarrow> bool" where
  "IS_PTE_INVALID pte \<longleftrightarrow> pte AND 1 = 0"

definition IS_PTE_TABLE :: "u64 \<Rightarrow> bool" where
  "IS_PTE_TABLE pte \<longleftrightarrow> pte AND 2 \<noteq> 0"

abbreviation (input) PAGE_SHIFT :: nat where "PAGE_SHIFT \<equiv> 12"
abbreviation (input) PAGE_SIZE :: u64 where "PAGE_SIZE \<equiv> 0x1000"
abbreviation (input) PAGE_ORDER :: nat where "PAGE_ORDER \<equiv> 9"
abbreviation (input) PTP_ENTRIES :: nat where "PTP_ENTRIES \<equiv> 512"

definition GET_L0_INDEX :: "u64 \<Rightarrow> nat" where
  "GET_L0_INDEX va = unat (drop_bit (3 * PAGE_ORDER + PAGE_SHIFT) va AND mask PAGE_ORDER)"

definition GET_L1_INDEX :: "u64 \<Rightarrow> nat" where
  "GET_L1_INDEX va = unat (drop_bit (2 * PAGE_ORDER + PAGE_SHIFT) va AND mask PAGE_ORDER)"

definition GET_L2_INDEX :: "u64 \<Rightarrow> nat" where
  "GET_L2_INDEX va = unat (drop_bit (1 * PAGE_ORDER + PAGE_SHIFT) va AND mask PAGE_ORDER)"

definition GET_L3_INDEX :: "u64 \<Rightarrow> nat" where
  "GET_L3_INDEX va = unat (drop_bit (0 * PAGE_ORDER + PAGE_SHIFT) va AND mask PAGE_ORDER)"

definition L1_BLOCK_SIZE :: u64 where "L1_BLOCK_SIZE = 0x40000000"
definition L2_BLOCK_SIZE :: u64 where "L2_BLOCK_SIZE = 0x200000"

definition GET_VA_OFFSET_L1 :: "u64 \<Rightarrow> u64" where
  "GET_VA_OFFSET_L1 va = va AND (512 * 512 * 0x1000 - 1)"

definition GET_VA_OFFSET_L2 :: "u64 \<Rightarrow> u64" where
  "GET_VA_OFFSET_L2 va = va AND (512 * 0x1000 - 1)"

definition GET_VA_OFFSET_L3 :: "u64 \<Rightarrow> u64" where
  "GET_VA_OFFSET_L3 va = va AND (0x1000 - 1)"

definition GET_NEXT_PTP :: "u64 \<Rightarrow> u64" where
  "GET_NEXT_PTP e = phys_to_virt (push_bit PAGE_SHIFT (get_field table_layout ''next_table_addr'' e))"

abbreviation (input) VMR_WRITE :: u64 where "VMR_WRITE \<equiv> 2"
abbreviation (input) VMR_EXEC :: u64 where "VMR_EXEC \<equiv> 4"
abbreviation (input) VMR_DEVICE :: u64 where "VMR_DEVICE \<equiv> 8"
abbreviation (input) VMR_NOCACHE :: u64 where "VMR_NOCACHE \<equiv> 16"

abbreviation (input) ENOMAPPING :: int where "ENOMAPPING \<equiv> 203"
abbreviation (input) NORMAL_PTP :: int where "NORMAL_PTP \<equiv> 0"
abbreviation (input) BLOCK_PTP :: int where "BLOCK_PTP \<equiv> 1"

subsection \<open>Entries\<close>

definition modify64 ::
  "u64 \<Rightarrow> (u64 \<Rightarrow> u64) \<Rightarrow> 'z kernel_state_scheme \<Rightarrow> 'z kernel_state_scheme outcome"
where
  "modify64 a f s = rbind (read64 s a) (\<lambda>v. write64 a (f v) s)"

text \<open>The assignments \<open>set_pte_flags\<close> makes to an entry, in their order.\<close>

definition pte_flags :: "u64 \<Rightarrow> u64 \<Rightarrow> u64" where
  "pte_flags flags e =
    (let e = set_field l3_page_layout ''AP'' (if flags AND VMR_WRITE \<noteq> 0 then 1 else 3) e;
         e = set_field l3_page_layout ''UXN'' (if flags AND VMR_EXEC \<noteq> 0 then 0 else 1) e;
         e = set_field l3_page_layout ''PXN'' 1 e;
         e = set_field l3_page_layout ''AF'' 1 e;
         e = set_field l3_page_layout ''nG'' 1 e;
         e = set_field l3_page_layout ''SH'' 3 e
     in if flags AND VMR_DEVICE \<noteq> 0 then
          set_field l3_page_layout ''SH'' 0 (set_field l3_page_layout ''attr_index'' 1 e)
        else if flags AND VMR_NOCACHE \<noteq> 0 then set_field l3_page_layout ''attr_index'' 2 e
        else set_field l3_page_layout ''attr_index'' 0 e)"

definition set_pte_flags ::
  "u64 \<Rightarrow> u64 \<Rightarrow> int \<Rightarrow> 'z kernel_state_scheme \<Rightarrow> 'z kernel_state_scheme outcome"
where
  "set_pte_flags entry flags kind s =
     rbind (bug_on (kind \<noteq> 0)) (\<lambda>_.
     modify64 entry (pte_flags flags) s)"

text \<open>
  \<open>get_next_ptp\<close> returns the state, the return value and the two result parameters. The
  entry is read once more after a new table was linked.
\<close>

definition alloc_ptp :: "u64 \<Rightarrow> 'z kernel_state_scheme \<Rightarrow> 'z kernel_state_scheme outcome" where
  "alloc_ptp entry s =
     rbind (get_pages s 0) (\<lambda>(s, new_ptp).
     rbind (bug_on (new_ptp = 0)) (\<lambda>_.
     rbind (fill new_ptp 0 PAGE_SIZE s) (\<lambda>s.
     let new_ptp_paddr = virt_to_phys new_ptp;
         new_pte_val = set_field table_layout ''is_valid'' 1 0;
         new_pte_val = set_field table_layout ''is_table'' 1 new_pte_val;
         new_pte_val = set_field table_layout ''next_table_addr'' (drop_bit PAGE_SHIFT new_ptp_paddr) new_pte_val
     in write64 entry new_pte_val s)))"

definition ptp_index :: "nat \<Rightarrow> u64 \<Rightarrow> nat outcome" where
  "ptp_index level va =
     (if level = 0 then Inr (GET_L0_INDEX va)
      else if level = 1 then Inr (GET_L1_INDEX va)
      else if level = 2 then Inr (GET_L2_INDEX va)
      else if level = 3 then Inr (GET_L3_INDEX va)
      else Inl Bug)"

type_synonym 'z ptp_result = "'z kernel_state_scheme \<times> int \<times> u64 option \<times> u64 option"

definition get_next_ptp ::
  "'z kernel_state_scheme \<Rightarrow> u64 \<Rightarrow> nat \<Rightarrow> u64 \<Rightarrow> u64 option \<Rightarrow> u64 option \<Rightarrow> bool \<Rightarrow> 'z ptp_result outcome"
where
  "get_next_ptp s cur_ptp level va next_ptp pte alloc =
    (if cur_ptp = 0 then Inr (s, - ENOMAPPING, next_ptp, pte)
     else rbind (ptp_index level va) (\<lambda>index.
     let entry = cur_ptp + of_nat (8 * index) in
     rbind (read64 s entry) (\<lambda>e.
     if level = 3 then
       if IS_PTE_INVALID e then Inr (s, - ENOMAPPING, next_ptp, Some entry)
       else Inr (s, BLOCK_PTP, next_ptp, Some entry)
     else if IS_PTE_INVALID e \<and> \<not> alloc then Inr (s, - ENOMAPPING, next_ptp, pte)
     else
       rbind (if IS_PTE_INVALID e then alloc_ptp entry s else Inr s) (\<lambda>s.
       rbind (read64 s entry) (\<lambda>e.
       Inr (s, if IS_PTE_TABLE e then NORMAL_PTP else BLOCK_PTP, Some (GET_NEXT_PTP e), Some entry))))))"

subsection \<open>Translation\<close>

text \<open>
  \<open>has_pa\<close> and \<open>has_entry\<close>: the caller passed a non-null \<open>pa\<close>, \<open>entry\<close>. The result is the
  return value and what was written through the two pointers. The walk does not allocate, so
  the state is not changed.
\<close>

definition query_result ::
  "bool \<Rightarrow> bool \<Rightarrow> u64 \<Rightarrow> u64 \<Rightarrow> (int \<times> u64 option \<times> u64 option) outcome"
where
  "query_result has_pa has_entry pa pte =
     rbind (bug_on (\<not> has_pa)) (\<lambda>_.
     Inr (0, Some pa, if has_entry then Some pte else None))"

definition query_in_pgtbl ::
  "'z kernel_state_scheme \<Rightarrow> u64 \<Rightarrow> u64 \<Rightarrow> bool \<Rightarrow> bool \<Rightarrow> (int \<times> u64 option \<times> u64 option) outcome"
where
  "query_in_pgtbl s pgtbl va has_pa has_entry =
     rbind (get_next_ptp s pgtbl 0 va None None False) (\<lambda>(s, ret, l1_ptp, pte).
     rbind (bug_on (ret \<noteq> - ENOMAPPING \<and> ret \<noteq> BLOCK_PTP \<and> ret \<noteq> NORMAL_PTP)) (\<lambda>_.
     if ret < 0 then Inr (ret, None, None) else
     rbind (deref l1_ptp) (\<lambda>l1_ptp.
     rbind (get_next_ptp s l1_ptp 1 va None pte False) (\<lambda>(s, ret, l2_ptp, pte).
     rbind (bug_on (ret \<noteq> - ENOMAPPING \<and> ret \<noteq> BLOCK_PTP \<and> ret \<noteq> NORMAL_PTP)) (\<lambda>_.
     if ret < 0 then rbind (bug_on (ret \<noteq> - ENOMAPPING)) (\<lambda>_. Inr (ret, None, None)) else
     if ret = BLOCK_PTP then
       rbind (deref pte) (\<lambda>pte.
       rbind (read64 s pte) (\<lambda>e.
       query_result has_pa has_entry
         (push_bit 30 (get_field l1_block_layout ''pfn'' e) OR GET_VA_OFFSET_L1 va) pte)) else
     rbind (deref l2_ptp) (\<lambda>l2_ptp.
     rbind (get_next_ptp s l2_ptp 2 va None pte False) (\<lambda>(s, ret, l3_ptp, pte).
     rbind (bug_on (ret \<noteq> - ENOMAPPING \<and> ret \<noteq> BLOCK_PTP \<and> ret \<noteq> NORMAL_PTP)) (\<lambda>_.
     if ret < 0 then rbind (bug_on (ret \<noteq> - ENOMAPPING)) (\<lambda>_. Inr (ret, None, None)) else
     if ret = BLOCK_PTP then
       rbind (deref pte) (\<lambda>pte.
       rbind (read64 s pte) (\<lambda>e.
       query_result has_pa has_entry
         (push_bit 21 (get_field l2_block_layout ''pfn'' e) OR GET_VA_OFFSET_L2 va) pte)) else
     rbind (deref l3_ptp) (\<lambda>l3_ptp.
     rbind (get_next_ptp s l3_ptp 3 va None pte False) (\<lambda>(s, ret, next_ptp, pte).
     rbind (bug_on (ret \<noteq> - ENOMAPPING \<and> ret \<noteq> BLOCK_PTP)) (\<lambda>_.
     if ret < 0 then rbind (bug_on (ret \<noteq> - ENOMAPPING)) (\<lambda>_. Inr (ret, None, None)) else
     rbind (deref pte) (\<lambda>pte.
     rbind (read64 s pte) (\<lambda>e.
     query_result has_pa has_entry
       (push_bit PAGE_SHIFT (get_field l3_page_layout ''pfn'' e) OR GET_VA_OFFSET_L3 va) pte)))))))))))))"

subsection \<open>Mapping and unmapping\<close>

text \<open>
  The four functions share the loop \<open>while (va < va_end)\<close>: the body returns the state and by
  how much it advances \<open>va\<close> (and \<open>pa\<close>). \<open>va\<close> may wrap around when \<open>va_end\<close> is close to
  \<open>2 ^ 64\<close>, and then the loop does not end, so the loop takes fuel: \<open>None\<close> means that the
  fuel did not suffice. The functions return 0.
\<close>

fun va_loop ::
  "nat \<Rightarrow> ('s \<Rightarrow> u64 \<Rightarrow> u64 \<Rightarrow> ('s \<times> u64) outcome) \<Rightarrow> u64 \<Rightarrow> 's \<Rightarrow> u64 \<Rightarrow> u64 \<Rightarrow> ('s \<times> int) outcome option"
where
  "va_loop 0 body va_end s va pa = (if va < va_end then None else Some (Inr (s, 0)))"
| "va_loop (Suc fuel) body va_end s va pa =
     (if va < va_end then
        case body s va pa of
          Inl e \<Rightarrow> Some (Inl e)
        | Inr (s, step) \<Rightarrow> va_loop fuel body va_end s (va + step) (pa + step)
      else Some (Inr (s, 0)))"

text \<open>The last step of mapping a 4K page: fill in the level 3 entry.\<close>

definition fill_l3_pte ::
  "u64 \<Rightarrow> u64 \<Rightarrow> u64 \<Rightarrow> 'z kernel_state_scheme \<Rightarrow> 'z kernel_state_scheme outcome"
where
  "fill_l3_pte pte pa flags s =
     rbind (write64 pte 0 s) (\<lambda>s.
     rbind (modify64 pte (set_field l3_page_layout ''is_valid'' 1) s) (\<lambda>s.
     rbind (modify64 pte (set_field l3_page_layout ''is_page'' 1) s) (\<lambda>s.
     rbind (modify64 pte (set_field l3_page_layout ''pfn'' (drop_bit PAGE_SHIFT pa)) s) (\<lambda>s.
     set_pte_flags pte flags 0 s))))"

definition fill_l1_block ::
  "u64 \<Rightarrow> u64 \<Rightarrow> u64 \<Rightarrow> 'z kernel_state_scheme \<Rightarrow> 'z kernel_state_scheme outcome"
where
  "fill_l1_block pte pa flags s =
     rbind (write64 pte 0 s) (\<lambda>s.
     rbind (modify64 pte (set_field l1_block_layout ''is_valid'' 1) s) (\<lambda>s.
     rbind (modify64 pte (set_field l1_block_layout ''is_table'' 0) s) (\<lambda>s.
     rbind (modify64 pte (set_field l1_block_layout ''pfn'' (drop_bit 30 pa)) s) (\<lambda>s.
     set_pte_flags pte flags 0 s))))"

definition fill_l2_block ::
  "u64 \<Rightarrow> u64 \<Rightarrow> u64 \<Rightarrow> 'z kernel_state_scheme \<Rightarrow> 'z kernel_state_scheme outcome"
where
  "fill_l2_block pte pa flags s =
     rbind (write64 pte 0 s) (\<lambda>s.
     rbind (modify64 pte (set_field l2_block_layout ''is_valid'' 1) s) (\<lambda>s.
     rbind (modify64 pte (set_field l2_block_layout ''is_table'' 0) s) (\<lambda>s.
     rbind (modify64 pte (set_field l2_block_layout ''pfn'' (drop_bit 21 pa)) s) (\<lambda>s.
     set_pte_flags pte flags 0 s))))"

definition map_page_step ::
  "u64 \<Rightarrow> u64 \<Rightarrow> 'z kernel_state_scheme \<Rightarrow> u64 \<Rightarrow> u64 \<Rightarrow> ('z kernel_state_scheme \<times> u64) outcome"
where
  "map_page_step pgtbl flags s va pa =
     rbind (get_next_ptp s pgtbl 0 va None None True) (\<lambda>(s, ret, l1_ptp, pte).
     rbind (bug_on (ret < 0)) (\<lambda>_.
     rbind (deref l1_ptp) (\<lambda>l1_ptp.
     rbind (get_next_ptp s l1_ptp 1 va None pte True) (\<lambda>(s, ret, l2_ptp, pte).
     rbind (bug_on (ret < 0)) (\<lambda>_.
     rbind (deref l2_ptp) (\<lambda>l2_ptp.
     rbind (get_next_ptp s l2_ptp 2 va None pte True) (\<lambda>(s, ret, l3_ptp, pte).
     rbind (bug_on (ret < 0)) (\<lambda>_.
     rbind (deref l3_ptp) (\<lambda>l3_ptp.
     rbind (get_next_ptp s l3_ptp 3 va None pte False) (\<lambda>(s, ret, _, pte).
     rbind (bug_on (ret \<noteq> - ENOMAPPING \<and> ret \<noteq> BLOCK_PTP)) (\<lambda>_.
     rbind (deref pte) (\<lambda>pte.
     rbind (fill_l3_pte pte pa flags s) (\<lambda>s.
     Inr (s, PAGE_SIZE))))))))))))))"

definition map_range_in_pgtbl ::
  "nat \<Rightarrow> 'z kernel_state_scheme \<Rightarrow> u64 \<Rightarrow> u64 \<Rightarrow> u64 \<Rightarrow> u64 \<Rightarrow> u64 \<Rightarrow> ('z kernel_state_scheme \<times> int) outcome option"
where
  "map_range_in_pgtbl fuel s pgtbl va pa len flags =
     va_loop fuel (map_page_step pgtbl flags) (va + len) s va pa"

definition unmap_page_step ::
  "u64 \<Rightarrow> 'z kernel_state_scheme \<Rightarrow> u64 \<Rightarrow> ('z kernel_state_scheme \<times> u64) outcome"
where
  "unmap_page_step pgtbl s va =
     rbind (get_next_ptp s pgtbl 0 va None None False) (\<lambda>(s, ret, l1_ptp, pte).
     if ret < 0 then Inr (s, PAGE_SIZE) else
     rbind (deref l1_ptp) (\<lambda>l1_ptp.
     rbind (get_next_ptp s l1_ptp 1 va None pte False) (\<lambda>(s, ret, l2_ptp, pte).
     if ret < 0 then Inr (s, PAGE_SIZE) else
     rbind (deref l2_ptp) (\<lambda>l2_ptp.
     rbind (get_next_ptp s l2_ptp 2 va None pte False) (\<lambda>(s, ret, l3_ptp, pte).
     if ret < 0 then Inr (s, PAGE_SIZE) else
     rbind (deref l3_ptp) (\<lambda>l3_ptp.
     rbind (get_next_ptp s l3_ptp 3 va None pte False) (\<lambda>(s, ret, next_ptp, pte).
     if ret < 0 then Inr (s, PAGE_SIZE) else
     rbind (bug_on (ret \<noteq> BLOCK_PTP)) (\<lambda>_.
     rbind (deref pte) (\<lambda>pte.
     rbind (write64 pte 0 s) (\<lambda>s.
     Inr (s, PAGE_SIZE)))))))))))"

definition unmap_range_in_pgtbl ::
  "nat \<Rightarrow> 'z kernel_state_scheme \<Rightarrow> u64 \<Rightarrow> u64 \<Rightarrow> u64 \<Rightarrow> ('z kernel_state_scheme \<times> int) outcome option"
where
  "unmap_range_in_pgtbl fuel s pgtbl va len =
     va_loop fuel (\<lambda>s va _. unmap_page_step pgtbl s va) (va + len) s va 0"

subsection \<open>Huge mappings\<close>

definition map_huge_step ::
  "u64 \<Rightarrow> u64 \<Rightarrow> u64 \<Rightarrow> 'z kernel_state_scheme \<Rightarrow> u64 \<Rightarrow> u64 \<Rightarrow> ('z kernel_state_scheme \<times> u64) outcome"
where
  "map_huge_step pgtbl flags va_end s va pa =
     rbind (get_next_ptp s pgtbl 0 va None None True) (\<lambda>(s, ret, l1_ptp, pte).
     rbind (bug_on (ret < 0)) (\<lambda>_.
     rbind (deref l1_ptp) (\<lambda>l1_ptp.
     if va AND (L1_BLOCK_SIZE - 1) = 0 \<and> pa AND (L1_BLOCK_SIZE - 1) = 0 \<and> L1_BLOCK_SIZE \<le> va_end - va then
       rbind (fill_l1_block (l1_ptp + of_nat (8 * GET_L1_INDEX va)) pa flags s) (\<lambda>s.
       Inr (s, L1_BLOCK_SIZE))
     else
     rbind (get_next_ptp s l1_ptp 1 va None pte True) (\<lambda>(s, ret, l2_ptp, pte).
     rbind (bug_on (ret < 0)) (\<lambda>_.
     rbind (deref l2_ptp) (\<lambda>l2_ptp.
     if va AND (L2_BLOCK_SIZE - 1) = 0 \<and> pa AND (L2_BLOCK_SIZE - 1) = 0 \<and> L2_BLOCK_SIZE \<le> va_end - va then
       rbind (fill_l2_block (l2_ptp + of_nat (8 * GET_L2_INDEX va)) pa flags s) (\<lambda>s.
       Inr (s, L2_BLOCK_SIZE))
     else
     rbind (get_next_ptp s l2_ptp 2 va None pte True) (\<lambda>(s, ret, l3_ptp, pte).
     rbind (bug_on (ret < 0)) (\<lambda>_.
     rbind (deref l3_ptp) (\<lambda>l3_ptp.
     rbind (get_next_ptp s l3_ptp 3 va None pte False) (\<lambda>(s, ret, _, pte).
     rbind (bug_on (ret \<noteq> - ENOMAPPING \<and> ret \<noteq> BLOCK_PTP)) (\<lambda>_.
     rbind (deref pte) (\<lambda>pte.
     rbind (fill_l3_pte pte pa flags s) (\<lambda>s.
     Inr (s, PAGE_SIZE))))))))))))))"

definition map_range_in_pgtbl_huge ::
  "nat \<Rightarrow> 'z kernel_state_scheme \<Rightarrow> u64 \<Rightarrow> u64 \<Rightarrow> u64 \<Rightarrow> u64 \<Rightarrow> u64 \<Rightarrow> ('z kernel_state_scheme \<times> int) outcome option"
where
  "map_range_in_pgtbl_huge fuel s pgtbl va pa len flags =
     va_loop fuel (map_huge_step pgtbl flags (va + len)) (va + len) s va pa"

definition unmap_huge_step ::
  "u64 \<Rightarrow> 'z kernel_state_scheme \<Rightarrow> u64 \<Rightarrow> ('z kernel_state_scheme \<times> u64) outcome"
where
  "unmap_huge_step pgtbl s va =
     rbind (get_next_ptp s pgtbl 0 va None None False) (\<lambda>(s, ret, l1_ptp, pte).
     if ret < 0 then Inr (s, PAGE_SIZE) else
     rbind (deref l1_ptp) (\<lambda>l1_ptp.
     rbind (get_next_ptp s l1_ptp 1 va None pte False) (\<lambda>(s, ret, l2_ptp, pte).
     if ret < 0 then Inr (s, PAGE_SIZE) else
     if ret = BLOCK_PTP then
       rbind (deref pte) (\<lambda>pte. rbind (write64 pte 0 s) (\<lambda>s. Inr (s, L1_BLOCK_SIZE)))
     else
     rbind (deref l2_ptp) (\<lambda>l2_ptp.
     rbind (get_next_ptp s l2_ptp 2 va None pte False) (\<lambda>(s, ret, l3_ptp, pte).
     if ret < 0 then Inr (s, PAGE_SIZE) else
     if ret = BLOCK_PTP then
       rbind (deref pte) (\<lambda>pte. rbind (write64 pte 0 s) (\<lambda>s. Inr (s, L2_BLOCK_SIZE)))
     else
     rbind (deref l3_ptp) (\<lambda>l3_ptp.
     rbind (get_next_ptp s l3_ptp 3 va None pte False) (\<lambda>(s, ret, _, pte).
     rbind (bug_on (ret \<noteq> - ENOMAPPING \<and> ret \<noteq> BLOCK_PTP)) (\<lambda>_.
     if ret = - ENOMAPPING then Inr (s, PAGE_SIZE) else
     rbind (deref pte) (\<lambda>pte.
     rbind (write64 pte 0 s) (\<lambda>s.
     Inr (s, PAGE_SIZE)))))))))))"

definition unmap_range_in_pgtbl_huge ::
  "nat \<Rightarrow> 'z kernel_state_scheme \<Rightarrow> u64 \<Rightarrow> u64 \<Rightarrow> u64 \<Rightarrow> ('z kernel_state_scheme \<times> int) outcome option"
where
  "unmap_range_in_pgtbl_huge fuel s pgtbl va len =
     va_loop fuel (\<lambda>s va _. unmap_huge_step pgtbl s va) (va + len) s va 0"

subsection \<open>Making and releasing a table\<close>

text \<open>How the callers make a page table: \<open>pgtbl = get_pages(0); memset(pgtbl, 0, PAGE_SIZE)\<close>.\<close>

definition new_page_table :: "'z kernel_state_scheme \<Rightarrow> ('z kernel_state_scheme \<times> u64) outcome" where
  "new_page_table s =
     rbind (get_pages s 0) (\<lambda>(s, pgtbl).
     rbind (fill pgtbl 0 PAGE_SIZE s) (\<lambda>s.
     Inr (s, pgtbl)))"

text \<open>
  One of the loops of \<open>free_page_table\<close>: for each valid table entry of \<open>ptp\<close>, in order, the
  body is run on the table it points to.
\<close>

fun for_each_table ::
  "u64 \<Rightarrow> ('z kernel_state_scheme \<Rightarrow> u64 \<Rightarrow> 'z kernel_state_scheme outcome) \<Rightarrow> nat list \<Rightarrow>
   'z kernel_state_scheme \<Rightarrow> 'z kernel_state_scheme outcome"
where
  "for_each_table ptp body [] s = Inr s"
| "for_each_table ptp body (i # js) s =
     rbind (read64 s (ptp + of_nat (8 * i))) (\<lambda>e.
     rbind (if IS_PTE_INVALID e \<or> \<not> IS_PTE_TABLE e then Inr s else body s (GET_NEXT_PTP e))
       (for_each_table ptp body js))"

definition free_l2_ptp :: "'z kernel_state_scheme \<Rightarrow> u64 \<Rightarrow> 'z kernel_state_scheme outcome" where
  "free_l2_ptp s l2_ptp =
     rbind (for_each_table l2_ptp free_pages [0..<PTP_ENTRIES] s) (\<lambda>s. free_pages s l2_ptp)"

definition free_l1_ptp :: "'z kernel_state_scheme \<Rightarrow> u64 \<Rightarrow> 'z kernel_state_scheme outcome" where
  "free_l1_ptp s l1_ptp =
     rbind (for_each_table l1_ptp free_l2_ptp [0..<PTP_ENTRIES] s) (\<lambda>s. free_pages s l1_ptp)"

definition free_page_table :: "'z kernel_state_scheme \<Rightarrow> u64 \<Rightarrow> 'z kernel_state_scheme outcome" where
  "free_page_table s pgtbl =
     (if pgtbl = 0 then Inr s
      else rbind (for_each_table pgtbl free_l1_ptp [0..<PTP_ENTRIES] s) (\<lambda>s. free_pages s pgtbl))"

end
