(* ===== verification/Page_Table_Walk.thy ===== *)
theory Page_Table_Walk
  imports Page_Table "HOL-Library.Sublist"
begin

text \<open>
  Page tables as trees of table pages in memory: \<open>tbl m r is\<close> is the table reached from the
  root \<open>r\<close> along the indices \<open>is\<close>, \<open>walk m r path\<close> the entry a translation ends at, and
  \<open>pt_wf s r A\<close> the invariant of a table whose pages are among the held pages \<open>A\<close>. The main
  lemma says what changing one entry does to every walk.
\<close>

subsection \<open>Reading and writing bit-fields\<close>

lemma take_set_field:
  assumes "field_of 0 lay f = (off, w)" "off + w \<le> 64"
  shows "get_field lay f (set_field lay f v e) = take_bit w v"
  using assms by (intro bit_word_eqI) (auto simp: get_field_def set_field_def bit_simps)

lemma get_set_field_other:
  assumes "field_of 0 lay f = (off, w)" "field_of 0 lay' g = (off', w')"
    and "off + w \<le> off' \<or> off' + w' \<le> off"
  shows "get_field lay f (set_field lay' g v e) = get_field lay f e"
  using assms by (intro bit_word_eqI) (auto simp: get_field_def set_field_def bit_simps dest: bit_imp_le_length)

lemma IS_PTE_INVALID_bit: "IS_PTE_INVALID e \<longleftrightarrow> \<not> bit e 0"
  using and_exp_eq_0_iff_not_bit [of e 0] by (simp add: IS_PTE_INVALID_def)

lemma IS_PTE_TABLE_bit: "IS_PTE_TABLE e \<longleftrightarrow> bit e 1"
  using and_exp_eq_0_iff_not_bit [of e 1] by (simp add: IS_PTE_TABLE_def)

lemma IS_PTE_INVALID_0 [simp]: "IS_PTE_INVALID 0"
  by (simp add: IS_PTE_INVALID_def)

text \<open>An entry that links a new table page.\<close>

definition table_pte :: "u64 \<Rightarrow> u64" where
  "table_pte q = set_field table_layout ''next_table_addr'' (drop_bit 12 (virt_to_phys q))
     (set_field table_layout ''is_table'' 1 (set_field table_layout ''is_valid'' 1 0))"

lemma table_fields:
  "field_of 0 table_layout ''is_valid'' = (0, 1)" "field_of 0 table_layout ''is_table'' = (1, 1)"
  "field_of 0 table_layout ''next_table_addr'' = (12, 36)"
  by (simp_all add: table_layout_def)

lemma l3_fields:
  "field_of 0 l3_page_layout ''is_valid'' = (0, 1)" "field_of 0 l3_page_layout ''is_page'' = (1, 1)"
  "field_of 0 l3_page_layout ''attr_index'' = (2, 3)" "field_of 0 l3_page_layout ''AP'' = (6, 2)"
  "field_of 0 l3_page_layout ''SH'' = (8, 2)" "field_of 0 l3_page_layout ''AF'' = (10, 1)"
  "field_of 0 l3_page_layout ''nG'' = (11, 1)" "field_of 0 l3_page_layout ''pfn'' = (12, 36)"
  "field_of 0 l3_page_layout ''PXN'' = (53, 1)" "field_of 0 l3_page_layout ''UXN'' = (54, 1)"
  by (simp_all add: l3_page_layout_def)

lemma block_fields:
  "field_of 0 l1_block_layout ''is_valid'' = (0, 1)" "field_of 0 l1_block_layout ''is_table'' = (1, 1)"
  "field_of 0 l1_block_layout ''pfn'' = (30, 18)"
  "field_of 0 l2_block_layout ''is_valid'' = (0, 1)" "field_of 0 l2_block_layout ''is_table'' = (1, 1)"
  "field_of 0 l2_block_layout ''pfn'' = (21, 27)"
  by (simp_all add: l1_block_layout_def l2_block_layout_def)

lemma bit_set_field:
  assumes "field_of 0 lay f = (off, w)"
  shows "bit (set_field lay f v e) n \<longleftrightarrow>
    n < 64 \<and> (if off \<le> n \<and> n < off + w then bit v (n - off) else bit e n)"
  using assms by (auto simp: set_field_def bit_simps dest: bit_imp_le_length)

text \<open>The fields written after the two low bits leave them alone.\<close>

lemma pte_flags_low: "n < 2 \<Longrightarrow> bit (pte_flags flags e) n = bit e n"
  by (auto simp: pte_flags_def Let_def bit_set_field [OF l3_fields(3)] bit_set_field [OF l3_fields(4)]
      bit_set_field [OF l3_fields(5)] bit_set_field [OF l3_fields(6)] bit_set_field [OF l3_fields(7)]
      bit_set_field [OF l3_fields(9)] bit_set_field [OF l3_fields(10)])

lemma pte_flags_pfn: "12 \<le> n \<Longrightarrow> n < 48 \<Longrightarrow> bit (pte_flags flags e) n = bit e n"
  by (auto simp: pte_flags_def Let_def bit_set_field [OF l3_fields(3)] bit_set_field [OF l3_fields(4)]
      bit_set_field [OF l3_fields(5)] bit_set_field [OF l3_fields(6)] bit_set_field [OF l3_fields(7)]
      bit_set_field [OF l3_fields(9)] bit_set_field [OF l3_fields(10)])

text \<open>The three kinds of leaf entries the kernel writes.\<close>

definition l3_pte :: "u64 \<Rightarrow> u64 \<Rightarrow> u64" where
  "l3_pte pa flags = pte_flags flags (set_field l3_page_layout ''pfn'' (drop_bit 12 pa)
     (set_field l3_page_layout ''is_page'' 1 (set_field l3_page_layout ''is_valid'' 1 0)))"

definition l1_pte :: "u64 \<Rightarrow> u64 \<Rightarrow> u64" where
  "l1_pte pa flags = pte_flags flags (set_field l1_block_layout ''pfn'' (drop_bit 30 pa)
     (set_field l1_block_layout ''is_table'' 0 (set_field l1_block_layout ''is_valid'' 1 0)))"

definition l2_pte :: "u64 \<Rightarrow> u64 \<Rightarrow> u64" where
  "l2_pte pa flags = pte_flags flags (set_field l2_block_layout ''pfn'' (drop_bit 21 pa)
     (set_field l2_block_layout ''is_table'' 0 (set_field l2_block_layout ''is_valid'' 1 0)))"

lemma leaf_pte_kind:
  "\<not> IS_PTE_INVALID (l3_pte pa flags)" "IS_PTE_TABLE (l3_pte pa flags)"
  "\<not> IS_PTE_INVALID (l1_pte pa flags)" "\<not> IS_PTE_TABLE (l1_pte pa flags)"
  "\<not> IS_PTE_INVALID (l2_pte pa flags)" "\<not> IS_PTE_TABLE (l2_pte pa flags)"
  by (simp_all add: l3_pte_def l1_pte_def l2_pte_def IS_PTE_INVALID_bit IS_PTE_TABLE_bit pte_flags_low
      bit_set_field [OF l3_fields(1)] bit_set_field [OF l3_fields(2)] bit_set_field [OF l3_fields(8)]
      bit_set_field [OF block_fields(1)] bit_set_field [OF block_fields(2)] bit_set_field [OF block_fields(3)]
      bit_set_field [OF block_fields(4)] bit_set_field [OF block_fields(5)] bit_set_field [OF block_fields(6)])

lemma table_pte_kind: "\<not> IS_PTE_INVALID (table_pte q)" "IS_PTE_TABLE (table_pte q)"
  by (simp_all add: table_pte_def IS_PTE_INVALID_bit IS_PTE_TABLE_bit
      bit_set_field [OF table_fields(1)] bit_set_field [OF table_fields(2)] bit_set_field [OF table_fields(3)])

lemma bit_below_power: "unat (w :: u64) < 2 ^ k \<Longrightarrow> bit w n \<Longrightarrow> n < k"
proof (rule ccontr)
  assume w: "unat w < 2 ^ k" "bit w n" "\<not> n < k"
  then have "(2 :: nat) ^ k \<le> 2 ^ n" by (intro power_increasing) simp_all
  with w(1) have "unat w < 2 ^ n" by (rule order_less_le_trans)
  then have "unat w div 2 ^ n = 0" by simp
  then have "\<not> bit (unat w) n" by (simp add: bit_iff_odd)
  with w(2) show False by (simp add: bit_unsigned_iff)
qed

lemma bit_above_dvd: "2 ^ k dvd unat (w :: u64) \<Longrightarrow> bit w n \<Longrightarrow> k \<le> n"
proof (rule ccontr)
  assume w: "2 ^ k dvd unat w" "bit w n" "\<not> k \<le> n"
  then obtain c where c: "unat w = 2 ^ k * c" by (elim dvdE)
  have "k = n + Suc (k - n - 1)" using w(3) by simp
  then have "unat w = 2 ^ n * (2 * (2 ^ (k - n - 1) * c))"
    unfolding c by (metis mult.assoc power_Suc power_add)
  then have "even (unat w div 2 ^ n)" by simp
  then have "\<not> bit (unat w) n" by (simp add: bit_iff_odd)
  with w(2) show False by (simp add: bit_unsigned_iff)
qed

lemma GET_NEXT_PTP_table_pte:
  assumes "4096 dvd unat q" "KBASE \<le> q"
  shows "GET_NEXT_PTP (table_pte q) = q"
proof -
  have u: "unat (virt_to_phys q) = unat q - unat KBASE"
    using assms(2) by (simp add: virt_to_phys_def unat_sub word_le_nat_alt)
  have "unat q < 2 ^ 64" using unsigned_less [of q] by simp
  then have lt: "unat (virt_to_phys q) < 2 ^ 48" unfolding u by (simp add: KBASE_def)
  have "(4096 :: nat) dvd unat KBASE" by (simp add: KBASE_def)
  then have "2 ^ 12 dvd unat (virt_to_phys q)" unfolding u using assms(1) by (simp add: dvd_diff_nat)
  note b = bit_below_power [OF lt] bit_above_dvd [OF this]
  have "get_field table_layout ''next_table_addr'' (table_pte q) = take_bit 36 (drop_bit 12 (virt_to_phys q))"
    unfolding table_pte_def by (rule take_set_field [OF table_fields(3)]) simp
  moreover have "push_bit 12 (take_bit 36 (drop_bit 12 (virt_to_phys q))) = virt_to_phys q"
  proof (rule bit_word_eqI)
    fix n show "bit (push_bit 12 (take_bit 36 (drop_bit 12 (virt_to_phys q)))) n \<longleftrightarrow> bit (virt_to_phys q) n"
      using b [of n] by (cases "bit (virt_to_phys q) n") (auto simp: bit_simps dest: bit_imp_le_length)
  qed
  ultimately show ?thesis by (simp add: GET_NEXT_PTP_def phys_to_virt_def virt_to_phys_def)
qed

subsection \<open>Tables and walks\<close>

definition entry_addr :: "u64 \<Rightarrow> nat \<Rightarrow> u64" where
  "entry_addr p i = p + of_nat (8 * i)"

fun tbl :: "memory \<Rightarrow> u64 \<Rightarrow> nat list \<Rightarrow> u64 option" where
  "tbl m p [] = Some p"
| "tbl m p (i # js) =
     (case load64 m (entry_addr p i) of
        Inl _ \<Rightarrow> None
      | Inr e \<Rightarrow> if \<not> IS_PTE_INVALID e \<and> IS_PTE_TABLE e then tbl m (GET_NEXT_PTP e) js else None)"

text \<open>
  The entry a translation along a path of indices ends at: its address, its value and the
  number of levels below it.
\<close>

fun walk :: "memory \<Rightarrow> u64 \<Rightarrow> nat list \<Rightarrow> (u64 \<times> u64 \<times> nat) option" where
  "walk m p [] = None"
| "walk m p (i # js) =
     (case load64 m (entry_addr p i) of
        Inl _ \<Rightarrow> None
      | Inr e \<Rightarrow>
          if IS_PTE_INVALID e then None
          else if IS_PTE_TABLE e \<and> js \<noteq> [] then walk m (GET_NEXT_PTP e) js
          else Some (entry_addr p i, e, length js))"

lemma tbl_append: "tbl m p (xs @ ys) = (case tbl m p xs of None \<Rightarrow> None | Some q \<Rightarrow> tbl m q ys)"
  by (induction m p xs rule: tbl.induct) (auto split: sum.splits option.splits)

lemma walk_Some:
  "walk m p path = Some x \<longleftrightarrow>
    (\<exists>xs k ys q e. path = xs @ k # ys \<and> tbl m p xs = Some q \<and> load64 m (entry_addr q k) = Inr e \<and>
      \<not> IS_PTE_INVALID e \<and> (IS_PTE_TABLE e \<longrightarrow> ys = []) \<and> x = (entry_addr q k, e, length ys))"
proof (induction m p path rule: walk.induct)
  case (2 m p i js)
  show ?case (is "_ \<longleftrightarrow> (\<exists>xs k ys q e. ?R xs k ys q e)")
  proof
    assume w: "walk m p (i # js) = Some x"
    then obtain e where e: "load64 m (entry_addr p i) = Inr e" "\<not> IS_PTE_INVALID e"
      by (auto split: sum.splits if_splits)
    show "\<exists>xs k ys q e. ?R xs k ys q e"
    proof (cases "IS_PTE_TABLE e \<and> js \<noteq> []")
      case True
      then have "walk m (GET_NEXT_PTP e) js = Some x" using w e by simp
      then obtain xs k ys q e' where *: "js = xs @ k # ys" "tbl m (GET_NEXT_PTP e) xs = Some q"
        "load64 m (entry_addr q k) = Inr e'" "\<not> IS_PTE_INVALID e'" "IS_PTE_TABLE e' \<longrightarrow> ys = []"
        "x = (entry_addr q k, e', length ys)"
        using 2 [OF e] True by blast
      then have "?R (i # xs) k ys q e'" using e True by simp
      then show ?thesis by blast
    next
      case False
      then have "?R [] i js p e" using w e by (auto split: if_splits)
      then show ?thesis by blast
    qed
  next
    assume "\<exists>xs k ys q e. ?R xs k ys q e"
    then obtain xs k ys q e where R: "?R xs k ys q e" by blast
    show "walk m p (i # js) = Some x"
    proof (cases xs)
      case Nil
      with R show ?thesis by (cases ys) auto
    next
      case (Cons i' xs')
      then have i: "i' = i" "js = xs' @ k # ys" using R by simp_all
      obtain e' where e': "load64 m (entry_addr p i) = Inr e'" "\<not> IS_PTE_INVALID e'" "IS_PTE_TABLE e'"
        "tbl m (GET_NEXT_PTP e') xs' = Some q"
        using R i Cons by (auto split: sum.splits if_splits)
      moreover have "walk m (GET_NEXT_PTP e') js = Some x"
        using 2 [OF e'(1,2)] e' i R by blast
      ultimately show ?thesis using i by simp
    qed
  qed
qed simp

subsection \<open>Well-formed page tables\<close>

definition tpath :: "nat list \<Rightarrow> bool" where
  "tpath xs \<longleftrightarrow> length xs < 4 \<and> set xs \<subseteq> {..<512}"

text \<open>
  \<open>pt_wf s r A\<close>: every table page reachable from the root \<open>r\<close> is one of the held pages \<open>A\<close>,
  is reached along one path only, and level 0 holds no blocks.
\<close>

definition pt_wf :: "'z kernel_state_scheme \<Rightarrow> u64 \<Rightarrow> (u64 \<times> nat) set \<Rightarrow> bool" where
  "pt_wf s r A \<longleftrightarrow> pages_held s A \<and>
     (\<forall>xs p. tpath xs \<longrightarrow> tbl (mem s) r xs = Some p \<longrightarrow> (p, 0) \<in> A) \<and>
     (\<forall>xs ys p. tpath xs \<longrightarrow> tpath ys \<longrightarrow> tbl (mem s) r xs = Some p \<longrightarrow> tbl (mem s) r ys = Some p \<longrightarrow> xs = ys) \<and>
     (\<forall>i < 512. \<forall>e. load64 (mem s) (entry_addr r i) = Inr e \<longrightarrow> \<not> IS_PTE_INVALID e \<longrightarrow> IS_PTE_TABLE e)"

lemma pt_wf_held: "pt_wf s r A \<Longrightarrow> pages_held s A"
  by (simp add: pt_wf_def)

lemma pt_wf_table: "pt_wf s r A \<Longrightarrow> tpath xs \<Longrightarrow> tbl (mem s) r xs = Some p \<Longrightarrow> (p, 0) \<in> A"
  by (simp add: pt_wf_def)

lemma pt_wf_inj:
  assumes "pt_wf s r A" "tpath xs" "tpath ys" "tbl (mem s) r xs = Some p" "tbl (mem s) r ys = Some p"
  shows "xs = ys"
proof -
  from assms(1) have inj: "\<forall>xs ys p. tpath xs \<longrightarrow> tpath ys \<longrightarrow> tbl (mem s) r xs = Some p \<longrightarrow>
      tbl (mem s) r ys = Some p \<longrightarrow> xs = ys"
    unfolding pt_wf_def by (elim conjE)
  show ?thesis by (rule inj [rule_format, OF assms(2-5)])
qed

lemma pt_wf_l0:
  "pt_wf s r A \<Longrightarrow> i < 512 \<Longrightarrow> load64 (mem s) (entry_addr r i) = Inr e \<Longrightarrow>
    \<not> IS_PTE_INVALID e \<Longrightarrow> IS_PTE_TABLE e"
  by (simp add: pt_wf_def)

lemma tpath_Nil [simp]: "tpath []"
  by (simp add: tpath_def)

lemma tpath_append: "tpath (xs @ ys) \<Longrightarrow> tpath xs"
  by (simp add: tpath_def)

text \<open>Entries of held pages are cells, and different entries have different addresses.\<close>

lemma held_entry:
  assumes "pages_held s A" "(p, 0) \<in> A" "i < 512"
  shows "cell_ok (mem s) (entry_addr p i)" "entry_addr p i \<in> chunk (p, 0)"
    "unat (entry_addr p i) = unat p + 8 * i"
  using pages_held_cell [OF assms] by (simp_all add: entry_addr_def)

lemma held_entry_inj:
  assumes held: "pages_held s A" and p: "(p, 0) \<in> A" "i < 512" and q: "(q, 0) \<in> A" "j < 512"
    and eq: "entry_addr p i = entry_addr q j"
  shows "p = q \<and> i = j"
proof -
  have "chunk (p, 0) \<inter> chunk (q, 0) \<noteq> {}"
    using held_entry(2) [OF held p] held_entry(2) [OF held q] eq by auto
  then have "p = q" using pages_held_apart [OF held p(1) q(1)] by auto
  moreover have "unat p + 8 * i = unat q + 8 * j"
    unfolding held_entry(3) [OF held p, symmetric] held_entry(3) [OF held q, symmetric]
    by (rule arg_cong [OF eq])
  ultimately show ?thesis by simp
qed

lemma pt_entry:
  assumes "pt_wf s r A" "tpath xs" "tbl (mem s) r xs = Some p" "i < 512"
  shows "cell_ok (mem s) (entry_addr p i)" "\<exists>e. load64 (mem s) (entry_addr p i) = Inr e"
    "p \<noteq> 0" "KBASE \<le> p"
proof -
  note h = pt_wf_held [OF assms(1)] and t = pt_wf_table [OF assms(1,2,3)]
  show c: "cell_ok (mem s) (entry_addr p i)" by (rule held_entry(1) [OF h t assms(4)])
  then show "\<exists>e. load64 (mem s) (entry_addr p i) = Inr e" by (rule load64_total)
  show "p \<noteq> 0" "KBASE \<le> p" using pages_held_chunk [OF h t] by simp_all
qed

subsection \<open>Changing one entry\<close>

text \<open>
  \<open>entry_update s r xs j s'\<close>: \<open>s'\<close> differs from \<open>s\<close>, on the table pages of \<open>r\<close>, at most in
  entry \<open>j\<close> of the table reached along \<open>xs\<close>.
\<close>

definition entry_update ::
  "memory \<Rightarrow> u64 \<Rightarrow> nat list \<Rightarrow> nat \<Rightarrow> memory \<Rightarrow> bool"
where
  "entry_update m r xs j m' \<longleftrightarrow>
     (\<forall>ys q i. tpath ys \<longrightarrow> tbl m r ys = Some q \<longrightarrow> i < 512 \<longrightarrow> (ys, i) \<noteq> (xs, j) \<longrightarrow>
        load64 m' (entry_addr q i) = load64 m (entry_addr q i))"

lemma entry_updateD:
  "entry_update m r xs j m' \<Longrightarrow> tpath ys \<Longrightarrow> tbl m r ys = Some q \<Longrightarrow> i < 512 \<Longrightarrow> (ys, i) \<noteq> (xs, j) \<Longrightarrow>
   load64 m' (entry_addr q i) = load64 m (entry_addr q i)"
  unfolding entry_update_def by blast

lemma tbl_snoc:
  "tbl m r (ys @ [k]) = (case tbl m r ys of None \<Rightarrow> None | Some q \<Rightarrow> tbl m q [k])"
  by (rule tbl_append)

lemma tbl_update:
  assumes upd: "entry_update m r xs j m'" and ys: "set ys \<subseteq> {..<512}" "length ys \<le> 4"
    and np: "\<not> prefix (xs @ [j]) ys"
  shows "tbl m' r ys = tbl m r ys"
  using ys np
proof (induction ys rule: rev_induct)
  case (snoc k ys)
  have ys: "tpath ys" "k < 512" using snoc.prems by (simp_all add: tpath_def)
  have "\<not> prefix (xs @ [j]) ys" using snoc.prems(3) by (metis prefix_append prefixI prefix_order.trans)
  then have IH: "tbl m' r ys = tbl m r ys" using snoc.IH snoc.prems(1,2) by simp
  show ?case
  proof (cases "tbl m r ys")
    case (Some q)
    have "(ys, k) \<noteq> (xs, j)" using snoc.prems(3) by auto
    then have "load64 m' (entry_addr q k) = load64 m (entry_addr q k)"
      by (rule entry_updateD [OF upd ys(1) Some ys(2)])
    then show ?thesis unfolding tbl_snoc IH Some by (simp split: sum.splits)
  qed (simp add: tbl_snoc IH)
qed simp

lemma walk_update:
  assumes upd: "entry_update m r xs j m'" and path: "set path \<subseteq> {..<512}" "length path = 4"
    and np: "\<not> prefix (xs @ [j]) path"
  shows "walk m' r path = walk m r path"
proof -
  have "tbl m' r ys = tbl m r ys \<and> (\<forall>q. tbl m r ys = Some q \<longrightarrow> load64 m' (entry_addr q k) = load64 m (entry_addr q k))"
    if p: "path = ys @ k # zs" for ys k zs
  proof -
    have ys: "tpath ys" "k < 512" using path p by (simp_all add: tpath_def)
    have "\<not> prefix (xs @ [j]) ys" "(ys, k) \<noteq> (xs, j)" using np p by (auto simp: prefix_def)
    then show ?thesis
      using tbl_update [OF upd, of ys] entry_updateD [OF upd ys(1) _ ys(2)] ys by (simp add: tpath_def)
  qed
  note same = this
  have "walk m' r path = Some x \<longleftrightarrow> walk m r path = Some x" for x
    unfolding walk_Some using same by metis
  then show ?thesis by (metis option.exhaust)
qed

text \<open>A walk through the changed entry.\<close>

lemma walk_at:
  "tbl m r xs = Some p \<Longrightarrow> walk m r (xs @ ys) = walk m p ys \<or> ys = []"
  by (induction m r xs rule: tbl.induct) (auto split: sum.splits if_splits)

lemma walk_append:
  "tbl m r xs = Some p \<Longrightarrow> ys \<noteq> [] \<Longrightarrow> walk m r (xs @ ys) = walk m p ys"
  using walk_at by blast

text \<open>
  The value stored: a leaf, an invalid entry, or a link to a zeroed page that was not held
  before (the fresh table of an allocation).
\<close>

definition entry_value_ok ::
  "memory \<Rightarrow> nat list \<Rightarrow> u64 \<Rightarrow> (u64 \<times> nat) set \<Rightarrow> (u64 \<times> nat) set \<Rightarrow> bool"
where
  "entry_value_ok m' xs v A A' \<longleftrightarrow>
     (length xs = 3 \<or> IS_PTE_INVALID v \<or> \<not> IS_PTE_TABLE v \<or>
       (GET_NEXT_PTP v, 0) \<notin> A \<and> (GET_NEXT_PTP v, 0) \<in> A' \<and>
       (\<forall>i < 512. load64 m' (entry_addr (GET_NEXT_PTP v) i) = Inr 0)) \<and>
     (xs = [] \<longrightarrow> IS_PTE_INVALID v \<or> IS_PTE_TABLE v)"

lemma tbl_after:
  assumes upd: "entry_update m r xs j m'" and xs: "tbl m r xs = Some p" "tpath xs"
    and new: "load64 m' (entry_addr p j) = Inr v" "entry_value_ok m' xs v A A'"
    and ys: "tpath ys" "tbl m' r ys = Some y"
  shows "tbl m r ys = Some y \<or> ys = xs @ [j] \<and> y = GET_NEXT_PTP v \<and> (y, 0) \<notin> A \<and> (y, 0) \<in> A'"
proof (cases "prefix (xs @ [j]) ys")
  case False
  then show ?thesis using tbl_update [OF upd, of ys] ys by (simp add: tpath_def)
next
  case True
  then obtain zs where zs: "ys = xs @ j # zs" by (auto simp: prefix_def)
  have len: "length xs < 3" using ys(1) zs by (simp add: tpath_def)
  have "\<not> prefix (xs @ [j]) xs" by (auto simp: prefix_def)
  then have "tbl m' r xs = Some p" using tbl_update [OF upd, of xs] xs by (simp add: tpath_def)
  then have "tbl m' p (j # zs) = Some y" using ys(2) zs by (simp add: tbl_append)
  then have v: "\<not> IS_PTE_INVALID v" "IS_PTE_TABLE v" "tbl m' (GET_NEXT_PTP v) zs = Some y"
    using new(1) by (auto split: if_splits)
  then have q: "(GET_NEXT_PTP v, 0) \<notin> A" "(GET_NEXT_PTP v, 0) \<in> A'"
    "\<forall>i < 512. load64 m' (entry_addr (GET_NEXT_PTP v) i) = Inr 0"
    using new(2) len by (auto simp: entry_value_ok_def)
  have "zs = []"
  proof (cases zs)
    case (Cons i zs')
    then have "i < 512" using ys(1) zs by (simp add: tpath_def)
    then show ?thesis using v(3) q(3) Cons by simp
  qed
  then show ?thesis using zs v(3) q by simp
qed

lemma pt_wf_update:
  assumes wf: "pt_wf s r A" and xs: "tpath xs" "tbl (mem s) r xs = Some p" "j < 512"
    and held: "pages_held s' A'" "A \<subseteq> A'" and upd: "entry_update (mem s) r xs j (mem s')"
    and new: "load64 (mem s') (entry_addr p j) = Inr v" "entry_value_ok (mem s') xs v A A'"
  shows "pt_wf s' r A'"
  unfolding pt_wf_def
proof (intro conjI allI impI)
  note after = tbl_after [OF upd xs(2,1) new]
  show "pages_held s' A'" by (rule held(1))
  show "(q, 0) \<in> A'" if "tpath ys" "tbl (mem s') r ys = Some q" for ys q
    using after [OF that] pt_wf_table [OF wf that(1), of q] held(2) by blast
  show "ys = zs" if "tpath ys" "tpath zs" "tbl (mem s') r ys = Some q" "tbl (mem s') r zs = Some q" for ys zs q
    using after [OF that(1,3)] after [OF that(2,4)] pt_wf_table [OF wf that(1), of q]
      pt_wf_table [OF wf that(2), of q] pt_wf_inj [OF wf that(1,2), of q] by blast
  fix i e assume i: "i < 512" "load64 (mem s') (entry_addr r i) = Inr e" "\<not> IS_PTE_INVALID e"
  show "IS_PTE_TABLE e"
  proof (cases "([], i) = (xs, j)")
    case True
    then show ?thesis using xs(2) new i by (auto simp: entry_value_ok_def)
  next
    case False
    then have "load64 (mem s) (entry_addr r i) = Inr e"
      using entry_updateD [OF upd tpath_Nil _ i(1), of r] i(2) by simp
    then show ?thesis using pt_wf_l0 [OF wf i(1)] i(3) by simp
  qed
qed

text \<open>What the walks of the new table are.\<close>

lemma walk_after:
  assumes upd: "entry_update m r xs j m'" and xs: "tbl m r xs = Some p" "tpath xs"
    and new: "load64 m' (entry_addr p j) = Inr v"
    and path: "set path \<subseteq> {..<512}" "length path = 4"
  shows "walk m' r path =
    (if prefix (xs @ [j]) path then walk m' p (drop (length xs) path) else walk m r path)"
proof (cases "prefix (xs @ [j]) path")
  case True
  then obtain zs where zs: "path = xs @ j # zs" by (auto simp: prefix_def)
  have "\<not> prefix (xs @ [j]) xs" by (auto simp: prefix_def)
  then have "tbl m' r xs = Some p" using tbl_update [OF upd, of xs] xs by (simp add: tpath_def)
  then have "walk m' r path = walk m' p (j # zs)" unfolding zs by (rule walk_append) simp
  with True zs show ?thesis by simp
next
  case False
  then show ?thesis using walk_update [OF upd path] by simp
qed

lemma walk_after_leaf:
  assumes upd: "entry_update m r xs j m'" and xs: "tbl m r xs = Some p" "tpath xs"
    and new: "load64 m' (entry_addr p j) = Inr v" "length xs = 3 \<or> IS_PTE_INVALID v \<or> \<not> IS_PTE_TABLE v"
    and path: "set path \<subseteq> {..<512}" "length path = 4"
  shows "walk m' r path =
    (if prefix (xs @ [j]) path
     then if IS_PTE_INVALID v then None else Some (entry_addr p j, v, 3 - length xs)
     else walk m r path)"
proof (cases "prefix (xs @ [j]) path")
  case True
  then obtain zs where zs: "path = xs @ j # zs" by (auto simp: prefix_def)
  then have "length zs = 3 - length xs" "length xs = 3 \<Longrightarrow> zs = []" using path(2) by auto
  then show ?thesis
    unfolding walk_after [OF upd xs new(1) path] using True zs new by auto
next
  case False
  then show ?thesis using walk_after [OF upd xs new(1) path] by simp
qed

lemma walk_after_link:
  assumes upd: "entry_update m r xs j m'" and xs: "tbl m r xs = Some p" "tpath xs" "length xs < 3"
    and old: "load64 m (entry_addr p j) = Inr e" "IS_PTE_INVALID e"
    and new: "load64 m' (entry_addr p j) = Inr v" "\<not> IS_PTE_INVALID v" "IS_PTE_TABLE v"
      "\<forall>i < 512. load64 m' (entry_addr (GET_NEXT_PTP v) i) = Inr 0"
    and path: "set path \<subseteq> {..<512}" "length path = 4"
  shows "walk m' r path = walk m r path"
proof (cases "prefix (xs @ [j]) path")
  case True
  then obtain zs where zs: "path = xs @ j # zs" by (auto simp: prefix_def)
  then obtain i zs' where i: "zs = i # zs'" "i < 512" using path xs(3) by (cases zs) auto
  have "walk m' r path = walk m' p (j # zs)"
    unfolding walk_after [OF upd xs(1,2) new(1) path] using True zs by simp
  also have "\<dots> = None" using new i by simp
  also have "None = walk m p (j # zs)" using old by simp
  also have "\<dots> = walk m r path" unfolding zs by (rule walk_append [OF xs(1), symmetric]) simp
  finally show ?thesis .
next
  case False
  then show ?thesis using walk_after [OF upd xs(1,2) new(1) path] by simp
qed

subsection \<open>Whose the table pages are\<close>

text \<open>The table pages at and below the table reached along \<open>xs\<close>.\<close>

definition subtables :: "memory \<Rightarrow> u64 \<Rightarrow> nat list \<Rightarrow> (u64 \<times> nat) set" where
  "subtables m r xs = {(p, 0) | p ys. tpath (xs @ ys) \<and> tbl m r (xs @ ys) = Some p}"

text \<open>
  \<open>owned s r B A\<close>: the held chunks \<open>A\<close> are the chunks \<open>B\<close> of others and the pages of the table, so
  that releasing the table leaves \<open>B\<close>. \<open>grown\<close> says that a step keeps this and makes tables only
  on a path.
\<close>

definition owned :: "'z kernel_state_scheme \<Rightarrow> u64 \<Rightarrow> (u64 \<times> nat) set \<Rightarrow> (u64 \<times> nat) set \<Rightarrow> bool" where
  "owned s r B A \<longleftrightarrow> A = B \<union> subtables (mem s) r [] \<and> B \<inter> subtables (mem s) r [] = {}"

definition same_tables :: "'z kernel_state_scheme \<Rightarrow> u64 \<Rightarrow> 'z kernel_state_scheme \<Rightarrow> bool" where
  "same_tables s r s' \<longleftrightarrow> (\<forall>ys. tpath ys \<longrightarrow> tbl (mem s') r ys = tbl (mem s) r ys)"

definition grown ::
  "'z kernel_state_scheme \<Rightarrow> u64 \<Rightarrow> (u64 \<times> nat) set \<Rightarrow> 'z kernel_state_scheme \<Rightarrow> (u64 \<times> nat) set \<Rightarrow> nat list \<Rightarrow> bool"
where
  "grown s r A s' A' path \<longleftrightarrow> (\<forall>B. owned s r B A \<longrightarrow> owned s' r B A') \<and>
     (\<forall>ys. tpath ys \<longrightarrow> tbl (mem s') r ys \<noteq> None \<longrightarrow> tbl (mem s) r ys \<noteq> None \<or> prefix ys path)"

lemma same_tables_refl: "same_tables s r s"
  by (simp add: same_tables_def)

lemma same_tables_trans: "same_tables s r s1 \<Longrightarrow> same_tables s1 r s2 \<Longrightarrow> same_tables s r s2"
  by (simp add: same_tables_def)

lemma same_tables_owned:
  assumes "same_tables s r s'"
  shows "owned s' r B A \<longleftrightarrow> owned s r B A"
proof -
  have "subtables (mem s') r [] = subtables (mem s) r []"
    using assms unfolding subtables_def same_tables_def by (metis (no_types, lifting) append_Nil)
  then show ?thesis by (simp add: owned_def)
qed

lemma grown_same: "same_tables s r s' \<Longrightarrow> grown s r A s' A path"
  unfolding grown_def using same_tables_owned [of s r s'] by (simp add: same_tables_def)

lemma grown_trans: "grown s r A s1 A1 path \<Longrightarrow> grown s1 r A1 s2 A2 path \<Longrightarrow> grown s r A s2 A2 path"
  unfolding grown_def by blast

lemma grown_absent:
  "grown s r A s' A' path \<Longrightarrow> tpath ys \<Longrightarrow> \<not> prefix ys path \<Longrightarrow> tbl (mem s) r ys = None \<Longrightarrow> tbl (mem s') r ys = None"
  unfolding grown_def by blast

lemma grown_prefix: "grown s r A s' A' xs \<Longrightarrow> prefix xs path \<Longrightarrow> grown s r A s' A' path"
  unfolding grown_def using prefix_order.trans by blast

lemma grown_link:
  assumes new: "\<And>ys y. tpath ys \<Longrightarrow> tbl (mem s') r ys = Some y \<longleftrightarrow> tbl (mem s) r ys = Some y \<or> ys = xs \<and> y = q"
    and q: "(q, 0) \<notin> A" "tpath xs"
  shows "grown s r A s' (insert (q, 0) A) xs"
proof -
  have "subtables (mem s') r [] = insert (q, 0) (subtables (mem s) r [])"
    using new q(2) by (auto simp: subtables_def)
  moreover have "tbl (mem s) r ys \<noteq> None \<or> prefix ys xs" if "tpath ys" "tbl (mem s') r ys \<noteq> None" for ys
    using that new by (cases "tbl (mem s') r ys") auto
  ultimately show ?thesis using q(1) by (auto simp: grown_def owned_def)
qed

end
