(* ===== verification/Page_Table_Ops.thy ===== *)
theory Page_Table_Ops
  imports Page_Table_Walk
begin

text \<open>
  What the steps of page_table.c do to a well-formed page table: writing an entry, linking a
  new table page, and \<open>get_next_ptp\<close> in its two modes.
\<close>

subsection \<open>Writing an entry\<close>

lemma store64_store64:
  assumes "store64 a v m = Inr m1"
  shows "store64 a w m1 = store64 a w m"
proof -
  have al: "8 dvd unat a" and mp: "mapped m a 8"
    and m1: "m1 = (\<lambda>x. if unat (x - a) < 8 then Some (bytes_of_word 8 v ! unat (x - a)) else m x)"
    using assms by (auto simp: store64_def store_bytes_def undef_if_def split: if_splits)
  have dom: "dom m1 = dom m"
    using store_bytes_ok [of m a "bytes_of_word 8 v"] mp assms al by (auto simp: store64_def)
  then have "mapped m1 a 8" using mp mapped_dom by blast
  then show ?thesis using al mp by (auto simp: store64_def store_bytes_def m1 fun_eq_iff)
qed

lemma modify_after_write:
  assumes "cell_ok (mem s) a"
  shows "rbind (write64 a v s) (modify64 a f) = write64 a (f v) s"
proof -
  obtain m' where m': "write64 a v s = Inr (s\<lparr>mem := m'\<rparr>)" "store64 a v (mem s) = Inr m'" "load64 m' a = Inr v"
    using write64_ok [OF assms, of v] by blast
  then show ?thesis
    using store64_store64 [OF m'(2)] by (simp add: modify64_def read64_def write64_def)
qed

lemma fill_pte_ok:
  assumes "cell_ok (mem s) a"
  shows "fill_l3_pte a pa flags s = write64 a (l3_pte pa flags) s"
    and "fill_l1_block a pa flags s = write64 a (l1_pte pa flags) s"
    and "fill_l2_block a pa flags s = write64 a (l2_pte pa flags) s"
  unfolding fill_l3_pte_def fill_l1_block_def fill_l2_block_def set_pte_flags_def l3_pte_def l1_pte_def l2_pte_def
  by (simp_all only: rbind_assoc [symmetric] modify_after_write [OF assms] bug_on_simps rbind.simps if_False
      simp_thms eta_contract_eq)

lemma entry_update_write:
  assumes wf: "pt_wf s r A" and xs: "tpath xs" "tbl (mem s) r xs = Some p" "j < 512"
    and m': "\<forall>b. 8 dvd unat b \<longrightarrow> b \<noteq> entry_addr p j \<longrightarrow> load64 m' b = load64 (mem s) b"
  shows "entry_update (mem s) r xs j m'"
  unfolding entry_update_def
proof (intro allI impI)
  fix ys q i assume q: "tpath ys" "tbl (mem s) r ys = Some q" "i < 512" "(ys, i) \<noteq> (xs, j)"
  note h = pt_wf_held [OF wf] and hq = pt_wf_table [OF wf q(1,2)] and hp = pt_wf_table [OF wf xs(1,2)]
  have "entry_addr q i \<noteq> entry_addr p j"
  proof
    assume "entry_addr q i = entry_addr p j"
    then have e: "q = p" "i = j" using held_entry_inj [OF h hq q(3) hp xs(3)] by simp_all
    have "ys = xs" by (rule pt_wf_inj [OF wf q(1) xs(1) q(2)]) (simp add: e xs(2))
    with e q(4) show False by simp
  qed
  moreover have "8 dvd unat (entry_addr q i)"
    using held_entry(1) [OF h hq q(3)] by (simp add: cell_ok_def)
  ultimately show "load64 m' (entry_addr q i) = load64 (mem s) (entry_addr q i)" using m' by blast
qed

lemma write_entry_ok:
  assumes wf: "pt_wf s r A" and xs: "tpath xs" "tbl (mem s) r xs = Some p" "j < 512"
  shows "\<exists>m'. write64 (entry_addr p j) v s = Inr (s\<lparr>mem := m'\<rparr>) \<and> dom m' = dom (mem s) \<and>
    load64 m' (entry_addr p j) = Inr v \<and> entry_update (mem s) r xs j m'"
proof -
  obtain m' where m': "write64 (entry_addr p j) v s = Inr (s\<lparr>mem := m'\<rparr>)" "dom m' = dom (mem s)"
    "load64 m' (entry_addr p j) = Inr v"
    "\<forall>b. 8 dvd unat b \<longrightarrow> b \<noteq> entry_addr p j \<longrightarrow> load64 m' b = load64 (mem s) b"
    using write64_ok [OF pt_entry(1) [OF wf xs], of v] by blast
  with entry_update_write [OF wf xs m'(4)] show ?thesis by blast
qed

text \<open>Writing a leaf or an invalid entry keeps the table well formed.\<close>

lemma write_leaf_ok:
  assumes wf: "pt_wf s r A" and xs: "tpath xs" "tbl (mem s) r xs = Some p" "j < 512"
    and v: "length xs = 3 \<or> IS_PTE_INVALID v \<or> \<not> IS_PTE_TABLE v" "xs = [] \<longrightarrow> IS_PTE_INVALID v \<or> IS_PTE_TABLE v"
  shows "\<exists>s'. write64 (entry_addr p j) v s = Inr s' \<and> pt_wf s' r A \<and> pool_pages s' = pool_pages s \<and> dom (mem s') = dom (mem s) \<and>
    (\<forall>path. set path \<subseteq> {..<512} \<longrightarrow> length path = 4 \<longrightarrow> walk (mem s') r path =
      (if prefix (xs @ [j]) path
       then if IS_PTE_INVALID v then None else Some (entry_addr p j, v, 3 - length xs)
       else walk (mem s) r path)) \<and>
    (\<forall>ys. tpath ys \<longrightarrow> \<not> prefix (xs @ [j]) ys \<longrightarrow> tbl (mem s') r ys = tbl (mem s) r ys) \<and>
    (length xs = 3 \<or> tbl (mem s) r (xs @ [j]) = None \<longrightarrow> same_tables s r s')"
proof -
  obtain m' where m': "write64 (entry_addr p j) v s = Inr (s\<lparr>mem := m'\<rparr>)" "dom m' = dom (mem s)"
    "load64 m' (entry_addr p j) = Inr v" "entry_update (mem s) r xs j m'"
    using write_entry_ok [OF wf xs] by blast
  have "entry_value_ok m' xs v A A" using v unfolding entry_value_ok_def by blast
  then have "pt_wf (s\<lparr>mem := m'\<rparr>) r A"
    using m' pages_held_mem [OF m'(2)] pt_wf_held [OF wf]
    by (intro pt_wf_update [OF wf xs, of _ A v]) simp_all
  moreover have keep: "tbl m' r ys = tbl (mem s) r ys" if "tpath ys" "\<not> prefix (xs @ [j]) ys" for ys
    using tbl_update [OF m'(4)] that by (simp add: tpath_def)
  moreover have "same_tables s r (s\<lparr>mem := m'\<rparr>)" if n: "length xs = 3 \<or> tbl (mem s) r (xs @ [j]) = None"
    unfolding same_tables_def
  proof (intro allI impI)
    fix ys assume ys: "tpath ys"
    show "tbl (mem (s\<lparr>mem := m'\<rparr>)) r ys = tbl (mem s) r ys"
    proof (cases "prefix (xs @ [j]) ys")
      case True
      then obtain zs where zs: "ys = (xs @ [j]) @ zs" by (auto simp: prefix_def)
      then have l: "length xs < 3" using ys by (simp add: tpath_def)
      then have old: "tbl (mem s) r (xs @ [j]) = None" using n by simp
      have "tbl m' r xs = Some p" using keep [OF xs(1)] xs(2) by (simp add: prefix_def)
      then have "tbl m' r (xs @ [j]) = None" using m'(3) v(1) l by (auto simp: tbl_snoc)
      with old show ?thesis unfolding zs by (simp add: tbl_append [of _ _ "xs @ [j]"] del: append_assoc)
    qed (use keep [OF ys] in simp)
  qed
  ultimately show ?thesis
    using m'(1,2) walk_after_leaf [OF m'(4) xs(2,1) m'(3) v(1)]
    by (intro exI [of _ "s\<lparr>mem := m'\<rparr>"]) simp
qed

subsection \<open>Linking a new table\<close>

lemma bytes_of_word_0: "i < n \<Longrightarrow> bytes_of_word n (0 :: u64) ! i = 0"
  by (induction n arbitrary: i) (auto simp: nth_Cons' less_Suc_eq_0_disj)

lemma fill_page_ok:
  assumes held: "pages_held s A" and q: "(q, 0) \<in> A"
  shows "\<exists>m'. fill q 0 0x1000 s = Inr (s\<lparr>mem := m'\<rparr>) \<and> dom m' = dom (mem s) \<and>
    (\<forall>i < 512. load64 m' (entry_addr q i) = Inr 0) \<and>
    (\<forall>p i. (p, 0) \<in> A \<longrightarrow> p \<noteq> q \<longrightarrow> i < 512 \<longrightarrow> load64 m' (entry_addr p i) = load64 (mem s) (entry_addr p i))"
proof -
  note c = pages_held_chunk [OF held q]
  have in_chunk: "x \<in> chunk (q, 0)" if "unat (x - q) < 4096" for x
  proof -
    have "unat q + unat (x - q) < 2 ^ 64" using c(3) that by simp
    then have "unat (q + (x - q)) = unat q + unat (x - q)" by (simp only: unat_word_ariths) simp
    then have "unat x = unat q + unat (x - q)" by simp
    then show ?thesis using that by (simp add: word_le_nat_alt)
  qed
  have mp: "mapped (mem s) q (unat (0x1000 :: u64))"
    unfolding mapped_iff
  proof (intro allI impI)
    fix i assume "i < unat (0x1000 :: u64)"
    then have i: "i < 4096" by simp
    then have "unat (q + of_nat i - q) < 4096" by (simp only: unat_diff_add) simp
    then have "q + of_nat i \<in> dom (mem s)" using in_chunk c(4) by blast
    then show "mem s (q + of_nat i) \<noteq> None" by (simp add: domIff)
  qed
  obtain m' where m': "memset q 0 0x1000 (mem s) = Inr m'" "dom m' = dom (mem s)"
    "\<And>x. m' x = (if unat (x - q) < unat (0x1000 :: u64) then Some 0 else mem s x)"
    using memset_ok [OF mp, of 0] by blast
  have "load64 m' (entry_addr q i) = Inr 0" if i: "i < 512" for i
  proof (rule bytes_of_word_load)
    show "8 dvd unat (entry_addr q i)" using held_entry(1) [OF held q i] by (simp add: cell_ok_def)
    fix k :: nat assume k: "k < 8"
    have "entry_addr q i + of_nat k = q + of_nat (8 * i + k)" by (simp add: entry_addr_def)
    then have "unat (entry_addr q i + of_nat k - q) = 8 * i + k"
      using i k by (simp only: unat_diff_add) simp
    then show "m' (entry_addr q i + of_nat k) = Some (bytes_of_word 8 (0 :: u64) ! k)"
      using i k unfolding m'(3) by (simp add: bytes_of_word_0)
  qed
  moreover have "load64 m' (entry_addr p i) = load64 (mem s) (entry_addr p i)"
    if p: "(p, 0) \<in> A" "p \<noteq> q" "i < 512" for p i
  proof (rule load64_cong)
    fix k :: nat assume k: "k < 8"
    have "entry_addr p i + of_nat k \<in> chunk (p, 0)"
    proof -
      have "unat p + (8 * i + k) < 2 ^ 64" using pages_held_chunk(3) [OF held p(1)] p(3) k by simp
      then have "unat (p + of_nat (8 * i + k)) = unat p + (8 * i + k)"
        using p(3) k by (simp only: unat_word_ariths unat_of_nat take_bit_eq_mod) simp
      moreover have "entry_addr p i + of_nat k = p + of_nat (8 * i + k)" by (simp add: entry_addr_def)
      ultimately have "unat (entry_addr p i + of_nat k) = unat p + (8 * i + k)" by (simp only:)
      then show ?thesis using p(3) k by (simp add: word_le_nat_alt)
    qed
    then have "entry_addr p i + of_nat k \<notin> chunk (q, 0)"
      using pages_held_apart [OF held p(1) q] p(2) by blast
    then have "\<not> unat (entry_addr p i + of_nat k - q) < 4096" using in_chunk by blast
    then show "m' (entry_addr p i + of_nat k) = mem s (entry_addr p i + of_nat k)" unfolding m'(3) by simp
  qed
  ultimately show ?thesis using m'(1,2) by (auto simp: fill_def)
qed

lemma alloc_ptp_ok:
  assumes wf: "pt_wf s r A" and xs: "tpath xs" "tbl (mem s) r xs = Some p" "j < 512" "length xs < 3"
    and old: "load64 (mem s) (entry_addr p j) = Inr e" "IS_PTE_INVALID e"
    and room: "chunk_pages A < pool_pages s"
  shows "\<exists>s' q. alloc_ptp (entry_addr p j) s = Inr s' \<and> pt_wf s' r (insert (q, 0) A) \<and>
    (q, 0) \<notin> A \<and> chunk_pages (insert (q, 0) A) = Suc (chunk_pages A) \<and> pool_pages s' = pool_pages s \<and> dom (mem s') = dom (mem s) \<and>
    load64 (mem s') (entry_addr p j) = Inr (table_pte q) \<and> GET_NEXT_PTP (table_pte q) = q \<and>
    tbl (mem s') r (xs @ [j]) = Some q \<and> grown s r A s' (insert (q, 0) A) (xs @ [j]) \<and>
    (\<forall>path. set path \<subseteq> {..<512} \<longrightarrow> length path = 4 \<longrightarrow> walk (mem s') r path = walk (mem s) r path)"
proof -
  note held = pt_wf_held [OF wf]
  have ptab: "(p, 0) \<in> A" by (rule pt_wf_table [OF wf xs(1,2)])
  obtain s1 q where g: "get_pages s 0 = Inr (s1, q)" "q \<noteq> 0" "(q, 0) \<notin> A" "pages_held s1 (insert (q, 0) A)"
    "same_pool s s1" "chunk_pages (insert (q, 0) A) = Suc (chunk_pages A)"
    by (rule pages.get_page_ok [OF held room]) (rule that)
  note sk = same_pool_kernel [OF g(5)]
  note cq = pages_held_chunk [OF g(4) insertI1]
  obtain m2 where m2: "fill q 0 0x1000 s1 = Inr (s1\<lparr>mem := m2\<rparr>)" "dom m2 = dom (mem s1)"
    "\<forall>i < 512. load64 m2 (entry_addr q i) = Inr 0"
    "\<forall>p' i. (p', 0) \<in> insert (q, 0) A \<longrightarrow> p' \<noteq> q \<longrightarrow> i < 512 \<longrightarrow>
      load64 m2 (entry_addr p' i) = load64 (mem s1) (entry_addr p' i)"
    using fill_page_ok [OF g(4) insertI1] by blast
  have m2A: "load64 m2 (entry_addr p' i) = load64 (mem s) (entry_addr p' i)" if "(p', 0) \<in> A" "i < 512" for p' i
  proof -
    have ne: "p' \<noteq> q" using that(1) g(3) by blast
    have "load64 m2 (entry_addr p' i) = load64 (mem s1) (entry_addr p' i)"
      by (rule m2(4) [rule_format, OF insertI2 [OF that(1)] ne that(2)])
    then show ?thesis by (simp only: sk(1))
  qed
  let ?s2 = "s1\<lparr>mem := m2\<rparr>"
  have held2: "pages_held ?s2 (insert (q, 0) A)" using pages_held_mem [OF m2(2)] g(4) by simp
  have cell: "cell_ok (mem ?s2) (entry_addr p j)"
    by (rule held_entry(1) [OF held2 _ xs(3)]) (simp add: ptab)
  obtain m3 where m3: "write64 (entry_addr p j) (table_pte q) ?s2 = Inr (?s2\<lparr>mem := m3\<rparr>)"
    "dom m3 = dom (mem ?s2)" "load64 m3 (entry_addr p j) = Inr (table_pte q)"
    "\<forall>b. 8 dvd unat b \<longrightarrow> b \<noteq> entry_addr p j \<longrightarrow> load64 m3 b = load64 (mem ?s2) b"
    using write64_ok [OF cell, of "table_pte q"] by blast
  let ?s3 = "?s2\<lparr>mem := m3\<rparr>"
  have al: "8 dvd unat (entry_addr p' i)" if "(p', 0) \<in> insert (q, 0) A" "i < 512" for p' i
    using held_entry(1) [OF held2 that] by (simp add: cell_ok_def)
  have "4096 dvd unat q" using cq(2) by simp
  then have nq: "GET_NEXT_PTP (table_pte q) = q" by (rule GET_NEXT_PTP_table_pte [OF _ cq(5)])
  have pq: "p \<noteq> q" using ptab g(3) by blast
  have zero: "load64 m3 (entry_addr q i) = Inr 0" if i: "i < 512" for i
  proof -
    have "entry_addr q i \<noteq> entry_addr p j"
      using held_entry_inj [OF held2 insertI1 i, of p j] ptab xs(3) pq by blast
    then show ?thesis using m3(4) al [OF insertI1 i] m2(3) i by simp
  qed
  have upd: "entry_update (mem s) r xs j m3"
    unfolding entry_update_def
  proof (intro allI impI)
    fix ys q' i assume q': "tpath ys" "tbl (mem s) r ys = Some q'" "i < 512" "(ys, i) \<noteq> (xs, j)"
    have t': "(q', 0) \<in> A" by (rule pt_wf_table [OF wf q'(1,2)])
    have "entry_addr q' i \<noteq> entry_addr p j"
    proof
      assume "entry_addr q' i = entry_addr p j"
      then have e: "q' = p" "i = j" using held_entry_inj [OF held t' q'(3) ptab xs(3)] by simp_all
      have "ys = xs" by (rule pt_wf_inj [OF wf q'(1) xs(1) q'(2)]) (simp add: e xs(2))
      with e q'(4) show False by simp
    qed
    then show "load64 m3 (entry_addr q' i) = load64 (mem s) (entry_addr q' i)"
      using m3(4) al [of q' i] t' q'(3) m2A [OF t' q'(3)] by simp
  qed
  have val: "entry_value_ok m3 xs (table_pte q) A (insert (q, 0) A)"
    unfolding entry_value_ok_def nq using g(3) zero table_pte_kind by blast
  have held3: "pages_held ?s3 (insert (q, 0) A)" using pages_held_mem [OF m3(2)] held2 by blast
  have wf3: "pt_wf ?s3 r (insert (q, 0) A)"
    using held3 upd m3(3) val by (intro pt_wf_update [OF wf xs(1-3), of _ _ "table_pte q"]) auto
  have "alloc_ptp (entry_addr p j) s = Inr ?s3"
    using g(1,2) m2(1) m3(1) by (simp add: alloc_ptp_def table_pte_def Let_def)
  moreover have "tbl m3 r xs = Some p"
    using tbl_update [OF upd, of xs] xs by (simp add: tpath_def prefix_def)
  then have link: "tbl m3 r (xs @ [j]) = Some q"
    using m3(3) table_pte_kind nq by (simp add: tbl_snoc)
  note link
  moreover have old_none: "tbl (mem s) r (xs @ [j]) = None" using xs(2) old by (simp add: tbl_snoc)
  have "tbl m3 r ys = Some y \<longleftrightarrow> tbl (mem s) r ys = Some y \<or> ys = xs @ [j] \<and> y = q" if ys: "tpath ys" for ys y
  proof (cases "prefix (xs @ [j]) ys")
    case True
    then have "tbl (mem s) r ys = None" using tbl_append [of "mem s" r "xs @ [j]"] old_none by (auto simp: prefix_def)
    then show ?thesis using tbl_after [OF upd xs(2,1) m3(3) val ys, of y] link nq by auto
  next
    case False
    then show ?thesis using tbl_update [OF upd _ _ False] ys by (auto simp: tpath_def)
  qed
  then have "grown s r A ?s3 (insert (q, 0) A) (xs @ [j])"
    using xs(1,3,4) g(3) by (intro grown_link) (simp_all add: tpath_def)
  moreover have "walk m3 r path = walk (mem s) r path" if "set path \<subseteq> {..<512}" "length path = 4" for path
    using walk_after_link [OF upd xs(2,1,4) old m3(3) table_pte_kind _ that] zero nq by simp
  ultimately show ?thesis
    using wf3 g(3,6) m3(2,3) m2(2) nq sk by (intro exI [of _ ?s3] exI [of _ q]) simp
qed

subsection \<open>One level of a walk\<close>

lemma ptp_index_ok: "ptp_index level va = Inr i \<Longrightarrow> i < 512"
proof -
  have "unat (w AND mask 9 :: u64) < 512" for w :: u64
  proof -
    have "unat (w AND mask 9) = unat w mod 2 ^ 9"
      by (simp only: take_bit_eq_mask [symmetric] unsigned_take_bit_eq) (simp only: take_bit_eq_mod)
    then show ?thesis by simp
  qed
  then show "ptp_index level va = Inr i \<Longrightarrow> i < 512"
    by (auto simp: ptp_index_def GET_L0_INDEX_def GET_L1_INDEX_def GET_L2_INDEX_def GET_L3_INDEX_def
        split: if_splits)
qed

lemma get_next_ptp_entry:
  assumes "p \<noteq> 0" "ptp_index level va = Inr i" "load64 (mem s) (entry_addr p i) = Inr e"
  shows "level = 3 \<Longrightarrow> get_next_ptp s p level va nx pt al =
      Inr (s, if IS_PTE_INVALID e then - 203 else 1, nx, Some (entry_addr p i))"
    and "level \<noteq> 3 \<Longrightarrow> IS_PTE_INVALID e \<Longrightarrow> \<not> al \<Longrightarrow> get_next_ptp s p level va nx pt al = Inr (s, - 203, nx, pt)"
    and "level \<noteq> 3 \<Longrightarrow> \<not> IS_PTE_INVALID e \<Longrightarrow> get_next_ptp s p level va nx pt al =
      Inr (s, if IS_PTE_TABLE e then 0 else 1, Some (GET_NEXT_PTP e), Some (entry_addr p i))"
    and "level \<noteq> 3 \<Longrightarrow> IS_PTE_INVALID e \<Longrightarrow> alloc_ptp (entry_addr p i) s = Inr s' \<Longrightarrow>
      load64 (mem s') (entry_addr p i) = Inr e' \<Longrightarrow> get_next_ptp s p level va nx pt True =
      Inr (s', if IS_PTE_TABLE e' then 0 else 1, Some (GET_NEXT_PTP e'), Some (entry_addr p i))"
  using assms unfolding get_next_ptp_def entry_addr_def read64_def by (simp_all add: Let_def)

text \<open>Descending one level and allocating a missing table: no translation changes.\<close>

lemma descend_ok:
  assumes wf: "pt_wf s r A" and xs: "tpath xs" "tbl (mem s) r xs = Some p" "length xs < 3"
    and i: "ptp_index (length xs) va = Inr i"
    and nb: "\<And>e. load64 (mem s) (entry_addr p i) = Inr e \<Longrightarrow> \<not> IS_PTE_INVALID e \<Longrightarrow> IS_PTE_TABLE e"
    and room: "tbl (mem s) r (xs @ [i]) = None \<Longrightarrow> chunk_pages A < pool_pages s"
  shows "\<exists>s' A' q. get_next_ptp s p (length xs) va nx pt True = Inr (s', 0, Some q, Some (entry_addr p i)) \<and>
    pt_wf s' r A' \<and> A \<subseteq> A' \<and> chunk_pages A' \<le> Suc (chunk_pages A) \<and> pool_pages s' = pool_pages s \<and> dom (mem s') = dom (mem s) \<and>
    tbl (mem s') r (xs @ [i]) = Some q \<and> (tbl (mem s) r (xs @ [i]) \<noteq> None \<longrightarrow> s' = s \<and> A' = A) \<and>
    grown s r A s' A' (xs @ [i]) \<and> (\<forall>path. set path \<subseteq> {..<512} \<longrightarrow> length path = 4 \<longrightarrow> walk (mem s') r path = walk (mem s) r path)"
proof -
  have i512: "i < 512" by (rule ptp_index_ok [OF i])
  note pe = pt_entry [OF wf xs(1,2) i512]
  obtain e where e: "load64 (mem s) (entry_addr p i) = Inr e" using pe(2) by blast
  note gn = get_next_ptp_entry [OF pe(3) i e]
  show ?thesis
  proof (cases "IS_PTE_INVALID e")
    case True
    then have none: "tbl (mem s) r (xs @ [i]) = None" using xs(2) e by (simp add: tbl_snoc)
    obtain s' q where s': "alloc_ptp (entry_addr p i) s = Inr s'" "pt_wf s' r (insert (q, 0) A)"
      "chunk_pages (insert (q, 0) A) = Suc (chunk_pages A)" "pool_pages s' = pool_pages s \<and> dom (mem s') = dom (mem s)"
      "load64 (mem s') (entry_addr p i) = Inr (table_pte q)" "GET_NEXT_PTP (table_pte q) = q"
      "tbl (mem s') r (xs @ [i]) = Some q" "grown s r A s' (insert (q, 0) A) (xs @ [i])"
      "\<forall>path. set path \<subseteq> {..<512} \<longrightarrow> length path = 4 \<longrightarrow> walk (mem s') r path = walk (mem s) r path"
      using alloc_ptp_ok [OF wf xs(1,2) i512 xs(3) e True room [OF none]] by blast
    have "get_next_ptp s p (length xs) va nx pt True = Inr (s', 0, Some q, Some (entry_addr p i))"
      using gn(4) [OF _ True s'(1,5)] xs(3) s'(6) table_pte_kind by simp
    with s' none show ?thesis by (intro exI [of _ s'] exI [of _ "insert (q, 0) A"] exI [of _ q]) auto
  next
    case False
    then have t: "IS_PTE_TABLE e" by (rule nb [OF e])
    have "get_next_ptp s p (length xs) va nx pt True =
        Inr (s, 0, Some (GET_NEXT_PTP e), Some (entry_addr p i))"
      using gn(3) [OF _ False] xs(3) t by simp
    moreover have "tbl (mem s) r (xs @ [i]) = Some (GET_NEXT_PTP e)"
      using xs(2) e False t by (simp add: tbl_snoc)
    ultimately show ?thesis
      using wf grown_same [OF same_tables_refl, of s r A]
      by (intro exI [of _ s] exI [of _ A] exI [of _ "GET_NEXT_PTP e"]) simp
  qed
qed

end
