(* ===== verification/Page_Table_Translate.thy ===== *)
theory Page_Table_Translate
  imports Page_Table_Ops
begin

text \<open>
  Addresses and the paths of indices they take through a table, the translation a table gives,
  \<open>query_in_pgtbl\<close>, and the number of table pages a mapping still needs.
\<close>

subsection \<open>Addresses and paths\<close>

definition vpath :: "u64 \<Rightarrow> nat list" where
  "vpath va = [GET_L0_INDEX va, GET_L1_INDEX va, GET_L2_INDEX va, GET_L3_INDEX va]"

lemma index_nat:
  "GET_L0_INDEX va = unat va div 4096 div 512 div 512 div 512 mod 512"
  "GET_L1_INDEX va = unat va div 4096 div 512 div 512 mod 512"
  "GET_L2_INDEX va = unat va div 4096 div 512 mod 512"
  "GET_L3_INDEX va = unat va div 4096 mod 512"
proof -
  have *: "unat (drop_bit n va AND mask 9) = unat va div 2 ^ n mod 512" for n
  proof -
    have "unat va < 2 ^ 64" using unsigned_less [of va] by simp
    then have "take_bit 64 (unat va) = unat va" by (rule take_bit_nat_eq_self)
    then have "unat (drop_bit n va AND mask 9) = take_bit 9 (drop_bit n (unat va))"
      by (simp only: take_bit_eq_mask [symmetric] unsigned_take_bit_eq unsigned_drop_bit_eq) simp
    then show ?thesis by (simp add: take_bit_eq_mod drop_bit_eq_div)
  qed
  show "GET_L0_INDEX va = unat va div 4096 div 512 div 512 div 512 mod 512"
    "GET_L1_INDEX va = unat va div 4096 div 512 div 512 mod 512"
    "GET_L2_INDEX va = unat va div 4096 div 512 mod 512"
    "GET_L3_INDEX va = unat va div 4096 mod 512"
    unfolding GET_L0_INDEX_def GET_L1_INDEX_def GET_L2_INDEX_def GET_L3_INDEX_def *
    by (simp_all add: div_mult2_eq [symmetric])
qed

lemma vpath_bound: "set (vpath va) \<subseteq> {..<512}" "length (vpath va) = 4"
  by (auto simp: vpath_def index_nat)

lemma ptp_index_vpath:
  "ptp_index 0 va = Inr (GET_L0_INDEX va)" "ptp_index 1 va = Inr (GET_L1_INDEX va)"
  "ptp_index (Suc 0) va = Inr (GET_L1_INDEX va)"
  "ptp_index 2 va = Inr (GET_L2_INDEX va)" "ptp_index 3 va = Inr (GET_L3_INDEX va)"
  by (simp_all add: ptp_index_def)

lemma index_bound: "GET_L0_INDEX va < 512" "GET_L1_INDEX va < 512" "GET_L2_INDEX va < 512" "GET_L3_INDEX va < 512"
  by (simp_all add: index_nat)

lemma eq_iff_div_mod: "(a :: nat) = b \<longleftrightarrow> a div n = b div n \<and> a mod n = b mod n"
  by (metis div_mult_mod_eq)

lemma prefix_vpath:
  assumes "unat x < 2 ^ 48" "unat y < 2 ^ 48"
  shows "prefix [GET_L0_INDEX y, GET_L1_INDEX y] (vpath x) \<longleftrightarrow> unat x div 2 ^ 30 = unat y div 2 ^ 30"
    and "prefix [GET_L0_INDEX y, GET_L1_INDEX y, GET_L2_INDEX y] (vpath x) \<longleftrightarrow> unat x div 2 ^ 21 = unat y div 2 ^ 21"
    and "prefix [GET_L0_INDEX y, GET_L1_INDEX y, GET_L2_INDEX y, GET_L3_INDEX y] (vpath x) \<longleftrightarrow>
      unat x div 4096 = unat y div 4096"
proof -
  define X Y where XY: "X = unat x div 4096" "Y = unat y div 4096"
  have lt: "X div 512 div 512 div 512 < 512" "Y div 512 div 512 div 512 < 512"
    using assms by (simp_all add: XY div_mult2_eq [symmetric] div_less_iff_less_mult)
  have d: "unat x div 2 ^ 30 = X div 512 div 512" "unat y div 2 ^ 30 = Y div 512 div 512"
    "unat x div 2 ^ 21 = X div 512" "unat y div 2 ^ 21 = Y div 512"
    by (simp_all add: XY div_mult2_eq [symmetric])
  have i: "GET_L0_INDEX x = X div 512 div 512 div 512" "GET_L0_INDEX y = Y div 512 div 512 div 512"
    "GET_L1_INDEX x = X div 512 div 512 mod 512" "GET_L1_INDEX y = Y div 512 div 512 mod 512"
    "GET_L2_INDEX x = X div 512 mod 512" "GET_L2_INDEX y = Y div 512 mod 512"
    "GET_L3_INDEX x = X mod 512" "GET_L3_INDEX y = Y mod 512"
    unfolding index_nat XY [symmetric] using lt by simp_all
  have 1: "X div 512 div 512 = Y div 512 div 512 \<longleftrightarrow> X div 512 div 512 div 512 = Y div 512 div 512 div 512 \<and>
    X div 512 div 512 mod 512 = Y div 512 div 512 mod 512" by (rule eq_iff_div_mod)
  have 2: "X div 512 = Y div 512 \<longleftrightarrow> X div 512 div 512 = Y div 512 div 512 \<and>
    X div 512 mod 512 = Y div 512 mod 512" by (rule eq_iff_div_mod)
  have 3: "X = Y \<longleftrightarrow> X div 512 = Y div 512 \<and> X mod 512 = Y mod 512" by (rule eq_iff_div_mod)
  have p: "prefix [GET_L0_INDEX y, GET_L1_INDEX y] (vpath x) \<longleftrightarrow>
      GET_L0_INDEX x = GET_L0_INDEX y \<and> GET_L1_INDEX x = GET_L1_INDEX y"
    "prefix [GET_L0_INDEX y, GET_L1_INDEX y, GET_L2_INDEX y] (vpath x) \<longleftrightarrow>
      (GET_L0_INDEX x = GET_L0_INDEX y \<and> GET_L1_INDEX x = GET_L1_INDEX y) \<and> GET_L2_INDEX x = GET_L2_INDEX y"
    "prefix [GET_L0_INDEX y, GET_L1_INDEX y, GET_L2_INDEX y, GET_L3_INDEX y] (vpath x) \<longleftrightarrow>
      ((GET_L0_INDEX x = GET_L0_INDEX y \<and> GET_L1_INDEX x = GET_L1_INDEX y) \<and> GET_L2_INDEX x = GET_L2_INDEX y) \<and>
      GET_L3_INDEX x = GET_L3_INDEX y"
    by (auto simp: vpath_def)
  show "prefix [GET_L0_INDEX y, GET_L1_INDEX y] (vpath x) \<longleftrightarrow> unat x div 2 ^ 30 = unat y div 2 ^ 30"
    unfolding p unfolding d 1 i by (rule refl)
  show "prefix [GET_L0_INDEX y, GET_L1_INDEX y, GET_L2_INDEX y] (vpath x) \<longleftrightarrow> unat x div 2 ^ 21 = unat y div 2 ^ 21"
    unfolding p unfolding d 2 1 i by (rule refl)
  show "prefix [GET_L0_INDEX y, GET_L1_INDEX y, GET_L2_INDEX y, GET_L3_INDEX y] (vpath x) \<longleftrightarrow>
      unat x div 4096 = unat y div 4096"
    unfolding p unfolding XY [symmetric] 3 2 1 i by (rule refl)
qed

subsection \<open>Translation\<close>

text \<open>The physical address a leaf entry with \<open>n\<close> levels below it gives for \<open>va\<close>.\<close>

definition leaf_pa :: "nat \<Rightarrow> u64 \<Rightarrow> u64 \<Rightarrow> u64" where
  "leaf_pa n e va =
     (if n = 2 then push_bit 30 (get_field l1_block_layout ''pfn'' e) OR GET_VA_OFFSET_L1 va
      else if n = 1 then push_bit 21 (get_field l2_block_layout ''pfn'' e) OR GET_VA_OFFSET_L2 va
      else push_bit 12 (get_field l3_page_layout ''pfn'' e) OR GET_VA_OFFSET_L3 va)"

definition leaf :: "'z kernel_state_scheme \<Rightarrow> u64 \<Rightarrow> u64 \<Rightarrow> (u64 \<times> u64 \<times> nat) option" where
  "leaf s r va = walk (mem s) r (vpath va)"

text \<open>What the attribute bits of a leaf entry say, and what the flags of a mapping ask for.\<close>

record attributes =
  memory_type :: u64
  access :: u64
  shareability :: u64
  accessed :: u64
  not_global :: u64
  kernel_exec_never :: u64
  user_exec_never :: u64

definition entry_attributes :: "u64 \<Rightarrow> attributes" where
  "entry_attributes e = \<lparr>memory_type = get_field l3_page_layout ''attr_index'' e,
     access = get_field l3_page_layout ''AP'' e, shareability = get_field l3_page_layout ''SH'' e,
     accessed = get_field l3_page_layout ''AF'' e, not_global = get_field l3_page_layout ''nG'' e,
     kernel_exec_never = get_field l3_page_layout ''PXN'' e, user_exec_never = get_field l3_page_layout ''UXN'' e\<rparr>"

definition flag_attributes :: "u64 \<Rightarrow> attributes" where
  "flag_attributes flags = \<lparr>
     memory_type = (if flags AND VMR_DEVICE \<noteq> 0 then 1 else if flags AND VMR_NOCACHE \<noteq> 0 then 2 else 0),
     access = (if flags AND VMR_WRITE \<noteq> 0 then 1 else 3),
     shareability = (if flags AND VMR_DEVICE \<noteq> 0 then 0 else 3),
     accessed = 1, not_global = 1, kernel_exec_never = 1,
     user_exec_never = (if flags AND VMR_EXEC \<noteq> 0 then 0 else 1)\<rparr>"

lemma get_field_of: "field_of 0 lay f = (off, w) \<Longrightarrow> get_field lay f e = take_bit w (drop_bit off e)"
  by (simp add: get_field_def)

lemma attribute_fields:
  "field_of 0 l3_page_layout ''attr_index'' = (2, 3)" "field_of 0 l3_page_layout ''AP'' = (6, 2)"
  "field_of 0 l3_page_layout ''SH'' = (8, 2)" "field_of 0 l3_page_layout ''AF'' = (10, 1)"
  "field_of 0 l3_page_layout ''nG'' = (11, 1)" "field_of 0 l3_page_layout ''PXN'' = (53, 1)"
  "field_of 0 l3_page_layout ''UXN'' = (54, 1)"
  by (simp_all add: l3_page_layout_def)

lemma get_set_field:
  assumes "field_of 0 lay f = (off, w)" "field_of 0 lay g = (o2, w2)" "off + w \<le> 64"
    "off + w \<le> o2 \<or> o2 + w2 \<le> off \<or> (off = o2 \<and> w = w2)"
  shows "get_field lay f (set_field lay g v e) = (if off = o2 \<and> w = w2 then take_bit w v else get_field lay f e)"
  using assms unfolding get_field_def set_field_def
  by (auto intro!: bit_eqI simp: bit_simps)

lemma attributes_pte_flags: "entry_attributes (pte_flags flags e) = flag_attributes flags"
  unfolding entry_attributes_def flag_attributes_def pte_flags_def Let_def
  by (simp add: attribute_fields get_set_field [OF attribute_fields(1)] get_set_field [OF attribute_fields(2)]
      get_set_field [OF attribute_fields(3)] get_set_field [OF attribute_fields(4)]
      get_set_field [OF attribute_fields(5)] get_set_field [OF attribute_fields(6)]
      get_set_field [OF attribute_fields(7)])

lemma attributes_leaf_pte:
  "entry_attributes (l3_pte pa flags) = flag_attributes flags"
  "entry_attributes (l1_pte pa flags) = flag_attributes flags"
  "entry_attributes (l2_pte pa flags) = flag_attributes flags"
  by (simp_all add: l3_pte_def l1_pte_def l2_pte_def attributes_pte_flags)

text \<open>The translation of an address: the physical address and the attributes of the mapping.\<close>

definition translate :: "'z kernel_state_scheme \<Rightarrow> u64 \<Rightarrow> u64 \<Rightarrow> (u64 \<times> attributes) option" where
  "translate s r va = map_option (\<lambda>(a, e, n). (leaf_pa n e va, entry_attributes e)) (leaf s r va)"

lemma query_ok:
  assumes wf: "pt_wf s r A"
  shows "query_in_pgtbl s r va True has_entry =
    Inr (case leaf s r va of None \<Rightarrow> (- 203, None, None)
      | Some (a, e, n) \<Rightarrow> (0, Some (leaf_pa n e va), if has_entry then Some a else None))"
proof -
  note q = query_in_pgtbl_def query_result_def read64_def
  let ?m = "mem s"
  let ?i0 = "GET_L0_INDEX va" and ?i1 = "GET_L1_INDEX va" and ?i2 = "GET_L2_INDEX va" and ?i3 = "GET_L3_INDEX va"
  have r: "tbl ?m r [] = Some r" by simp
  note e0 = pt_entry [OF wf tpath_Nil r index_bound(1) [of va]]
  obtain e where e: "load64 ?m (entry_addr r ?i0) = Inr e" using e0(2) by blast
  note g0 = get_next_ptp_entry [OF e0(3) ptp_index_vpath(1) e]
  show ?thesis
  proof (cases "IS_PTE_INVALID e")
    case True
    then show ?thesis using e by (simp add: q g0(2) leaf_def vpath_def)
  next
    case False
    then have t: "IS_PTE_TABLE e" by (rule pt_wf_l0 [OF wf index_bound(1) e])
    let ?p1 = "GET_NEXT_PTP e"
    have p1: "tbl ?m r [?i0] = Some ?p1" "tpath [?i0]"
      using e False t index_bound by (simp_all add: tpath_def)
    note e1 = pt_entry [OF wf p1(2,1) index_bound(2) [of va]]
    obtain f where f: "load64 ?m (entry_addr ?p1 ?i1) = Inr f" using e1(2) by blast
    note g1 = get_next_ptp_entry [OF e1(3) ptp_index_vpath(3) f]
    note s0 = q leaf_def vpath_def e False t g0(3)
    show ?thesis
    proof (cases "IS_PTE_INVALID f \<or> \<not> IS_PTE_TABLE f")
      case True
      then show ?thesis
        by (cases "IS_PTE_INVALID f") (simp_all add: s0 f g1(2,3) leaf_pa_def)
    next
      case f1: False
      let ?p2 = "GET_NEXT_PTP f"
      have p2: "tbl ?m r [?i0, ?i1] = Some ?p2" "tpath [?i0, ?i1]"
        using e False t f f1 index_bound by (simp_all add: tpath_def)
      note e2 = pt_entry [OF wf p2(2,1) index_bound(3) [of va]]
      obtain g where g: "load64 ?m (entry_addr ?p2 ?i2) = Inr g" using e2(2) by blast
      note g2 = get_next_ptp_entry [OF e2(3) ptp_index_vpath(4) g]
      have s1: "\<not> IS_PTE_INVALID f" "IS_PTE_TABLE f" using f1 by auto
      note s1 = s0 f s1 g1(3)
      show ?thesis
      proof (cases "IS_PTE_INVALID g \<or> \<not> IS_PTE_TABLE g")
        case True
        then show ?thesis
          by (cases "IS_PTE_INVALID g") (simp_all add: s1 g g2(2,3) leaf_pa_def)
      next
        case g1: False
        let ?p3 = "GET_NEXT_PTP g"
        have p3: "tbl ?m r [?i0, ?i1, ?i2] = Some ?p3" "tpath [?i0, ?i1, ?i2]"
          using e False t f f1 g g1 index_bound by (simp_all add: tpath_def)
        note e3 = pt_entry [OF wf p3(2,1) index_bound(4) [of va]]
        obtain h where h: "load64 ?m (entry_addr ?p3 ?i3) = Inr h" using e3(2) by blast
        note g3 = get_next_ptp_entry [OF e3(3) ptp_index_vpath(5) h]
        have s2: "\<not> IS_PTE_INVALID g" "IS_PTE_TABLE g" using g1 by auto
        show ?thesis
          by (cases "IS_PTE_INVALID h") (simp_all add: s1 s2 g g2(3) h g3(1) leaf_pa_def)
      qed
    qed
  qed
qed

subsection \<open>The physical address of a leaf\<close>

lemma or_low_bits:
  assumes "2 ^ k dvd unat (pa :: u64)"
  shows "pa OR take_bit k x = pa + take_bit k x"
proof (rule disjunctive_add [symmetric])
  fix n show "\<not> bit pa n \<or> \<not> bit (take_bit k x) n"
    using bit_above_dvd [OF assms, of n] by (auto simp: bit_take_bit_iff)
qed

lemma field_pa:
  assumes "2 ^ k dvd unat (pa :: u64)" "unat pa < 2 ^ 48" "k \<le> 48"
    and f: "field_of 0 lay ''pfn'' = (k, 48 - k)" "12 \<le> k"
  shows "push_bit k (get_field lay ''pfn'' (pte_flags flags (set_field lay ''pfn'' (drop_bit k pa) e))) = pa"
proof (rule bit_word_eqI)
  fix n assume n: "n < LENGTH(64)"
  have "bit (get_field lay ''pfn'' (pte_flags flags (set_field lay ''pfn'' (drop_bit k pa) e))) (n - k) \<longleftrightarrow>
      n - k < 48 - k \<and> bit pa n" if "k \<le> n"
    using that n assms(3) f pte_flags_pfn [of n flags "set_field lay ''pfn'' (drop_bit k pa) e"]
    by (auto simp: get_field_def bit_simps bit_set_field [OF f(1)] dest: bit_imp_le_length)
  then show "bit (push_bit k (get_field lay ''pfn'' (pte_flags flags (set_field lay ''pfn'' (drop_bit k pa) e)))) n \<longleftrightarrow> bit pa n"
    using n bit_above_dvd [OF assms(1), of n] bit_below_power [OF assms(2), of n] assms(3)
    by (cases "k \<le> n") (auto simp: bit_push_bit_iff)
qed

lemma leaf_pa_ok:
  "4096 dvd unat pa \<Longrightarrow> unat pa < 2 ^ 48 \<Longrightarrow> leaf_pa 0 (l3_pte pa flags) x = pa + take_bit 12 x"
  "2 ^ 21 dvd unat pa \<Longrightarrow> unat pa < 2 ^ 48 \<Longrightarrow> leaf_pa 1 (l2_pte pa flags) x = pa + take_bit 21 x"
  "2 ^ 30 dvd unat pa \<Longrightarrow> unat pa < 2 ^ 48 \<Longrightarrow> leaf_pa 2 (l1_pte pa flags) x = pa + take_bit 30 x"
proof -
  have m: "x AND 0xfff = take_bit 12 x" "x AND 0x1fffff = take_bit 21 x" "x AND 0x3fffffff = take_bit 30 x"
    by (simp_all add: take_bit_eq_mask mask_eq_exp_minus_1)
  show "4096 dvd unat pa \<Longrightarrow> unat pa < 2 ^ 48 \<Longrightarrow> leaf_pa 0 (l3_pte pa flags) x = pa + take_bit 12 x"
    using field_pa [of 12 pa l3_page_layout] or_low_bits [of 12 pa x] l3_fields(8)
    by (simp add: leaf_pa_def l3_pte_def GET_VA_OFFSET_L3_def m)
  show "2 ^ 21 dvd unat pa \<Longrightarrow> unat pa < 2 ^ 48 \<Longrightarrow> leaf_pa 1 (l2_pte pa flags) x = pa + take_bit 21 x"
    using field_pa [of 21 pa l2_block_layout] or_low_bits [of 21 pa x] block_fields(6)
    by (simp add: leaf_pa_def l2_pte_def GET_VA_OFFSET_L2_def m)
  show "2 ^ 30 dvd unat pa \<Longrightarrow> unat pa < 2 ^ 48 \<Longrightarrow> leaf_pa 2 (l1_pte pa flags) x = pa + take_bit 30 x"
    using field_pa [of 30 pa l1_block_layout] or_low_bits [of 30 pa x] block_fields(3)
    by (simp add: leaf_pa_def l1_pte_def GET_VA_OFFSET_L1_def m)
qed

subsection \<open>The path to an address\<close>

text \<open>On the way to \<open>va\<close> there is no block below level \<open>k\<close> (counted from the leaves).\<close>

definition no_block :: "'z kernel_state_scheme \<Rightarrow> u64 \<Rightarrow> u64 \<Rightarrow> bool" where
  "no_block s r va \<longleftrightarrow> (\<forall>a e n. leaf s r va = Some (a, e, n) \<longrightarrow> n = 0)"

lemma no_block_entry:
  assumes "no_block s r va" "tbl (mem s) r xs = Some p" "vpath va = xs @ i # ys" "ys \<noteq> []"
    and "load64 (mem s) (entry_addr p i) = Inr e" "\<not> IS_PTE_INVALID e"
  shows "IS_PTE_TABLE e"
proof (rule ccontr)
  assume "\<not> IS_PTE_TABLE e"
  then have "walk (mem s) p (i # ys) = Some (entry_addr p i, e, length ys)" using assms(5,6) by simp
  then have "leaf s r va = Some (entry_addr p i, e, length ys)"
    unfolding leaf_def assms(3) using walk_append [OF assms(2), of "i # ys"] by simp
  then show False using assms(1,4) by (simp add: no_block_def)
qed

lemma vpath_split:
  "vpath va = [] @ GET_L0_INDEX va # [GET_L1_INDEX va, GET_L2_INDEX va, GET_L3_INDEX va]"
  "vpath va = [GET_L0_INDEX va] @ GET_L1_INDEX va # [GET_L2_INDEX va, GET_L3_INDEX va]"
  "vpath va = [GET_L0_INDEX va, GET_L1_INDEX va] @ GET_L2_INDEX va # [GET_L3_INDEX va]"
  by (simp_all add: vpath_def)

lemma take_vpath:
  "take 1 (vpath va) = [GET_L0_INDEX va]" "take 2 (vpath va) = [GET_L0_INDEX va, GET_L1_INDEX va]"
  "take 3 (vpath va) = [GET_L0_INDEX va, GET_L1_INDEX va, GET_L2_INDEX va]"
  by (simp_all add: vpath_def)

lemma tpath_vpath [simp]:
  "tpath [GET_L0_INDEX va]" "tpath [GET_L0_INDEX va, GET_L1_INDEX va]"
  "tpath [GET_L0_INDEX va, GET_L1_INDEX va, GET_L2_INDEX va]"
  by (simp_all add: tpath_def index_bound)

lemma grown_vpath:
  "grown s r A s' A' [GET_L0_INDEX va] \<Longrightarrow> grown s r A s' A' (vpath va)"
  "grown s r A s' A' [GET_L0_INDEX va, GET_L1_INDEX va] \<Longrightarrow> grown s r A s' A' (vpath va)"
  "grown s r A s' A' [GET_L0_INDEX va, GET_L1_INDEX va, GET_L2_INDEX va] \<Longrightarrow> grown s r A s' A' (vpath va)"
  by (auto elim!: grown_prefix simp: vpath_def)

text \<open>A descent keeps every translation.\<close>

definition extends ::
  "'z kernel_state_scheme \<Rightarrow> u64 \<Rightarrow> (u64 \<times> nat) set \<Rightarrow> 'z kernel_state_scheme \<Rightarrow> (u64 \<times> nat) set \<Rightarrow> nat \<Rightarrow> bool"
where
  "extends s r A s' A' n \<longleftrightarrow> pt_wf s' r A' \<and> A \<subseteq> A' \<and> chunk_pages A' \<le> chunk_pages A + n \<and>
     pool_pages s' = pool_pages s \<and> dom (mem s') = dom (mem s)"

lemma extends_trans:
  "extends s r A s1 A1 n \<Longrightarrow> extends s1 r A1 s2 A2 k \<Longrightarrow> n + k \<le> m \<Longrightarrow> extends s r A s2 A2 m"
  by (auto simp: extends_def)

lemma extends_mono: "extends s r A s' A' n \<Longrightarrow> n \<le> m \<Longrightarrow> extends s r A s' A' m"
  by (auto simp: extends_def)

lemma extends_refl: "pt_wf s r A \<Longrightarrow> extends s r A s A n"
  by (simp add: extends_def)

subsection \<open>Table pages a mapping still needs\<close>

text \<open>The tables on the path to \<open>va\<close> that are not there yet.\<close>

definition missing :: "'z kernel_state_scheme \<Rightarrow> u64 \<Rightarrow> u64 \<Rightarrow> nat" where
  "missing s r va =
     (if tbl (mem s) r (take 1 (vpath va)) = None then 3
      else if tbl (mem s) r (take 2 (vpath va)) = None then 2
      else if tbl (mem s) r (take 3 (vpath va)) = None then 1 else 0)"

text \<open>
  A page that begins a region of 512G, 1G or 2M may need tables of its own; \<open>crossings v n\<close> counts
  those regions that the \<open>n\<close> pages from \<open>v\<close> enter after their first page.
\<close>

definition boundary :: "nat \<Rightarrow> nat" where
  "boundary v = (if 2 ^ 39 dvd v then 3 else if 2 ^ 30 dvd v then 2 else if 2 ^ 21 dvd v then 1 else 0)"

definition crossings :: "nat \<Rightarrow> nat \<Rightarrow> nat" where
  "crossings v n = ((v + n * 4096 - 1) div 2 ^ 39 - v div 2 ^ 39) + ((v + n * 4096 - 1) div 2 ^ 30 - v div 2 ^ 30) +
     ((v + n * 4096 - 1) div 2 ^ 21 - v div 2 ^ 21)"

definition wanted :: "'z kernel_state_scheme \<Rightarrow> u64 \<Rightarrow> u64 \<Rightarrow> nat \<Rightarrow> nat" where
  "wanted s r va n = (if n = 0 then 0 else missing s r va + crossings (unat va) n)"

lemma missing_le_3: "missing s r va \<le> 3"
  by (simp add: missing_def)

lemma tbl_prefix: "tbl m r (xs @ ys) \<noteq> None \<Longrightarrow> tbl m r xs \<noteq> None"
  by (auto simp: tbl_append split: option.splits)

lemma take_vpath_append: "j \<le> k \<Longrightarrow> \<exists>ys. take k (vpath va) = take j (vpath va) @ ys"
  by (metis min.absorb1 take_take append_take_drop_id)

lemma tbl_take: "j \<le> k \<Longrightarrow> tbl m r (take k (vpath va)) \<noteq> None \<Longrightarrow> tbl m r (take j (vpath va)) \<noteq> None"
  using take_vpath_append tbl_prefix by metis

lemma missing_iff: "j \<in> {1, 2, 3} \<Longrightarrow> missing s r va \<le> 3 - j \<longleftrightarrow> tbl (mem s) r (take j (vpath va)) \<noteq> None"
  using tbl_take [of 1 2 "mem s" r va] tbl_take [of 2 3 "mem s" r va] tbl_take [of 1 3 "mem s" r va]
  by (auto simp: missing_def)

lemma vpath_take_eq:
  assumes "unat x < 2 ^ 48" "unat y < 2 ^ 48"
  shows "unat x div 2 ^ 39 = unat y div 2 ^ 39 \<Longrightarrow> take 1 (vpath x) = take 1 (vpath y)"
    and "unat x div 2 ^ 30 = unat y div 2 ^ 30 \<Longrightarrow> take 2 (vpath x) = take 2 (vpath y)"
    and "unat x div 2 ^ 21 = unat y div 2 ^ 21 \<Longrightarrow> take 3 (vpath x) = take 3 (vpath y)"
proof -
  have "GET_L0_INDEX z = unat z div 2 ^ 39 mod 512" for z
    by (simp add: index_nat div_mult2_eq [symmetric])
  then show "unat x div 2 ^ 39 = unat y div 2 ^ 39 \<Longrightarrow> take 1 (vpath x) = take 1 (vpath y)"
    by (simp add: vpath_def)
  show "unat x div 2 ^ 30 = unat y div 2 ^ 30 \<Longrightarrow> take 2 (vpath x) = take 2 (vpath y)"
    "unat x div 2 ^ 21 = unat y div 2 ^ 21 \<Longrightarrow> take 3 (vpath x) = take 3 (vpath y)"
    using prefix_vpath(1,2) [OF assms] by (auto simp: vpath_def prefix_def)
qed

lemma div_step:
  assumes "2 ^ k dvd (v :: nat)" "k \<le> j" "\<not> 2 ^ j dvd v + 2 ^ k"
  shows "(v + 2 ^ k) div 2 ^ j = v div 2 ^ j"
proof -
  obtain c where c: "v = 2 ^ k * c" using assms(1) by (elim dvdE)
  have j: "(2 :: nat) ^ j = 2 ^ k * 2 ^ (j - k)" using assms(2) by (simp flip: power_add)
  have v: "v + 2 ^ k = 2 ^ k * (c + 1)" using c by simp
  have "\<not> 2 ^ (j - k) dvd c + 1" using assms(3) unfolding c v [unfolded c] j by (metis mult_dvd_mono dvd_refl)
  then have "(c + 1) div 2 ^ (j - k) = c div 2 ^ (j - k)"
    by (simp add: div_Suc dvd_eq_mod_eq_0 mod_Suc)
  then show ?thesis unfolding j c v [unfolded c] div_mult_mult1_if by simp
qed

text \<open>
  After a step that left a leaf of \<open>2 ^ k\<close> bytes at \<open>va\<close>, only tables of regions that begin at the
  next address can be missing there.
\<close>

lemma missing_next:
  assumes j: "j \<in> {1, 2, 3}" "k = 39 - 9 * j" "tbl (mem s) r (take j (vpath va)) \<noteq> None"
    and va: "2 ^ k dvd unat va" "unat va' = unat va + 2 ^ k" "unat va' < 2 ^ 48"
  shows "missing s r va' \<le> boundary (unat va')"
proof -
  have lt: "unat va < 2 ^ 48" using va(2,3) by simp
  have kd: "2 ^ k dvd unat va'" using va(1,2) by simp
  note d = div_step [OF va(1), folded va(2)]
  note t = vpath_take_eq [OF va(3) lt]
  have at: "tbl (mem s) r (take i (vpath va)) \<noteq> None" if "i \<le> j" for i
    using tbl_take [OF that j(3)] .
  have up: "2 ^ l dvd unat va'" if "l \<le> k" for l
    using kd le_imp_power_dvd [OF that] dvd_trans by blast
  have 1: "tbl (mem s) r (take 1 (vpath va')) \<noteq> None" if "\<not> 2 ^ 39 dvd unat va'"
    using that d [of 39] t(1) at [of 1] j(1,2) by fastforce
  have 2: "tbl (mem s) r (take 2 (vpath va')) \<noteq> None" if n: "\<not> 2 ^ 30 dvd unat va'"
  proof -
    have "k < 30" using n up [of 30] by (meson not_le)
    then show ?thesis using n d [of 30] t(2) at [of 2] j(1,2) by fastforce
  qed
  have 3: "tbl (mem s) r (take 3 (vpath va')) \<noteq> None" if n: "\<not> 2 ^ 21 dvd unat va'"
  proof -
    have "k < 21" using n up [of 21] by (meson not_le)
    then show ?thesis using n d [of 21] t(3) at [of 3] j(1,2) by fastforce
  qed
  have "2 ^ 39 dvd unat va' \<or> tbl (mem s) r (take 1 (vpath va')) \<noteq> None" using 1 by blast
  moreover have "2 ^ 30 dvd unat va' \<or> tbl (mem s) r (take 2 (vpath va')) \<noteq> None" using 2 by blast
  moreover have "2 ^ 21 dvd unat va' \<or> tbl (mem s) r (take 3 (vpath va')) \<noteq> None" using 3 by blast
  ultimately show ?thesis unfolding missing_def boundary_def by (auto simp del: One_nat_def)
qed

lemma crossing_step:
  assumes "4096 dvd (v :: nat)" "0 < d" "d < n" "4096 dvd m"
  shows "(if m dvd v + d * 4096 then 1 else 0) + ((v + n * 4096 - 1) div m - (v + d * 4096) div m)
    \<le> (v + n * 4096 - 1) div m - v div m"
proof -
  have "(v + d * 4096) div m \<le> (v + n * 4096 - 1) div m" using assms(3) by (intro div_le_mono) linarith
  moreover have "v div m \<le> (v + d * 4096) div m" by (intro div_le_mono) simp
  moreover have "v div m < (v + d * 4096) div m" if m: "m dvd v + d * 4096" "0 < m"
  proof -
    obtain c where c: "v + d * 4096 = m * c" using m(1) unfolding dvd_def by blast
    moreover have "v < c * m" using c assms(2) by (simp add: mult.commute)
    ultimately show ?thesis using m(2) by (simp add: div_less_iff_less_mult)
  qed
  ultimately show ?thesis using assms(2) by (cases "m = 0") auto
qed

lemma crossings_step:
  assumes "4096 dvd v" "0 < d" "d < n"
  shows "boundary (v + d * 4096) + crossings (v + d * 4096) (n - d) \<le> crossings v n"
proof -
  have e: "v + d * 4096 + (n - d) * 4096 = v + n * 4096" using assms(3) by (simp flip: add_mult_distrib)
  have p: "(2 :: nat) ^ 30 dvd 2 ^ 39" "(2 :: nat) ^ 21 dvd 2 ^ 30" by (simp_all add: le_imp_power_dvd)
  then have "2 ^ 39 dvd w \<Longrightarrow> 2 ^ 30 dvd w" "2 ^ 30 dvd w \<Longrightarrow> 2 ^ 21 dvd w" for w :: nat
    using dvd_trans by blast+
  then have "boundary w \<le> (if 2 ^ 39 dvd w then 1 else 0) + (if 2 ^ 30 dvd w then 1 else 0) + (if 2 ^ 21 dvd w then 1 else 0)" for w
    unfolding boundary_def by auto
  note b = this [of "v + d * 4096"]
  have m: "4096 dvd (2 :: nat) ^ 39" "4096 dvd (2 :: nat) ^ 30" "4096 dvd (2 :: nat) ^ 21" by simp_all
  show ?thesis unfolding crossings_def e
    using b crossing_step [OF assms m(1)] crossing_step [OF assms m(2)] crossing_step [OF assms m(3)] by linarith
qed

lemma wanted_step:
  assumes j: "j \<in> {1, 2, 3}" "k = 39 - 9 * j" "tbl (mem s') r (take j (vpath va)) \<noteq> None"
    and va: "2 ^ k dvd unat va" "unat va' = unat va + 2 ^ k" "4096 dvd unat va" "unat va + n * 4096 \<le> 2 ^ 48"
    and d: "2 ^ k = d * 4096" "d \<le> n"
  shows "missing s r va + wanted s' r va' (n - d) \<le> wanted s r va n"
proof -
  have "0 < d" using d(1) by (cases d) auto
  show ?thesis
  proof (cases "d = n")
    case False
    then have lt: "d < n" using d(2) by simp
    then have "d * 4096 < n * 4096" by simp
    then have "unat va' < 2 ^ 48" using va(2,4) d(1) by linarith
    then have "missing s' r va' \<le> boundary (unat va')" by (rule missing_next [OF j va(1,2)])
    moreover have "boundary (unat va') + crossings (unat va') (n - d) \<le> crossings (unat va) n"
      unfolding va(2) d(1) by (rule crossings_step [OF va(3) \<open>0 < d\<close> lt])
    ultimately show ?thesis using lt by (simp add: wanted_def)
  next
    case True
    then show ?thesis using \<open>0 < d\<close> by (simp add: wanted_def)
  qed
qed

end
