(* ===== verification/Page_Table_Correct.thy ===== *)
theory Page_Table_Correct
  imports Page_Table_Translate
begin

text \<open>
  What the functions of page_table.c compute on well-formed tables, in terms of the
  translation of every address below \<open>2 ^ 48\<close>.
\<close>

subsection \<open>Mapping one page\<close>

lemma descend_va:
  assumes wf: "pt_wf s r A" and xs: "vpath va = xs @ i # ys" "ys \<noteq> []" "tbl (mem s) r xs = Some p"
    and nb: "no_block s r va" and room: "chunk_pages A + missing s r va \<le> pool_pages s"
  shows "\<exists>s' A' q. get_next_ptp s p (length xs) va nx pt True = Inr (s', 0, Some q, Some (entry_addr p i)) \<and>
    extends s r A s' A' 1 \<and> tbl (mem s') r (xs @ [i]) = Some q \<and> (\<forall>x. leaf s' r x = leaf s r x) \<and>
    chunk_pages A' + missing s' r va \<le> chunk_pages A + missing s r va \<and> grown s r A s' A' (xs @ [i])"
proof -
  have len: "length (vpath va) = 4" by (rule vpath_bound)
  have k: "take (Suc (length xs)) (vpath va) = xs @ [i]" by (simp add: xs(1))
  have l3: "length xs < 3" using len xs(1,2) by (cases ys) auto
  have "ptp_index (length xs) va = Inr (vpath va ! length xs)"
    using l3 by (auto simp: ptp_index_def vpath_def less_Suc_eq numeral_3_eq_3 nth_Cons')
  then have i: "ptp_index (length xs) va = Inr i" unfolding xs(1) by simp
  have tp: "tpath xs" using vpath_bound [of va] l3 xs(1) by (simp add: tpath_def)
  have k3: "Suc (length xs) \<in> {1, 2, 3}" using l3 by (auto simp: less_Suc_eq numeral_3_eq_3)
  have gap: "3 - length xs \<le> missing s r va" if n: "tbl (mem s) r (xs @ [i]) = None"
    using missing_iff [OF k3, of s r va] n l3 unfolding k by linarith
  have room': "tbl (mem s) r (xs @ [i]) = None \<Longrightarrow> chunk_pages A < pool_pages s" using gap room l3 by linarith
  obtain s' A' q where s': "get_next_ptp s p (length xs) va nx pt True = Inr (s', 0, Some q, Some (entry_addr p i))"
    "pt_wf s' r A'" "A \<subseteq> A'" "chunk_pages A' \<le> Suc (chunk_pages A)" "pool_pages s' = pool_pages s \<and> dom (mem s') = dom (mem s)"
    "tbl (mem s') r (xs @ [i]) = Some q" "tbl (mem s) r (xs @ [i]) \<noteq> None \<longrightarrow> s' = s \<and> A' = A"
    "grown s r A s' A' (xs @ [i])"
    "\<forall>path. set path \<subseteq> {..<512} \<longrightarrow> length path = 4 \<longrightarrow> walk (mem s') r path = walk (mem s) r path"
    using descend_ok [OF wf tp xs(3) l3 i no_block_entry [OF nb xs(3,1,2)] room'] by blast
  have "leaf s' r x = leaf s r x" for x
    using s'(9) vpath_bound [of x] by (simp add: leaf_def)
  moreover have "missing s' r va \<le> 2 - length xs"
    using missing_iff [OF k3, of s' r va] s'(6) unfolding k by simp
  then have "chunk_pages A' + missing s' r va \<le> chunk_pages A + missing s r va"
    using gap s'(4,7) l3 by (cases "tbl (mem s) r (xs @ [i]) = None") auto
  ultimately show ?thesis using s'(1-6,8) by (auto simp: extends_def)
qed

text \<open>Writing the level 3 entry of \<open>va\<close>, whatever it was.\<close>

lemma write_l3_ok:
  assumes wf: "pt_wf s r A" and va: "unat va < 2 ^ 48"
    and p: "tbl (mem s) r [GET_L0_INDEX va, GET_L1_INDEX va, GET_L2_INDEX va] = Some p"
  shows "\<exists>s'. write64 (entry_addr p (GET_L3_INDEX va)) v s = Inr s' \<and> extends s r A s' A 0 \<and>
    (\<forall>x. unat x < 2 ^ 48 \<longrightarrow> leaf s' r x =
      (if unat x div 4096 = unat va div 4096
       then if IS_PTE_INVALID v then None else Some (entry_addr p (GET_L3_INDEX va), v, 0)
       else leaf s r x)) \<and> same_tables s r s'"
proof -
  have v: "length [GET_L0_INDEX va, GET_L1_INDEX va, GET_L2_INDEX va] = 3 \<or> IS_PTE_INVALID v \<or> \<not> IS_PTE_TABLE v"
    "[GET_L0_INDEX va, GET_L1_INDEX va, GET_L2_INDEX va] = [] \<longrightarrow> IS_PTE_INVALID v \<or> IS_PTE_TABLE v" by simp_all
  obtain s' where s': "write64 (entry_addr p (GET_L3_INDEX va)) v s = Inr s'" "pt_wf s' r A"
    "pool_pages s' = pool_pages s" "dom (mem s') = dom (mem s)"
    "\<forall>path. set path \<subseteq> {..<512} \<longrightarrow> length path = 4 \<longrightarrow> walk (mem s') r path =
      (if prefix ([GET_L0_INDEX va, GET_L1_INDEX va, GET_L2_INDEX va] @ [GET_L3_INDEX va]) path
       then if IS_PTE_INVALID v then None else Some (entry_addr p (GET_L3_INDEX va), v, 3 - length [GET_L0_INDEX va, GET_L1_INDEX va, GET_L2_INDEX va])
       else walk (mem s) r path)"
    "\<forall>ys. tpath ys \<longrightarrow> \<not> prefix ([GET_L0_INDEX va, GET_L1_INDEX va, GET_L2_INDEX va] @ [GET_L3_INDEX va]) ys \<longrightarrow>
      tbl (mem s') r ys = tbl (mem s) r ys"
    "length [GET_L0_INDEX va, GET_L1_INDEX va, GET_L2_INDEX va] = 3 \<or>
      tbl (mem s) r ([GET_L0_INDEX va, GET_L1_INDEX va, GET_L2_INDEX va] @ [GET_L3_INDEX va]) = None \<longrightarrow> same_tables s r s'"
    using write_leaf_ok [OF wf tpath_vpath(3) p index_bound(4) [of va] v] by (elim exE conjE) (rule that)
  have "leaf s' r x = (if unat x div 4096 = unat va div 4096
       then if IS_PTE_INVALID v then None else Some (entry_addr p (GET_L3_INDEX va), v, 0)
       else leaf s r x)" if "unat x < 2 ^ 48" for x
    using s'(5) [rule_format, OF vpath_bound] prefix_vpath(3) [OF that va] by (simp add: leaf_def)
  then show ?thesis using s' by (auto simp: extends_def)
qed

lemma map_page_step_ok:
  assumes wf: "pt_wf s r A" and va: "unat va < 2 ^ 48" and nb: "no_block s r va"
    and room: "chunk_pages A + missing s r va \<le> pool_pages s"
  shows "\<exists>s' A' a. map_page_step r flags s va pa = Inr (s', 0x1000) \<and> extends s r A s' A' (missing s r va) \<and>
    tbl (mem s') r (take 3 (vpath va)) \<noteq> None \<and> grown s r A s' A' (vpath va) \<and>
    (\<forall>x. unat x < 2 ^ 48 \<longrightarrow> leaf s' r x =
      (if unat x div 4096 = unat va div 4096 then Some (a, l3_pte pa flags, 0) else leaf s r x))"
proof -
  let ?i0 = "GET_L0_INDEX va" and ?i1 = "GET_L1_INDEX va" and ?i2 = "GET_L2_INDEX va" and ?i3 = "GET_L3_INDEX va"
  have r0: "tbl (mem s) r [] = Some r" by simp
  obtain s1 A1 p1 where 1: "get_next_ptp s r 0 va None None True = Inr (s1, 0, Some p1, Some (entry_addr r ?i0))"
    "extends s r A s1 A1 1" "tbl (mem s1) r [?i0] = Some p1" "\<And>x. leaf s1 r x = leaf s r x"
    "chunk_pages A1 + missing s1 r va \<le> chunk_pages A + missing s r va" "grown s r A s1 A1 [?i0]"
    using descend_va [OF wf vpath_split(1) _ r0 nb room, of None None] by auto
  have w1: "pt_wf s1 r A1" "chunk_pages A1 + missing s1 r va \<le> pool_pages s1" and nb1: "no_block s1 r va"
    using 1(2,4,5) room nb by (auto simp: extends_def no_block_def)
  obtain s2 A2 p2 where 2: "get_next_ptp s1 p1 1 va None (Some (entry_addr r ?i0)) True =
      Inr (s2, 0, Some p2, Some (entry_addr p1 ?i1))"
    "extends s1 r A1 s2 A2 1" "tbl (mem s2) r [?i0, ?i1] = Some p2" "\<And>x. leaf s2 r x = leaf s1 r x"
    "chunk_pages A2 + missing s2 r va \<le> chunk_pages A1 + missing s1 r va" "grown s1 r A1 s2 A2 [?i0, ?i1]"
    using descend_va [OF w1(1) vpath_split(2) _ 1(3) nb1 w1(2), of None "Some (entry_addr r ?i0)"] by auto
  have w2: "pt_wf s2 r A2" "chunk_pages A2 + missing s2 r va \<le> pool_pages s2" and nb2: "no_block s2 r va"
    using 2(2,4,5) w1(2) nb1 by (auto simp: extends_def no_block_def)
  obtain s3 A3 p3 where 3: "get_next_ptp s2 p2 2 va None (Some (entry_addr p1 ?i1)) True =
      Inr (s3, 0, Some p3, Some (entry_addr p2 ?i2))"
    "extends s2 r A2 s3 A3 1" "tbl (mem s3) r [?i0, ?i1, ?i2] = Some p3" "\<And>x. leaf s3 r x = leaf s2 r x"
    "chunk_pages A3 + missing s3 r va \<le> chunk_pages A2 + missing s2 r va" "grown s2 r A2 s3 A3 [?i0, ?i1, ?i2]"
    using descend_va [OF w2(1) vpath_split(3) _ 2(3) nb2 w2(2), of None "Some (entry_addr p1 ?i1)"]
    by (auto simp: numeral_2_eq_2)
  have w3: "pt_wf s3 r A3" using 3(2) by (simp add: extends_def)
  note pe = pt_entry [OF w3 _ 3(3) index_bound(4) [of va], simplified]
  obtain e where e: "load64 (mem s3) (entry_addr p3 ?i3) = Inr e" using pe(2) by blast
  have 4: "get_next_ptp s3 p3 3 va None (Some (entry_addr p2 ?i2)) False =
      Inr (s3, if IS_PTE_INVALID e then - 203 else 1, None, Some (entry_addr p3 ?i3))"
    using get_next_ptp_entry(1) [OF pe(3) ptp_index_vpath(5) e] by blast
  obtain s4 where 5: "write64 (entry_addr p3 ?i3) (l3_pte pa flags) s3 = Inr s4" "extends s3 r A3 s4 A3 0"
    "\<forall>x. unat x < 2 ^ 48 \<longrightarrow> leaf s4 r x =
      (if unat x div 4096 = unat va div 4096
       then if IS_PTE_INVALID (l3_pte pa flags) then None else Some (entry_addr p3 ?i3, l3_pte pa flags, 0)
       else leaf s3 r x)" "same_tables s3 r s4"
    using write_l3_ok [OF w3 va 3(3)] by blast
  have "map_page_step r flags s va pa = Inr (s4, 0x1000)"
    unfolding map_page_step_def using 1(1) 2(1) 3(1) 4 5(1) fill_pte_ok(1) [OF pe(1)] by simp
  moreover have "extends s r A s4 A3 (missing s r va)"
    using 1(2,5) 2(2,5) 3(2,5) 5(2) by (auto simp: extends_def)
  moreover have "tbl (mem s4) r (take 3 (vpath va)) = Some p3"
    unfolding take_vpath using 5(4) tpath_vpath(3) 3(3) unfolding same_tables_def by metis
  moreover have "grown s r A s4 A3 (vpath va)"
    using grown_trans [OF grown_trans [OF grown_vpath(1) [OF 1(6)] grown_vpath(2) [OF 2(6)]] grown_vpath(3) [OF 3(6)]]
      grown_same [OF 5(4)] grown_trans by blast
  ultimately show ?thesis
    using 5(3) 1(4) 2(4) 3(4) leaf_pte_kind(1) [of pa flags]
    by (intro exI [of _ s4] exI [of _ A3] exI [of _ "entry_addr p3 ?i3"]) simp
qed

subsection \<open>Ranges\<close>

definition in_range :: "u64 \<Rightarrow> nat \<Rightarrow> u64 \<Rightarrow> bool" where
  "in_range va n x \<longleftrightarrow> unat va \<le> unat x \<and> unat x < unat va + n"

lemma in_range_page:
  assumes "4096 dvd unat va"
  shows "unat x div 4096 = unat va div 4096 \<longleftrightarrow> in_range va 4096 x"
proof -
  obtain c where "unat va = 4096 * c" using assms by (elim dvdE)
  then show ?thesis by (auto simp: in_range_def div_less_iff_less_mult)
qed

lemma va_step:
  assumes "unat (va :: u64) + k \<le> 2 ^ 48" "k = unat step"
  shows "unat (va + step) = unat va + k"
  using assms by (simp add: unat_word_ariths)

text \<open>
  What a mapping loop leaves: the addresses of the range translate to the target range, all
  others as before.
\<close>

definition mapped_range ::
  "u64 \<Rightarrow> 'z kernel_state_scheme \<Rightarrow> u64 \<Rightarrow> u64 \<Rightarrow> u64 \<Rightarrow> nat \<Rightarrow> 'z kernel_state_scheme \<Rightarrow> bool"
where
  "mapped_range flags s r va pa n s' \<longleftrightarrow> (\<forall>x. unat x < 2 ^ 48 \<longrightarrow>
     translate s' r x = (if in_range va n x then Some (pa + (x - va), flag_attributes flags) else translate s r x))"

lemma mapped_range_0: "mapped_range flags s r va pa 0 s"
  by (auto simp: mapped_range_def in_range_def)

lemma mapped_range_append:
  assumes a: "mapped_range flags s r va pa m s1" and b: "mapped_range flags s1 r (va + of_nat m) (pa + of_nat m) n s2"
    and u: "unat (va + of_nat m) = unat va + m"
  shows "mapped_range flags s r va pa (m + n) s2"
  unfolding mapped_range_def
proof (intro allI impI)
  fix x :: u64 assume x: "unat x < 2 ^ 48"
  have "pa + of_nat m + (x - (va + of_nat m)) = pa + (x - va)" by simp
  moreover have "in_range va (m + n) x \<longleftrightarrow> in_range va m x \<or> in_range (va + of_nat m) n x"
    by (auto simp: in_range_def u)
  ultimately show "translate s2 r x = (if in_range va (m + n) x then Some (pa + (x - va), flag_attributes flags) else translate s r x)"
    using a b x by (auto simp: mapped_range_def)
qed

lemma take_bit_offset:
  assumes "2 ^ k dvd unat (va :: u64)" "in_range va (2 ^ k) x"
  shows "take_bit k x = x - va"
proof -
  obtain c where c: "unat va = 2 ^ k * c" using assms(1) by (elim dvdE)
  have x: "unat va \<le> unat x" "unat x - unat va < 2 ^ k" using assms(2) by (auto simp: in_range_def)
  then have "unat x mod 2 ^ k = unat x - unat va"
    using c by (metis le_add_diff_inverse mod_less mod_mult_self2 add.commute)
  moreover have "unat (x - va) = unat x - unat va" using x(1) by (simp add: unat_sub word_le_nat_alt)
  moreover have "unat (take_bit k x) = unat x mod 2 ^ k"
    by (simp only: unsigned_take_bit_eq) (simp only: take_bit_eq_mod)
  ultimately show ?thesis by (simp only: word_unat_eq_iff)
qed

text \<open>The entries a mapping of 4K pages leaves.\<close>

definition page_leaves ::
  "u64 \<Rightarrow> 'z kernel_state_scheme \<Rightarrow> u64 \<Rightarrow> u64 \<Rightarrow> nat \<Rightarrow> 'z kernel_state_scheme \<Rightarrow> bool"
where
  "page_leaves flags s r va n s' \<longleftrightarrow> (\<forall>x. unat x < 2 ^ 48 \<longrightarrow>
     (if in_range va n x then \<exists>a pa. leaf s' r x = Some (a, l3_pte pa flags, 0) else leaf s' r x = leaf s r x))"

lemma page_leaves_append:
  assumes a: "page_leaves flags s r va m s1" and b: "page_leaves flags s1 r (va + of_nat m) n s2"
    and u: "unat (va + of_nat m) = unat va + m"
  shows "page_leaves flags s r va (m + n) s2"
  unfolding page_leaves_def
proof (intro allI impI)
  fix x :: u64 assume x: "unat x < 2 ^ 48"
  have "in_range va (m + n) x \<longleftrightarrow> in_range va m x \<or> in_range (va + of_nat m) n x"
    "\<not> (in_range va m x \<and> in_range (va + of_nat m) n x)"
    by (auto simp: in_range_def u)
  then show "if in_range va (m + n) x then \<exists>a pa. leaf s2 r x = Some (a, l3_pte pa flags, 0) else leaf s2 r x = leaf s r x"
    using a b x unfolding page_leaves_def by (cases "in_range va m x"; cases "in_range (va + of_nat m) n x") auto
qed

lemma map_page_step_range:
  assumes wf: "pt_wf s r A" and va: "unat va < 2 ^ 48" "4096 dvd unat va" and pa: "unat pa < 2 ^ 48" "4096 dvd unat pa"
    and nb: "no_block s r va" and room: "chunk_pages A + missing s r va \<le> pool_pages s"
  shows "\<exists>s' A'. map_page_step r flags s va pa = Inr (s', 0x1000) \<and> extends s r A s' A' (missing s r va) \<and>
    tbl (mem s') r (take 3 (vpath va)) \<noteq> None \<and> grown s r A s' A' (vpath va) \<and> page_leaves flags s r va 4096 s' \<and> mapped_range flags s r va pa 4096 s' \<and>
    (\<forall>x. in_range va 4096 x \<longrightarrow> unat x < 2 ^ 48 \<longrightarrow> no_block s' r x) \<and> (\<forall>x. unat x < 2 ^ 48 \<longrightarrow> \<not> in_range va 4096 x \<longrightarrow> leaf s' r x = leaf s r x)"
proof -
  obtain s' A' a where s': "map_page_step r flags s va pa = Inr (s', 0x1000)" "extends s r A s' A' (missing s r va)"
    "\<forall>x. unat x < 2 ^ 48 \<longrightarrow> leaf s' r x =
      (if unat x div 4096 = unat va div 4096 then Some (a, l3_pte pa flags, 0) else leaf s r x)"
    "tbl (mem s') r (take 3 (vpath va)) \<noteq> None" "grown s r A s' A' (vpath va)"
    using map_page_step_ok [OF wf va(1) nb room] by blast
  have "take_bit 12 x = x - va" if "in_range va 4096 x" for x
    using take_bit_offset [of 12 va x] va(2) that by simp
  then have "mapped_range flags s r va pa 4096 s'"
    using s'(3) leaf_pa_ok(1) [OF pa(2,1)] unfolding in_range_page [OF va(2)]
    by (simp add: mapped_range_def translate_def attributes_leaf_pte)
  moreover have "\<forall>x. unat x < 2 ^ 48 \<longrightarrow> \<not> in_range va 4096 x \<longrightarrow> leaf s' r x = leaf s r x"
    using s'(3) in_range_page [OF va(2)] by simp
  moreover have "\<forall>x. in_range va 4096 x \<longrightarrow> unat x < 2 ^ 48 \<longrightarrow> no_block s' r x"
    using s'(3) in_range_page [OF va(2)] by (simp add: no_block_def)
  moreover have "page_leaves flags s r va 4096 s'"
    using s'(3) in_range_page [OF va(2)] unfolding page_leaves_def by auto
  ultimately show ?thesis using s'(1,2,4,5) by blast
qed

lemma map_loop_ok:
  "pt_wf s r A \<Longrightarrow> unat va_end = unat va + n * 4096 \<Longrightarrow> unat va + n * 4096 \<le> 2 ^ 48 \<Longrightarrow>
   4096 dvd unat va \<Longrightarrow> 4096 dvd unat pa \<Longrightarrow> unat pa + n * 4096 \<le> 2 ^ 48 \<Longrightarrow>
   (\<And>x. in_range va (n * 4096) x \<Longrightarrow> no_block s r x) \<Longrightarrow> chunk_pages A + wanted s r va n \<le> pool_pages s \<Longrightarrow> n \<le> fuel \<Longrightarrow>
   \<exists>s' A'. va_loop fuel (map_page_step r flags) va_end s va pa = Some (Inr (s', 0)) \<and>
     extends s r A s' A' (wanted s r va n) \<and> mapped_range flags s r va pa (n * 4096) s' \<and>
     (\<forall>x. unat x < 2 ^ 48 \<longrightarrow> no_block s r x \<longrightarrow> no_block s' r x) \<and> (\<forall>B. owned s r B A \<longrightarrow> owned s' r B A') \<and>
     page_leaves flags s r va (n * 4096) s'"
proof (induction n arbitrary: s A va pa fuel)
  case 0
  then have "\<not> va < va_end" by (simp add: word_less_nat_alt)
  then have "va_loop fuel (map_page_step r flags) va_end s va pa = Some (Inr (s, 0))" by (cases fuel) simp_all
  then show ?case using extends_refl [OF 0(1)] mapped_range_0 [of flags s r va pa]
    by (intro exI [of _ s] exI [of _ A]) (auto simp: page_leaves_def in_range_def)
next
  case (Suc n)
  obtain fuel' where fuel: "fuel = Suc fuel'" "n \<le> fuel'" using Suc.prems(9) by (cases fuel) auto
  have lt: "va < va_end" using Suc.prems(2) by (simp add: word_less_nat_alt)
  have va: "unat va < 2 ^ 48" "unat pa < 2 ^ 48" using Suc.prems(3,6) by simp_all
  have nb: "no_block s r va" using Suc.prems(7) by (simp add: in_range_def)
  have room: "chunk_pages A + missing s r va \<le> pool_pages s" using Suc.prems(8) by (simp add: wanted_def)
  obtain s1 A1 where s1: "map_page_step r flags s va pa = Inr (s1, 0x1000)" "extends s r A s1 A1 (missing s r va)"
    "mapped_range flags s r va pa 4096 s1" "\<forall>x. in_range va 4096 x \<longrightarrow> unat x < 2 ^ 48 \<longrightarrow> no_block s1 r x"
    "\<forall>x. unat x < 2 ^ 48 \<longrightarrow> \<not> in_range va 4096 x \<longrightarrow> leaf s1 r x = leaf s r x"
    "tbl (mem s1) r (take 3 (vpath va)) \<noteq> None" "\<forall>B. owned s r B A \<longrightarrow> owned s1 r B A1"
    "page_leaves flags s r va 4096 s1"
    using map_page_step_range [OF Suc.prems(1) va(1) Suc.prems(4) va(2) Suc.prems(5) nb room] unfolding grown_def by blast
  have u: "unat (va + 0x1000) = unat va + 4096" "unat (pa + 0x1000) = unat pa + 4096"
    using Suc.prems(3,6) by (auto intro!: va_step)
  have want: "missing s r va + wanted s1 r (va + 0x1000) n \<le> wanted s r va (Suc n)"
    using wanted_step [of 3 12 s1 r va "va + 0x1000" "Suc n" 1 s] s1(6) Suc.prems(3,4) u(1) by simp
  have nb1: "no_block s1 r x" if x: "in_range (va + 0x1000) (n * 4096) x" for x
  proof -
    have "in_range va (Suc n * 4096) x" "\<not> in_range va 4096 x" "unat x < 2 ^ 48"
      using x Suc.prems(3) by (auto simp: in_range_def u)
    then show ?thesis using s1(5) Suc.prems(7) by (simp add: no_block_def)
  qed
  have "\<exists>s' A'. va_loop fuel' (map_page_step r flags) va_end s1 (va + 0x1000) (pa + 0x1000) = Some (Inr (s', 0)) \<and>
     extends s1 r A1 s' A' (wanted s1 r (va + 0x1000) n) \<and> mapped_range flags s1 r (va + 0x1000) (pa + 0x1000) (n * 4096) s' \<and>
     (\<forall>x. unat x < 2 ^ 48 \<longrightarrow> no_block s1 r x \<longrightarrow> no_block s' r x) \<and> (\<forall>B. owned s1 r B A1 \<longrightarrow> owned s' r B A') \<and>
     page_leaves flags s1 r (va + 0x1000) (n * 4096) s'"
    using Suc.prems s1(2) fuel(2) nb1 want
    by (intro Suc.IH) (auto simp: u extends_def)
  then obtain s' A' where s': "va_loop fuel' (map_page_step r flags) va_end s1 (va + 0x1000) (pa + 0x1000) = Some (Inr (s', 0))"
    "extends s1 r A1 s' A' (wanted s1 r (va + 0x1000) n)" "mapped_range flags s1 r (va + of_nat 4096) (pa + of_nat 4096) (n * 4096) s'"
    "\<forall>x. unat x < 2 ^ 48 \<longrightarrow> no_block s1 r x \<longrightarrow> no_block s' r x" "\<forall>B. owned s1 r B A1 \<longrightarrow> owned s' r B A'"
    "page_leaves flags s1 r (va + of_nat 4096) (n * 4096) s'" by auto
  have nbs: "no_block s1 r x" if "unat x < 2 ^ 48" "no_block s r x" for x
    using s1(4,5) that by (cases "in_range va 4096 x") (auto simp: no_block_def)
  have "mapped_range flags s r va pa (4096 + n * 4096) s'"
    using mapped_range_append [OF s1(3) s'(3)] u(1) by simp
  moreover have "page_leaves flags s r va (4096 + n * 4096) s'"
    using page_leaves_append [OF s1(8) s'(6)] u(1) by simp
  moreover have "extends s r A s' A' (wanted s r va (Suc n))" by (rule extends_trans [OF s1(2) s'(2) want])
  ultimately show ?case using s'(1,4,5) s1(1,7) lt fuel(1) nbs by (intro exI [of _ s'] exI [of _ A']) simp
qed

subsection \<open>Unmapping one page\<close>

lemma leaf_same_page:
  assumes "unat x < 2 ^ 48" "unat y < 2 ^ 48" "unat x div 4096 = unat y div 4096"
  shows "leaf s r x = leaf s r y"
proof -
  have "prefix (vpath y) (vpath x)" using prefix_vpath(3) [OF assms(1,2)] assms(3) by (simp add: vpath_def)
  then have "vpath x = vpath y" by (simp add: vpath_def)
  then show ?thesis by (simp add: leaf_def)
qed

lemma unmap_page_step_ok:
  assumes wf: "pt_wf s r A" and va: "unat va < 2 ^ 48" and nb: "no_block s r va"
  shows "\<exists>s'. unmap_page_step r s va = Inr (s', 0x1000) \<and> extends s r A s' A 0 \<and> same_tables s r s' \<and>
    (\<forall>x. unat x < 2 ^ 48 \<longrightarrow> leaf s' r x = (if unat x div 4096 = unat va div 4096 then None else leaf s r x))"
proof -
  note u = unmap_page_step_def
  let ?m = "mem s"
  let ?i0 = "GET_L0_INDEX va" and ?i1 = "GET_L1_INDEX va" and ?i2 = "GET_L2_INDEX va" and ?i3 = "GET_L3_INDEX va"
  have done0: ?thesis if "unmap_page_step r s va = Inr (s, 0x1000)" "leaf s r va = None"
  proof -
    have "leaf s r x = None" if "unat x < 2 ^ 48" "unat x div 4096 = unat va div 4096" for x
      using leaf_same_page [OF that(1) va that(2), of s r] \<open>leaf s r va = None\<close> by simp
    then show ?thesis using that(1) extends_refl [OF wf] same_tables_refl by (intro exI [of _ s]) simp
  qed
  have r: "tbl ?m r [] = Some r" by simp
  note e0 = pt_entry [OF wf tpath_Nil r index_bound(1) [of va]]
  obtain e where e: "load64 ?m (entry_addr r ?i0) = Inr e" using e0(2) by blast
  note g0 = get_next_ptp_entry [OF e0(3) ptp_index_vpath(1) e]
  show ?thesis
  proof (cases "IS_PTE_INVALID e")
    case True
    then show ?thesis using e by (intro done0) (simp_all add: u g0(2) leaf_def vpath_def)
  next
    case False
    have t: "IS_PTE_TABLE e" by (rule no_block_entry [OF nb r vpath_split(1) _ e False]) simp
    let ?p1 = "GET_NEXT_PTP e"
    have p1: "tbl ?m r [?i0] = Some ?p1" using e False t by simp
    note e1 = pt_entry [OF wf tpath_vpath(1) p1 index_bound(2) [of va]]
    obtain f where f: "load64 ?m (entry_addr ?p1 ?i1) = Inr f" using e1(2) by blast
    note g1 = get_next_ptp_entry [OF e1(3) ptp_index_vpath(3) f]
    note s0 = u leaf_def vpath_def e False t g0(3)
    show ?thesis
    proof (cases "IS_PTE_INVALID f")
      case True
      then show ?thesis by (intro done0) (simp_all add: s0 f g1(2))
    next
      case f1: False
      have ft: "IS_PTE_TABLE f" by (rule no_block_entry [OF nb p1 vpath_split(2) _ f f1]) simp
      let ?p2 = "GET_NEXT_PTP f"
      have p2: "tbl ?m r [?i0, ?i1] = Some ?p2" using e False t f f1 ft by simp
      note e2 = pt_entry [OF wf tpath_vpath(2) p2 index_bound(3) [of va]]
      obtain g where g: "load64 ?m (entry_addr ?p2 ?i2) = Inr g" using e2(2) by blast
      note g2 = get_next_ptp_entry [OF e2(3) ptp_index_vpath(4) g]
      note s1 = s0 f f1 ft g1(3)
      show ?thesis
      proof (cases "IS_PTE_INVALID g")
        case True
        then show ?thesis by (intro done0) (simp_all add: s1 g g2(2))
      next
        case gi: False
        have gt: "IS_PTE_TABLE g" by (rule no_block_entry [OF nb p2 vpath_split(3) _ g gi]) simp
        let ?p3 = "GET_NEXT_PTP g"
        have p3: "tbl ?m r [?i0, ?i1, ?i2] = Some ?p3" using e False t f f1 ft g gi gt by simp
        note e3 = pt_entry [OF wf tpath_vpath(3) p3 index_bound(4) [of va]]
        obtain h where h: "load64 ?m (entry_addr ?p3 ?i3) = Inr h" using e3(2) by blast
        note g3 = get_next_ptp_entry [OF e3(3) ptp_index_vpath(5) h]
        note s2 = s1 g gi gt g2(3)
        show ?thesis
        proof (cases "IS_PTE_INVALID h")
          case True
          then show ?thesis by (intro done0) (simp_all add: s2 h g3(1))
        next
          case hv: False
          obtain s' where s': "write64 (entry_addr ?p3 ?i3) 0 s = Inr s'" "extends s r A s' A 0" "same_tables s r s'"
            "\<forall>x. unat x < 2 ^ 48 \<longrightarrow> leaf s' r x = (if unat x div 4096 = unat va div 4096
              then if IS_PTE_INVALID 0 then None else Some (entry_addr ?p3 ?i3, 0, 0) else leaf s r x)"
            using write_l3_ok [OF wf va p3, of 0] by blast
          then have "unmap_page_step r s va = Inr (s', 0x1000)"
            using hv by (simp add: u e False t g0(3) f f1 ft g1(3) g gi gt g2(3) h g3(1))
          with s' show ?thesis by auto
        qed
      qed
    qed
  qed
qed

definition unmapped_range :: "'z kernel_state_scheme \<Rightarrow> u64 \<Rightarrow> u64 \<Rightarrow> nat \<Rightarrow> 'z kernel_state_scheme \<Rightarrow> bool" where
  "unmapped_range s r va n s' \<longleftrightarrow> (\<forall>x. unat x < 2 ^ 48 \<longrightarrow>
     leaf s' r x = (if in_range va n x then None else leaf s r x))"

lemma unmap_loop_ok:
  "pt_wf s r A \<Longrightarrow> unat va_end = unat va + n * 4096 \<Longrightarrow> unat va + n * 4096 \<le> 2 ^ 48 \<Longrightarrow>
   4096 dvd unat va \<Longrightarrow> (\<And>x. in_range va (n * 4096) x \<Longrightarrow> no_block s r x) \<Longrightarrow> n \<le> fuel \<Longrightarrow>
   \<exists>s'. va_loop fuel (\<lambda>s va _. unmap_page_step r s va) va_end s va pa = Some (Inr (s', 0)) \<and>
     extends s r A s' A 0 \<and> unmapped_range s r va (n * 4096) s' \<and> same_tables s r s'"
proof (induction n arbitrary: s va pa fuel)
  case 0
  then have "\<not> va < va_end" by (simp add: word_less_nat_alt)
  then have "va_loop fuel (\<lambda>s va _. unmap_page_step r s va) va_end s va pa = Some (Inr (s, 0))"
    by (cases fuel) simp_all
  then show ?case using extends_refl [OF 0(1)] same_tables_refl by (auto simp: unmapped_range_def in_range_def)
next
  case (Suc n)
  obtain fuel' where fuel: "fuel = Suc fuel'" "n \<le> fuel'" using Suc.prems(6) by (cases fuel) auto
  have lt: "va < va_end" using Suc.prems(2) by (simp add: word_less_nat_alt)
  have va: "unat va < 2 ^ 48" using Suc.prems(3) by simp
  have nb: "no_block s r va" using Suc.prems(5) by (simp add: in_range_def)
  obtain s1 where s1: "unmap_page_step r s va = Inr (s1, 0x1000)" "extends s r A s1 A 0"
    "\<And>x. unat x < 2 ^ 48 \<Longrightarrow> leaf s1 r x = (if in_range va 4096 x then None else leaf s r x)"
    "same_tables s r s1"
    using unmap_page_step_ok [OF Suc.prems(1) va nb] unfolding in_range_page [OF Suc.prems(4)] by blast
  have u: "unat (va + 0x1000) = unat va + 4096"
    using Suc.prems(3) by (auto intro!: va_step)
  have nb1: "no_block s1 r x" if x: "in_range (va + 0x1000) (n * 4096) x" for x
  proof -
    have "in_range va (Suc n * 4096) x" "\<not> in_range va 4096 x" "unat x < 2 ^ 48"
      using x Suc.prems(3) by (auto simp: in_range_def u)
    then show ?thesis using s1(3) Suc.prems(5) by (simp add: no_block_def)
  qed
  have "\<exists>s'. va_loop fuel' (\<lambda>s va _. unmap_page_step r s va) va_end s1 (va + 0x1000) (pa + 0x1000) = Some (Inr (s', 0)) \<and>
     extends s1 r A s' A 0 \<and> unmapped_range s1 r (va + 0x1000) (n * 4096) s' \<and> same_tables s1 r s'"
    using Suc.prems s1(2) fuel(2) nb1 by (intro Suc.IH) (auto simp: u extends_def)
  then obtain s' where s': "va_loop fuel' (\<lambda>s va _. unmap_page_step r s va) va_end s1 (va + 0x1000) (pa + 0x1000) = Some (Inr (s', 0))"
    "extends s1 r A s' A 0" "unmapped_range s1 r (va + 0x1000) (n * 4096) s'" "same_tables s1 r s'" by blast
  have "in_range va (Suc n * 4096) x \<longleftrightarrow> in_range va 4096 x \<or> in_range (va + 0x1000) (n * 4096) x" for x
    by (auto simp: in_range_def u)
  then have "unmapped_range s r va (Suc n * 4096) s'"
    using s'(3) s1(3) by (simp add: unmapped_range_def)
  moreover have "extends s r A s' A 0" by (rule extends_trans [OF s1(2) s'(2)]) simp
  moreover have "same_tables s r s'" by (rule same_tables_trans [OF s1(4) s'(4)])
  ultimately show ?case using s'(1) s1(1) lt fuel(1) by (intro exI [of _ s']) simp
qed

end
