(* ===== verification/Boot_Mmu_Props.thy ===== *)
theory Boot_Mmu_Props
  imports Boot_Mmu Page_Table_Correct
begin

text \<open>
  The boot page tables map the first gigabyte of physical memory to itself and, in the upper
  half of the address space, the first two gigabytes; read back with \<open>query_in_pgtbl\<close>.
\<close>

subsection \<open>Tables in memory\<close>

definition tables_in :: "u64 set \<Rightarrow> memory \<Rightarrow> bool" where
  "tables_in P m \<longleftrightarrow> (\<forall>p \<in> P. 4096 dvd unat p \<and> unat p < 2 ^ 40 \<and> (\<forall>i < 512. cell_ok m (entry_addr p i)))"

lemma tables_inD:
  assumes "tables_in P m" "p \<in> P"
  shows "4096 dvd unat p" "unat p < 2 ^ 40" "i < 512 \<Longrightarrow> cell_ok m (entry_addr p i)"
  using assms by (simp_all add: tables_in_def)

lemma unat_entry:
  assumes "unat (p :: u64) < 2 ^ 40" "i < 512"
  shows "unat (entry_addr p i) = unat p + 8 * i"
proof -
  have "unat (of_nat (8 * i) :: u64) = 8 * i" using assms(2) by (intro unat_of_nat_less) simp
  moreover have "unat p + 8 * i < 2 ^ 64" using assms by simp
  ultimately show ?thesis unfolding entry_addr_def by (simp only: unat_word_ariths) simp
qed

lemma entry_inj:
  assumes "4096 dvd unat (p :: u64)" "4096 dvd unat q" "unat p < 2 ^ 40" "unat q < 2 ^ 40" "i < 512" "j < 512"
  shows "entry_addr p i = entry_addr q j \<longleftrightarrow> p = q \<and> i = j"
proof
  assume "entry_addr p i = entry_addr q j"
  then have e: "unat p + 8 * i = unat q + 8 * j" using unat_entry assms by metis
  obtain p' q' where pq: "unat p = 4096 * p'" "unat q = 4096 * q'" using assms(1,2) unfolding dvd_def by blast
  have "p' = q'" using e assms(5,6) unfolding pq by linarith
  then have "unat p = unat q" "i = j" using e unfolding pq by simp_all
  then show "p = q \<and> i = j" by (simp add: word_unat_eq_iff)
qed simp

lemma set_entry_ok:
  assumes P: "tables_in P m" and p: "p \<in> P" and i: "i < 512"
  shows "\<exists>m'. set_entry p i v m = Inr m' \<and> dom m' = dom m \<and> tables_in P m' \<and>
    (\<forall>q \<in> P. \<forall>j < 512. load64 m' (entry_addr q j) = (if q = p \<and> j = i then Inr v else load64 m (entry_addr q j)))"
proof -
  note pd = tables_inD [OF P p]
  obtain m' where m': "store64 (entry_addr p i) v m = Inr m'" "dom m' = dom m" "load64 m' (entry_addr p i) = Inr v"
    "\<forall>b. 8 dvd unat b \<longrightarrow> b \<noteq> entry_addr p i \<longrightarrow> load64 m' b = load64 m b"
    using store64_ok [OF pd(3) [OF i]] by blast
  have t: "tables_in P m'" using P m'(2) cell_ok_dom unfolding tables_in_def by blast
  have "load64 m' (entry_addr q j) = (if q = p \<and> j = i then Inr v else load64 m (entry_addr q j))" if q: "q \<in> P" "j < 512" for q j
  proof -
    note qd = tables_inD [OF P q(1)]
    have "8 dvd unat (entry_addr q j)" using qd(3) [OF q(2)] by (simp add: cell_ok_def)
    then show ?thesis using entry_inj [OF qd(1) pd(1) qd(2) pd(2) q(2) i] m'(3,4) by auto
  qed
  then show ?thesis using m'(1,2) t unfolding set_entry_def entry_addr_def by blast
qed

lemma boot_index: "BOOT_L0_INDEX = GET_L0_INDEX" "BOOT_L1_INDEX = GET_L1_INDEX" "BOOT_L2_INDEX = GET_L2_INDEX"
  by (simp_all add: fun_eq_iff BOOT_L0_INDEX_def BOOT_L1_INDEX_def BOOT_L2_INDEX_def
      GET_L0_INDEX_def GET_L1_INDEX_def GET_L2_INDEX_def mask_eq_exp_minus_1)

text \<open>One loop fills the entries from \<open>i\<close> up to \<open>n\<close> of one table.\<close>

lemma block_loop_ok:
  assumes base: "unat base + 2 ^ 30 < 2 ^ 64" "2 ^ 30 dvd unat base"
    and f: "\<And>va m. body va m = set_entry p (BOOT_L2_INDEX va) (f va) m" and p: "p \<in> P"
  shows "tables_in P m \<Longrightarrow> i \<le> n \<Longrightarrow> n \<le> 512 \<Longrightarrow> n - i \<le> fuel \<Longrightarrow>
    \<exists>m'. block_loop fuel body (base + of_nat (n * 2 ^ 21)) (base + of_nat (i * 2 ^ 21)) m = Some (Inr m') \<and>
      dom m' = dom m \<and> tables_in P m' \<and>
      (\<forall>q \<in> P. \<forall>j < 512. load64 m' (entry_addr q j) =
         (if q = p \<and> i \<le> j \<and> j < n then Inr (f (base + of_nat (j * 2 ^ 21))) else load64 m (entry_addr q j)))"
proof (induction fuel arbitrary: i m)
  case 0
  then show ?case by auto
next
  case (Suc fuel)
  have u: "unat (base + of_nat (k * 2 ^ 21)) = unat base + k * 2 ^ 21" if "k \<le> 512" for k
  proof -
    have k: "k * 2 ^ 21 \<le> 512 * 2 ^ 21" using that by (intro mult_le_mono1)
    have "unat (of_nat (k * 2 ^ 21) :: u64) = k * 2 ^ 21" by (rule unat_of_nat_less) (use k in simp)
    moreover have "unat base + k * 2 ^ 21 < 2 ^ 64" using k base(1) by simp
    ultimately show ?thesis by (simp only: unat_word_ariths) simp
  qed
  show ?case
  proof (cases "i = n")
    case True
    then show ?thesis using Suc.prems by auto
  next
    case False
    then have i: "i < n" "i < 512" using Suc.prems by simp_all
    have lt: "base + of_nat (i * 2 ^ 21) < base + of_nat (n * 2 ^ 21)"
      using u [of i] u [of n] i Suc.prems(3) by (simp add: word_less_nat_alt)
    have idx: "BOOT_L2_INDEX (base + of_nat (i * 2 ^ 21)) = i"
    proof -
      obtain b where b: "unat base = 2 ^ 30 * b" using base(2) by (elim dvdE)
      have "BOOT_L2_INDEX (base + of_nat (i * 2 ^ 21)) = (unat base + i * 2 ^ 21) div 2 ^ 21 mod 512"
        unfolding boot_index index_nat u [OF less_imp_le [OF i(2)]] by (simp add: div_mult2_eq [symmetric])
      also have "unat base + i * 2 ^ 21 = (512 * b + i) * 2 ^ 21" unfolding b by simp
      also have "(512 * b + i) * 2 ^ 21 div 2 ^ 21 mod 512 = i" using i(2) by simp
      finally show ?thesis .
    qed
    obtain m1 where m1: "set_entry p i (f (base + of_nat (i * 2 ^ 21))) m = Inr m1" "dom m1 = dom m" "tables_in P m1"
      "\<forall>q \<in> P. \<forall>j < 512. load64 m1 (entry_addr q j) =
         (if q = p \<and> j = i then Inr (f (base + of_nat (i * 2 ^ 21))) else load64 m (entry_addr q j))"
      using set_entry_ok [OF Suc.prems(1) p i(2)] by blast
    have "Suc i \<le> n" "n - Suc i \<le> fuel" using i Suc.prems(4) by simp_all
    from Suc.IH [OF m1(3) this(1) Suc.prems(3) this(2)] obtain m' where
      m': "block_loop fuel body (base + of_nat (n * 2 ^ 21)) (base + of_nat (Suc i * 2 ^ 21)) m1 = Some (Inr m')"
      "dom m' = dom m1" "tables_in P m'"
      "\<forall>q \<in> P. \<forall>j < 512. load64 m' (entry_addr q j) =
         (if q = p \<and> Suc i \<le> j \<and> j < n then Inr (f (base + of_nat (j * 2 ^ 21))) else load64 m1 (entry_addr q j))" by blast
    have now: "body (base + of_nat (i * 2 ^ 21)) m = Inr m1" unfolding f idx by (rule m1(1))
    have next_va: "base + of_nat (i * 2 ^ 21) + 2 * 1024 * 1024 = base + of_nat (Suc i * 2 ^ 21)" by simp
    have "block_loop (Suc fuel) body (base + of_nat (n * 2 ^ 21)) (base + of_nat (i * 2 ^ 21)) m = Some (Inr m')"
      unfolding block_loop.simps next_va now using lt m'(1) by simp
    moreover have "load64 m' (entry_addr q j) =
        (if q = p \<and> i \<le> j \<and> j < n then Inr (f (base + of_nat (j * 2 ^ 21))) else load64 m (entry_addr q j))"
      if "q \<in> P" "j < 512" for q j
      using m'(4) m1(4) that i(1) by (cases "j = i") auto
    ultimately show ?thesis using m'(2,3) m1(2) by auto
  qed
qed

subsection \<open>The contents of the six tables\<close>

definition boot_list :: "boot_tables \<Rightarrow> u64 list" where
  "boot_list T = [boot_ttbr0_l0 T, boot_ttbr0_l1 T, boot_ttbr0_l2 T, boot_ttbr1_l0 T, boot_ttbr1_l1 T, boot_ttbr1_l2 T]"

text \<open>The tables are six different pages, of zeros: the linker script puts them in the init section of the image.\<close>

definition boot_ready :: "boot_tables \<Rightarrow> memory \<Rightarrow> bool" where
  "boot_ready T m \<longleftrightarrow> distinct (boot_list T) \<and> tables_in (set (boot_list T)) m \<and>
     (\<forall>p \<in> set (boot_list T). \<forall>j < 512. load64 m (entry_addr p j) = Inr 0)"

definition low_block :: "nat \<Rightarrow> u64" where
  "low_block j = (if j < 504 then boot_normal_pte (of_nat (j * 2 ^ 21)) else boot_device_pte (of_nat (j * 2 ^ 21)))"

definition boot_contents :: "boot_tables \<Rightarrow> u64 \<Rightarrow> nat \<Rightarrow> u64" where
  "boot_contents T p j =
     (if p = boot_ttbr0_l0 T then if j = 0 then boot_table_pte (boot_ttbr0_l1 T) else 0
      else if p = boot_ttbr0_l1 T then if j = 0 then boot_table_pte (boot_ttbr0_l2 T) else 0
      else if p = boot_ttbr0_l2 T then low_block j
      else if p = boot_ttbr1_l0 T then if j = 510 then boot_table_pte (boot_ttbr1_l1 T) else 0
      else if p = boot_ttbr1_l1 T then
        if j = 0 then boot_table_pte (boot_ttbr1_l2 T) else if j = 1 then boot_device_pte 0x40000000 else 0
      else low_block j)"

lemma init_boot_pt_contents:
  assumes ready: "boot_ready T m" and fuel: "504 \<le> fuel"
  shows "\<exists>m'. init_boot_pt fuel T m = Some (Inr m') \<and> dom m' = dom m \<and>
    (\<forall>p \<in> set (boot_list T). \<forall>j < 512. load64 m' (entry_addr p j) = Inr (boot_contents T p j))"
proof -
  let ?P = "set (boot_list T)"
  let ?kept = "\<lambda>m m' p I v. dom m' = dom m \<and> tables_in ?P m' \<and>
    (\<forall>q \<in> ?P. \<forall>j < 512. load64 m' (entry_addr q j) = (if q = p \<and> j \<in> I then Inr (v j) else load64 m (entry_addr q j)))"
  have P: "boot_ttbr0_l0 T \<in> ?P" "boot_ttbr0_l1 T \<in> ?P" "boot_ttbr0_l2 T \<in> ?P"
    "boot_ttbr1_l0 T \<in> ?P" "boot_ttbr1_l1 T \<in> ?P" "boot_ttbr1_l2 T \<in> ?P" by (simp_all add: boot_list_def)
  have m0: "tables_in ?P m" "\<forall>p \<in> ?P. \<forall>j < 512. load64 m (entry_addr p j) = Inr 0" "distinct (boot_list T)"
    using ready by (simp_all add: boot_ready_def)
  have set: "\<exists>m'. set_entry p k v m = Inr m' \<and> ?kept m m' p {i} (\<lambda>_. v)"
    if "tables_in ?P m" "p \<in> ?P" "k = i" "i < 512" for m p k i v
    using set_entry_ok [OF that(1,2,4), of v] that(3) by auto
  have loop: "\<exists>m'. block_loop fuel (\<lambda>va. set_entry p (BOOT_L2_INDEX va) (f va)) hi lo m = Some (Inr m') \<and> ?kept m m' p {i..<n} v"
    if "tables_in ?P m" "p \<in> ?P" "unat base + 2 ^ 30 < 2 ^ 64" "2 ^ 30 dvd unat base" "i \<le> n" "n \<le> 512" "n - i \<le> fuel"
      "lo = base + of_nat (i * 2 ^ 21)" "hi = base + of_nat (n * 2 ^ 21)" "v = (\<lambda>j. f (base + of_nat (j * 2 ^ 21)))"
    for base p f m i n lo hi v
    using block_loop_ok [OF that(3,4) refl that(2,1,5-7), of f] unfolding that(8-10) by auto
  let ?KB = "0xffffff0000000000 :: u64"
  have base: "unat (0 :: u64) + 2 ^ 30 < 2 ^ 64" "2 ^ 30 dvd unat (0 :: u64)" "unat ?KB + 2 ^ 30 < 2 ^ 64" "2 ^ 30 dvd unat ?KB"
    by simp_all
  have idx: "BOOT_L0_INDEX 0 = 0" "BOOT_L1_INDEX 0 = 0" "BOOT_L0_INDEX ?KB = 510" "BOOT_L1_INDEX ?KB = 0"
    "BOOT_L1_INDEX 0xffffff0040000000 = 1" by (simp_all add: BOOT_L0_INDEX_def BOOT_L1_INDEX_def)
  let ?normal = "\<lambda>j. boot_normal_pte (of_nat (j * 2 ^ 21))" and ?device = "\<lambda>j. boot_device_pte (of_nat (j * 2 ^ 21))"
  have n: "(504 :: nat) - 0 \<le> fuel" "(512 :: nat) - 504 \<le> fuel" using fuel by simp_all
  obtain m1 where m1: "set_entry (boot_ttbr0_l0 T) (BOOT_L0_INDEX 0) (boot_table_pte (boot_ttbr0_l1 T)) m = Inr m1"
    "?kept m m1 (boot_ttbr0_l0 T) {0} (\<lambda>_. boot_table_pte (boot_ttbr0_l1 T))"
    using set [OF m0(1) P(1) idx(1), of "boot_table_pte (boot_ttbr0_l1 T)"] by auto
  obtain m2 where m2: "set_entry (boot_ttbr0_l1 T) (BOOT_L1_INDEX 0) (boot_table_pte (boot_ttbr0_l2 T)) m1 = Inr m2"
    "?kept m1 m2 (boot_ttbr0_l1 T) {0} (\<lambda>_. boot_table_pte (boot_ttbr0_l2 T))"
    using set [OF conjunct1 [OF conjunct2 [OF m1(2)]] P(2) idx(2), of "boot_table_pte (boot_ttbr0_l2 T)"] by auto
  obtain m3 where m3: "block_loop fuel (\<lambda>va. set_entry (boot_ttbr0_l2 T) (BOOT_L2_INDEX va) (boot_normal_pte va)) 0x3F000000 0 m2 = Some (Inr m3)"
    "?kept m2 m3 (boot_ttbr0_l2 T) {0..<504} ?normal"
    using loop [OF conjunct1 [OF conjunct2 [OF m2(2)]] P(3) base(1,2) _ _ n(1), of 0 "0x3F000000" ?normal boot_normal_pte] by auto
  obtain m4 where m4: "block_loop fuel (\<lambda>va. set_entry (boot_ttbr0_l2 T) (BOOT_L2_INDEX va) (boot_device_pte va)) 0x40000000 0x3F000000 m3 = Some (Inr m4)"
    "?kept m3 m4 (boot_ttbr0_l2 T) {504..<512} ?device"
    using loop [OF conjunct1 [OF conjunct2 [OF m3(2)]] P(3) base(1,2) _ _ n(2), of "0x3F000000" "0x40000000" ?device boot_device_pte] by auto
  obtain m5 where m5: "set_entry (boot_ttbr1_l0 T) (BOOT_L0_INDEX ?KB) (boot_table_pte (boot_ttbr1_l1 T)) m4 = Inr m5"
    "?kept m4 m5 (boot_ttbr1_l0 T) {510} (\<lambda>_. boot_table_pte (boot_ttbr1_l1 T))"
    using set [OF conjunct1 [OF conjunct2 [OF m4(2)]] P(4) idx(3), of "boot_table_pte (boot_ttbr1_l1 T)"] by auto
  obtain m6 where m6: "set_entry (boot_ttbr1_l1 T) (BOOT_L1_INDEX ?KB) (boot_table_pte (boot_ttbr1_l2 T)) m5 = Inr m6"
    "?kept m5 m6 (boot_ttbr1_l1 T) {0} (\<lambda>_. boot_table_pte (boot_ttbr1_l2 T))"
    using set [OF conjunct1 [OF conjunct2 [OF m5(2)]] P(5) idx(4), of "boot_table_pte (boot_ttbr1_l2 T)"] by auto
  obtain m7 where m7: "block_loop fuel (\<lambda>va. set_entry (boot_ttbr1_l2 T) (BOOT_L2_INDEX va) (boot_normal_pte (va - ?KB))) 0xffffff003f000000 ?KB m6 = Some (Inr m7)"
    "?kept m6 m7 (boot_ttbr1_l2 T) {0..<504} ?normal"
    using loop [OF conjunct1 [OF conjunct2 [OF m6(2)]] P(6) base(3,4) _ _ n(1), of ?KB "0xffffff003f000000" ?normal "\<lambda>va. boot_normal_pte (va - ?KB)"] by auto
  obtain m8 where m8: "block_loop fuel (\<lambda>va. set_entry (boot_ttbr1_l2 T) (BOOT_L2_INDEX va) (boot_device_pte (va - ?KB))) 0xffffff0040000000 0xffffff003f000000 m7 = Some (Inr m8)"
    "?kept m7 m8 (boot_ttbr1_l2 T) {504..<512} ?device"
    using loop [OF conjunct1 [OF conjunct2 [OF m7(2)]] P(6) base(3,4) _ _ n(2), of "0xffffff003f000000" "0xffffff0040000000" ?device "\<lambda>va. boot_device_pte (va - ?KB)"] by auto
  obtain m9 where m9: "set_entry (boot_ttbr1_l1 T) (BOOT_L1_INDEX 0xffffff0040000000) (boot_device_pte 0x40000000) m8 = Inr m9"
    "?kept m8 m9 (boot_ttbr1_l1 T) {1} (\<lambda>_. boot_device_pte 0x40000000)"
    using set [OF conjunct1 [OF conjunct2 [OF m8(2)]] P(5) idx(5), of "boot_device_pte 0x40000000"] by auto
  have "init_boot_pt fuel T m = Some (Inr m9)"
    using m1(1) m2(1) m3(1) m4(1) m5(1) m6(1) m7(1) m8(1) m9(1) by (simp add: init_boot_pt_def Let_def)
  moreover have "dom m9 = dom m"
    using m1(2) m2(2) m3(2) m4(2) m5(2) m6(2) m7(2) m8(2) m9(2) by simp
  moreover have "load64 m9 (entry_addr p j) = Inr (boot_contents T p j)" if p: "p \<in> ?P" "j < 512" for p j
  proof -
    note all = m1(2) m2(2) m3(2) m4(2) m5(2) m6(2) m7(2) m8(2) m9(2) m0(2)
    have "j < 504 \<or> 504 \<le> j" by linarith
    then show ?thesis using p all m0(3) unfolding boot_list_def
      by (elim disjE) (auto simp: boot_contents_def low_block_def)
  qed
  ultimately show ?thesis by blast
qed

subsection \<open>Reading the entries\<close>

lemma boot_pte_or:
  "boot_table_pte q = q OR 0x803" "boot_normal_pte q = q OR 0x40000000000F01" "boot_device_pte q = q OR 0x40000000000C05"
  by (simp_all add: boot_table_pte_def boot_normal_pte_def boot_device_pte_def or.assoc)

lemma field_or_low:
  assumes "2 ^ 12 dvd unat (pa :: u64)" "unat pa < 2 ^ 48" "off + w \<le> 12 \<or> 48 \<le> off"
  shows "take_bit w (drop_bit off (pa OR c)) = take_bit w (drop_bit off c)"
proof (rule bit_word_eqI)
  fix n
  have "\<not> bit pa (off + n)" if "n < w"
    using bit_above_dvd [OF assms(1), of "off + n"] bit_below_power [OF assms(2), of "off + n"] assms(3) that by auto
  then show "bit (take_bit w (drop_bit off (pa OR c))) n = bit (take_bit w (drop_bit off c)) n"
    by (auto simp: bit_simps)
qed

lemma frame_or_low:
  assumes "2 ^ k dvd unat (pa :: u64)" "unat pa < 2 ^ 48" "k \<le> 48" "take_bit (48 - k) (drop_bit k c) = 0"
  shows "push_bit k (take_bit (48 - k) (drop_bit k (pa OR c))) = pa"
proof (rule bit_word_eqI)
  fix n assume n: "n < LENGTH(64)"
  have c: "\<not> bit c n" if "k \<le> n" "n < 48"
  proof -
    have "bit (take_bit (48 - k) (drop_bit k c)) (n - k) \<longleftrightarrow> bit c n" using that n by (auto simp: bit_simps)
    then show ?thesis unfolding assms(4) by simp
  qed
  have "n - k < 48 - k \<longleftrightarrow> n < 48" if "k \<le> n" using that assms(3) by arith
  then show "bit (push_bit k (take_bit (48 - k) (drop_bit k (pa OR c)))) n = bit pa n"
    using n c bit_above_dvd [OF assms(1), of n] bit_below_power [OF assms(2), of n] assms(3) by (auto simp: bit_simps)
qed

lemma boot_table_next:
  assumes "4096 dvd unat q" "unat q < 2 ^ 40"
  shows "\<not> IS_PTE_INVALID (boot_table_pte q)" "IS_PTE_TABLE (boot_table_pte q)" "GET_NEXT_PTP (boot_table_pte q) = phys_to_virt q"
proof -
  have q: "2 ^ 12 dvd unat q" "unat q < 2 ^ 48" using assms by simp_all
  show "\<not> IS_PTE_INVALID (boot_table_pte q)" "IS_PTE_TABLE (boot_table_pte q)"
    by (simp_all add: boot_pte_or IS_PTE_INVALID_bit IS_PTE_TABLE_bit bit_or_iff)
  have "push_bit 12 (take_bit (48 - 12) (drop_bit 12 (q OR 0x803))) = q" by (rule frame_or_low [OF q]) simp_all
  then show "GET_NEXT_PTP (boot_table_pte q) = phys_to_virt q"
    by (simp add: GET_NEXT_PTP_def get_field_of [OF table_fields(3)] boot_pte_or)
qed

text \<open>The attributes of the blocks: data of the kernel, or registers of devices.\<close>

definition boot_attributes :: "bool \<Rightarrow> attributes" where
  "boot_attributes device = \<lparr>memory_type = if device then 1 else 0, access = 0, shareability = if device then 0 else 3,
     accessed = 1, not_global = 1, kernel_exec_never = 0, user_exec_never = 1\<rparr>"

lemma boot_block:
  assumes c: "c = (if device then 0x40000000000C05 else 0x40000000000F01)"
    and pa: "2 ^ k dvd unat pa" "unat pa < 2 ^ 48" "k = 21 \<or> k = 30"
  shows "\<not> IS_PTE_INVALID (pa OR c)" "\<not> IS_PTE_TABLE (pa OR c)" "entry_attributes (pa OR c) = boot_attributes device"
    and "leaf_pa (if k = 21 then 1 else 2) (pa OR c) va = pa + take_bit k va"
proof -
  have "(2 :: nat) ^ 12 dvd 2 ^ k" using pa(3) by (intro le_imp_power_dvd) auto
  then have p12: "2 ^ 12 dvd unat pa" using pa(1) by (rule dvd_trans)
  have "\<not> bit pa 1" using bit_above_dvd [OF p12, of 1] by auto
  then show "\<not> IS_PTE_INVALID (pa OR c)" "\<not> IS_PTE_TABLE (pa OR c)"
    by (simp_all add: c IS_PTE_INVALID_bit IS_PTE_TABLE_bit bit_or_iff)
  note f = field_or_low [OF p12 pa(2)]
  have eq: "take_bit 3 (drop_bit 2 (pa OR c)) = take_bit 3 (drop_bit 2 c)" "take_bit 2 (drop_bit 6 (pa OR c)) = take_bit 2 (drop_bit 6 c)"
    "take_bit 2 (drop_bit 8 (pa OR c)) = take_bit 2 (drop_bit 8 c)" "take_bit 1 (drop_bit 10 (pa OR c)) = take_bit 1 (drop_bit 10 c)"
    "take_bit 1 (drop_bit 11 (pa OR c)) = take_bit 1 (drop_bit 11 c)" "take_bit 1 (drop_bit 53 (pa OR c)) = take_bit 1 (drop_bit 53 c)"
    "take_bit 1 (drop_bit 54 (pa OR c)) = take_bit 1 (drop_bit 54 c)" by (rule f, simp)+
  show "entry_attributes (pa OR c) = boot_attributes device"
    unfolding entry_attributes_def boot_attributes_def get_field_of [OF attribute_fields(1)] get_field_of [OF attribute_fields(2)]
      get_field_of [OF attribute_fields(3)] get_field_of [OF attribute_fields(4)] get_field_of [OF attribute_fields(5)]
      get_field_of [OF attribute_fields(6)] get_field_of [OF attribute_fields(7)] eq
    using c by auto
  have m: "va AND 0x1fffff = take_bit 21 va" "va AND 0x3fffffff = take_bit 30 va"
    by (simp_all add: take_bit_eq_mask mask_eq_exp_minus_1)
  have "push_bit k (take_bit (48 - k) (drop_bit k (pa OR c))) = pa"
    using pa(3) c by (intro frame_or_low [OF pa(1,2)]) auto
  then show "leaf_pa (if k = 21 then 1 else 2) (pa OR c) va = pa + take_bit k va"
    using pa(3) or_low_bits [OF pa(1), of va]
    by (auto simp: leaf_pa_def get_field_of [OF block_fields(3)] get_field_of [OF block_fields(6)]
        GET_VA_OFFSET_L1_def GET_VA_OFFSET_L2_def m)
qed

subsection \<open>Translations\<close>

text \<open>The memory as the kernel sees it: physical memory at \<open>KBASE\<close>.\<close>

lemma load64_view:
  assumes "mem s = (\<lambda>x. m (virt_to_phys x))" "unat c < 2 ^ 41"
  shows "load64 (mem s) (phys_to_virt c) = load64 m c"
proof -
  have "load_bytes (mem s) (phys_to_virt c) 8 = load_bytes m c 8"
    by (simp add: assms(1) load_bytes_def phys_to_virt_def virt_to_phys_def add.commute add.left_commute)
  moreover have "8 dvd unat (phys_to_virt c) \<longleftrightarrow> 8 dvd unat c"
  proof -
    have "unat (phys_to_virt c) = (unat c + unat KBASE) mod 2 ^ 64" by (simp add: phys_to_virt_def unat_word_ariths)
    then have "8 dvd unat (phys_to_virt c) \<longleftrightarrow> 8 dvd unat c + unat KBASE" by (simp add: dvd_mod_iff)
    also have "\<dots> \<longleftrightarrow> 8 dvd unat c" by (rule dvd_add_left_iff) (simp add: KBASE_def)
    finally show ?thesis .
  qed
  ultimately show ?thesis by (simp add: load64_def)
qed

lemma query_levels:
  assumes r: "r \<noteq> 0" and e0: "load64 (mem s) (entry_addr r (GET_L0_INDEX va)) = Inr e0"
  shows "IS_PTE_INVALID e0 \<Longrightarrow> query_in_pgtbl s r va True True = Inr (- 203, None, None)"
    and "\<not> IS_PTE_INVALID e0 \<Longrightarrow> IS_PTE_TABLE e0 \<Longrightarrow> GET_NEXT_PTP e0 = p1 \<Longrightarrow> p1 \<noteq> 0 \<Longrightarrow>
      load64 (mem s) (entry_addr p1 (GET_L1_INDEX va)) = Inr e1 \<Longrightarrow> IS_PTE_INVALID e1 \<Longrightarrow>
      query_in_pgtbl s r va True True = Inr (- 203, None, None)"
    and "\<not> IS_PTE_INVALID e0 \<Longrightarrow> IS_PTE_TABLE e0 \<Longrightarrow> GET_NEXT_PTP e0 = p1 \<Longrightarrow> p1 \<noteq> 0 \<Longrightarrow>
      load64 (mem s) (entry_addr p1 (GET_L1_INDEX va)) = Inr e1 \<Longrightarrow> \<not> IS_PTE_INVALID e1 \<Longrightarrow> \<not> IS_PTE_TABLE e1 \<Longrightarrow>
      query_in_pgtbl s r va True True = Inr (0, Some (leaf_pa 2 e1 va), Some (entry_addr p1 (GET_L1_INDEX va)))"
    and "\<not> IS_PTE_INVALID e0 \<Longrightarrow> IS_PTE_TABLE e0 \<Longrightarrow> GET_NEXT_PTP e0 = p1 \<Longrightarrow> p1 \<noteq> 0 \<Longrightarrow>
      load64 (mem s) (entry_addr p1 (GET_L1_INDEX va)) = Inr e1 \<Longrightarrow> \<not> IS_PTE_INVALID e1 \<Longrightarrow> IS_PTE_TABLE e1 \<Longrightarrow>
      GET_NEXT_PTP e1 = p2 \<Longrightarrow> p2 \<noteq> 0 \<Longrightarrow>
      load64 (mem s) (entry_addr p2 (GET_L2_INDEX va)) = Inr e2 \<Longrightarrow> \<not> IS_PTE_INVALID e2 \<Longrightarrow> \<not> IS_PTE_TABLE e2 \<Longrightarrow>
      query_in_pgtbl s r va True True = Inr (0, Some (leaf_pa 1 e2 va), Some (entry_addr p2 (GET_L2_INDEX va)))"
proof -
  note q = query_in_pgtbl_def query_result_def read64_def leaf_pa_def
  note g0 = get_next_ptp_entry [OF r ptp_index_vpath(1) e0]
  show "IS_PTE_INVALID e0 \<Longrightarrow> query_in_pgtbl s r va True True = Inr (- 203, None, None)"
    by (simp add: q g0(2))
  show "query_in_pgtbl s r va True True = Inr (- 203, None, None)"
    if "\<not> IS_PTE_INVALID e0" "IS_PTE_TABLE e0" "GET_NEXT_PTP e0 = p1" "p1 \<noteq> 0"
      "load64 (mem s) (entry_addr p1 (GET_L1_INDEX va)) = Inr e1" "IS_PTE_INVALID e1"
    using that get_next_ptp_entry(2) [OF that(4) ptp_index_vpath(3) that(5)] by (simp add: q g0(3))
  show "query_in_pgtbl s r va True True = Inr (0, Some (leaf_pa 2 e1 va), Some (entry_addr p1 (GET_L1_INDEX va)))"
    if "\<not> IS_PTE_INVALID e0" "IS_PTE_TABLE e0" "GET_NEXT_PTP e0 = p1" "p1 \<noteq> 0"
      "load64 (mem s) (entry_addr p1 (GET_L1_INDEX va)) = Inr e1" "\<not> IS_PTE_INVALID e1" "\<not> IS_PTE_TABLE e1"
    using that get_next_ptp_entry(3) [OF that(4) ptp_index_vpath(3) that(5)] by (simp add: q g0(3))
  show "query_in_pgtbl s r va True True = Inr (0, Some (leaf_pa 1 e2 va), Some (entry_addr p2 (GET_L2_INDEX va)))"
    if "\<not> IS_PTE_INVALID e0" "IS_PTE_TABLE e0" "GET_NEXT_PTP e0 = p1" "p1 \<noteq> 0"
      "load64 (mem s) (entry_addr p1 (GET_L1_INDEX va)) = Inr e1" "\<not> IS_PTE_INVALID e1" "IS_PTE_TABLE e1"
      "GET_NEXT_PTP e1 = p2" "p2 \<noteq> 0" "load64 (mem s) (entry_addr p2 (GET_L2_INDEX va)) = Inr e2"
      "\<not> IS_PTE_INVALID e2" "\<not> IS_PTE_TABLE e2"
    using that get_next_ptp_entry(3) [OF that(4) ptp_index_vpath(3) that(5)]
      get_next_ptp_entry(3) [OF that(9) ptp_index_vpath(4) that(10)] by (simp add: q g0(3))
qed

lemma va_indices:
  assumes u: "unat va = q * 2 ^ 39 + d" and d: "d < 2 ^ 39"
  shows "GET_L0_INDEX va = q mod 512" "GET_L1_INDEX va = d div 2 ^ 30" "GET_L2_INDEX va = d div 2 ^ 21 mod 512"
    "take_bit 21 va = of_nat (d mod 2 ^ 21)" "take_bit 30 va = of_nat (d mod 2 ^ 30)"
proof -
  have m: "unat va div 2 ^ 21 = q * 2 ^ 18 + d div 2 ^ 21" "unat va div 2 ^ 30 = q * 2 ^ 9 + d div 2 ^ 30"
    "unat va div 2 ^ 39 = q" "unat va mod 2 ^ 21 = d mod 2 ^ 21" "unat va mod 2 ^ 30 = d mod 2 ^ 30"
  proof -
    have e: "unat va = 2 ^ 21 * (q * 2 ^ 18) + d" "unat va = 2 ^ 30 * (q * 2 ^ 9) + d" "unat va = 2 ^ 39 * q + d"
      using u by simp_all
    show "unat va mod 2 ^ 21 = d mod 2 ^ 21" unfolding e(1) by (rule mod_mult_self4)
    show "unat va mod 2 ^ 30 = d mod 2 ^ 30" unfolding e(2) by (rule mod_mult_self4)
    show "unat va div 2 ^ 21 = q * 2 ^ 18 + d div 2 ^ 21" unfolding e(1) by (rule div_mult_self4) simp
    show "unat va div 2 ^ 30 = q * 2 ^ 9 + d div 2 ^ 30" unfolding e(2) by (rule div_mult_self4) simp
    show "unat va div 2 ^ 39 = q" unfolding e(3) using d by simp
  qed
  show "GET_L0_INDEX va = q mod 512" using m(3) by (simp add: index_nat div_mult2_eq [symmetric])
  have "d div 2 ^ 30 < 512" using d by (simp add: div_less_iff_less_mult)
  then show "GET_L1_INDEX va = d div 2 ^ 30" using m(2) by (simp add: index_nat div_mult2_eq [symmetric])
  have "(q * 2 ^ 18 + d div 2 ^ 21) mod 512 = d div 2 ^ 21 mod 512"
  proof -
    have "q * 2 ^ 18 + d div 2 ^ 21 = 512 * (q * 512) + d div 2 ^ 21" by simp
    then show ?thesis by (metis mod_mult_self2 add.commute)
  qed
  then show "GET_L2_INDEX va = d div 2 ^ 21 mod 512" using m(1) by (simp add: index_nat div_mult2_eq [symmetric])
  have t: "take_bit k va = of_nat (unat va mod 2 ^ k)" for k
  proof -
    have "of_nat (take_bit k (unat va)) = take_bit k va" by (simp flip: unsigned_take_bit_eq)
    then show ?thesis by (simp flip: take_bit_eq_mod)
  qed
  show "take_bit 21 va = of_nat (d mod 2 ^ 21)" "take_bit 30 va = of_nat (d mod 2 ^ 30)" unfolding t m by simp_all
qed

text \<open>What \<open>query_in_pgtbl\<close> says about an address: unmapped, or a physical address and its kind.\<close>

definition boot_maps :: "'z kernel_state_scheme \<Rightarrow> u64 \<Rightarrow> u64 \<Rightarrow> (u64 \<times> bool) option \<Rightarrow> bool" where
  "boot_maps s r va res \<longleftrightarrow>
     (case res of
        None \<Rightarrow> query_in_pgtbl s (phys_to_virt r) va True True = Inr (- 203, None, None)
      | Some (pa, device) \<Rightarrow> \<exists>pte e. query_in_pgtbl s (phys_to_virt r) va True True = Inr (0, Some pa, Some pte) \<and>
          read64 s pte = Inr e \<and> entry_attributes e = boot_attributes device)"

lemma low_block_ok:
  assumes d: "d < 2 ^ 30"
  shows "\<not> IS_PTE_INVALID (low_block (d div 2 ^ 21))" "\<not> IS_PTE_TABLE (low_block (d div 2 ^ 21))"
    "entry_attributes (low_block (d div 2 ^ 21)) = boot_attributes (0x3f000000 \<le> d)"
    "take_bit 21 va = of_nat (d mod 2 ^ 21) \<Longrightarrow> leaf_pa 1 (low_block (d div 2 ^ 21)) va = of_nat d"
proof -
  define pa :: u64 where "pa = of_nat (d div 2 ^ 21 * 2 ^ 21)"
  have le: "d div 2 ^ 21 * 2 ^ 21 \<le> d" by (rule div_times_less_eq_dividend)
  then have u: "unat pa = d div 2 ^ 21 * 2 ^ 21" unfolding pa_def using d by (intro unat_of_nat_less) simp
  have dev: "d div 2 ^ 21 < 504 \<longleftrightarrow> \<not> 0x3f000000 \<le> d" by (auto simp: div_less_iff_less_mult)
  have b: "low_block (d div 2 ^ 21) = pa OR (if 0x3f000000 \<le> d then 0x40000000000C05 else 0x40000000000F01)"
    unfolding low_block_def dev by (simp add: boot_pte_or pa_def)
  have p: "2 ^ 21 dvd unat pa" "unat pa < 2 ^ 48" using u le d by simp_all
  note ok = boot_block [OF refl p disjI1 [OF refl], of "0x3f000000 \<le> d"]
  show "\<not> IS_PTE_INVALID (low_block (d div 2 ^ 21))" "\<not> IS_PTE_TABLE (low_block (d div 2 ^ 21))"
    "entry_attributes (low_block (d div 2 ^ 21)) = boot_attributes (0x3f000000 \<le> d)"
    unfolding b by (rule ok)+
  assume t: "take_bit 21 va = of_nat (d mod 2 ^ 21)"
  have "leaf_pa 1 (low_block (d div 2 ^ 21)) va = pa + take_bit 21 va"
    using ok(4) [of va] unfolding b by simp
  also have "\<dots> = of_nat (d div 2 ^ 21 * 2 ^ 21 + d mod 2 ^ 21)" unfolding t pa_def by (simp only: of_nat_add)
  finally show "leaf_pa 1 (low_block (d div 2 ^ 21)) va = of_nat d" by simp
qed

text \<open>
  The two roots at once: the entry \<open>i\<close> of the root leads to a level 1 table whose entry 0 leads
  to the blocks of the first gigabyte.
\<close>

lemma boot_walks:
  fixes s :: "'z kernel_state_scheme"
  assumes ready: "boot_ready T m" and view: "mem s = (\<lambda>x. m' (virt_to_phys x))"
    and cont: "\<forall>p \<in> set (boot_list T). \<forall>j < 512. load64 m' (entry_addr p j) = Inr (boot_contents T p j)"
    and tabs: "{r, t1, t2} \<subseteq> set (boot_list T)" and i: "i < 512"
    and root: "\<And>j. boot_contents T r j = (if j = i then boot_table_pte t1 else 0)"
    and first: "boot_contents T t1 0 = boot_table_pte t2"
    and blocks: "\<And>j. boot_contents T t2 j = low_block j"
    and u: "unat va = q * 2 ^ 39 + d" "d < 2 ^ 39"
  shows "q mod 512 \<noteq> i \<Longrightarrow> boot_maps s r va None"
    and "q mod 512 = i \<Longrightarrow> d < 2 ^ 30 \<Longrightarrow> boot_maps s r va (Some (of_nat d, 0x3f000000 \<le> d))"
    and "q mod 512 = i \<Longrightarrow> boot_contents T t1 (d div 2 ^ 30) = 0 \<Longrightarrow> boot_maps s r va None"
    and "q mod 512 = i \<Longrightarrow> d div 2 ^ 30 = 1 \<Longrightarrow> boot_contents T t1 1 = boot_device_pte 0x40000000 \<Longrightarrow>
      boot_maps s r va (Some (of_nat d, True))"
proof -
  have tab: "4096 dvd unat p" "unat p < 2 ^ 40" "phys_to_virt p \<noteq> 0"
    and ld: "j < 512 \<Longrightarrow> load64 (mem s) (entry_addr (phys_to_virt p) j) = Inr (boot_contents T p j)"
    if p: "p \<in> set (boot_list T)" for p j
  proof -
    have t: "tables_in (set (boot_list T)) m" using ready by (simp add: boot_ready_def)
    note d = tables_inD [OF t p]
    show "4096 dvd unat p" "unat p < 2 ^ 40" by (rule d)+
    have "unat (phys_to_virt p) = unat p + unat KBASE"
      using d(2) by (simp add: phys_to_virt_def unat_word_ariths KBASE_def)
    then show "phys_to_virt p \<noteq> 0" by (auto simp: KBASE_def)
    assume j: "j < 512"
    have "entry_addr (phys_to_virt p) j = phys_to_virt (entry_addr p j)" by (simp add: entry_addr_def phys_to_virt_def)
    moreover have "unat (entry_addr p j) < 2 ^ 41" using unat_entry [OF d(2) j] d(2) j by simp
    ultimately show "load64 (mem s) (entry_addr (phys_to_virt p) j) = Inr (boot_contents T p j)"
      using load64_view [where m = m' and s = s and c = "entry_addr p j"] view cont p j by simp
  qed
  have t: "r \<in> set (boot_list T)" "t1 \<in> set (boot_list T)" "t2 \<in> set (boot_list T)" using tabs by simp_all
  note idx = va_indices [OF u]
  have i1: "d div 2 ^ 30 < 512" using u(2) by (simp add: div_less_iff_less_mult)
  have e0: "load64 (mem s) (entry_addr (phys_to_virt r) (GET_L0_INDEX va)) = Inr (if q mod 512 = i then boot_table_pte t1 else 0)"
    unfolding idx(1) using ld [OF t(1), of "q mod 512"] root by simp
  have e1: "load64 (mem s) (entry_addr (phys_to_virt t1) (GET_L1_INDEX va)) = Inr (boot_contents T t1 (d div 2 ^ 30))"
    unfolding idx(2) by (rule ld [OF t(2) i1])
  have e2: "load64 (mem s) (entry_addr (phys_to_virt t2) (GET_L2_INDEX va)) = Inr (low_block (d div 2 ^ 21 mod 512))"
    unfolding idx(3) using ld [OF t(3), of "d div 2 ^ 21 mod 512"] blocks by simp
  note n1 = boot_table_next [OF tab(1,2) [OF t(2)]] and n2 = boot_table_next [OF tab(1,2) [OF t(3)]]
  note lv = query_levels [OF tab(3) [OF t(1)] e0]
  show "q mod 512 \<noteq> i \<Longrightarrow> boot_maps s r va None"
    using lv(1) by (simp add: boot_maps_def)
  assume q: "q mod 512 = i"
  then have f: "\<not> IS_PTE_INVALID (if q mod 512 = i then boot_table_pte t1 else 0)"
    "IS_PTE_TABLE (if q mod 512 = i then boot_table_pte t1 else 0)"
    "GET_NEXT_PTP (if q mod 512 = i then boot_table_pte t1 else 0) = phys_to_virt t1" using n1 by simp_all
  show "boot_contents T t1 (d div 2 ^ 30) = 0 \<Longrightarrow> boot_maps s r va None"
    using lv(2) [OF f tab(3) [OF t(2)] e1] by (simp add: boot_maps_def)
  show "boot_maps s r va (Some (of_nat d, 0x3f000000 \<le> d))" if d: "d < 2 ^ 30"
  proof -
    have z: "d div 2 ^ 30 = 0" "d div 2 ^ 21 mod 512 = d div 2 ^ 21" using d by (simp_all add: div_less_iff_less_mult)
    note b = low_block_ok [OF d]
    have "query_in_pgtbl s (phys_to_virt r) va True True =
        Inr (0, Some (of_nat d), Some (entry_addr (phys_to_virt t2) (GET_L2_INDEX va)))"
      using lv(4) [OF f tab(3) [OF t(2)] e1 _ _ _ tab(3) [OF t(3)] e2] n2 first b(1,2) b(4) [OF idx(4)] unfolding z by simp
    then show ?thesis using e2 b(3) unfolding z(2) by (auto simp: boot_maps_def read64_def)
  qed
  show "boot_maps s r va (Some (of_nat d, True))" if g: "d div 2 ^ 30 = 1" "boot_contents T t1 1 = boot_device_pte 0x40000000"
  proof -
    have p: "2 ^ 30 dvd unat (0x40000000 :: u64)" "unat (0x40000000 :: u64) < 2 ^ 48" by simp_all
    note b = boot_block [where device = True, OF refl p disjI2 [OF refl], unfolded if_True boot_pte_or(3) [symmetric]]
    have "(0x40000000 :: u64) + of_nat (d mod 2 ^ 30) = of_nat (d div 2 ^ 30 * 2 ^ 30 + d mod 2 ^ 30)" unfolding g(1) by simp
    also have "\<dots> = of_nat d" by (simp only: div_mult_mod_eq)
    finally have pa: "leaf_pa 2 (boot_device_pte 0x40000000) va = of_nat d"
      using b(4) [of va] idx(5) by simp
    have e1': "load64 (mem s) (entry_addr (phys_to_virt t1) (GET_L1_INDEX va)) = Inr (boot_device_pte 0x40000000)"
      using e1 unfolding g .
    show ?thesis
      using lv(3) [OF f tab(3) [OF t(2)] e1' b(1,2)] e1' b(3) unfolding pa by (auto simp: boot_maps_def read64_def)
  qed
qed

text \<open>Six tables in a memory of zeros.\<close>

definition sample_tables :: boot_tables where
  "sample_tables = \<lparr>boot_ttbr0_l0 = 0x80000, boot_ttbr0_l1 = 0x81000, boot_ttbr0_l2 = 0x82000,
     boot_ttbr1_l0 = 0x83000, boot_ttbr1_l1 = 0x84000, boot_ttbr1_l2 = 0x85000\<rparr>"

lemma sample_list: "boot_list sample_tables = [0x80000, 0x81000, 0x82000, 0x83000, 0x84000, 0x85000]"
  by (simp add: boot_list_def sample_tables_def)

lemma sample_boot_ready: "boot_ready sample_tables (\<lambda>x. Some 0)"
proof -
  let ?m = "(\<lambda>x. Some 0) :: memory"
  have p: "4096 dvd unat p \<and> unat p < 2 ^ 40" if "p \<in> set (boot_list sample_tables)" for p
    using that unfolding sample_list by auto
  have cell: "cell_ok ?m (entry_addr p i)" if "p \<in> set (boot_list sample_tables)" "i < 512" for p i
  proof -
    have "8 dvd unat p + 8 * i" using p [OF that(1)] by (auto elim: dvd_trans [rotated])
    then show ?thesis using unat_entry [OF _ that(2), of p] p [OF that(1)] by (simp add: cell_ok_def mapped_iff)
  qed
  have "u64_of_bytes (replicate n 0) = 0" for n by (induction n) simp_all
  then have zero: "load64 ?m a = Inr 0" if "8 dvd unat a" for a
    using that by (simp add: load64_def load_bytes_eq mapped_iff map_replicate_const)
  have "tables_in (set (boot_list sample_tables)) ?m" using p cell by (simp add: tables_in_def)
  moreover have "load64 ?m (entry_addr p j) = Inr 0" if "p \<in> set (boot_list sample_tables)" "j < 512" for p j
    using zero cell [OF that] by (simp add: cell_ok_def)
  ultimately show ?thesis unfolding boot_ready_def by (simp add: sample_list)
qed

text \<open>\<open>init_boot_pt\<close> on six zeroed pages returns; the tables it leaves, read with the kernel's
  own \<open>query_in_pgtbl\<close> once physical memory is visible at \<open>KBASE\<close>, map from the first root exactly
  the first gigabyte to itself and from the second root exactly the two gigabytes from \<open>KBASE\<close> on
  to physical memory from 0 on: as normal memory below \<open>0x3f000000\<close>, as device memory above, for
  the kernel only.\<close>

theorem init_boot_pt_correct:
  assumes ready: "boot_ready T m" and fuel: "504 \<le> fuel"
  shows "\<exists>m'. init_boot_pt fuel T m = Some (Inr m') \<and> dom m' = dom m \<and>
    (\<forall>(s :: kernel_state) va. mem s = (\<lambda>x. m' (virt_to_phys x)) \<longrightarrow>
       (unat va < 2 ^ 48 \<longrightarrow> boot_maps s (boot_ttbr0_l0 T) va
          (if unat va < 0x40000000 then Some (va, 0x3f000000 \<le> unat va) else None)) \<and>
       (2 ^ 64 - 2 ^ 48 \<le> unat va \<longrightarrow> boot_maps s (boot_ttbr1_l0 T) va
          (if KBASE \<le> va \<and> unat (va - KBASE) < 0x80000000 then Some (va - KBASE, 0x3f000000 \<le> unat (va - KBASE)) else None)))"
proof -
  obtain m' where m': "init_boot_pt fuel T m = Some (Inr m')" "dom m' = dom m"
    "\<forall>p \<in> set (boot_list T). \<forall>j < 512. load64 m' (entry_addr p j) = Inr (boot_contents T p j)"
    using init_boot_pt_contents [OF ready fuel] by blast
  have dist: "distinct (boot_list T)" using ready by (simp add: boot_ready_def)
  have sub: "{boot_ttbr0_l0 T, boot_ttbr0_l1 T, boot_ttbr0_l2 T} \<subseteq> set (boot_list T)"
    "{boot_ttbr1_l0 T, boot_ttbr1_l1 T, boot_ttbr1_l2 T} \<subseteq> set (boot_list T)" by (auto simp: boot_list_def)
  have c: "boot_contents T (boot_ttbr0_l0 T) j = (if j = 0 then boot_table_pte (boot_ttbr0_l1 T) else 0)"
    "boot_contents T (boot_ttbr0_l1 T) j = (if j = 0 then boot_table_pte (boot_ttbr0_l2 T) else 0)"
    "boot_contents T (boot_ttbr0_l2 T) j = low_block j"
    "boot_contents T (boot_ttbr1_l0 T) j = (if j = 510 then boot_table_pte (boot_ttbr1_l1 T) else 0)"
    "boot_contents T (boot_ttbr1_l1 T) j =
      (if j = 0 then boot_table_pte (boot_ttbr1_l2 T) else if j = 1 then boot_device_pte 0x40000000 else 0)"
    "boot_contents T (boot_ttbr1_l2 T) j = low_block j" for j
    using dist by (auto simp: boot_contents_def boot_list_def)
  have f: "boot_contents T (boot_ttbr0_l1 T) 0 = boot_table_pte (boot_ttbr0_l2 T)"
    "boot_contents T (boot_ttbr1_l1 T) 0 = boot_table_pte (boot_ttbr1_l2 T)" by (simp_all add: c)
  have low: "boot_maps s (boot_ttbr0_l0 T) va (if unat va < 0x40000000 then Some (va, 0x3f000000 \<le> unat va) else None)"
    if view: "mem s = (\<lambda>x. m' (virt_to_phys x))" and va: "unat va < 2 ^ 48" for s :: kernel_state and va
  proof -
    define q d where "q = unat va div 2 ^ 39" and "d = unat va mod 2 ^ 39"
    have u: "unat va = q * 2 ^ 39 + d" "d < 2 ^ 39" by (simp_all add: q_def d_def)
    have q: "q < 512" using va by (simp add: q_def div_less_iff_less_mult)
    have i0: "(0 :: nat) < 512" by simp
    note w = boot_walks [OF ready view m'(3) sub(1) i0 c(1) f(1) c(3) u]
    have "va = of_nat d" if "q = 0" using u(1) that by (simp add: word_unat_eq_iff d_def)
    then show ?thesis
      using w q c(2) u by (cases "q = 0"; cases "d < 2 ^ 30") (auto simp: div_eq_0_iff)
  qed
  have high: "boot_maps s (boot_ttbr1_l0 T) va
      (if KBASE \<le> va \<and> unat (va - KBASE) < 0x80000000 then Some (va - KBASE, 0x3f000000 \<le> unat (va - KBASE)) else None)"
    if view: "mem s = (\<lambda>x. m' (virt_to_phys x))" and va: "2 ^ 64 - 2 ^ 48 \<le> unat va" for s :: kernel_state and va
  proof -
    define q d where "q = unat va div 2 ^ 39" and "d = unat va mod 2 ^ 39"
    have u: "unat va = q * 2 ^ 39 + d" "d < 2 ^ 39" by (simp_all add: q_def d_def)
    have kb: "unat KBASE = (2 ^ 25 - 2) * 2 ^ 39" by (simp add: KBASE_def)
    have lt: "unat va < 2 ^ 64" by (rule order_less_le_trans [OF unsigned_less]) simp
    have n: "18446462598732840960 \<le> unat va" "unat va < 18446744073709551616" "unat va = q * 549755813888 + d" "d < 549755813888"
      using va lt u by simp_all
    have "33553920 \<le> q" "q < 33554432" using n by linarith+
    then have q: "2 ^ 25 - 512 \<le> q" "q < 2 ^ 25" by simp_all
    have qm: "q mod 512 = 510 \<longleftrightarrow> q = 2 ^ 25 - 2"
    proof -
      obtain r where r: "q = 2 ^ 25 - 512 + r" using q(1) le_Suc_ex by blast
      then have r512: "r < 512" "q = r + 512 * 65535" using q(2) by simp_all
      have "q mod 512 = r mod 512" unfolding r512(2) by (rule mod_mult_self2)
      then have "q mod 512 = r" using r512(1) by simp
      then show ?thesis using r by simp
    qed
    have i510: "(510 :: nat) < 512" by simp
    note w = boot_walks [OF ready view m'(3) sub(2) i510 c(4) f(2) c(6) u]
    show ?thesis
    proof (cases "q = 2 ^ 25 - 2")
      case True
      have ge: "KBASE \<le> va" using u True by (simp add: word_le_nat_alt kb)
      then have s: "unat (va - KBASE) = d" using u True by (simp add: unat_sub word_le_nat_alt kb)
      have "of_nat (unat (va - KBASE)) = va - KBASE" by simp
      then have e: "va - KBASE = of_nat d" by (simp only: s)
      have q510: "q mod 512 = 510" using True qm by simp
      consider "d < 2 ^ 30" | "d div 2 ^ 30 = 1" "2 ^ 30 \<le> d" "d < 2 ^ 31" | "\<not> d < 2 ^ 31" "d div 2 ^ 30 \<noteq> 0" "d div 2 ^ 30 \<noteq> 1"
        by (cases "d < 2 ^ 30"; cases "d < 2 ^ 31") (auto simp: div_eq_0_iff)
      then show ?thesis
      proof cases
        case 1
        then show ?thesis using w(2) [OF q510] ge s e by simp
      next
        case 2
        then show ?thesis using w(4) [OF q510 2(1)] c(5) ge s e by simp
      next
        case 3
        then show ?thesis using w(3) [OF q510] c(5) s by simp
      qed
    next
      case False
      have "\<not> (KBASE \<le> va \<and> unat (va - KBASE) < 0x80000000)"
      proof
        assume a: "KBASE \<le> va \<and> unat (va - KBASE) < 0x80000000"
        then have "unat (va - KBASE) = unat va - unat KBASE" "unat KBASE \<le> unat va" by (simp_all add: unat_sub word_le_nat_alt)
        moreover have "unat KBASE = 18446742974197923840" "unat (va - KBASE) < 0x80000000" using a by (simp_all add: KBASE_def)
        ultimately have "18446742974197923840 \<le> unat va" "unat va < 18446742974197923840 + 0x80000000" by linarith+
        then have "q = 33554430" using n(3,4) by linarith
        with False show False by simp
      qed
      moreover have "boot_maps s (boot_ttbr1_l0 T) va None" using w(1) qm False by simp
      ultimately show ?thesis by (simp only: if_False)
    qed
  qed
  show ?thesis using m'(1,2) low high by blast
qed

theorem init_boot_pt_correct_witness:
  "\<exists>T m m'. boot_ready T m \<and> init_boot_pt 504 T m = Some (Inr m') \<and>
    (\<forall>(s :: kernel_state). mem s = (\<lambda>x. m' (virt_to_phys x)) \<longrightarrow>
       boot_maps s (boot_ttbr1_l0 T) 0xffffff0000080000 (Some (0x80000, False)) \<and>
       boot_maps s (boot_ttbr0_l0 T) 0x3f201000 (Some (0x3f201000, True)))"
proof -
  let ?T = sample_tables and ?m = "(\<lambda>x. Some 0) :: memory"
  obtain m' where m': "init_boot_pt 504 ?T ?m = Some (Inr m')"
    "\<And>(s :: kernel_state) va. mem s = (\<lambda>x. m' (virt_to_phys x)) \<Longrightarrow> unat va < 2 ^ 48 \<Longrightarrow> boot_maps s (boot_ttbr0_l0 ?T) va
          (if unat va < 0x40000000 then Some (va, 0x3f000000 \<le> unat va) else None)"
    "\<And>(s :: kernel_state) va. mem s = (\<lambda>x. m' (virt_to_phys x)) \<Longrightarrow> 2 ^ 64 - 2 ^ 48 \<le> unat va \<Longrightarrow> boot_maps s (boot_ttbr1_l0 ?T) va
          (if KBASE \<le> va \<and> unat (va - KBASE) < 0x80000000 then Some (va - KBASE, 0x3f000000 \<le> unat (va - KBASE)) else None)"
    using init_boot_pt_correct [OF sample_boot_ready order_refl] by blast
  have "boot_maps s (boot_ttbr1_l0 ?T) 0xffffff0000080000 (Some (0x80000, False))"
    "boot_maps s (boot_ttbr0_l0 ?T) 0x3f201000 (Some (0x3f201000, True))"
    if "mem s = (\<lambda>x. m' (virt_to_phys x))" for s :: kernel_state
    using m'(3) [OF that, of "0xffffff0000080000"] m'(2) [OF that, of "0x3f201000"] by (simp_all add: KBASE_def)
  then show ?thesis using sample_boot_ready m'(1) by blast
qed

end
