(* ===== verification/Str_Util.thy ===== *)
theory Str_Util
  imports Memory
begin

text \<open>
  The string functions of kernel/include/common/util.h, on strings in memory. \<open>char\<close> is unsigned on
  AArch64. Without a NUL the loops run through memory, for ever if it is all mapped: they are
  partial functions, \<open>None\<close> when they do not return.
\<close>

definition load_char :: "memory \<Rightarrow> u64 \<Rightarrow> u8 outcome" where
  "load_char m a = deref (m a)"

partial_function (option) strlen_loop :: "memory \<Rightarrow> u64 \<Rightarrow> u64 \<Rightarrow> u64 run" where
  "strlen_loop m src i =
     (case load_char m src of
        Inl e \<Rightarrow> Some (Inl e)
      | Inr c \<Rightarrow> if c \<noteq> 0 then strlen_loop m (src + 1) (i + 1) else Some (Inr i))"

declare strlen_loop.simps [code]

definition strlen :: "memory \<Rightarrow> u64 \<Rightarrow> u64 run" where
  "strlen m src = strlen_loop m src 0"

text \<open>\<open>while (*src && *dst)\<close>: the second string is read only if the first has not ended.\<close>

partial_function (option) strcmp :: "memory \<Rightarrow> u64 \<Rightarrow> u64 \<Rightarrow> int run" where
  "strcmp m src dst =
     (case rbind (load_char m src) (\<lambda>s. rbind (load_char m dst) (\<lambda>d. Inr (s, d))) of
        Inl e \<Rightarrow> Some (Inl e)
      | Inr (s, d) \<Rightarrow>
          if s \<noteq> 0 \<and> d \<noteq> 0
          then if s = d then strcmp m (src + 1) (dst + 1) else Some (Inr (uint s - uint d))
          else if s = 0 \<and> d = 0 then Some (Inr 0)
          else if s = 0 then Some (Inr (- 1))
          else Some (Inr 1))"

declare strcmp.simps [code]

fun strncmp_loop :: "memory \<Rightarrow> u64 \<Rightarrow> u64 \<Rightarrow> nat list \<Rightarrow> int outcome" where
  "strncmp_loop m src dst [] = Inr 0"
| "strncmp_loop m src dst (i # is) =
     rbind (load_char m (src + of_nat i)) (\<lambda>s.
     rbind (load_char m (dst + of_nat i)) (\<lambda>d.
     if s = 0 \<or> s \<noteq> d then Inr (uint s - uint d) else strncmp_loop m src dst is))"

definition strncmp :: "memory \<Rightarrow> u64 \<Rightarrow> u64 \<Rightarrow> u64 \<Rightarrow> int outcome" where
  "strncmp m src dst sz = strncmp_loop m src dst [0..<unat sz]"

subsection \<open>Strings in memory\<close>

fun c_string :: "memory \<Rightarrow> u64 \<Rightarrow> u8 list \<Rightarrow> bool" where
  "c_string m a [] = (m a = Some 0)"
| "c_string m a (x # xs) = (x \<noteq> 0 \<and> m a = Some x \<and> c_string m (a + 1) xs)"

lemma c_string_cong:
  "c_string m a xs \<Longrightarrow> (\<And>j. j \<le> length xs \<Longrightarrow> m' (a + of_nat j) = m (a + of_nat j)) \<Longrightarrow> c_string m' a xs"
proof (induction xs arbitrary: a)
  case Nil
  then show ?case using Nil(2) [of 0] by simp
next
  case (Cons x xs)
  have "c_string m' (a + 1) xs"
  proof (rule Cons.IH)
    show "c_string m (a + 1) xs" using Cons.prems(1) by simp
    fix j assume "j \<le> length xs"
    then show "m' (a + 1 + of_nat j) = m (a + 1 + of_nat j)" using Cons.prems(2) [of "Suc j"] by (simp add: add.assoc)
  qed
  then show ?case using Cons.prems(1) Cons.prems(2) [of 0] by simp
qed

lemma c_string_nth:
  "(\<And>j. j < length xs \<Longrightarrow> xs ! j \<noteq> 0 \<and> m (a + of_nat j) = Some (xs ! j)) \<Longrightarrow> m (a + of_nat (length xs)) = Some 0 \<Longrightarrow> c_string m a xs"
proof (induction xs arbitrary: a)
  case (Cons x xs)
  have "c_string m (a + 1) xs"
  proof (rule Cons.IH)
    fix j assume "j < length xs"
    then show "xs ! j \<noteq> 0 \<and> m (a + 1 + of_nat j) = Some (xs ! j)" using Cons.prems(1) [of "Suc j"] by (simp add: add.assoc)
  qed (use Cons.prems(2) in \<open>simp add: add.assoc\<close>)
  then show ?case using Cons.prems(1) [of 0] by simp
qed simp

lemma strlen_loop_ok: "c_string m src xs \<Longrightarrow> strlen_loop m src i = Some (Inr (i + of_nat (length xs)))"
proof (induction xs arbitrary: src i)
  case Nil
  then show ?case by (subst strlen_loop.simps) (simp add: load_char_def deref_def)
next
  case (Cons x xs)
  then have "strlen_loop m (src + 1) (i + 1) = Some (Inr (i + 1 + of_nat (length xs)))" by simp
  then show ?case using Cons.prems by (subst strlen_loop.simps) (simp add: load_char_def deref_def algebra_simps)
qed

lemma strlen_ok: "c_string m src xs \<Longrightarrow> strlen m src = Some (Inr (of_nat (length xs)))"
  by (simp add: strlen_def strlen_loop_ok)

text \<open>What \<open>strcmp\<close> computes, and that it is a comparison in lexicographic order.\<close>

fun compare_chars :: "u8 list \<Rightarrow> u8 list \<Rightarrow> int" where
  "compare_chars [] [] = 0"
| "compare_chars [] (y # ys) = - 1"
| "compare_chars (x # xs) [] = 1"
| "compare_chars (x # xs) (y # ys) = (if x = y then compare_chars xs ys else uint x - uint y)"

lemma strcmp_ok: "c_string m src xs \<Longrightarrow> c_string m dst ys \<Longrightarrow> strcmp m src dst = Some (Inr (compare_chars xs ys))"
proof (induction xs ys arbitrary: src dst rule: compare_chars.induct)
  case (4 x xs y ys)
  then show ?case by (subst strcmp.simps) (simp add: load_char_def deref_def)
qed (subst strcmp.simps, simp add: load_char_def deref_def)+

lemma compare_chars_eq: "compare_chars xs ys = 0 \<longleftrightarrow> xs = ys"
  by (induction xs ys rule: compare_chars.induct) (auto simp: word_uint_eq_iff)

lemma compare_chars_less: "compare_chars xs ys < 0 \<longleftrightarrow> ord_class.lexordp xs ys"
  by (induction xs ys rule: compare_chars.induct) (auto simp: word_less_def ord.lexordp.simps word_uint_eq_iff)

text \<open>\<open>strncmp\<close> compares the first \<open>n\<close> characters, as far as the strings go.\<close>

fun compare_prefix :: "nat \<Rightarrow> u8 list \<Rightarrow> u8 list \<Rightarrow> int" where
  "compare_prefix 0 xs ys = 0"
| "compare_prefix (Suc n) [] [] = 0"
| "compare_prefix (Suc n) [] (y # ys) = - uint y"
| "compare_prefix (Suc n) (x # xs) [] = uint x"
| "compare_prefix (Suc n) (x # xs) (y # ys) = (if x = y then compare_prefix n xs ys else uint x - uint y)"

lemma strncmp_loop_ok:
  "c_string m (src + of_nat i) xs \<Longrightarrow> c_string m (dst + of_nat i) ys \<Longrightarrow>
   strncmp_loop m src dst [i..<i + n] = Inr (compare_prefix n xs ys)"
proof (induction n xs ys arbitrary: i rule: compare_prefix.induct)
  case (5 n x xs y ys)
  have "strncmp_loop m src dst [Suc i..<Suc i + n] = Inr (compare_prefix n xs ys)" if "x = y"
    using 5 that by (intro "5.IH") (simp_all add: add.commute add.left_commute)
  then show ?case using "5.prems" by (simp add: upt_conv_Cons load_char_def deref_def del: upt_Suc)
qed (simp_all add: upt_conv_Cons load_char_def deref_def del: upt_Suc)

lemma strncmp_ok:
  "c_string m src xs \<Longrightarrow> c_string m dst ys \<Longrightarrow> strncmp m src dst sz = Inr (compare_prefix (unat sz) xs ys)"
  using strncmp_loop_ok [of m src 0 xs dst ys "unat sz"] by (simp add: strncmp_def)

lemma compare_prefix_eq:
  "0 \<notin> set xs \<Longrightarrow> 0 \<notin> set ys \<Longrightarrow> compare_prefix n xs ys = 0 \<longleftrightarrow> take n xs = take n ys"
  by (induction n xs ys rule: compare_prefix.induct) (auto simp: word_uint_eq_iff)

end
