(* ===== verification/Uart_Props.thy ===== *)
theory Uart_Props
  imports Uart Str_Util "HOL-Library.Sublist"
begin

text \<open>
  The UART drivers against what the BCM2835 peripherals manual promises of the mini UART
  (\<open>mini_uart\<close>): they bring the device up, what is sent leaves it in order and completely, what is
  received is read in order. The device is any state with the observations of \<open>uart_view\<close>.
\<close>

subsection \<open>The device\<close>

text \<open>
  \<open>reg\<close> is what was last written to a configuration register; \<open>tx_sent\<close> the bytes the device has
  accepted for transmission, \<open>rx_fifo\<close> the bytes received and not yet read, \<open>tx_idle\<close> whether a
  write is accepted, \<open>tx_wait\<close> a bound on the polls until it is.
\<close>

record 'w uart_view =
  reg :: "u64 \<Rightarrow> 'w \<Rightarrow> u32"
  tx_sent :: "'w \<Rightarrow> u8 list"
  rx_fifo :: "'w \<Rightarrow> u8 list"
  tx_idle :: "'w \<Rightarrow> bool"
  tx_wait :: "'w \<Rightarrow> nat"

definition config_regs :: "u64 \<Rightarrow> u64 list" where
  "config_regs b = [GPFSEL1 b, GPPUD b, GPPUDCLK0 b, AUX_ENABLES b, AUX_MU_IER_REG b, AUX_MU_LCR_REG b,
     AUX_MU_MCR_REG b, AUX_MU_CNTL_REG b, AUX_MU_BAUD_REG b]"

text \<open>
  The device works when pins 14 and 15 carry it (function ALT5, encoded 2), it is switched on with
  receiver and transmitter, and the line is set to 8 bits at the baud divisor 270.
\<close>

definition enabled :: "'w uart_view \<Rightarrow> u64 \<Rightarrow> 'w \<Rightarrow> bool" where
  "enabled V b w \<longleftrightarrow>
     take_bit 3 (drop_bit 12 (reg V (GPFSEL1 b) w)) = 2 \<and> take_bit 3 (drop_bit 15 (reg V (GPFSEL1 b) w)) = 2 \<and>
     bit (reg V (AUX_ENABLES b) w) 0 \<and> take_bit 2 (reg V (AUX_MU_CNTL_REG b) w) = 3 \<and>
     take_bit 2 (reg V (AUX_MU_LCR_REG b) w) = 3 \<and> reg V (AUX_MU_BAUD_REG b) w = 270"

definition same_config :: "'w uart_view \<Rightarrow> u64 \<Rightarrow> 'w \<Rightarrow> 'w \<Rightarrow> bool" where
  "same_config V b w w' \<longleftrightarrow> (\<forall>r \<in> set (config_regs b). reg V r w' = reg V r w)"

definition mini_uart :: "'w mmio \<Rightarrow> u64 \<Rightarrow> 'w uart_view \<Rightarrow> bool" where
  "mini_uart d b V \<longleftrightarrow>
     (\<forall>r \<in> set (config_regs b). \<forall>v w.
        (\<forall>q \<in> set (config_regs b). reg V q (put32 d r v w) = (if q = r then v else reg V q w)) \<and>
        tx_sent V (put32 d r v w) = tx_sent V w) \<and>
     (\<forall>w v w'. get32 d (GPFSEL1 b) w = (v, w') \<longrightarrow>
        v = reg V (GPFSEL1 b) w \<and> same_config V b w w' \<and> tx_sent V w' = tx_sent V w) \<and>
     (\<forall>w v w'. enabled V b w \<longrightarrow> get32 d (AUX_MU_LSR_REG b) w = (v, w') \<longrightarrow>
        same_config V b w w' \<and> tx_sent V w' = tx_sent V w \<and> prefix (rx_fifo V w) (rx_fifo V w') \<and>
        (bit v 0 \<longleftrightarrow> rx_fifo V w' \<noteq> []) \<and>
        (if bit v 5 then tx_idle V w' else tx_wait V w' < tx_wait V w)) \<and>
     (\<forall>w c. enabled V b w \<longrightarrow> tx_idle V w \<longrightarrow>
        same_config V b w (put32 d (AUX_MU_IO_REG b) c w) \<and>
        tx_sent V (put32 d (AUX_MU_IO_REG b) c w) = tx_sent V w @ [ucast c] \<and>
        prefix (rx_fifo V w) (rx_fifo V (put32 d (AUX_MU_IO_REG b) c w))) \<and>
     (\<forall>w v w' x xs. enabled V b w \<longrightarrow> rx_fifo V w = x # xs \<longrightarrow> get32 d (AUX_MU_IO_REG b) w = (v, w') \<longrightarrow>
        same_config V b w w' \<and> tx_sent V w' = tx_sent V w \<and> ucast v = x \<and> prefix xs (rx_fifo V w'))"

lemma mini_uart_config:
  assumes "mini_uart d b V" "r \<in> set (config_regs b)"
  shows "q \<in> set (config_regs b) \<Longrightarrow> reg V q (put32 d r v w) = (if q = r then v else reg V q w)"
    "tx_sent V (put32 d r v w) = tx_sent V w"
  using assms unfolding mini_uart_def by blast+

lemma mini_uart_pins:
  assumes "mini_uart d b V" "get32 d (GPFSEL1 b) w = (v, w')"
  shows "v = reg V (GPFSEL1 b) w" "same_config V b w w'" "tx_sent V w' = tx_sent V w"
  using assms unfolding mini_uart_def by blast+

lemma mini_uart_status:
  assumes "mini_uart d b V" "enabled V b w" "get32 d (AUX_MU_LSR_REG b) w = (v, w')"
  shows "same_config V b w w'" "tx_sent V w' = tx_sent V w" "prefix (rx_fifo V w) (rx_fifo V w')"
    "bit v 0 \<longleftrightarrow> rx_fifo V w' \<noteq> []" "bit v 5 \<Longrightarrow> tx_idle V w'" "\<not> bit v 5 \<Longrightarrow> tx_wait V w' < tx_wait V w"
proof -
  have "same_config V b w w' \<and> tx_sent V w' = tx_sent V w \<and> prefix (rx_fifo V w) (rx_fifo V w') \<and>
    (bit v 0 \<longleftrightarrow> rx_fifo V w' \<noteq> []) \<and> (if bit v 5 then tx_idle V w' else tx_wait V w' < tx_wait V w)"
    using assms unfolding mini_uart_def by blast
  then show "same_config V b w w'" "tx_sent V w' = tx_sent V w" "prefix (rx_fifo V w) (rx_fifo V w')"
    "bit v 0 \<longleftrightarrow> rx_fifo V w' \<noteq> []" "bit v 5 \<Longrightarrow> tx_idle V w'" "\<not> bit v 5 \<Longrightarrow> tx_wait V w' < tx_wait V w"
    by (auto split: if_splits)
qed

lemma mini_uart_write:
  assumes "mini_uart d b V" "enabled V b w" "tx_idle V w"
  shows "same_config V b w (put32 d (AUX_MU_IO_REG b) c w)"
    "tx_sent V (put32 d (AUX_MU_IO_REG b) c w) = tx_sent V w @ [ucast c]"
    "prefix (rx_fifo V w) (rx_fifo V (put32 d (AUX_MU_IO_REG b) c w))"
  using assms unfolding mini_uart_def by blast+

lemma mini_uart_read:
  assumes "mini_uart d b V" "enabled V b w" "rx_fifo V w = x # xs" "get32 d (AUX_MU_IO_REG b) w = (v, w')"
  shows "same_config V b w w'" "tx_sent V w' = tx_sent V w" "ucast v = x" "prefix xs (rx_fifo V w')"
  using assms unfolding mini_uart_def by blast+

lemma config_regs_mem [simp]:
  "GPFSEL1 b \<in> set (config_regs b)" "GPPUD b \<in> set (config_regs b)" "GPPUDCLK0 b \<in> set (config_regs b)"
  "AUX_ENABLES b \<in> set (config_regs b)" "AUX_MU_IER_REG b \<in> set (config_regs b)" "AUX_MU_LCR_REG b \<in> set (config_regs b)"
  "AUX_MU_MCR_REG b \<in> set (config_regs b)" "AUX_MU_CNTL_REG b \<in> set (config_regs b)" "AUX_MU_BAUD_REG b \<in> set (config_regs b)"
  by (simp_all add: config_regs_def)

lemma config_regs_distinct: "distinct (config_regs b)"
  by (simp add: config_regs_def register_defs)

lemma enabled_same_config: "same_config V b w w' \<Longrightarrow> enabled V b w \<Longrightarrow> enabled V b w'"
  by (simp add: enabled_def same_config_def)

lemma same_config_refl [simp]: "same_config V b w w"
  by (simp add: same_config_def)

lemma same_config_trans [trans]: "same_config V b w w' \<Longrightarrow> same_config V b w' w'' \<Longrightarrow> same_config V b w w''"
  by (simp add: same_config_def)

subsection \<open>Bringing the device up\<close>

text \<open>The function fields of pins 14 and 15 are set to ALT5, those of the other pins kept.\<close>

definition pin_functions :: "u32 \<Rightarrow> u32" where
  "pin_functions ra =
     ((ra AND NOT (push_bit 12 7) OR push_bit 12 2) AND NOT (push_bit 15 7)) OR push_bit 15 2"

lemma bit_field:
  "bit (push_bit n (7 :: u32)) k \<longleftrightarrow> n \<le> k \<and> k < n + 3 \<and> k < 32"
  "bit (push_bit n (2 :: u32)) k \<longleftrightarrow> k = n + 1 \<and> k < 32" "bit (2 :: u32) k \<longleftrightarrow> k = 1"
proof -
  have "(7 :: u32) = mask 3" "(2 :: u32) = push_bit 1 1" by (simp_all add: mask_eq_exp_minus_1)
  then show "bit (push_bit n (7 :: u32)) k \<longleftrightarrow> n \<le> k \<and> k < n + 3 \<and> k < 32"
    "bit (push_bit n (2 :: u32)) k \<longleftrightarrow> k = n + 1 \<and> k < 32" "bit (2 :: u32) k \<longleftrightarrow> k = 1"
    by (auto simp only: bit_push_bit_iff bit_mask_iff bit_1_iff possible_bit_word) auto
qed

lemma bit_pin_functions:
  assumes "k < 32"
  shows "bit (pin_functions ra) k \<longleftrightarrow> (if 12 \<le> k \<and> k < 18 then k = 13 \<or> k = 16 else bit ra k)"
  using assms
  by (simp only: pin_functions_def bit_field bit_or_iff bit_and_iff bit_not_iff possible_bit_word) auto

lemma pin_functions_ok:
  "take_bit 3 (drop_bit 12 (pin_functions ra)) = 2" "take_bit 3 (drop_bit 15 (pin_functions ra)) = 2"
proof -
  have "n < 3 \<and> bit (pin_functions ra) (12 + n) \<longleftrightarrow> bit (2 :: u32) n" if "n < 32" for n
    unfolding bit_field(3) by (auto simp: bit_pin_functions)
  then show "take_bit 3 (drop_bit 12 (pin_functions ra)) = 2"
    by (intro bit_word_eqI) (simp add: bit_take_bit_iff bit_drop_bit_eq)
  have "n < 3 \<and> bit (pin_functions ra) (15 + n) \<longleftrightarrow> bit (2 :: u32) n" if "n < 32" for n
    unfolding bit_field(3) by (auto simp: bit_pin_functions)
  then show "take_bit 3 (drop_bit 15 (pin_functions ra)) = 2"
    by (intro bit_word_eqI) (simp add: bit_take_bit_iff bit_drop_bit_eq)
qed

text \<open>Both drivers make the same writes, in this order.\<close>

definition write_regs :: "'w mmio \<Rightarrow> (u64 \<times> u32) list \<Rightarrow> 'w \<Rightarrow> 'w" where
  "write_regs d = fold (\<lambda>(r, v). put32 d r v)"

definition set_up :: "u64 \<Rightarrow> u32 \<Rightarrow> (u64 \<times> u32) list" where
  "set_up b ra = [(GPFSEL1 b, pin_functions ra), (GPPUD b, 0), (GPPUDCLK0 b, push_bit 14 1 OR push_bit 15 1),
     (GPPUDCLK0 b, 0), (AUX_ENABLES b, 1), (AUX_MU_IER_REG b, 0), (AUX_MU_CNTL_REG b, 0), (AUX_MU_IER_REG b, 0),
     (AUX_MU_LCR_REG b, 3), (AUX_MU_MCR_REG b, 0), (AUX_MU_BAUD_REG b, 270), (AUX_MU_CNTL_REG b, 3)]"

lemma early_uart_init_writes:
  "early_uart_init d w = (case get32 d (GPFSEL1 0) w of (ra, w) \<Rightarrow> write_regs d (set_up 0 ra) w)"
  by (simp add: early_uart_init_def write_regs_def set_up_def pin_functions_def Let_def split: prod.splits)

lemma write_regs_ok:
  assumes u: "mini_uart d b V"
  shows "fst ` set xs \<subseteq> set (config_regs b) \<Longrightarrow>
    (\<forall>q \<in> set (config_regs b). reg V q (write_regs d xs w) = (case map_of (rev xs) q of Some v \<Rightarrow> v | None \<Rightarrow> reg V q w)) \<and>
    tx_sent V (write_regs d xs w) = tx_sent V w"
proof (induction xs arbitrary: w)
  case (Cons x xs)
  obtain r v where x: "x = (r, v)" by (cases x)
  have r: "r \<in> set (config_regs b)" using Cons.prems x by simp
  show ?case
    using Cons.IH [of "put32 d r v w"] Cons.prems mini_uart_config [OF u r]
    by (auto simp: x write_regs_def map_add_def split: option.splits)
qed (simp add: write_regs_def)

text \<open>After the writes the device works, nothing has been sent, and the other pins are as before.\<close>

definition brought_up :: "'w uart_view \<Rightarrow> u64 \<Rightarrow> 'w \<Rightarrow> 'w \<Rightarrow> bool" where
  "brought_up V b w w' \<longleftrightarrow> enabled V b w' \<and>
     (\<forall>k < 32. k < 12 \<or> 18 \<le> k \<longrightarrow> bit (reg V (GPFSEL1 b) w') k = bit (reg V (GPFSEL1 b) w) k)"

lemma set_up_ok:
  assumes u: "mini_uart d b V" and g: "get32 d (GPFSEL1 b) w = (ra, w0)"
  shows "brought_up V b w (write_regs d (set_up b ra) w0)" "tx_sent V (write_regs d (set_up b ra) w0) = tx_sent V w"
proof -
  note p = mini_uart_pins [OF u g]
  have sub: "fst ` set (set_up b ra) \<subseteq> set (config_regs b)" by (simp add: set_up_def)
  note wr = write_regs_ok [OF u sub, of w0]
  have r: "reg V (GPFSEL1 b) (write_regs d (set_up b ra) w0) = pin_functions ra"
    "reg V (AUX_ENABLES b) (write_regs d (set_up b ra) w0) = 1" "reg V (AUX_MU_CNTL_REG b) (write_regs d (set_up b ra) w0) = 3"
    "reg V (AUX_MU_LCR_REG b) (write_regs d (set_up b ra) w0) = 3" "reg V (AUX_MU_BAUD_REG b) (write_regs d (set_up b ra) w0) = 270"
    by (simp_all add: wr) (simp_all add: set_up_def register_defs)
  show "brought_up V b w (write_regs d (set_up b ra) w0)"
    unfolding brought_up_def enabled_def r using pin_functions_ok [of ra] bit_pin_functions [of _ ra] p(1) by auto
  show "tx_sent V (write_regs d (set_up b ra) w0) = tx_sent V w" using wr p(3) by simp
qed

lemma early_uart_init_ok:
  assumes "mini_uart d 0 V"
  shows "brought_up V 0 w (early_uart_init d w)" "tx_sent V (early_uart_init d w) = tx_sent V w"
  using set_up_ok [OF assms, of w] by (cases "get32 d (GPFSEL1 0) w"; simp add: early_uart_init_writes)+

subsection \<open>Sending\<close>

text \<open>Polling for a status bit returns if a bound falls with every poll that does not see it.\<close>

lemma poll_returns:
  assumes inv: "\<And>w v w'. I w \<Longrightarrow> lsr w = (v, w') \<Longrightarrow> I w' \<and> (v AND msk = 0 \<longrightarrow> bound w' < (bound w :: nat)) \<and> (v AND msk \<noteq> 0 \<longrightarrow> Q w')"
  shows "I w \<Longrightarrow> \<exists>w'. poll lsr msk w = Some w' \<and> I w' \<and> Q w'"
proof (induction "bound w" arbitrary: w rule: less_induct)
  case less
  obtain v w1 where l: "lsr w = (v, w1)" by (cases "lsr w")
  note i = inv [OF less.prems l]
  show ?case
  proof (cases "v AND msk = 0")
    case True
    then show ?thesis using less.hyps [of w1] i by (subst poll.simps) (simp add: l)
  next
    case False
    then show ?thesis using i by (subst poll.simps) (simp add: l)
  qed
qed

lemma lsr_bits:
  "(v :: u32) AND 0x20 = 0 \<longleftrightarrow> \<not> bit v 5" "(v :: u32) AND 0x01 = 0 \<longleftrightarrow> \<not> bit v 0"
  using and_exp_eq_0_iff_not_bit [of v 5] and_exp_eq_0_iff_not_bit [of v 0] by simp_all

text \<open>What the device has done since \<open>w\<close>: sent \<open>bs\<close>, with the same configuration and no received byte lost.\<close>

definition has_sent :: "'w uart_view \<Rightarrow> u64 \<Rightarrow> 'w \<Rightarrow> u8 list \<Rightarrow> 'w \<Rightarrow> bool" where
  "has_sent V b w bs w' \<longleftrightarrow>
     same_config V b w w' \<and> tx_sent V w' = tx_sent V w @ bs \<and> prefix (rx_fifo V w) (rx_fifo V w')"

lemma has_sent_Nil [simp]: "has_sent V b w [] w"
  by (simp add: has_sent_def)

lemma has_sent_trans [trans]: "has_sent V b w bs w' \<Longrightarrow> has_sent V b w' cs w'' \<Longrightarrow> has_sent V b w (bs @ cs) w''"
  by (auto simp: has_sent_def intro: same_config_trans prefix_order.trans)

lemma has_sent_enabled: "has_sent V b w bs w' \<Longrightarrow> enabled V b w \<Longrightarrow> enabled V b w'"
  by (auto simp: has_sent_def intro: enabled_same_config)

lemma poll_transmit:
  assumes u: "mini_uart d b V" and e: "enabled V b w"
  shows "\<exists>w'. poll (get32 d (AUX_MU_LSR_REG b)) 0x20 w = Some w' \<and> has_sent V b w [] w' \<and> tx_idle V w'"
proof -
  have "\<exists>w'. poll (get32 d (AUX_MU_LSR_REG b)) 0x20 w = Some w' \<and> has_sent V b w [] w' \<and> tx_idle V w'"
  proof (rule poll_returns [where bound = "tx_wait V"])
    fix x v x'
    assume x: "has_sent V b w [] x" and g: "get32 d (AUX_MU_LSR_REG b) x = (v, x')"
    note st = mini_uart_status [OF u has_sent_enabled [OF x e] g]
    have "has_sent V b x [] x'" using st(1-3) by (simp add: has_sent_def)
    then have "has_sent V b w [] x'" using has_sent_trans [OF x] by simp
    then show "has_sent V b w [] x' \<and> (v AND 0x20 = 0 \<longrightarrow> tx_wait V x' < tx_wait V x) \<and> (v AND 0x20 \<noteq> 0 \<longrightarrow> tx_idle V x')"
      using st(5,6) by (simp add: lsr_bits)
  qed simp
  then show ?thesis .
qed

lemma send_ok:
  assumes u: "mini_uart d b V" and e: "enabled V b w"
  shows "\<exists>w'. Option.bind (poll (get32 d (AUX_MU_LSR_REG b)) 0x20 w) (\<lambda>w. Some (put32 d (AUX_MU_IO_REG b) c w)) = Some w' \<and>
    has_sent V b w [ucast c] w'"
proof -
  obtain x where x: "poll (get32 d (AUX_MU_LSR_REG b)) 0x20 w = Some x" "has_sent V b w [] x" "tx_idle V x"
    using poll_transmit [OF u e] by blast
  have "has_sent V b x [ucast c] (put32 d (AUX_MU_IO_REG b) c x)"
    using mini_uart_write [OF u has_sent_enabled [OF x(2) e] x(3)] by (simp add: has_sent_def)
  then show ?thesis using has_sent_trans [OF x(2)] x(1) by simp
qed

lemma uart_send_ok:
  assumes "mini_uart d UART_KBASE V" "enabled V UART_KBASE w"
  shows "\<exists>w'. uart_send d c w = Some w' \<and> has_sent V UART_KBASE w [ucast c] w'"
  using send_ok [OF assms] unfolding uart_send_def uart_lsr_def by simp

lemma early_uart_send_ok:
  assumes "mini_uart d 0 V" "enabled V 0 w"
  shows "\<exists>w'. early_uart_send d c w = Some w' \<and> has_sent V 0 w [ucast c] w'"
  using send_ok [OF assms] unfolding early_uart_send_def early_uart_lsr_def by simp

lemma ucast_byte [simp]: "ucast (ucast (x :: u8) :: u32) = x"
  by (rule bit_word_eqI) (auto simp: bit_simps)

lemma low_byte: "(v :: u32) AND 0xFF = ucast (ucast v :: u8)"
proof -
  have "v AND mask 8 = ucast (ucast v :: u8)" by (rule bit_word_eqI) (auto simp: bit_simps)
  then show ?thesis by (simp add: mask_eq_exp_minus_1)
qed

lemma uart_send_string_ok:
  assumes u: "mini_uart d 0 V"
  shows "enabled V 0 w \<Longrightarrow> c_string m str xs \<Longrightarrow>
    \<exists>w'. uart_send_string d m str w = Some (Inr w') \<and> has_sent V 0 w xs w'"
proof (induction xs arbitrary: str w)
  case Nil
  then show ?case by (subst uart_send_string.simps) simp
next
  case (Cons x xs)
  obtain w1 where w1: "early_uart_send d (ucast x) w = Some w1" "has_sent V 0 w [x] w1"
    using early_uart_send_ok [OF u Cons.prems(1), of "ucast x"] by auto
  obtain w2 where w2: "uart_send_string d m (str + 1) w1 = Some (Inr w2)" "has_sent V 0 w1 xs w2"
    using Cons.IH [OF has_sent_enabled [OF w1(2) Cons.prems(1)], of "str + 1"] Cons.prems(2) by auto
  have "uart_send_string d m str w = Some (Inr w2)"
    using Cons.prems(2) w1(1) w2(1) by (subst uart_send_string.simps) simp
  moreover have "has_sent V 0 w (x # xs) w2" using has_sent_trans [OF w1(2) w2(2)] by simp
  ultimately show ?case by blast
qed

definition bytes :: "string \<Rightarrow> u8 list" where
  "bytes = map of_char"

text \<open>\<open>uart_init\<close> ends with a sequence of characters.\<close>

lemma send_all_ok:
  assumes u: "mini_uart d UART_KBASE V"
  shows "enabled V UART_KBASE w \<Longrightarrow> \<exists>w'. send_all d cs w = Some w' \<and> has_sent V UART_KBASE w (map ucast cs) w'"
proof (induction cs arbitrary: w)
  case (Cons c cs)
  obtain w1 where w1: "uart_send d c w = Some w1" "has_sent V UART_KBASE w [ucast c] w1"
    using uart_send_ok [OF u Cons.prems] by blast
  show ?case using Cons.IH [OF has_sent_enabled [OF w1(2) Cons.prems]] w1(1) has_sent_trans [OF w1(2)] by fastforce
qed simp

lemma uart_init_writes:
  "uart_init d w = (case get32 d (GPFSEL1 UART_KBASE) w of (ra, w) \<Rightarrow>
     send_all d [12, 27, of_char CHR ''['', of_char CHR ''2'', of_char CHR ''J''] (write_regs d (set_up UART_KBASE ra) w))"
  by (simp add: uart_init_def write_regs_def set_up_def pin_functions_def Let_def split: prod.splits Option.bind_split)

lemma uart_init_ok:
  assumes u: "mini_uart d UART_KBASE V"
  shows "\<exists>w'. uart_init d w = Some w' \<and> brought_up V UART_KBASE w w' \<and>
    tx_sent V w' = tx_sent V w @ [12, 27, of_char CHR ''['', of_char CHR ''2'', of_char CHR ''J'']"
proof -
  obtain ra w0 where g: "get32 d (GPFSEL1 UART_KBASE) w = (ra, w0)" by (cases "get32 d (GPFSEL1 UART_KBASE) w")
  define x where "x = write_regs d (set_up UART_KBASE ra) w0"
  have x: "brought_up V UART_KBASE w x" "tx_sent V x = tx_sent V w" unfolding x_def by (rule set_up_ok [OF u g])+
  then have e: "enabled V UART_KBASE x" by (simp add: brought_up_def)
  obtain y where y: "uart_init d w = Some y"
    "has_sent V UART_KBASE x [12, 27, of_char CHR ''['', of_char CHR ''2'', of_char CHR ''J''] y"
    using send_all_ok [OF u e, of "[12, 27, of_char CHR ''['', of_char CHR ''2'', of_char CHR ''J'']"] g
    by (auto simp: uart_init_writes x_def)
  then show ?thesis using x has_sent_enabled [OF y(2) e] by (simp add: brought_up_def has_sent_def same_config_def)
qed

subsection \<open>Receiving\<close>

lemma read_ok:
  assumes u: "mini_uart d b V" and e: "enabled V b w" and f: "rx_fifo V w = x # xs"
    and g: "get32 d (AUX_MU_LSR_REG b) w = (v, w1)" "get32 d (AUX_MU_IO_REG b) w1 = (c, w2)"
  shows "bit v 0" "c AND 0xFF = ucast x" "same_config V b w w2" "tx_sent V w2 = tx_sent V w" "prefix xs (rx_fifo V w2)"
proof -
  note st = mini_uart_status [OF u e g(1)]
  obtain new where new: "rx_fifo V w1 = x # (xs @ new)" using st(3) f by (auto simp: prefix_def)
  note rd = mini_uart_read [OF u enabled_same_config [OF st(1) e] new g(2)]
  show "bit v 0" using st(4) new by simp
  show "c AND 0xFF = ucast x" using rd(3) by (simp add: low_byte)
  show "same_config V b w w2" using st(1) rd(1) by (rule same_config_trans)
  show "tx_sent V w2 = tx_sent V w" using st(2) rd(2) by simp
  show "prefix xs (rx_fifo V w2)" using rd(4) by (auto simp: prefix_def)
qed

lemma uart_recv_ok:
  assumes u: "mini_uart d UART_KBASE V" and e: "enabled V UART_KBASE w" and f: "rx_fifo V w = x # xs"
  shows "\<exists>w'. uart_recv d w = Some (ucast x, w') \<and> nb_uart_recv d w = (ucast x, w') \<and>
    same_config V UART_KBASE w w' \<and> tx_sent V w' = tx_sent V w \<and> prefix xs (rx_fifo V w')"
proof -
  obtain v w1 c w2 where g: "get32 d (AUX_MU_LSR_REG UART_KBASE) w = (v, w1)" "get32 d (AUX_MU_IO_REG UART_KBASE) w1 = (c, w2)"
    by (meson surj_pair)
  note r = read_ok [OF u e f g]
  have "poll (uart_lsr d) 1 w = Some w1" using r(1) g(1) lsr_bits(2) [of v] by (subst poll.simps) (simp add: uart_lsr_def)
  then show ?thesis using r g lsr_bits(2) [of v] by (simp add: uart_recv_def nb_uart_recv_def uart_lsr_def Let_def)
qed

text \<open>With nothing received, the non-blocking variant says so, and the blocking one waits.\<close>

lemma nb_uart_recv_empty:
  assumes u: "mini_uart d UART_KBASE V" and e: "enabled V UART_KBASE w"
    and g: "get32 d (AUX_MU_LSR_REG UART_KBASE) w = (v, w1)" and f: "rx_fifo V w1 = []"
  shows "nb_uart_recv d w = (NB_UART_NRET, w1)"
  using mini_uart_status(4) [OF u e g] f g lsr_bits(2) [of v] by (simp add: nb_uart_recv_def uart_lsr_def)

lemma poll_diverges:
  assumes inv: "\<And>w v w'. I w \<Longrightarrow> lsr w = (v, w') \<Longrightarrow> I w' \<and> v AND msk = 0"
  shows "I w \<Longrightarrow> poll lsr msk w = None"
proof -
  have "poll lsr msk w = Some y \<Longrightarrow> \<not> I w" for y
  proof (rule poll.raw_induct [where P = "\<lambda>l k w y. l = lsr \<longrightarrow> k = msk \<longrightarrow> \<not> I w", rule_format, of lsr msk w y])
    fix f :: "('a \<Rightarrow> u32 \<times> 'a) \<Rightarrow> u32 \<Rightarrow> 'a \<Rightarrow> 'a option" and l k x z
    assume hyp: "\<And>l k x z. f l k x = Some z \<Longrightarrow> l = lsr \<Longrightarrow> k = msk \<Longrightarrow> \<not> I x"
      and step: "(case l x of (v, x') \<Rightarrow> if v AND k \<noteq> 0 then Some x' else f l k x') = Some z" and eqs: "l = lsr" "k = msk"
    show "\<not> I x"
    proof
      assume x: "I x"
      obtain v x' where l: "lsr x = (v, x')" by (cases "lsr x")
      show False using inv [OF x l] step eqs l hyp by auto
    qed
  qed auto
  then show "I w \<Longrightarrow> poll lsr msk w = None" by (cases "poll lsr msk w") auto
qed

lemma uart_recv_waits:
  assumes u: "mini_uart d UART_KBASE V" and e: "enabled V UART_KBASE w"
    and quiet: "\<And>x v x'. rx_fifo V x = [] \<Longrightarrow> get32 d (AUX_MU_LSR_REG UART_KBASE) x = (v, x') \<Longrightarrow> rx_fifo V x' = []"
    and f: "rx_fifo V w = []"
  shows "uart_recv d w = None"
proof -
  have "poll (uart_lsr d) 1 w = None"
  proof (rule poll_diverges)
    fix x v x'
    assume x: "enabled V UART_KBASE x \<and> rx_fifo V x = []" and g: "uart_lsr d x = (v, x')"
    then have g': "get32 d (AUX_MU_LSR_REG UART_KBASE) x = (v, x')" by (simp add: uart_lsr_def)
    note st = mini_uart_status [OF u conjunct1 [OF x] g']
    show "(enabled V UART_KBASE x' \<and> rx_fifo V x' = []) \<and> v AND 1 = 0"
      using st(1,4) quiet [OF _ g'] x enabled_same_config [of V UART_KBASE x x'] lsr_bits(2) [of v] by auto
  qed (simp add: e f)
  then show ?thesis by (simp add: uart_recv_def)
qed

subsection \<open>The kernel's driver on a device that does what the manual says\<close>

text \<open>C40: For a device that does what the manual promises, \<open>uart_init\<close> returns with the device working, the
  functions of the other pins kept, and the screen cleared; \<open>uart_send\<close> on a working device
  returns once the character is accepted, after everything sent before; a received character is
  read once, in order, by the blocking and the non-blocking \<open>recv\<close> alike; and with nothing received
  the one returns \<open>NB_UART_NRET\<close> and the other waits, for ever if nothing ever arrives.\<close>

theorem uart_driver_correct:
  assumes u: "mini_uart d UART_KBASE V"
  shows "(\<exists>w'. uart_init d w = Some w' \<and> brought_up V UART_KBASE w w' \<and>
      tx_sent V w' = tx_sent V w @ [12, 27, of_char CHR ''['', of_char CHR ''2'', of_char CHR ''J'']) \<and>
    (enabled V UART_KBASE w \<longrightarrow>
      (\<forall>c. \<exists>w'. uart_send d c w = Some w' \<and> has_sent V UART_KBASE w [ucast c] w') \<and>
      (\<forall>x xs. rx_fifo V w = x # xs \<longrightarrow>
        (\<exists>w'. uart_recv d w = Some (ucast x, w') \<and> nb_uart_recv d w = (ucast x, w') \<and>
           same_config V UART_KBASE w w' \<and> tx_sent V w' = tx_sent V w \<and> prefix xs (rx_fifo V w'))) \<and>
      (\<forall>v w'. get32 d (AUX_MU_LSR_REG UART_KBASE) w = (v, w') \<and> rx_fifo V w' = [] \<longrightarrow>
        nb_uart_recv d w = (NB_UART_NRET, w')) \<and>
      ((\<forall>x v x'. rx_fifo V x = [] \<and> get32 d (AUX_MU_LSR_REG UART_KBASE) x = (v, x') \<longrightarrow> rx_fifo V x' = []) \<and>
        rx_fifo V w = [] \<longrightarrow> uart_recv d w = None))"
proof (intro conjI impI allI)
  show "\<exists>w'. uart_init d w = Some w' \<and> brought_up V UART_KBASE w w' \<and>
    tx_sent V w' = tx_sent V w @ [12, 27, of_char CHR ''['', of_char CHR ''2'', of_char CHR ''J'']"
    by (rule uart_init_ok [OF u])
next
  fix c
  assume "enabled V UART_KBASE w"
  then show "\<exists>w'. uart_send d c w = Some w' \<and> has_sent V UART_KBASE w [ucast c] w'" by (rule uart_send_ok [OF u])
next
  fix x xs
  assume "enabled V UART_KBASE w" "rx_fifo V w = x # xs"
  then show "\<exists>w'. uart_recv d w = Some (ucast x, w') \<and> nb_uart_recv d w = (ucast x, w') \<and>
    same_config V UART_KBASE w w' \<and> tx_sent V w' = tx_sent V w \<and> prefix xs (rx_fifo V w')" by (rule uart_recv_ok [OF u])
next
  fix v w'
  assume "enabled V UART_KBASE w" "get32 d (AUX_MU_LSR_REG UART_KBASE) w = (v, w') \<and> rx_fifo V w' = []"
  then show "nb_uart_recv d w = (NB_UART_NRET, w')" using nb_uart_recv_empty [OF u] by blast
next
  assume "enabled V UART_KBASE w"
    "(\<forall>x v x'. rx_fifo V x = [] \<and> get32 d (AUX_MU_LSR_REG UART_KBASE) x = (v, x') \<longrightarrow> rx_fifo V x' = []) \<and> rx_fifo V w = []"
  then show "uart_recv d w = None" using uart_recv_waits [OF u] by blast
qed

text \<open>
  A device: the configuration registers, the bytes sent, the bytes received, and the number of
  polls for which the transmitter stays busy after a byte.
\<close>

type_synonym sample_uart = "(u64 \<Rightarrow> u32) \<times> u8 list \<times> u8 list \<times> nat"

definition sample_mmio :: "u64 \<Rightarrow> sample_uart mmio" where
  "sample_mmio b = \<lparr>
     get32 = (\<lambda>r (cfg, out, inp, busy).
       if r = AUX_MU_LSR_REG b
       then ((if inp = [] then 0 else 1) OR (if busy = 0 then 0x20 else 0), cfg, out, inp, busy - 1)
       else if r = AUX_MU_IO_REG b
       then (case inp of [] \<Rightarrow> (0, cfg, out, inp, busy) | x # xs \<Rightarrow> (ucast x, cfg, out, xs, busy))
       else (cfg r, cfg, out, inp, busy)),
     put32 = (\<lambda>r v (cfg, out, inp, busy).
       if r = AUX_MU_IO_REG b then (cfg, out @ [ucast v], inp, 3) else (cfg(r := v), out, inp, busy))\<rparr>"

definition sample_view :: "sample_uart uart_view" where
  "sample_view = \<lparr>reg = (\<lambda>r (cfg, out, inp, busy). cfg r), tx_sent = (\<lambda>(cfg, out, inp, busy). out),
     rx_fifo = (\<lambda>(cfg, out, inp, busy). inp), tx_idle = (\<lambda>(cfg, out, inp, busy). busy = 0),
     tx_wait = (\<lambda>(cfg, out, inp, busy). busy)\<rparr>"

lemma config_not_data:
  "r \<in> set (config_regs b) \<Longrightarrow> r \<noteq> AUX_MU_LSR_REG b \<and> r \<noteq> AUX_MU_IO_REG b"
  by (auto simp: config_regs_def register_defs)

lemma data_regs: "AUX_MU_LSR_REG b \<noteq> AUX_MU_IO_REG b" "GPFSEL1 b \<noteq> AUX_MU_LSR_REG b" "GPFSEL1 b \<noteq> AUX_MU_IO_REG b"
  by (simp_all add: register_defs)

lemma bit_0x20: "bit (0x20 :: u32) 5" "\<not> bit (0x20 :: u32) 0" "bit (0x21 :: u32) 5" "bit (0x21 :: u32) 0"
  by simp_all

lemma sample_mini_uart: "mini_uart (sample_mmio b) b sample_view"
proof -
  let ?d = "sample_mmio b" and ?V = "sample_view"
  have "\<forall>r \<in> set (config_regs b). \<forall>v w.
        (\<forall>q \<in> set (config_regs b). reg ?V q (put32 ?d r v w) = (if q = r then v else reg ?V q w)) \<and>
        tx_sent ?V (put32 ?d r v w) = tx_sent ?V w"
    using config_not_data by (auto simp: sample_mmio_def sample_view_def)
  moreover have "\<forall>w v w'. get32 ?d (GPFSEL1 b) w = (v, w') \<longrightarrow>
        v = reg ?V (GPFSEL1 b) w \<and> same_config ?V b w w' \<and> tx_sent ?V w' = tx_sent ?V w"
    using data_regs [of b] by (auto simp: sample_mmio_def sample_view_def same_config_def)
  moreover have "\<forall>w v w'. get32 ?d (AUX_MU_LSR_REG b) w = (v, w') \<longrightarrow>
        same_config ?V b w w' \<and> tx_sent ?V w' = tx_sent ?V w \<and> prefix (rx_fifo ?V w) (rx_fifo ?V w') \<and>
        (bit v 0 \<longleftrightarrow> rx_fifo ?V w' \<noteq> []) \<and> (if bit v 5 then tx_idle ?V w' else tx_wait ?V w' < tx_wait ?V w)"
    using bit_0x20 by (auto simp: sample_mmio_def sample_view_def same_config_def)
  moreover have "\<forall>w c. tx_idle ?V w \<longrightarrow>
        same_config ?V b w (put32 ?d (AUX_MU_IO_REG b) c w) \<and>
        tx_sent ?V (put32 ?d (AUX_MU_IO_REG b) c w) = tx_sent ?V w @ [ucast c] \<and>
        prefix (rx_fifo ?V w) (rx_fifo ?V (put32 ?d (AUX_MU_IO_REG b) c w))"
    by (auto simp: sample_mmio_def sample_view_def same_config_def)
  moreover have "\<forall>w v w' x xs. rx_fifo ?V w = x # xs \<longrightarrow> get32 ?d (AUX_MU_IO_REG b) w = (v, w') \<longrightarrow>
        same_config ?V b w w' \<and> tx_sent ?V w' = tx_sent ?V w \<and> ucast v = x \<and> prefix xs (rx_fifo ?V w')"
    using data_regs(1) [of b] by (auto simp: sample_mmio_def sample_view_def same_config_def)
  ultimately show ?thesis unfolding mini_uart_def by blast
qed

definition sample_config :: "u64 \<Rightarrow> u64 \<Rightarrow> u32" where
  "sample_config b r = (if r = GPFSEL1 b then pin_functions 0xFFFFFFFF else if r = AUX_MU_BAUD_REG b then 270 else 3)"

lemma sample_enabled: "enabled sample_view b (sample_config b, out, inp, busy)"
proof -
  have r: "reg sample_view r (sample_config b, out, inp, busy) = sample_config b r" for r by (simp add: sample_view_def)
  have c: "sample_config b (GPFSEL1 b) = pin_functions 0xFFFFFFFF" "sample_config b (AUX_MU_BAUD_REG b) = 270"
    "sample_config b (AUX_ENABLES b) = 3" "sample_config b (AUX_MU_CNTL_REG b) = 3" "sample_config b (AUX_MU_LCR_REG b) = 3"
    by (simp_all add: sample_config_def) (simp_all add: register_defs)
  show ?thesis unfolding enabled_def r c pin_functions_ok by simp
qed

theorem uart_driver_correct_witness:
  "\<exists>w. rx_fifo sample_view w = [7] \<and>
     (\<exists>w'. uart_init (sample_mmio UART_KBASE) w = Some w' \<and> tx_sent sample_view w' = [12, 27, 0x5b, 0x32, 0x4a]) \<and>
     (\<exists>w'. uart_send (sample_mmio UART_KBASE) 65 w = Some w' \<and> tx_sent sample_view w' = [65]) \<and>
     (\<exists>w'. uart_recv (sample_mmio UART_KBASE) w = Some (7, w'))"
proof -
  let ?w = "(sample_config UART_KBASE, [], [7], 2) :: sample_uart"
  have v: "rx_fifo sample_view ?w = [7]" "tx_sent sample_view ?w = []" by (simp_all add: sample_view_def)
  note c = uart_driver_correct [OF sample_mini_uart, of ?w]
  have "\<exists>w'. uart_init (sample_mmio UART_KBASE) ?w = Some w' \<and> tx_sent sample_view w' = [12, 27, 0x5b, 0x32, 0x4a]"
    using c v by auto
  moreover have "\<exists>w'. uart_send (sample_mmio UART_KBASE) 65 ?w = Some w' \<and> tx_sent sample_view w' = [65]"
  proof -
    obtain w' where "uart_send (sample_mmio UART_KBASE) 65 ?w = Some w'"
      "has_sent sample_view UART_KBASE ?w [ucast (65 :: u32)] w'" using c sample_enabled by blast
    then show ?thesis using v(2) by (auto simp: has_sent_def)
  qed
  moreover have "\<exists>w'. uart_recv (sample_mmio UART_KBASE) ?w = Some (ucast (7 :: u8), w')" using c sample_enabled v(1) by blast
  then have "\<exists>w'. uart_recv (sample_mmio UART_KBASE) ?w = Some (7, w')" by simp
  ultimately show ?thesis using v(1) by blast
qed

end
