(* ===== verification/Init_C_Props.thy ===== *)
theory Init_C_Props
  imports Init_C Boot_Mmu_Props Uart_Props
begin

text \<open>
  The boot code brings the machine to the entry of the kernel: bss cleared, the UART working and
  the four messages sent, both translation tables installed and the MMU on.
\<close>

subsection \<open>What the boot tables leave alone\<close>

definition in_tables :: "boot_tables \<Rightarrow> u64 \<Rightarrow> bool" where
  "in_tables T x \<longleftrightarrow> (\<exists>p \<in> set (boot_list T). unat (x - p) < 4096)"

definition off_tables :: "boot_tables \<Rightarrow> memory \<Rightarrow> memory \<Rightarrow> bool" where
  "off_tables T m m' \<longleftrightarrow> (\<forall>x. \<not> in_tables T x \<longrightarrow> m' x = m x)"

lemma off_tables_trans [trans]: "off_tables T m m' \<Longrightarrow> off_tables T m' m'' \<Longrightarrow> off_tables T m m''"
  by (simp add: off_tables_def)

lemma store64_frame:
  assumes "store64 a v m = Inr m'" "8 \<le> unat (x - a)"
  shows "m' x = m x"
  using assms by (auto simp: store64_def store_bytes_def undef_if_def split: if_splits)

lemma set_entry_frame:
  assumes "set_entry p i v m = Inr m'" "p \<in> set (boot_list T)" "i < 512"
  shows "off_tables T m m'"
  unfolding off_tables_def
proof (intro allI impI)
  fix x assume "\<not> in_tables T x"
  then have x: "4096 \<le> unat (x - p)" using assms(2) unfolding in_tables_def by force
  have i: "unat (of_nat (8 * i) :: u64) = 8 * i" using assms(3) by (intro unat_of_nat_less) simp
  have "x - (p + of_nat (8 * i)) = (x - p) - of_nat (8 * i)" by (simp only: diff_diff_eq)
  moreover have "unat ((x - p) - of_nat (8 * i)) = unat (x - p) - 8 * i"
    using x i assms(3) by (subst unat_sub) (simp_all add: word_le_nat_alt)
  ultimately have "unat (x - (p + of_nat (8 * i))) = unat (x - p) - 8 * i" by (simp only:)
  then have "8 \<le> unat (x - (p + of_nat (8 * i)))" using x assms(3) by linarith
  then show "m' x = m x" using store64_frame assms(1) unfolding set_entry_def by blast
qed

lemma boot_index_bound: "BOOT_L0_INDEX va < 512" "BOOT_L1_INDEX va < 512" "BOOT_L2_INDEX va < 512"
  by (simp_all add: boot_index index_bound)

definition keeps_others :: "boot_tables \<Rightarrow> (memory \<Rightarrow> memory run) \<Rightarrow> bool" where
  "keeps_others T f \<longleftrightarrow> (\<forall>m m'. f m = Some (Inr m') \<longrightarrow> off_tables T m m')"

lemma keeps_set_entry: "p \<in> set (boot_list T) \<Longrightarrow> i < 512 \<Longrightarrow> keeps_others T (\<lambda>m. Some (set_entry p i v m))"
  by (auto simp: keeps_others_def intro: set_entry_frame)

lemma keeps_fbind:
  assumes "keeps_others T f" "keeps_others T g"
  shows "keeps_others T (\<lambda>m. fbind (f m) g)"
  unfolding keeps_others_def
proof (intro allI impI)
  fix m m' assume "fbind (f m) g = Some (Inr m')"
  then obtain m1 where "f m = Some (Inr m1)" "g m1 = Some (Inr m')" by (cases "(f m, g)" rule: fbind.cases) auto
  then show "off_tables T m m'" using assms off_tables_trans unfolding keeps_others_def by blast
qed

lemma keeps_block_loop:
  assumes p: "p \<in> set (boot_list T)"
  shows "keeps_others T (block_loop fuel (\<lambda>va. set_entry p (BOOT_L2_INDEX va) (f va)) bound va)"
proof (induction fuel arbitrary: va)
  case 0
  show ?case by (auto simp: keeps_others_def off_tables_def)
next
  case (Suc fuel)
  show ?case
    using keeps_fbind [OF keeps_set_entry [OF p boot_index_bound(3)] Suc.IH]
    by (cases "va < bound") (simp_all add: keeps_others_def off_tables_def)
qed

lemma init_boot_pt_frame: "keeps_others T (init_boot_pt fuel T)"
proof -
  have P: "boot_ttbr0_l0 T \<in> set (boot_list T)" "boot_ttbr0_l1 T \<in> set (boot_list T)" "boot_ttbr0_l2 T \<in> set (boot_list T)"
    "boot_ttbr1_l0 T \<in> set (boot_list T)" "boot_ttbr1_l1 T \<in> set (boot_list T)" "boot_ttbr1_l2 T \<in> set (boot_list T)"
    by (simp_all add: boot_list_def)
  show ?thesis
    unfolding init_boot_pt_def [abs_def] Let_def
    by (intro keeps_fbind keeps_set_entry keeps_block_loop P boot_index_bound)
qed

subsection \<open>The image\<close>

definition in_bss :: "boot_image \<Rightarrow> u64 \<Rightarrow> bool" where
  "in_bss im x \<longleftrightarrow> bss_start im \<le> x \<and> x < bss_end im"

definition in_flag :: "boot_image \<Rightarrow> u64 \<Rightarrow> bool" where
  "in_flag im x \<longleftrightarrow> unat (x - clear_bss_flag im) < 8"

definition init_c_messages :: "string list" where
  "init_c_messages = [''boot: init_c'' @ CRLF, ''[BOOT] Install boot page table'' @ CRLF,
     ''[BOOT] Enable el1 MMU'' @ CRLF, ''[BOOT] Jump to kernel main'' @ CRLF]"

text \<open>
  The image as the linker script lays it out: bss, the flag, the boot tables (which are in the init
  section and zero in the file) and the string literals are mapped and do not overlap.
\<close>

definition boot_image_ok :: "boot_image \<Rightarrow> memory \<Rightarrow> bool" where
  "boot_image_ok im m \<longleftrightarrow>
     boot_ready (boot_pt im) m \<and> cell_ok m (clear_bss_flag im) \<and>
     (\<forall>x. in_bss im x \<longrightarrow> x \<in> dom m) \<and>
     (\<forall>x. in_bss im x \<longrightarrow> \<not> in_flag im x) \<and>
     (\<forall>x. in_bss im x \<or> in_flag im x \<longrightarrow> \<not> in_tables (boot_pt im) x) \<and>
     (\<forall>str \<in> set init_c_messages. c_string m (literal im str) (bytes str) \<and>
        (\<forall>j \<le> length str. \<not> in_bss im (literal im str + of_nat j) \<and> \<not> in_flag im (literal im str + of_nat j) \<and>
           \<not> in_tables (boot_pt im) (literal im str + of_nat j)))"

lemma clear_bss_ok:
  assumes "\<And>x. in_bss im x \<Longrightarrow> x \<in> dom m" "cell_ok m (clear_bss_flag im)" "\<And>x. in_bss im x \<Longrightarrow> \<not> in_flag im x"
  shows "\<exists>m'. clear_bss (bss_start im) (bss_end im) (clear_bss_flag im) m = Inr m' \<and> dom m' = dom m \<and>
    (\<forall>x. in_bss im x \<longrightarrow> m' x = Some 0) \<and> load64 m' (clear_bss_flag im) = Inr 0 \<and>
    (\<forall>x. \<not> in_bss im x \<and> \<not> in_flag im x \<longrightarrow> m' x = m x)"
proof -
  define m1 where "m1 = (\<lambda>x. if in_bss im x then Some 0 else m x)"
  have loop: "clear_bss_loop (bss_start im) (bss_end im) m = Inr m1"
    unfolding m1_def in_bss_def using assms(1) by (intro clear_bss_loop_ok) (simp add: in_bss_def)
  have d: "dom m1 = dom m" using assms(1) by (auto simp: m1_def domIff split: if_splits)
  obtain m2 where m2: "store64 (clear_bss_flag im) 0 m1 = Inr m2" "dom m2 = dom m1" "load64 m2 (clear_bss_flag im) = Inr 0"
    "\<forall>x. 8 \<le> unat (x - clear_bss_flag im) \<longrightarrow> m2 x = m1 x"
    using store64_ok [of m1 "clear_bss_flag im" 0] assms(2) cell_ok_dom [OF d] by blast
  have "m2 x = m1 x" if "\<not> in_flag im x" for x using m2(4) that by (simp add: in_flag_def not_less)
  then show ?thesis using loop m2(1-3) d assms(3) by (auto simp: clear_bss_def m1_def)
qed

lemma entry_in_tables:
  assumes "p \<in> set (boot_list T)" "j < 512" "i < 8"
  shows "in_tables T (entry_addr p j + of_nat i)"
proof -
  have "entry_addr p j + of_nat i - p = of_nat (8 * j + i)" by (simp add: entry_addr_def)
  then have "unat (entry_addr p j + of_nat i - p) = unat (of_nat (8 * j + i) :: u64)" by (simp only:)
  also have "\<dots> = 8 * j + i" using assms(2,3) by (intro unat_of_nat_less) simp
  finally show ?thesis using assms unfolding in_tables_def by force
qed

lemma boot_ready_cong:
  assumes "boot_ready T m" "dom m' = dom m" "\<And>x. in_tables T x \<Longrightarrow> m' x = m x"
  shows "boot_ready T m'"
proof -
  have "load64 m' (entry_addr p j) = load64 m (entry_addr p j)" if "p \<in> set (boot_list T)" "j < 512" for p j
    using assms(3) entry_in_tables [OF that] by (intro load64_cong) simp
  then show ?thesis using assms(1) cell_ok_dom [OF assms(2)] by (simp add: boot_ready_def tables_in_def)
qed

lemma page_aligned_and:
  assumes "4096 dvd unat (p :: u64)"
  shows "p AND NOT 0xFFF = p"
proof -
  have "unat (take_bit 12 p) = 0" using assms by (simp add: take_bit_eq_mod unat_mod dvd_eq_mod_eq_0)
  then have "take_bit 12 p = 0" by (simp add: unat_eq_0)
  then have low: "\<not> bit p i" if "i < 12" for i using that by (metis bit_0_eq bit_take_bit_iff bot_apply bot_bool_def)
  have "p AND NOT (mask 12) = p" by (rule bit_word_eqI) (use low in \<open>auto simp: bit_simps\<close>)
  then show ?thesis by (simp add: mask_eq_exp_minus_1)
qed

lemma send_literal_ok:
  assumes u: "mini_uart d 0 V" and e: "enabled V 0 (uart_dev s)" and c: "c_string (boot_mem s) (literal im str) (bytes str)"
  shows "\<exists>w'. send_literal d im str s = Some (Inr (s\<lparr>uart_dev := w'\<rparr>)) \<and> has_sent V 0 (uart_dev s) (bytes str) w' \<and> enabled V 0 w'"
proof -
  obtain w' where w': "uart_send_string d (boot_mem s) (literal im str) (uart_dev s) = Some (Inr w')"
    "has_sent V 0 (uart_dev s) (bytes str) w'" using uart_send_string_ok [OF u e c] by blast
  then have "send_literal d im str s = Some (Inr (s\<lparr>uart_dev := w'\<rparr>))" by (simp add: send_literal_def)
  then show ?thesis using w'(2) has_sent_enabled [OF w'(2) e] by blast
qed

subsection \<open>The boot code as a whole\<close>

text \<open>The translation the two roots give, in a memory the kernel sees at \<open>KBASE\<close>.\<close>

definition both_halves :: "memory \<Rightarrow> u64 \<Rightarrow> u64 \<Rightarrow> bool" where
  "both_halves m root0 root1 \<longleftrightarrow>
     (\<forall>(k :: kernel_state) va. mem k = (\<lambda>x. m (virt_to_phys x)) \<longrightarrow>
       (unat va < 2 ^ 48 \<longrightarrow> boot_maps k (root0) va
          (if unat va < 0x40000000 then Some (va, 0x3f000000 \<le> unat va) else None)) \<and>
       (2 ^ 64 - 2 ^ 48 \<le> unat va \<longrightarrow> boot_maps k (root1) va
          (if KBASE \<le> va \<and> unat (va - KBASE) < 0x80000000 then Some (va - KBASE, 0x3f000000 \<le> unat (va - KBASE)) else None)))"

text \<open>The contents of the tables, entry by entry.\<close>

definition tables_filled :: "boot_tables \<Rightarrow> memory \<Rightarrow> bool" where
  "tables_filled T m \<longleftrightarrow> (\<forall>p \<in> set (boot_list T). \<forall>j < 512. load64 m (entry_addr p j) = Inr (boot_contents T p j))"

text \<open>What becomes of memory: \<open>clear_bss\<close>, then the boot tables; the literals stay.\<close>

lemma init_c_memory:
  assumes ok: "boot_image_ok im m" and fuel: "504 \<le> fuel"
  obtains m1 m2 where
    "clear_bss (bss_start im) (bss_end im) (clear_bss_flag im) m = Inr m1" "init_boot_pt fuel (boot_pt im) m1 = Some (Inr m2)"
    "\<forall>x. in_bss im x \<longrightarrow> m2 x = Some 0" "load64 m2 (clear_bss_flag im) = Inr 0"
    "\<forall>str \<in> set init_c_messages. c_string m1 (literal im str) (bytes str) \<and> c_string m2 (literal im str) (bytes str)"
    "both_halves m2 (boot_ttbr0_l0 (boot_pt im)) (boot_ttbr1_l0 (boot_pt im))" "dom m2 = dom m" "tables_filled (boot_pt im) m2"
proof -
  let ?T = "boot_pt im"
  have img: "boot_ready ?T m" "cell_ok m (clear_bss_flag im)" "\<And>x. in_bss im x \<Longrightarrow> x \<in> dom m" "\<And>x. in_bss im x \<Longrightarrow> \<not> in_flag im x"
    "\<And>x. in_bss im x \<or> in_flag im x \<Longrightarrow> \<not> in_tables ?T x"
    and lit: "\<And>str j. str \<in> set init_c_messages \<Longrightarrow> j \<le> length str \<Longrightarrow> \<not> in_bss im (literal im str + of_nat j) \<and>
      \<not> in_flag im (literal im str + of_nat j) \<and> \<not> in_tables ?T (literal im str + of_nat j)"
    "\<And>str. str \<in> set init_c_messages \<Longrightarrow> c_string m (literal im str) (bytes str)"
    using ok unfolding boot_image_ok_def by blast+
  obtain m1 where m1: "clear_bss (bss_start im) (bss_end im) (clear_bss_flag im) m = Inr m1" "dom m1 = dom m"
    "\<forall>x. in_bss im x \<longrightarrow> m1 x = Some 0" "load64 m1 (clear_bss_flag im) = Inr 0"
    "\<forall>x. \<not> in_bss im x \<and> \<not> in_flag im x \<longrightarrow> m1 x = m x" using clear_bss_ok [OF img(3,2,4)] by blast
  have ready: "boot_ready ?T m1" by (rule boot_ready_cong [OF img(1) m1(2)]) (use img(5) m1(5) in blast)
  obtain m2 where m2: "init_boot_pt fuel ?T m1 = Some (Inr m2)" "both_halves m2 (boot_ttbr0_l0 ?T) (boot_ttbr1_l0 ?T)" "dom m2 = dom m1"
    using init_boot_pt_correct [OF ready fuel] unfolding both_halves_def by blast
  have filled: "tables_filled ?T m2"
    using init_boot_pt_contents [OF ready fuel] m2(1) unfolding tables_filled_def by auto
  have off: "m2 x = m1 x" if "\<not> in_tables ?T x" for x
    using init_boot_pt_frame [of ?T fuel] m2(1) that unfolding keeps_others_def off_tables_def by blast
  have "c_string m1 (literal im str) (bytes str) \<and> c_string m2 (literal im str) (bytes str)" if "str \<in> set init_c_messages" for str
  proof -
    have "c_string m1 (literal im str) (bytes str)"
      by (rule c_string_cong [OF lit(2) [OF that]]) (use lit(1) [OF that] m1(5) in \<open>simp add: bytes_def\<close>)
    moreover from this have "c_string m2 (literal im str) (bytes str)"
      by (rule c_string_cong) (use lit(1) [OF that] off in \<open>simp add: bytes_def\<close>)
    ultimately show ?thesis ..
  qed
  moreover have "m2 x = Some 0" if "in_bss im x" for x using off m1(3) img(5) that by simp
  moreover have "load64 m2 (clear_bss_flag im) = Inr 0"
  proof -
    have "in_flag im (clear_bss_flag im + of_nat i)" if "i < 8" for i using that by (simp add: in_flag_def unat_of_nat)
    then have "load64 m2 (clear_bss_flag im) = load64 m1 (clear_bss_flag im)" using off img(5) by (intro load64_cong) blast
    then show ?thesis using m1(4) by simp
  qed
  ultimately show ?thesis using that m1(1,2) m2 filled by metis
qed

lemma el1_mmu_activate_ok:
  assumes "boot_ready T m"
  shows "ttbr0_el1 (el1_mmu_activate T r) = boot_ttbr0_l0 T" "ttbr1_el1 (el1_mmu_activate T r) = boot_ttbr1_l0 T"
    "bit (sctlr_el1 (el1_mmu_activate T r)) 0" "tcr_el1 (el1_mmu_activate T r) = MMU_TCR" "mair_el1 (el1_mmu_activate T r) = MMU_MAIR"
proof -
  have "4096 dvd unat (boot_ttbr0_l0 T)" "4096 dvd unat (boot_ttbr1_l0 T)"
    using assms by (auto simp: boot_ready_def tables_in_def boot_list_def)
  then show "ttbr0_el1 (el1_mmu_activate T r) = boot_ttbr0_l0 T" "ttbr1_el1 (el1_mmu_activate T r) = boot_ttbr1_l0 T"
    "bit (sctlr_el1 (el1_mmu_activate T r)) 0" "tcr_el1 (el1_mmu_activate T r) = MMU_TCR" "mair_el1 (el1_mmu_activate T r) = MMU_MAIR"
    unfolding el1_mmu_activate_def Let_def by (simp_all add: page_aligned_and [simplified] bit_simps)
qed

lemma init_c_ok:
  assumes u: "mini_uart d 0 V" and ok: "boot_image_ok im (boot_mem s)" and fuel: "504 \<le> fuel"
  obtains s' where "\<And>start_kernel. init_c fuel d im start_kernel s = start_kernel (secondary_boot_flag im) s'"
    "\<forall>x. in_bss im x \<longrightarrow> boot_mem s' x = Some 0" "load64 (boot_mem s') (clear_bss_flag im) = Inr 0" "dom (boot_mem s') = dom (boot_mem s)"
    "tx_sent V (uart_dev s') = tx_sent V (uart_dev s) @ bytes (concat init_c_messages)" "enabled V 0 (uart_dev s')"
    "bit (sctlr_el1 (sys s')) 0" "ttbr0_el1 (sys s') = boot_ttbr0_l0 (boot_pt im)" "ttbr1_el1 (sys s') = boot_ttbr1_l0 (boot_pt im)"
    "both_halves (boot_mem s') (ttbr0_el1 (sys s')) (ttbr1_el1 (sys s'))"
    "tcr_el1 (sys s') = MMU_TCR" "mair_el1 (sys s') = MMU_MAIR" "tables_filled (boot_pt im) (boot_mem s')"
proof -
  let ?T = "boot_pt im"
  obtain m1 m2 where m: "clear_bss (bss_start im) (bss_end im) (clear_bss_flag im) (boot_mem s) = Inr m1"
    "init_boot_pt fuel ?T m1 = Some (Inr m2)" "\<forall>x. in_bss im x \<longrightarrow> m2 x = Some 0" "load64 m2 (clear_bss_flag im) = Inr 0"
    "\<forall>str \<in> set init_c_messages. c_string m1 (literal im str) (bytes str) \<and> c_string m2 (literal im str) (bytes str)"
    "both_halves m2 (boot_ttbr0_l0 ?T) (boot_ttbr1_l0 ?T)" "dom m2 = dom (boot_mem s)" "tables_filled ?T m2" using init_c_memory [OF ok fuel] by blast
  let ?a = "''boot: init_c'' @ CRLF" and ?b = "''[BOOT] Install boot page table'' @ CRLF"
    and ?c = "''[BOOT] Enable el1 MMU'' @ CRLF" and ?d = "''[BOOT] Jump to kernel main'' @ CRLF"
  have msgs: "?a \<in> set init_c_messages" "?b \<in> set init_c_messages" "?c \<in> set init_c_messages" "?d \<in> set init_c_messages"
    unfolding init_c_messages_def by simp_all
  define s1 where "s1 = s\<lparr>boot_mem := m1, uart_dev := early_uart_init d (uart_dev s)\<rparr>"
  have e1: "enabled V 0 (uart_dev s1)" "tx_sent V (uart_dev s1) = tx_sent V (uart_dev s)" "boot_mem s1 = m1"
    using early_uart_init_ok [OF u] by (simp_all add: s1_def brought_up_def)
  have send: "\<exists>w'. send_literal d im str t = Some (Inr (t\<lparr>uart_dev := w'\<rparr>)) \<and> has_sent V 0 (uart_dev t) (bytes str) w' \<and> enabled V 0 w'"
    if "enabled V 0 (uart_dev t)" "boot_mem t = m1 \<or> boot_mem t = m2" "str \<in> set init_c_messages" for str t
    using send_literal_ok [OF u that(1)] m(5) that(2,3) by metis
  obtain w2 where w2: "send_literal d im ?a s1 = Some (Inr (s1\<lparr>uart_dev := w2\<rparr>))"
    "has_sent V 0 (uart_dev s1) (bytes ?a) w2" "enabled V 0 w2" using send [OF e1(1) _ msgs(1)] e1(3) by blast
  define s2 where "s2 = s1\<lparr>uart_dev := w2\<rparr>"
  obtain w3 where w3: "send_literal d im ?b s2 = Some (Inr (s2\<lparr>uart_dev := w3\<rparr>))"
    "has_sent V 0 w2 (bytes ?b) w3" "enabled V 0 w3" using send [of s2, OF _ _ msgs(2)] w2(3) e1(3) by (auto simp: s2_def)
  define s3 where "s3 = s2\<lparr>uart_dev := w3, boot_mem := m2, sys := el1_mmu_activate ?T (sys s)\<rparr>"
  obtain w4 where w4: "send_literal d im ?c s3 = Some (Inr (s3\<lparr>uart_dev := w4\<rparr>))"
    "has_sent V 0 w3 (bytes ?c) w4" "enabled V 0 w4" using send [of s3, OF _ _ msgs(3)] w3(3) by (auto simp: s3_def)
  define s4 where "s4 = s3\<lparr>uart_dev := w4\<rparr>"
  obtain w5 where w5: "send_literal d im ?d s4 = Some (Inr (s4\<lparr>uart_dev := w5\<rparr>))"
    "has_sent V 0 w4 (bytes ?d) w5" "enabled V 0 w5" using send [of s4, OF _ _ msgs(4)] w4(3) by (auto simp: s4_def s3_def)
  define s5 where "s5 = s4\<lparr>uart_dev := w5\<rparr>"
  have s5: "boot_mem s5 = m2" "uart_dev s5 = w5" "sys s5 = el1_mmu_activate ?T (sys s)"
    by (simp_all add: s5_def s4_def s3_def)
  have run: "init_c fuel d im start_kernel s = start_kernel (secondary_boot_flag im) s5" for start_kernel :: "u64 \<Rightarrow> 'a boot_state \<Rightarrow> 'b run"
    using m(1,2) w2(1) w3(1) w4(1) w5(1) by (simp add: init_c_def Let_def s5_def s4_def s3_def s2_def s1_def)
  have sent: "tx_sent V w5 = tx_sent V (uart_dev s) @ bytes (concat init_c_messages)"
    using w2(2) w3(2) w4(2) w5(2) e1(2) by (simp add: has_sent_def init_c_messages_def bytes_def)
  have ready: "boot_ready ?T (boot_mem s)" using ok by (simp add: boot_image_ok_def)
  show thesis
    using m(3,4,6,7,8) w5(3) sent el1_mmu_activate_ok [OF ready] by (intro that [of s5] run) (simp_all add: s5)
qed

text \<open>C39: On an image laid out as the linker script does and a UART that does what its manual
  promises, \<open>init_c\<close> comes to \<open>start_kernel\<close>, with the boot flag's address: the bss section and the
  flag for the other CPUs are zero, the four messages have left the UART completely and in order,
  the MMU is on with both boot tables as roots, and these map the first gigabyte to itself and the
  kernel's half of the address space as \<open>init_boot_pt\<close> should.\<close>

theorem init_c_correct:
  assumes u: "mini_uart d 0 V" and ok: "boot_image_ok im (boot_mem s)" and fuel: "504 \<le> fuel"
  shows "\<exists>s'. init_c fuel d im start_kernel s = start_kernel (secondary_boot_flag im) s' \<and>
    (\<forall>x. in_bss im x \<longrightarrow> boot_mem s' x = Some 0) \<and> load64 (boot_mem s') (clear_bss_flag im) = Inr 0 \<and>
    tx_sent V (uart_dev s') = tx_sent V (uart_dev s) @ bytes (concat init_c_messages) \<and> enabled V 0 (uart_dev s') \<and>
    bit (sctlr_el1 (sys s')) 0 \<and> ttbr0_el1 (sys s') = boot_ttbr0_l0 (boot_pt im) \<and> ttbr1_el1 (sys s') = boot_ttbr1_l0 (boot_pt im) \<and>
    both_halves (boot_mem s') (ttbr0_el1 (sys s')) (ttbr1_el1 (sys s'))"
proof -
  show ?thesis by (rule init_c_ok [OF assms]) blast
qed

text \<open>An image: the tables, 256 bytes of bss, the flag, and the literals 256 bytes apart.\<close>

definition sample_literal :: "string \<Rightarrow> nat" where
  "sample_literal str = length (takeWhile (\<lambda>x. x \<noteq> str) init_c_messages)"

definition sample_image :: boot_image where
  "sample_image = \<lparr>bss_start = 0x90000, bss_end = 0x90100, clear_bss_flag = 0x91000, secondary_boot_flag = 0x91008,
     boot_pt = sample_tables, literal = (\<lambda>str. 0x92000 + of_nat (256 * sample_literal str))\<rparr>"

definition sample_byte :: "nat \<Rightarrow> u8" where
  "sample_byte k = (let str = bytes (init_c_messages ! (k div 256)) in if k mod 256 < length str then str ! (k mod 256) else 0)"

definition sample_rodata :: memory where
  "sample_rodata x = Some (if 0x92000 \<le> x \<and> x < 0x92400 then sample_byte (unat (x - 0x92000)) else 0)"

lemma sample_messages:
  assumes "str \<in> set init_c_messages"
  shows "sample_literal str < 4" "init_c_messages ! sample_literal str = str" "length str < 40" "list_all (\<lambda>c. c \<noteq> 0) (bytes str)"
  using assms unfolding init_c_messages_def CRLF_def by (auto simp: sample_literal_def init_c_messages_def CRLF_def bytes_def)

lemma sample_literal_addr:
  assumes "str \<in> set init_c_messages" "j < 256"
  shows "unat (literal sample_image str + of_nat j - 0x92000) = 256 * sample_literal str + j"
    "0x92000 \<le> literal sample_image str + of_nat j" "literal sample_image str + of_nat j < 0x92400"
proof -
  let ?k = "256 * sample_literal str + j"
  have k: "?k < 1024" using sample_messages(1) [OF assms(1)] assms(2) by simp
  have a: "literal sample_image str + of_nat j = 0x92000 + of_nat ?k" by (simp add: sample_image_def)
  have u: "unat (of_nat ?k :: u64) = ?k" by (rule unat_of_nat_less) (use k in simp)
  have s: "unat (0x92000 + of_nat ?k :: u64) = 0x92000 + ?k"
  proof -
    have "(0x92000 + ?k) < 2 ^ 64" using k by simp
    then show ?thesis using u by (simp only: unat_word_ariths) simp
  qed
  have "literal sample_image str + of_nat j - 0x92000 = of_nat ?k" unfolding a by (simp only: add_diff_cancel_left')
  then show "unat (literal sample_image str + of_nat j - 0x92000) = ?k" using u by (simp only:)
  show "0x92000 \<le> literal sample_image str + of_nat j" "literal sample_image str + of_nat j < 0x92400"
    unfolding a word_le_nat_alt word_less_nat_alt s using k by simp_all
qed

lemma sample_string:
  assumes "str \<in> set init_c_messages"
  shows "c_string sample_rodata (literal sample_image str) (bytes str)"
proof -
  have len: "length (bytes str) < 40" using sample_messages(3) [OF assms] by (simp add: bytes_def)
  have "sample_rodata (literal sample_image str + of_nat j) = Some (if j < length (bytes str) then bytes str ! j else 0)" if "j < 256" for j
    using sample_literal_addr [OF assms that] sample_messages(2) [OF assms] that
    by (simp only: sample_rodata_def sample_byte_def Let_def) simp
  then show ?thesis using len sample_messages(4) [OF assms] by (intro c_string_nth) (auto simp: list_all_length)
qed

lemma sample_regions:
  "in_bss sample_image x \<longleftrightarrow> 0x90000 \<le> unat x \<and> unat x < 0x90100" "in_flag sample_image x \<longleftrightarrow> 0x91000 \<le> unat x \<and> unat x < 0x91008"
  "in_tables (boot_pt sample_image) x \<Longrightarrow> 0x80000 \<le> unat x \<and> unat x < 0x86000"
proof -
  have near: "unat (x - p) < n \<longleftrightarrow> unat p \<le> unat x \<and> unat x < unat p + n" if "unat p + n < 2 ^ 63" for p :: u64 and n
  proof (cases "p \<le> x")
    case True
    then show ?thesis by (auto simp: unat_sub word_le_nat_alt)
  next
    case False
    then have "unat x < unat p" by (simp add: word_le_nat_alt)
    moreover have "unat (x - p) = 2 ^ 64 + unat x - unat p"
      using False unsigned_less [of p] by (simp add: unat_sub_if' word_le_nat_alt)
    ultimately show ?thesis using that by simp
  qed
  show "in_bss sample_image x \<longleftrightarrow> 0x90000 \<le> unat x \<and> unat x < 0x90100"
    by (simp add: in_bss_def sample_image_def word_le_nat_alt word_less_nat_alt)
  show "in_flag sample_image x \<longleftrightarrow> 0x91000 \<le> unat x \<and> unat x < 0x91008"
    using near [of "0x91000" 8] by (simp add: in_flag_def sample_image_def)
  have t: "boot_list (boot_pt sample_image) = [0x80000, 0x81000, 0x82000, 0x83000, 0x84000, 0x85000]"
    by (simp add: sample_image_def sample_list)
  show "in_tables (boot_pt sample_image) x \<Longrightarrow> 0x80000 \<le> unat x \<and> unat x < 0x86000"
    unfolding in_tables_def t using near [of _ 4096] by auto
qed

lemma sample_image_ok: "boot_image_ok sample_image sample_rodata"
proof -
  have z: "sample_rodata x = Some 0" if "unat x < 0x92000" for x
    using that by (simp add: sample_rodata_def word_le_nat_alt)
  have d: "dom sample_rodata = dom (\<lambda>x. Some 0 :: u8 option)" by (auto simp: sample_rodata_def)
  have "boot_ready (boot_pt sample_image) (\<lambda>x. Some 0)" using sample_boot_ready by (simp add: sample_image_def)
  then have "boot_ready (boot_pt sample_image) sample_rodata"
    by (rule boot_ready_cong [OF _ d]) (use z sample_regions(3) in fastforce)
  moreover have "cell_ok sample_rodata (clear_bss_flag sample_image)"
    by (simp add: cell_ok_def mapped_iff sample_rodata_def sample_image_def)
  moreover have "\<not> in_bss sample_image x \<and> \<not> in_flag sample_image x \<and> \<not> in_tables (boot_pt sample_image) x" if "0x92000 \<le> x" for x
    using that sample_regions(3) [of x] by (auto simp: sample_regions(1,2) word_le_nat_alt)
  moreover have "\<not> in_bss sample_image x \<or> x \<in> dom sample_rodata \<and> \<not> in_flag sample_image x" for x
    using sample_regions(1,2) by (auto simp: sample_rodata_def)
  moreover have "\<not> in_tables (boot_pt sample_image) x" if "in_bss sample_image x \<or> in_flag sample_image x" for x
    using sample_regions [of x] that by auto
  moreover have "c_string sample_rodata (literal sample_image str) (bytes str) \<and>
      (\<forall>j \<le> length str. 0x92000 \<le> literal sample_image str + of_nat j)" if "str \<in> set init_c_messages" for str
    using sample_string [OF that] sample_literal_addr(2) [OF that] sample_messages(3) [OF that] by simp
  ultimately show ?thesis unfolding boot_image_ok_def by blast
qed

theorem init_c_correct_witness:
  "\<exists>(s :: sample_uart boot_state) s'. init_c 504 (sample_mmio 0) sample_image (\<lambda>flag t. Some (Inr t)) s = Some (Inr s') \<and>
     tx_sent sample_view (uart_dev s') = bytes (concat init_c_messages) \<and> bit (sctlr_el1 (sys s')) 0"
proof -
  let ?s = "\<lparr>boot_mem = sample_rodata, uart_dev = (\<lambda>r. 0, [], [], 0), sys = \<lparr>mair_el1 = 0, tcr_el1 = 0, ttbr0_el1 = 0, ttbr1_el1 = 0, sctlr_el1 = 0\<rparr>\<rparr>"
  have sent: "tx_sent sample_view (uart_dev ?s) = []" by (simp add: sample_view_def)
  have "boot_image_ok sample_image (boot_mem ?s)" using sample_image_ok by simp
  from init_c_correct [OF sample_mini_uart this order_refl, where start_kernel = "\<lambda>flag t. Some (Inr t)"] sent show ?thesis by auto
qed

end
