(* ===== verification/Mm_Check.thy ===== *)
theory Mm_Check
  imports Kmalloc_Props
begin

text \<open>
  kernel/mm/mm_check.c: the size of free memory, and that every byte of the pool is accounted for.
\<close>

text \<open>The loop over the pools adds pool 0; a second iteration would leave the one-element array.\<close>

definition get_free_mem_size :: "nat \<Rightarrow> 'z kernel_state_scheme \<Rightarrow> u64 run" where
  "get_free_mem_size fuel s =
     fbind (get_free_mem_size_from_slab fuel s) (\<lambda>size.
     if 0 < physmem_map_num s then
       if 1 < physmem_map_num s then Some (Inl Undef)
       else Some (Inr (size + get_free_mem_size_from_buddy s))
     else Some (Inr size))"

subsection \<open>The bytes of a slab\<close>

definition used_slots :: "nat \<Rightarrow> u64 \<times> u64 list \<Rightarrow> (u64 \<times> nat) set" where
  "used_slots k x = (\<lambda>a. (a, k)) ` (slots_of k (fst x) - set (snd x))"

lemma used_slots_card:
  assumes inv: "slab_inv s A F" and k: "order_ok k" and x: "(p, fs) \<in> set (F k)"
  shows "length fs * 2 ^ k + card (used_slots k (p, fs)) * 2 ^ k + 2 ^ k = 2 ^ 21" "finite (used_slots k (p, fs))"
proof -
  note held = slab_invD(1) [OF inv] and sl = slab_inv_slab [OF inv k x]
  have fs: "distinct fs" "set fs \<subseteq> slots_of k p" using sl(1) by (simp_all add: slab_ok_def)
  have fin: "finite (slots_of k p)" by (simp add: slots_of_def)
  then show "finite (used_slots k (p, fs))" by (simp add: used_slots_def)
  have "inj_on (slot_at k p) {1..<2 ^ (21 - k)}"
    using slot_at_inj [OF held sl(2) k] by (auto intro!: inj_onI)
  then have "card (slots_of k p) = 2 ^ (21 - k) - 1" by (simp add: slots_of_def card_image)
  moreover have "card (used_slots k (p, fs)) = card (slots_of k p) - length fs"
    using fs fin by (simp add: used_slots_def card_image inj_on_def card_Diff_subset distinct_card)
  moreover have "length fs \<le> card (slots_of k p)"
    using card_mono [OF fin fs(2)] distinct_card [OF fs(1)] by simp
  moreover have "(1 :: nat) \<le> 2 ^ (21 - k)" by simp
  ultimately have e: "length fs + card (used_slots k (p, fs)) + 1 = 2 ^ (21 - k)" by linarith
  have "(2 :: nat) ^ (21 - k) * 2 ^ k = 2 ^ 21" using order_okD [OF k] by (simp flip: power_add)
  then show "length fs * 2 ^ k + card (used_slots k (p, fs)) * 2 ^ k + 2 ^ k = 2 ^ 21"
    unfolding e [symmetric] by (simp add: algebra_simps)
qed

lemma live_objects_union: "live_objects F = (\<Union>k \<in> set slab_orders. \<Union>x \<in> set (F k). used_slots k x)"
proof (intro set_eqI iffI)
  fix b assume "b \<in> live_objects F"
  then obtain a k p fs where "b = (a, k)" "order_ok k" "(p, fs) \<in> set (F k)" "a \<in> slots_of k p - set fs"
    by (auto simp: live_objects_def)
  then show "b \<in> (\<Union>k \<in> set slab_orders. \<Union>x \<in> set (F k). used_slots k x)"
    by (intro UN_I [of k] UN_I [of "(p, fs)"]) (simp_all add: slab_orders(1) used_slots_def)
next
  fix b assume "b \<in> (\<Union>k \<in> set slab_orders. \<Union>x \<in> set (F k). used_slots k x)"
  then obtain k x a where "order_ok k" "x \<in> set (F k)" "b = (a, k)" "a \<in> slots_of k (fst x) - set (snd x)"
    unfolding used_slots_def UN_iff slab_orders(1) [symmetric] by blast
  then show "b \<in> live_objects F" unfolding live_objects_def by (cases x) auto
qed

text \<open>The bytes of the objects in use, order by order and slab by slab.\<close>

lemma live_bytes:
  assumes inv: "slab_inv s A F"
  shows "(\<Sum>(a, k) \<in> live_objects F. 2 ^ k) = (\<Sum>k \<in> set slab_orders. \<Sum>x \<in> set (F k). card (used_slots k x) * 2 ^ k)"
    "finite (live_objects F)"
proof -
  have fin: "finite (used_slots k x)" for k x by (simp add: used_slots_def slots_of_def)
  then show "finite (live_objects F)" unfolding live_objects_union by simp
  have apart: "used_slots k x \<inter> used_slots k y = {}" if k: "k \<in> set slab_orders" and xy: "x \<in> set (F k)" "y \<in> set (F k)" "x \<noteq> y" for k x y
  proof -
    obtain p fs q gs where e: "x = (p, fs)" "y = (q, gs)" by (cases x, cases y) auto
    have "order_ok k" using k slab_orders(1) by blast
    then show ?thesis using slot_unique [OF inv, of k p fs q gs] xy unfolding e by (fastforce simp: used_slots_def)
  qed
  have one: "(\<Sum>c \<in> used_slots k x. 2 ^ snd c) = card (used_slots k x) * 2 ^ k" for k x
  proof -
    have "(\<Sum>c \<in> used_slots k x. (2 :: nat) ^ snd c) = (\<Sum>c \<in> used_slots k x. 2 ^ k)"
      by (rule sum.cong) (auto simp: used_slots_def)
    then show ?thesis by simp
  qed
  have "(\<Sum>(a, k) \<in> live_objects F. 2 ^ k) = (\<Sum>c \<in> live_objects F. (2 :: nat) ^ snd c)"
    by (simp add: split_def)
  also have "\<dots> = (\<Sum>k \<in> set slab_orders. \<Sum>c \<in> (\<Union>x \<in> set (F k). used_slots k x). 2 ^ snd c)"
    unfolding live_objects_union by (rule sum.UNION_disjoint) (auto simp: fin, auto simp: used_slots_def)
  also have "\<dots> = (\<Sum>k \<in> set slab_orders. \<Sum>x \<in> set (F k). card (used_slots k x) * 2 ^ k)"
  proof (rule sum.cong)
    fix k assume k: "k \<in> set slab_orders"
    have "(\<Sum>c \<in> (\<Union>x \<in> set (F k). used_slots k x). (2 :: nat) ^ snd c) = (\<Sum>x \<in> set (F k). \<Sum>c \<in> used_slots k x. 2 ^ snd c)"
      by (rule sum.UNION_disjoint) (use fin apart [OF k] in auto)
    then show "(\<Sum>c \<in> (\<Union>x \<in> set (F k). used_slots k x). (2 :: nat) ^ snd c) = (\<Sum>x \<in> set (F k). card (used_slots k x) * 2 ^ k)"
      by (simp add: one)
  qed simp
  finally show "(\<Sum>(a, k) \<in> live_objects F. 2 ^ k) = (\<Sum>k \<in> set slab_orders. \<Sum>x \<in> set (F k). card (used_slots k x) * 2 ^ k)" .
qed

lemma slab_bytes:
  assumes inv: "slab_inv s A F"
  shows "(\<Sum>k \<leftarrow> slab_orders. free_slots (F k) * 2 ^ k) + (\<Sum>(a, k) \<in> live_objects F. 2 ^ k) +
    (\<Sum>k \<leftarrow> slab_orders. length (F k) * 2 ^ k) = card (set (all_slabs F)) * 2 ^ 21"
proof -
  have per_order: "free_slots (F k) * 2 ^ k + (\<Sum>x \<in> set (F k). card (used_slots k x) * 2 ^ k) + length (F k) * 2 ^ k = length (F k) * 2 ^ 21"
    if k: "k \<in> set slab_orders" for k
  proof -
    have ok: "order_ok k" using k slab_orders(1) by blast
    have dist: "distinct (F k)" using distinct_class [OF slab_invD(3) [OF inv] ok] by (simp add: distinct_map)
    have fs: "free_slots (F k) = (\<Sum>x \<in> set (F k). length (snd x))"
      by (simp add: free_slots_def sum_list_distinct_conv_sum_set [OF dist])
    have len: "length (F k) = card (set (F k))" using distinct_card [OF dist] by simp
    have "(\<Sum>x \<in> set (F k). length (snd x) * 2 ^ k + card (used_slots k x) * 2 ^ k + 2 ^ k) = (\<Sum>x \<in> set (F k). 2 ^ 21)"
      by (rule sum.cong) (use used_slots_card(1) [OF inv ok] in auto)
    then show ?thesis unfolding fs len by (simp add: sum.distrib sum_distrib_right)
  qed
  have list: "(\<Sum>k \<leftarrow> slab_orders. f k) = (\<Sum>k \<in> set slab_orders. f k)" for f :: "nat \<Rightarrow> nat"
    by (rule sum_list_distinct_conv_sum_set [OF slab_orders(2)])
  have "card (set (all_slabs F)) = length (all_slabs F)" by (rule distinct_card [OF slab_invD(3) [OF inv]])
  also have "\<dots> = (\<Sum>k \<in> set slab_orders. length (F k))"
    by (simp add: all_slabs_def length_concat comp_def list)
  finally have "card (set (all_slabs F)) * 2 ^ 21 = (\<Sum>k \<in> set slab_orders. length (F k) * 2 ^ 21)" by (simp add: sum_distrib_right)
  also have "\<dots> = (\<Sum>k \<in> set slab_orders. free_slots (F k) * 2 ^ k + (\<Sum>x \<in> set (F k). card (used_slots k x) * 2 ^ k) + length (F k) * 2 ^ k)"
    by (rule sum.cong) (use per_order in auto)
  finally show ?thesis unfolding live_bytes(1) [OF inv] list by (simp add: sum.distrib)
qed

subsection \<open>The bytes of the pool\<close>

lemma chunk_bytes:
  assumes inv: "slab_inv s A F"
  shows "(\<Sum>(a, k) \<in> A. 2 ^ k * 4096) =
    (\<Sum>(a, k) \<in> client_chunks A F. 2 ^ k * 4096) + card (set (all_slabs F)) * 2 ^ 21" "finite (client_chunks A F)"
proof -
  let ?S = "(\<lambda>p. (p, 9 :: nat)) ` set (all_slabs F)"
  note held = slab_invD(1) [OF inv]
  have fin: "finite A" by (rule pages.holds_finite [OF held])
  then show finc: "finite (client_chunks A F)" by (rule rev_finite_subset) (auto simp: client_chunks_def)
  have "j = 9" if b: "(p, j) \<in> A" "p \<in> set (all_slabs F)" for p j
  proof (rule ccontr)
    assume "j \<noteq> 9"
    then have "(p, j) \<noteq> (p, 9)" by simp
    then have "chunk (p, j) \<inter> chunk (p, 9) = {}"
      using pages_held_apart [OF held b(1) slab_invD(4) [OF inv b(2)]] by blast
    moreover have "p \<in> chunk (p, j)" "p \<in> chunk (p, 9)" by simp_all
    ultimately show False by blast
  qed
  then have A: "A = client_chunks A F \<union> ?S" using slab_invD(4) [OF inv] by (auto simp: client_chunks_def)
  have "(\<Sum>c \<in> A. (2 :: nat) ^ snd c * 4096) = (\<Sum>c \<in> client_chunks A F. 2 ^ snd c * 4096) + (\<Sum>c \<in> ?S. 2 ^ snd c * 4096)"
    by (subst A, rule sum.union_disjoint) (use finc in \<open>auto simp: client_chunks_def\<close>)
  also have "(\<Sum>c \<in> ?S. (2 :: nat) ^ snd c * 4096) = card (set (all_slabs F)) * 2 ^ 21"
    by (subst sum.reindex) (auto simp: inj_on_def)
  finally show "(\<Sum>(a, k) \<in> A. 2 ^ k * 4096) =
    (\<Sum>(a, k) \<in> client_chunks A F. 2 ^ k * 4096) + card (set (all_slabs F)) * 2 ^ 21"
    by (simp add: split_def)
qed

lemma block_sizes:
  assumes inv: "slab_inv s A F"
  shows "(\<Sum>(a, n) \<in> heap_blocks A F. n) = (\<Sum>(a, k) \<in> live_objects F. 2 ^ k) + (\<Sum>(a, k) \<in> client_chunks A F. 2 ^ k * 4096)"
proof -
  let ?L = "(\<lambda>(a, k). (a, 2 ^ k :: nat)) ` live_objects F" and ?C = "(\<lambda>(a, k). (a, 2 ^ k * 4096 :: nat)) ` client_chunks A F"
  have "?L \<inter> ?C = {}"
  proof (rule ccontr)
    assume "?L \<inter> ?C \<noteq> {}"
    then obtain a k j where "(a, k) \<in> live_objects F" "(2 :: nat) ^ k = 2 ^ j * 4096" by auto
    then show False using object_small [of a k F j] by simp
  qed
  moreover have "finite ?L" "finite ?C" using live_bytes(2) [OF inv] chunk_bytes(2) [OF inv] by simp_all
  ultimately have "(\<Sum>b \<in> heap_blocks A F. snd b) = (\<Sum>b \<in> ?L. snd b) + (\<Sum>b \<in> ?C. snd b)"
    unfolding heap_blocks_def by (intro sum.union_disjoint)
  moreover have "(\<Sum>b \<in> ?L. snd b) = (\<Sum>(a, k) \<in> live_objects F. 2 ^ k)"
    by (subst sum.reindex) (auto simp: inj_on_def split_def intro!: sum.cong)
  moreover have "(\<Sum>b \<in> ?C. snd b) = (\<Sum>(a, k) \<in> client_chunks A F. 2 ^ k * 4096)"
    by (subst sum.reindex) (auto simp: inj_on_def split_def intro!: sum.cong)
  ultimately show ?thesis by (simp add: split_def)
qed

lemma get_free_mem_size_ok:
  assumes inv: "slab_inv s A F" and fuel: "\<And>k. order_ok k \<Longrightarrow> length (F k) + 2 ^ 16 \<le> fuel"
  shows "\<exists>sz. get_free_mem_size fuel s = Some (Inr sz) \<and>
    unat sz + (\<Sum>(a, n) \<in> heap_blocks A F. n) + (\<Sum>k \<leftarrow> slab_orders. length (F k) * 2 ^ k) = pool_pages s * 4096"
proof -
  let ?f = "\<Sum>k \<leftarrow> slab_orders. free_slots (F k) * 2 ^ k" and ?h = "\<Sum>k \<leftarrow> slab_orders. length (F k) * 2 ^ k"
  let ?b = "unat (get_free_mem_size_from_buddy s)"
  obtain fl B where B: "buddy_inv s fl B" "A = chunk_of s ` B" using slab_invD(1) [OF inv] by (auto simp: pages_held_def)
  note pa = pool_ok_addr [OF buddy_inv_pool [OF B(1)]]
  have num: "physmem_map_num s = 1" using buddy_inv_pool [OF B(1)] by (simp add: pool_ok_def)
  have "(\<Sum>(i, k) \<in> B. 4096 * 2 ^ k) = chunk_pages A * 4096"
    unfolding B(2) chunk_pages_of [OF B(1)] by (simp add: sum_distrib_right split_def mult.commute)
  then have "?b + chunk_pages A * 4096 = pool_pages s * 4096" using free_mem_size_ok [OF B(1)] pa(2) by simp
  moreover have "chunk_pages A * 4096 = (\<Sum>(a, k) \<in> A. 2 ^ k * 4096)"
    by (simp add: chunk_pages_def sum_distrib_right split_def)
  ultimately have all: "?f + ?b + (\<Sum>(a, n) \<in> heap_blocks A F. n) + ?h = pool_pages s * 4096"
    using chunk_bytes(1) [OF inv] slab_bytes [OF inv] block_sizes [OF inv] by linarith
  have lt: "pool_pages s * 4096 < 2 ^ 64" using pa(4) by (simp add: add_mult_distrib)
  have "get_free_mem_size_from_slab fuel s = Some (Inr (of_nat ?f))"
    by (rule get_free_mem_size_from_slab_ok [OF inv]) (rule fuel)
  then have "get_free_mem_size fuel s = Some (Inr (of_nat ?f + get_free_mem_size_from_buddy s))"
    by (simp only: get_free_mem_size_def fbind.simps num) simp
  moreover have u: "unat (of_nat ?f + get_free_mem_size_from_buddy s) = ?f + ?b"
  proof -
    have "?f + ?b < 2 ^ 64" using all lt by linarith
    moreover from this have "unat (of_nat ?f :: u64) = ?f" by (intro unat_of_nat_less) linarith
    ultimately show ?thesis by (simp only: unat_word_ariths) simp
  qed
  ultimately show ?thesis using all unfolding u [symmetric] by blast
qed

text \<open>C38: \<open>get_free_mem_size\<close> returns, given fuel for the slabs of each order and the slots of a
  slab, and no byte of the pool is lost: the size it reports, the sizes of the blocks in use and
  the header slots, one of \<open>2 ^ k\<close> bytes in each slab of order \<open>k\<close>, add up to the size of the pool,
  without overflow.\<close>

theorem get_free_mem_size_correct:
  assumes "slab_inv s A F" "\<And>k. order_ok k \<Longrightarrow> length (F k) + 2 ^ 16 \<le> fuel"
  shows "\<exists>sz. get_free_mem_size fuel s = Some (Inr sz) \<and>
    unat sz + (\<Sum>(a, n) \<in> heap_blocks A F. n) + (\<Sum>k \<leftarrow> slab_orders. length (F k) * 2 ^ k) = pool_pages s * 4096"
  by (rule get_free_mem_size_ok [OF assms])

theorem get_free_mem_size_correct_witness:
  "\<exists>(s :: kernel_state) A F fuel sz. live_objects F = {} \<and> get_free_mem_size fuel s = Some (Inr sz) \<and>
    unat sz + (\<Sum>(a, n) \<in> heap_blocks A F. n) + (\<Sum>k \<leftarrow> slab_orders. length (F k) * 2 ^ k) = pool_pages s * 4096"
proof -
  obtain s :: kernel_state and A F where s: "slab_inv s A F" "live_objects F = {}"
    by (rule slab_ready) (rule that)
  obtain n where n: "\<forall>k. order_ok k \<longrightarrow> length (F k) < n" using finite_lists by blast
  then have "length (F k) + 2 ^ 16 \<le> n + 2 ^ 16" if "order_ok k" for k using that by (simp add: less_imp_le)
  from get_free_mem_size_correct [OF s(1) this] s(2) show ?thesis by blast
qed

end
