(* ===== verification/Hlist.thy ===== *)
theory Hlist
  imports Prelude
begin

text \<open>
  The hash lists of kernel/include/common/list.h: a head with one pointer, and nodes that point to
  the next node and to the field that points to them.

  A \<open>struct hlist_node **\<close> is the address of a \<open>next\<close> field, that of a head or that of a node. The
  store maps the addresses of \<open>next\<close> fields to what they hold, and nodes to what their \<open>pprev\<close> holds;
  a NULL pointer is \<open>None\<close>.
\<close>

datatype ('h, 'n) hfield = HeadNext 'h | NodeNext 'n

record ('h, 'n) hlist_store =
  hnext :: "('h, 'n) hfield \<rightharpoonup> 'n option"
  pprev :: "'n \<rightharpoonup> ('h, 'n) hfield option"

definition set_hnext :: "('h, 'n) hfield \<Rightarrow> 'n option \<Rightarrow> ('h, 'n) hlist_store \<Rightarrow> ('h, 'n) hlist_store outcome" where
  "set_hnext a v s = (if hnext s a = None then Inl Undef else Inr (s\<lparr>hnext := (hnext s)(a \<mapsto> v)\<rparr>))"

definition set_pprev :: "'n \<Rightarrow> ('h, 'n) hfield option \<Rightarrow> ('h, 'n) hlist_store \<Rightarrow> ('h, 'n) hlist_store outcome" where
  "set_pprev n v s = (if pprev s n = None then Inl Undef else Inr (s\<lparr>pprev := (pprev s)(n \<mapsto> v)\<rparr>))"

definition init_hlist_head :: "'h \<Rightarrow> ('h, 'n) hlist_store \<Rightarrow> ('h, 'n) hlist_store outcome" where
  "init_hlist_head head s = set_hnext (HeadNext head) None s"

definition init_hlist_node :: "'n \<Rightarrow> ('h, 'n) hlist_store \<Rightarrow> ('h, 'n) hlist_store outcome" where
  "init_hlist_node node s =
     rbind (set_hnext (NodeNext node) None s) (\<lambda>s.
     set_pprev node None s)"

definition hlist_add :: "'n \<Rightarrow> 'h \<Rightarrow> ('h, 'n) hlist_store \<Rightarrow> ('h, 'n) hlist_store outcome" where
  "hlist_add new head s =
     rbind (deref (hnext s (HeadNext head))) (\<lambda>first.
     rbind (set_hnext (NodeNext new) first s) (\<lambda>s.
     rbind (set_pprev new (Some (HeadNext head)) s) (\<lambda>s.
     rbind (deref (hnext s (HeadNext head))) (\<lambda>first.
     rbind (case first of
              None \<Rightarrow> Inr s
            | Some first \<Rightarrow> set_pprev first (Some (NodeNext new)) s) (\<lambda>s.
     set_hnext (HeadNext head) (Some new) s)))))"

definition hlist_del :: "'n \<Rightarrow> ('h, 'n) hlist_store \<Rightarrow> ('h, 'n) hlist_store outcome" where
  "hlist_del node s =
     rbind (deref (hnext s (NodeNext node))) (\<lambda>next.
     rbind (case next of
              None \<Rightarrow> Inr s
            | Some next \<Rightarrow>
                rbind (deref (pprev s node)) (\<lambda>pp.
                set_pprev next pp s)) (\<lambda>s.
     rbind (deref (pprev s node)) (\<lambda>pp.
     rbind (deref pp) (\<lambda>field.
     rbind (deref (hnext s (NodeNext node))) (\<lambda>next.
     set_hnext field next s)))))"

definition hlist_empty :: "'h \<Rightarrow> ('h, 'n) hlist_store \<Rightarrow> bool outcome" where
  "hlist_empty head s = rbind (deref (hnext s (HeadNext head))) (\<lambda>next. Inr (next = None))"

text \<open>The elements \<open>for_each_in_hlist\<close> visits, from the one a field points to on.\<close>

fun for_each_in_hlist :: "nat \<Rightarrow> ('h, 'n) hfield \<Rightarrow> ('h, 'n) hlist_store \<Rightarrow> 'n list run" where
  "for_each_in_hlist 0 a s = None"
| "for_each_in_hlist (Suc fuel) a s =
     fbind (Some (deref (hnext s a))) (\<lambda>elem.
     case elem of
       None \<Rightarrow> Some (Inr [])
     | Some elem \<Rightarrow>
         fbind (for_each_in_hlist fuel (NodeNext elem) s) (\<lambda>elems.
         Some (Inr (elem # elems))))"

subsection \<open>Lists\<close>

text \<open>The nodes reached from a field, each pointing back to the field that points to it.\<close>

fun hpath :: "('h, 'n) hlist_store \<Rightarrow> ('h, 'n) hfield \<Rightarrow> 'n list \<Rightarrow> bool" where
  "hpath s a [] \<longleftrightarrow> hnext s a = Some None"
| "hpath s a (x # xs) \<longleftrightarrow> hnext s a = Some (Some x) \<and> pprev s x = Some (Some a) \<and> hpath s (NodeNext x) xs"

definition hlist :: "('h, 'n) hlist_store \<Rightarrow> 'h \<Rightarrow> 'n list \<Rightarrow> bool" where
  "hlist s h xs \<longleftrightarrow> distinct xs \<and> hpath s (HeadNext h) xs"

lemma hpath_cong:
  "hpath s a xs \<Longrightarrow> hnext t a = hnext s a \<Longrightarrow> (\<And>x. x \<in> set xs \<Longrightarrow> hnext t (NodeNext x) = hnext s (NodeNext x) \<and> pprev t x = pprev s x) \<Longrightarrow>
   hpath t a xs"
  by (induction xs arbitrary: a) auto

text \<open>A part of a list, and the field that follows it.\<close>

fun hseg :: "('h, 'n) hlist_store \<Rightarrow> ('h, 'n) hfield \<Rightarrow> 'n list \<Rightarrow> bool" where
  "hseg s a [] \<longleftrightarrow> True"
| "hseg s a (x # xs) \<longleftrightarrow> hnext s a = Some (Some x) \<and> pprev s x = Some (Some a) \<and> hseg s (NodeNext x) xs"

definition after :: "('h, 'n) hfield \<Rightarrow> 'n list \<Rightarrow> ('h, 'n) hfield" where
  "after a xs = (if xs = [] then a else NodeNext (last xs))"

lemma after_simps [simp]: "after a [] = a" "after a (x # xs) = after (NodeNext x) xs"
  by (simp_all add: after_def)

lemma hpath_append: "hpath s a (xs @ ys) \<longleftrightarrow> hseg s a xs \<and> hpath s (after a xs) ys"
  by (induction xs arbitrary: a) auto

lemma after_fresh: "distinct (x # xs) \<Longrightarrow> xs \<noteq> [] \<Longrightarrow> after (NodeNext x) xs \<noteq> NodeNext x"
  by (auto simp: after_def)

text \<open>A segment does not depend on the field that follows it, nor on nodes outside.\<close>

lemma hseg_cong:
  "hseg s a xs \<Longrightarrow> distinct xs \<Longrightarrow> a \<notin> NodeNext ` set xs \<Longrightarrow>
   (\<And>f. f \<noteq> after a xs \<Longrightarrow> hnext t f = hnext s f) \<Longrightarrow> (\<And>x. x \<in> set xs \<Longrightarrow> pprev t x = pprev s x) \<Longrightarrow> hseg t a xs"
proof (induction xs arbitrary: a)
  case (Cons x xs)
  have a: "a \<noteq> after (NodeNext x) xs" using Cons.prems(3) by (auto simp: after_def)
  have "hseg t (NodeNext x) xs"
  proof (rule Cons.IH)
    show "hseg s (NodeNext x) xs" "distinct xs" "NodeNext x \<notin> NodeNext ` set xs" using Cons.prems(1,2) by auto
  qed (use Cons.prems(4,5) in auto)
  then show ?case using Cons.prems(1,4,5) a by auto
qed simp

lemma hlist_add_ok:
  assumes l: "hlist s h xs" and new: "n \<notin> set xs" "hnext s (NodeNext n) \<noteq> None" "pprev s n \<noteq> None"
  shows "\<exists>s'. hlist_add n h s = Inr s' \<and> hlist s' h (n # xs) \<and>
    (\<forall>g ys. g \<noteq> h \<longrightarrow> set ys \<inter> set (n # xs) = {} \<longrightarrow> hlist s g ys \<longrightarrow> hlist s' g ys)"
proof (cases xs)
  case Nil
  define s' where "s' = s\<lparr>hnext := (hnext s)(NodeNext n \<mapsto> None, HeadNext h \<mapsto> Some n), pprev := (pprev s)(n \<mapsto> Some (HeadNext h))\<rparr>"
  have "hlist_add n h s = Inr s'"
    using l new Nil by (simp add: hlist_add_def hlist_def deref_def set_hnext_def set_pprev_def s'_def)
  moreover have "hlist s' h (n # xs)" using Nil by (simp add: hlist_def s'_def)
  moreover have "hlist s' g ys" if "g \<noteq> h" "set ys \<inter> set (n # xs) = {}" "hlist s g ys" for g ys
    using that unfolding hlist_def by (intro conjI hpath_cong [of s "HeadNext g" ys s']) (auto simp: s'_def)
  ultimately show ?thesis by blast
next
  case (Cons x zs)
  define s' where "s' = s\<lparr>hnext := (hnext s)(NodeNext n \<mapsto> Some x, HeadNext h \<mapsto> Some n),
    pprev := (pprev s)(n \<mapsto> Some (HeadNext h), x \<mapsto> Some (NodeNext n))\<rparr>"
  have p: "hnext s (HeadNext h) = Some (Some x)" "pprev s x = Some (Some (HeadNext h))" "hpath s (NodeNext x) zs" "distinct (x # zs)"
    using l Cons by (auto simp: hlist_def)
  have "hlist_add n h s = Inr s'"
    using p new Cons by (simp add: hlist_add_def deref_def set_hnext_def set_pprev_def s'_def)
  moreover have "hpath s' (NodeNext x) zs" using new(1) p(4) Cons by (intro hpath_cong [OF p(3)]) (auto simp: s'_def)
  then have "hlist s' h (n # xs)" using new(1) p(4) Cons by (auto simp: hlist_def s'_def)
  moreover have "hlist s' g ys" if "g \<noteq> h" "set ys \<inter> set (n # xs) = {}" "hlist s g ys" for g ys
    using that Cons unfolding hlist_def by (intro conjI hpath_cong [of s "HeadNext g" ys s']) (auto simp: s'_def)
  ultimately show ?thesis by blast
qed

lemma hlist_del_ok:
  assumes l: "hlist s h (xs @ n # ys)"
  shows "\<exists>s'. hlist_del n s = Inr s' \<and> hlist s' h (xs @ ys) \<and>
    (\<forall>g zs. g \<noteq> h \<longrightarrow> set zs \<inter> set (xs @ n # ys) = {} \<longrightarrow> hlist s g zs \<longrightarrow> hlist s' g zs)"
proof -
  let ?b = "after (HeadNext h) xs"
  have d: "distinct (xs @ n # ys)" and seg: "hseg s (HeadNext h) xs" and at: "hnext s ?b = Some (Some n)" "pprev s n = Some (Some ?b)"
    and rest: "hpath s (NodeNext n) ys" using l by (auto simp: hlist_def hpath_append)
  have "last xs \<noteq> n \<and> last xs \<notin> set ys" if "xs \<noteq> []" using d last_in_set [OF that] by auto
  then have b: "?b \<noteq> NodeNext n" "?b \<notin> NodeNext ` set ys" by (auto simp: after_def)
  have others: "?b \<noteq> HeadNext g \<and> ?b \<notin> NodeNext ` set zs" if "g \<noteq> h" "set zs \<inter> set (xs @ n # ys) = {}" for g zs
    using that by (auto simp: after_def)
  define s' where "s' = (case ys of [] \<Rightarrow> s\<lparr>hnext := (hnext s)(?b \<mapsto> None)\<rparr>
    | z # zs \<Rightarrow> s\<lparr>hnext := (hnext s)(?b \<mapsto> Some z), pprev := (pprev s)(z \<mapsto> Some ?b)\<rparr>)"
  have s': "hnext s' f = hnext s f" if "f \<noteq> ?b" for f using that by (simp add: s'_def split: list.splits)
  have p': "pprev s' x = pprev s x" if "x \<notin> set ys" for x using that by (auto simp: s'_def split: list.splits)
  have "hlist_del n s = Inr s'"
  proof (cases ys)
    case Nil
    then show ?thesis using rest at b(1) by (simp add: hlist_del_def deref_def set_hnext_def s'_def)
  next
    case (Cons z zs)
    then show ?thesis using rest at b(1) d by (auto simp: hlist_del_def deref_def set_hnext_def set_pprev_def s'_def)
  qed
  moreover have "hseg s' (HeadNext h) xs" using d s' p' by (intro hseg_cong [OF seg]) auto
  moreover have "hpath s' ?b ys"
  proof (cases ys)
    case (Cons z zs)
    have "hpath s' (NodeNext z) zs"
    proof (rule hpath_cong)
      show "hpath s (NodeNext z) zs" using rest Cons by simp
      show "hnext s' (NodeNext z) = hnext s (NodeNext z)" using b(2) Cons by (intro s') auto
      fix x assume x: "x \<in> set zs"
      then have "NodeNext x \<in> NodeNext ` set ys" "x \<noteq> z" using d Cons by auto
      then have "NodeNext x \<noteq> ?b" "x \<noteq> z" using b(2) by metis+
      then show "hnext s' (NodeNext x) = hnext s (NodeNext x) \<and> pprev s' x = pprev s x" using s' by (simp add: s'_def Cons)
    qed
    then show ?thesis using Cons by (simp add: s'_def)
  qed (simp add: s'_def)
  moreover have "hlist s' g zs" if "g \<noteq> h" "set zs \<inter> set (xs @ n # ys) = {}" "hlist s g zs" for g zs
  proof -
    have "hpath s' (HeadNext g) zs"
    proof (rule hpath_cong)
      show "hpath s (HeadNext g) zs" using that(3) by (simp add: hlist_def)
      show "hnext s' (HeadNext g) = hnext s (HeadNext g)" using others [OF that(1,2)] s' by metis
      fix x assume x: "x \<in> set zs"
      then have "NodeNext x \<noteq> ?b" using others [OF that(1,2)] by (metis imageI)
      moreover have "x \<notin> set ys" using x that(2) by auto
      ultimately show "hnext s' (NodeNext x) = hnext s (NodeNext x) \<and> pprev s' x = pprev s x" using s' p' by simp
    qed
    then show ?thesis using that(3) by (simp add: hlist_def)
  qed
  ultimately show ?thesis using d unfolding hlist_def hpath_append by auto
qed

lemma init_hlist_head_ok: "hnext s (HeadNext h) \<noteq> None \<Longrightarrow> \<exists>s'. init_hlist_head h s = Inr s' \<and> hlist s' h []"
  by (simp add: init_hlist_head_def set_hnext_def hlist_def)

lemma hlist_empty_ok: "hlist s h xs \<Longrightarrow> hlist_empty h s = Inr (xs = [])"
  by (cases xs) (simp_all add: hlist_def hlist_empty_def deref_def)

lemma for_each_in_hlist_ok:
  "hpath s a xs \<Longrightarrow> length xs < fuel \<Longrightarrow> for_each_in_hlist fuel a s = Some (Inr xs)"
proof (induction fuel arbitrary: a xs)
  case (Suc fuel)
  show ?case
  proof (cases xs)
    case (Cons x zs)
    then have "for_each_in_hlist fuel (NodeNext x) s = Some (Inr zs)" using Suc by simp
    then show ?thesis using Cons Suc.prems(1) by (simp add: deref_def)
  qed (use Suc.prems in \<open>simp add: deref_def\<close>)
qed simp

end
