(* ===== verification/Arm_Mmu.thy ===== *)
theory Arm_Mmu
  imports Init_C
begin

text \<open>
  What the Architecture Reference Manual promises of the MMU of an ARMv8-A core, as far as the kernel
  relies on it: the translation of addresses in the upper half, controlled by the system registers
  that \<open>el1_mmu_activate\<close> and \<open>start_kernel\<close> write. The MMU itself is a parameter of the model;
  \<open>armv8_mmu\<close> is the hypothesis of the theorems about it. The walk is written down from the manual, over
  physical memory, and shares no definition with the model of page_table.c.
\<close>

text \<open>Where an address leads, the attribute byte of \<open>MAIR_EL1\<close> for it, and whether EL1 may execute it.\<close>

record translation =
  t_addr :: u64
  t_attr :: u8
  t_exec :: bool

type_synonym mmu = "sys_regs \<Rightarrow> memory \<Rightarrow> u64 \<Rightarrow> translation option"

text \<open>An attribute byte whose upper half is zero stands for device memory.\<close>

definition device_attr :: "u8 \<Rightarrow> bool" where
  "device_attr a \<longleftrightarrow> take_bit 4 (drop_bit 4 a) = 0"

subsection \<open>The walk\<close>

text \<open>
  With 4K granules and 48-bit addresses: from level 0 (three levels above the pages) down. Bit 0 of a
  descriptor is set if it is valid, bit 1 if it is a table (or, at the last level, a page); bits 59 to
  63 of a table descriptor restrict what is below it, here they must be zero.
\<close>

definition out_addr :: "nat \<Rightarrow> u64 \<Rightarrow> u64" where
  "out_addr k d = push_bit k (take_bit (48 - k) (drop_bit k d))"

definition descriptor_at :: "nat \<Rightarrow> memory \<Rightarrow> u64 \<Rightarrow> u64 \<Rightarrow> u64 option" where
  "descriptor_at n m tab va =
     (case load64 m (tab + of_nat (8 * unat (take_bit 9 (drop_bit (12 + 9 * n) va)))) of
        Inr d \<Rightarrow> if bit d 0 then Some d else None
      | Inl e \<Rightarrow> None)"

fun arm_walk :: "nat \<Rightarrow> memory \<Rightarrow> u64 \<Rightarrow> u64 \<Rightarrow> (u64 \<times> u64) option" where
  "arm_walk 0 m tab va =
     Option.bind (descriptor_at 0 m tab va) (\<lambda>d.
     if bit d 1 then Some (out_addr 12 d OR take_bit 12 va, d) else None)"
| "arm_walk (Suc n) m tab va =
     Option.bind (descriptor_at (Suc n) m tab va) (\<lambda>d.
     if bit d 1 then if drop_bit 59 d = 0 then arm_walk n m (out_addr 12 d) va else None
     else if Suc n < 3 then Some (out_addr (12 + 9 * Suc n) d OR take_bit (12 + 9 * Suc n) va, d)
     else None)"

declare arm_walk.simps [simp del]

text \<open>
  A leaf descriptor with the access flag (bit 10) that does not forbid writes (bit 7). Bits 2 to 4
  select a byte of \<open>MAIR_EL1\<close>; bit 53 forbids execution at EL1.
\<close>

definition arm_translate :: "sys_regs \<Rightarrow> memory \<Rightarrow> u64 \<Rightarrow> translation option" where
  "arm_translate r m va =
     Option.bind (arm_walk 3 m (out_addr 12 (ttbr1_el1 r)) va) (\<lambda>(pa, d).
     if bit d 10 \<and> \<not> bit d 7 then
       Some \<lparr>t_addr = pa, t_attr = ucast (drop_bit (8 * unat (take_bit 3 (drop_bit 2 d))) (mair_el1 r)), t_exec = \<not> bit d 53\<rparr>
     else None)"

text \<open>
  This is the translation when the MMU is on (\<open>SCTLR_EL1.M\<close>) and \<open>TCR_EL1\<close> asks for it: \<open>T1SZ\<close> is 16,
  \<open>EPD1\<close> is 0, \<open>IPS\<close> is 48 bits, and the granule \<open>TG1\<close> is 4K. Of the four values of \<open>TG1\<close> the manual
  defines three; for the reserved one, 0, it lets the implementation choose among its granules.
\<close>

definition mmu_on :: "sys_regs \<Rightarrow> bool" where
  "mmu_on r \<longleftrightarrow> bit (sctlr_el1 r) 0 \<and> take_bit 6 (drop_bit 16 (tcr_el1 r)) = 16 \<and> \<not> bit (tcr_el1 r) 23 \<and>
     take_bit 3 (drop_bit 32 (tcr_el1 r)) = 5"

definition TG1 :: "sys_regs \<Rightarrow> u64" where
  "TG1 r = take_bit 2 (drop_bit 30 (tcr_el1 r))"

definition armv8_mmu :: "mmu \<Rightarrow> (u64 \<Rightarrow> nat) \<Rightarrow> bool" where
  "armv8_mmu mmu granule \<longleftrightarrow> granule 1 = 14 \<and> granule 2 = 12 \<and> granule 3 = 16 \<and>
     (\<forall>r m va t. mmu_on r \<and> granule (TG1 r) = 12 \<and> 2 ^ 64 - 2 ^ 48 \<le> unat va \<and> arm_translate r m va = Some t \<longrightarrow>
        mmu r m va = Some t)"

text \<open>An MMU that does this and nothing else, with 4K granules also for the reserved value.\<close>

definition sample_mmu :: mmu where
  "sample_mmu r m va = (if mmu_on r \<and> 2 ^ 64 - 2 ^ 48 \<le> unat va then arm_translate r m va else None)"

definition sample_granule :: "u64 \<Rightarrow> nat" where
  "sample_granule g = (if g = 1 then 14 else if g = 3 then 16 else 12)"

lemma sample_armv8_mmu: "armv8_mmu sample_mmu sample_granule"
  by (simp add: armv8_mmu_def sample_mmu_def sample_granule_def)

end
