(* ===== verification/Lab_Buddy.thy ===== *)
theory Lab_Buddy
  imports Buddy
begin

text \<open>
  \<open>lab2_test_buddy\<close> of kernel/mm/buddy.c, the unit test the kernel runs on the buddy allocator
  when it boots with \<open>CHCORE_KERNEL_TEST\<close>.

  The result is what the test reports: the name and the outcome of each \<open>lab_check\<close>, whose text is
  left to printk. The variables of a test block are its state: the pool, \<open>ok\<close> and
  \<open>expect_free_mem\<close>. A page that is dereferenced when it is NULL has been stopped by the BUG_ON
  before.
\<close>

record 'p lab_vars =
  pool :: 'p
  ok :: bool
  expect_free_mem :: u64

text \<open>\<open>ok = ok && expr\<close> does not evaluate \<open>expr\<close> once \<open>ok\<close> is false; here it has no effect.\<close>

definition lab_assert :: "bool \<Rightarrow> 'p lab_vars \<Rightarrow> 'p lab_vars" where
  "lab_assert expr v = v\<lparr>ok := (ok v \<and> expr)\<rparr>"

definition assert_free_mem :: "'z buddy_state_scheme lab_vars \<Rightarrow> 'z buddy_state_scheme lab_vars" where
  "assert_free_mem v = lab_assert (get_free_mem_size_from_buddy (pool v) = expect_free_mem v) v"

definition chunk_size :: "nat \<Rightarrow> u64" where
  "chunk_size i = push_bit i 1 * BUDDY_PAGE_SIZE"

text \<open>Allocate a chunk of order \<open>i\<close>, check its page and the free memory that is left.\<close>

definition get_and_check ::
  "(page \<Rightarrow> bool) \<Rightarrow> nat \<Rightarrow> 'z buddy_state_scheme lab_vars \<Rightarrow> (nat \<times> 'z buddy_state_scheme lab_vars) outcome" where
  "get_and_check expr i v =
     rbind (buddy_get_pages (pool v) (of_nat i)) (\<lambda>(s, page).
     rbind (bug_on (page = None)) (\<lambda>_.
     rbind (deref page) (\<lambda>page.
     rbind (get_page s page) (\<lambda>p.
     let v = lab_assert (expr p) (v\<lparr>pool := s\<rparr>);
         v = v\<lparr>expect_free_mem := expect_free_mem v - chunk_size i\<rparr>
     in Inr (page, assert_free_mem v)))))"

text \<open>Free a page of order \<open>i\<close> and check the free memory.\<close>

definition free_and_check ::
  "nat \<Rightarrow> nat \<Rightarrow> 'z buddy_state_scheme lab_vars \<Rightarrow> 'z buddy_state_scheme lab_vars outcome" where
  "free_and_check i page v =
     rbind (buddy_free_pages (pool v) page) (\<lambda>s.
     let v = v\<lparr>pool := s\<rparr>;
         v = v\<lparr>expect_free_mem := expect_free_mem v + chunk_size i\<rparr>
     in Inr (assert_free_mem v))"

definition order_allocated :: "nat \<Rightarrow> page \<Rightarrow> bool" where
  "order_allocated i p \<longleftrightarrow> page_order p = int i \<and> allocated p \<noteq> 0"

definition lab_start :: "'z buddy_state_scheme \<Rightarrow> 'z buddy_state_scheme lab_vars" where
  "lab_start s = \<lparr>pool = s, ok = True, expect_free_mem = pool_phys_page_num s * BUDDY_PAGE_SIZE\<rparr>"

subsection \<open>The blocks of the test\<close>

definition test_init :: "'z buddy_state_scheme \<Rightarrow> bool" where
  "test_init s =
     (let free_mem_size = get_free_mem_size_from_buddy s
      in pool_phys_page_num s = free_mem_size div BUDDY_PAGE_SIZE)"

definition test_invalid_order :: "'z buddy_state_scheme \<Rightarrow> (bool \<times> 'z buddy_state_scheme) outcome" where
  "test_invalid_order s =
     rbind (buddy_get_pages s (BUDDY_MAX_ORDER + 1)) (\<lambda>(s, page).
     if page = None
     then rbind (buddy_get_pages s (- 1)) (\<lambda>(s, page). Inr (page = None, s))
     else Inr (False, s))"

definition test_order_0 :: "'z buddy_state_scheme \<Rightarrow> (bool \<times> 'z buddy_state_scheme) outcome" where
  "test_order_0 s =
     rbind (get_and_check (order_allocated 0) 0 (lab_start s)) (\<lambda>(page, v).
     rbind (free_and_check 0 page v) (\<lambda>v.
     Inr (ok v, pool v)))"

fun each_order :: "nat list \<Rightarrow> 'z buddy_state_scheme lab_vars \<Rightarrow> 'z buddy_state_scheme lab_vars outcome" where
  "each_order [] v = Inr v"
| "each_order (i # is) v =
     rbind (get_and_check (order_allocated i) i v) (\<lambda>(page, v).
     rbind (free_and_check i page v) (each_order is))"

definition test_each_order :: "'z buddy_state_scheme \<Rightarrow> (bool \<times> 'z buddy_state_scheme) outcome" where
  "test_each_order s =
     rbind (each_order [0..<BUDDY_MAX_ORDER] (lab_start s)) (\<lambda>v.
     rbind (each_order (rev [0..<BUDDY_MAX_ORDER]) v) (\<lambda>v.
     Inr (ok v, pool v)))"

fun get_orders ::
  "nat list \<Rightarrow> 'z buddy_state_scheme lab_vars \<Rightarrow> (nat list \<times> 'z buddy_state_scheme lab_vars) outcome" where
  "get_orders [] v = Inr ([], v)"
| "get_orders (i # is) v =
     rbind (get_and_check (\<lambda>p. page_order p = int i) i v) (\<lambda>(page, v).
     rbind (get_orders is v) (\<lambda>(pages, v).
     Inr (page # pages, v)))"

fun free_orders ::
  "(nat \<times> nat) list \<Rightarrow> 'z buddy_state_scheme lab_vars \<Rightarrow> 'z buddy_state_scheme lab_vars outcome" where
  "free_orders [] v = Inr v"
| "free_orders ((i, page) # ps) v = rbind (free_and_check i page v) (free_orders ps)"

definition test_all_orders :: "'z buddy_state_scheme \<Rightarrow> (bool \<times> 'z buddy_state_scheme) outcome" where
  "test_all_orders s =
     rbind (get_orders [0..<BUDDY_MAX_ORDER] (lab_start s)) (\<lambda>(pages, v).
     rbind (free_orders (zip [0..<BUDDY_MAX_ORDER] pages) v) (\<lambda>v.
     Inr (ok v, pool v)))"

fun free_every_page :: "nat list \<Rightarrow> 'z buddy_state_scheme lab_vars \<Rightarrow> 'z buddy_state_scheme lab_vars outcome" where
  "free_every_page [] v = Inr v"
| "free_every_page (i # is) v =
     rbind (get_page (pool v) i) (\<lambda>p.
     rbind (free_and_check 0 i (lab_assert (allocated p \<noteq> 0) v)) (free_every_page is))"

text \<open>
  The indices of the two loops are \<open>int\<close>s that count up to the number of pages. The last
  allocation is inside a \<open>lab_assert\<close>: it is made only while \<open>ok\<close> holds.
\<close>

definition test_all_memory :: "'z buddy_state_scheme \<Rightarrow> (bool \<times> 'z buddy_state_scheme) outcome" where
  "test_all_memory s =
     (let n = unat (pool_phys_page_num s) in
      rbind (undef_if (2 ^ 31 \<le> n)) (\<lambda>_.
      rbind (get_orders (replicate n 0) (lab_start s)) (\<lambda>(_, v).
      let v = lab_assert (get_free_mem_size_from_buddy (pool v) = 0) v in
      rbind (if ok v
             then rbind (buddy_get_pages (pool v) 0) (\<lambda>(s, page). Inr (lab_assert (page = None) (v\<lparr>pool := s\<rparr>)))
             else Inr v) (\<lambda>v.
      rbind (free_every_page [0..<n] v) (\<lambda>v.
      let v = lab_assert (pool_phys_page_num (pool v) * BUDDY_PAGE_SIZE = expect_free_mem v) v
      in Inr (ok v, pool v))))))"

definition lab2_test_buddy :: "'z buddy_state_scheme \<Rightarrow> (report \<times> 'z buddy_state_scheme) outcome" where
  "lab2_test_buddy s =
     (let r1 = test_init s in
      rbind (test_invalid_order s) (\<lambda>(r2, s).
      rbind (test_order_0 s) (\<lambda>(r3, s).
      rbind (test_each_order s) (\<lambda>(r4, s).
      rbind (test_all_orders s) (\<lambda>(r5, s).
      rbind (test_all_memory s) (\<lambda>(r6, s).
      Inr ([(''Init buddy'', r1), (''Check invalid order'', r2), (''Allocate & free order 0'', r3),
            (''Allocate & free each order'', r4), (''Allocate & free all orders'', r5),
            (''Allocate & free all memory'', r6)], s)))))))"

end
