(* ===== verification/Lab_Kmalloc.thy ===== *)
theory Lab_Kmalloc
  imports Kmalloc
begin

text \<open>
  \<open>lab2_test_kmalloc\<close> of kernel/mm/kmalloc.c, the unit test the kernel runs on the general-purpose
  allocator when it boots with \<open>CHCORE_KERNEL_TEST\<close>: a small object, an array of ints that is
  written and read back, and two zeroed pages. The result is \<open>ok\<close>, the operand of its one
  \<open>lab_check\<close>, which each block hands on to the next. \<open>sizeof(int)\<close> is 4.
\<close>

definition test_object :: "nat \<Rightarrow> 'z kernel_state_scheme \<Rightarrow> 'z kernel_state_scheme run" where
  "test_object fuel s =
     fbind (kmalloc fuel s 10) (\<lambda>(s, p).
     fbind (Some (bug_on (p = 0))) (\<lambda>_.
     Some (kfree s p)))"

fun store_ints :: "u64 \<Rightarrow> nat list \<Rightarrow> 'z kernel_state_scheme \<Rightarrow> 'z kernel_state_scheme outcome" where
  "store_ints p [] s = Inr s"
| "store_ints p (i # is) s = rbind (write32 (p + of_nat i * 4) (of_nat i) s) (store_ints p is)"

fun check_ints :: "'z kernel_state_scheme \<Rightarrow> u64 \<Rightarrow> nat list \<Rightarrow> bool \<Rightarrow> bool outcome" where
  "check_ints s p [] ok = Inr ok"
| "check_ints s p (i # is) ok =
     rbind (lab_and ok (rbind (read32 s (p + of_nat i * 4)) (\<lambda>v. Inr (v = of_nat i)))) (check_ints s p is)"

definition test_array :: "nat \<Rightarrow> 'z kernel_state_scheme \<Rightarrow> bool \<Rightarrow> (bool \<times> 'z kernel_state_scheme) run" where
  "test_array fuel s ok =
     fbind (kmalloc fuel s (100 * 4)) (\<lambda>(s, p).
     fbind (Some (bug_on (p = 0))) (\<lambda>_.
     fbind (Some (store_ints p [0..<100] s)) (\<lambda>s.
     fbind (Some (check_ints s p [0..<100] ok)) (\<lambda>ok.
     fbind (Some (kfree s p)) (\<lambda>s.
     Some (Inr (ok, s)))))))"

fun check_zeros :: "'z kernel_state_scheme \<Rightarrow> u64 \<Rightarrow> nat list \<Rightarrow> bool \<Rightarrow> bool outcome" where
  "check_zeros s p [] ok = Inr ok"
| "check_zeros s p (i # is) ok =
     rbind (lab_and ok (rbind (read8 s (p + of_nat i)) (\<lambda>v. Inr (v = 0)))) (check_zeros s p is)"

definition test_zeroed :: "nat \<Rightarrow> 'z kernel_state_scheme \<Rightarrow> bool \<Rightarrow> (bool \<times> 'z kernel_state_scheme) run" where
  "test_zeroed fuel s ok =
     fbind (kzalloc fuel s 0x2000) (\<lambda>(s, p).
     fbind (Some (bug_on (p = 0))) (\<lambda>_.
     fbind (Some (check_zeros s p [0..<0x2000] ok)) (\<lambda>ok.
     fbind (Some (kfree s p)) (\<lambda>s.
     Some (Inr (ok, s))))))"

definition lab2_test_kmalloc :: "nat \<Rightarrow> 'z kernel_state_scheme \<Rightarrow> (report \<times> 'z kernel_state_scheme) run" where
  "lab2_test_kmalloc fuel s =
     fbind (test_object fuel s) (\<lambda>s.
     fbind (test_array fuel s True) (\<lambda>(ok, s).
     fbind (test_zeroed fuel s ok) (\<lambda>(ok, s).
     Some (Inr ([(''kmalloc'', ok)], s)))))"

end
