(* ===== verification/Lab_Page_Table.thy ===== *)
theory Lab_Page_Table
  imports Page_Table
begin

text \<open>
  \<open>lab2_test_page_table\<close> of kernel/arch/aarch64/mm/page_table.c, the unit test the kernel runs on
  the page tables when it boots with \<open>CHCORE_KERNEL_TEST\<close>.

  As for the test of the buddy allocator, the result is the name and the outcome of each
  \<open>lab_check\<close>. The variables \<open>pa\<close> and \<open>pte\<close> of a block are what the last query wrote; an assertion
  that is evaluated reads them only after a query that wrote them. The loops over addresses and
  the functions under test take the same fuel.
\<close>

abbreviation (input) INNER_SHAREABLE :: u64 where "INNER_SHAREABLE \<equiv> 3"
abbreviation (input) VMR_READ :: u64 where "VMR_READ \<equiv> 1"

definition test_flags :: u64 where
  "test_flags = VMR_READ OR VMR_WRITE"

text \<open>A query, then \<open>lab_assert(ret == 0 && pa == expect)\<close>; the result includes \<open>pte\<close>.\<close>

definition assert_query ::
  "'z kernel_state_scheme \<Rightarrow> u64 \<Rightarrow> u64 \<Rightarrow> u64 \<Rightarrow> bool \<Rightarrow> (bool \<times> u64 option) outcome" where
  "assert_query s pgtbl va expect ok =
     rbind (query_in_pgtbl s pgtbl va True True) (\<lambda>(ret, pa, pte).
     rbind (lab_and ok (if ret = 0 then rbind (deref pa) (\<lambda>pa. Inr (pa = expect)) else Inr False)) (\<lambda>ok.
     Inr (ok, pte)))"

text \<open>The assertions on the entry; only the first block looks at the shareability.\<close>

definition assert_page :: "bool \<Rightarrow> 'z kernel_state_scheme \<Rightarrow> u64 option \<Rightarrow> bool \<Rightarrow> bool outcome" where
  "assert_page shareable s pte ok =
     lab_and ok
       (rbind (deref pte) (\<lambda>pte.
        if pte = 0 then Inr False
        else rbind (read64 s pte) (\<lambda>e.
          Inr (get_field l3_page_layout ''is_valid'' e \<noteq> 0 \<and> get_field l3_page_layout ''is_page'' e \<noteq> 0 \<and>
            (shareable \<longrightarrow> get_field l3_page_layout ''SH'' e = INNER_SHAREABLE)))))"

definition assert_unmapped :: "'z kernel_state_scheme \<Rightarrow> u64 \<Rightarrow> u64 \<Rightarrow> bool \<Rightarrow> bool outcome" where
  "assert_unmapped s pgtbl va ok =
     rbind (query_in_pgtbl s pgtbl va True True) (\<lambda>(ret, pa, pte).
     lab_and ok (Inr (ret = - ENOMAPPING)))"

definition assert_returned :: "int \<Rightarrow> bool \<Rightarrow> bool" where
  "assert_returned ret ok \<longleftrightarrow> ok \<and> ret = 0"

subsection \<open>One page\<close>

definition test_one_page :: "nat \<Rightarrow> 'z kernel_state_scheme \<Rightarrow> (bool \<times> 'z kernel_state_scheme) run" where
  "test_one_page fuel s =
     fbind (Some (new_page_table s)) (\<lambda>(s, pgtbl).
     fbind (map_range_in_pgtbl fuel s pgtbl 0x1001000 0x1000 PAGE_SIZE test_flags) (\<lambda>(s, ret).
     fbind (Some (assert_query s pgtbl 0x1001000 0x1000 (assert_returned ret True))) (\<lambda>(ok, pte).
     fbind (Some (assert_page True s pte ok)) (\<lambda>ok.
     fbind (Some (assert_query s pgtbl 0x1001050 0x1050 ok)) (\<lambda>(ok, pte).
     fbind (unmap_range_in_pgtbl fuel s pgtbl 0x1001000 PAGE_SIZE) (\<lambda>(s, ret).
     fbind (Some (assert_unmapped s pgtbl 0x1001000 (assert_returned ret ok))) (\<lambda>ok.
     fbind (Some (free_page_table s pgtbl)) (\<lambda>s.
     Some (Inr (ok, s))))))))))"

subsection \<open>Several pages\<close>

fun query_pages :: "'z kernel_state_scheme \<Rightarrow> u64 \<Rightarrow> nat list \<Rightarrow> bool \<Rightarrow> bool outcome" where
  "query_pages s pgtbl [] ok = Inr ok"
| "query_pages s pgtbl (i # is) ok =
     rbind (assert_query s pgtbl (0x1001050 + of_nat i * PAGE_SIZE) (0x1050 + of_nat i * PAGE_SIZE) ok) (\<lambda>(ok, pte).
     rbind (assert_page False s pte ok) (query_pages s pgtbl is))"

fun unmapped_pages :: "'z kernel_state_scheme \<Rightarrow> u64 \<Rightarrow> nat list \<Rightarrow> bool \<Rightarrow> bool outcome" where
  "unmapped_pages s pgtbl [] ok = Inr ok"
| "unmapped_pages s pgtbl (i # is) ok =
     rbind (assert_unmapped s pgtbl (0x1001050 + of_nat i * PAGE_SIZE) ok) (unmapped_pages s pgtbl is)"

definition test_pages :: "nat \<Rightarrow> 'z kernel_state_scheme \<Rightarrow> (bool \<times> 'z kernel_state_scheme) run" where
  "test_pages fuel s =
     (let nr_pages = 10; len = PAGE_SIZE * of_nat nr_pages in
      fbind (Some (new_page_table s)) (\<lambda>(s, pgtbl).
      fbind (map_range_in_pgtbl fuel s pgtbl 0x1001000 0x1000 len test_flags) (\<lambda>(s, ret).
      let ok = assert_returned ret True in
      fbind (map_range_in_pgtbl fuel s pgtbl (0x1001000 + len) (0x1000 + len) len test_flags) (\<lambda>(s, ret).
      fbind (Some (query_pages s pgtbl [0..<nr_pages * 2] (assert_returned ret ok))) (\<lambda>ok.
      fbind (unmap_range_in_pgtbl fuel s pgtbl 0x1001000 len) (\<lambda>(s, ret).
      let ok = assert_returned ret ok in
      fbind (unmap_range_in_pgtbl fuel s pgtbl (0x1001000 + len) len) (\<lambda>(s, ret).
      fbind (Some (unmapped_pages s pgtbl [0..<nr_pages * 2] (assert_returned ret ok))) (\<lambda>ok.
      fbind (Some (free_page_table s pgtbl)) (\<lambda>s.
      Some (Inr (ok, s)))))))))))"

subsection \<open>A huge range\<close>

text \<open>The loops \<open>for (va = 0x100000000; va < va_end; va += 5 * PAGE_SIZE + 0x100)\<close>.\<close>

definition test_len :: u64 where
  "test_len = push_bit 30 1 + push_bit 20 4 + 10 * PAGE_SIZE"

definition scan_mapped :: "nat \<Rightarrow> 'z kernel_state_scheme \<Rightarrow> u64 \<Rightarrow> u64 \<Rightarrow> bool \<Rightarrow> (bool \<times> int) run" where
  "scan_mapped fuel s pgtbl va_end ok =
     va_loop fuel (\<lambda>ok va _.
       rbind (assert_query s pgtbl va va ok) (\<lambda>(ok, pte). Inr (ok, 5 * PAGE_SIZE + 0x100))) va_end ok 0x100000000 0"

definition scan_unmapped :: "nat \<Rightarrow> 'z kernel_state_scheme \<Rightarrow> u64 \<Rightarrow> u64 \<Rightarrow> bool \<Rightarrow> (bool \<times> int) run" where
  "scan_unmapped fuel s pgtbl va_end ok =
     va_loop fuel (\<lambda>ok va _.
       rbind (assert_unmapped s pgtbl va ok) (\<lambda>ok. Inr (ok, 5 * PAGE_SIZE + 0x100))) va_end ok 0x100000000 0"

definition test_huge_range :: "nat \<Rightarrow> 'z kernel_state_scheme \<Rightarrow> (bool \<times> 'z kernel_state_scheme) run" where
  "test_huge_range fuel s =
     (let len = test_len in
      fbind (Some (new_page_table s)) (\<lambda>(s, pgtbl).
      fbind (map_range_in_pgtbl fuel s pgtbl 0x100000000 0x100000000 len test_flags) (\<lambda>(s, ret).
      let ok = assert_returned ret True in
      fbind (map_range_in_pgtbl fuel s pgtbl (0x100000000 + len) (0x100000000 + len) len test_flags) (\<lambda>(s, ret).
      fbind (scan_mapped fuel s pgtbl (0x100000000 + len * 2) (assert_returned ret ok)) (\<lambda>(ok, _).
      fbind (unmap_range_in_pgtbl fuel s pgtbl 0x100000000 len) (\<lambda>(s, ret).
      let ok = assert_returned ret ok in
      fbind (unmap_range_in_pgtbl fuel s pgtbl (0x100000000 + len) len) (\<lambda>(s, ret).
      fbind (scan_unmapped fuel s pgtbl (0x100000000 + len) (assert_returned ret ok)) (\<lambda>(ok, _).
      fbind (Some (free_page_table s pgtbl)) (\<lambda>s.
      Some (Inr (ok, s)))))))))))"

subsection \<open>Blocks\<close>

definition test_huge_pages :: "nat \<Rightarrow> 'z kernel_state_scheme \<Rightarrow> (bool \<times> 'z kernel_state_scheme) run" where
  "test_huge_pages fuel s =
     (let len = test_len in
      fbind (Some (new_page_table s)) (\<lambda>(s, pgtbl).
      let free_mem = get_free_mem_size_from_buddy s in
      fbind (map_range_in_pgtbl_huge fuel s pgtbl 0x100000000 0x100000000 len test_flags) (\<lambda>(s, ret).
      let ok = assert_returned ret True;
          used_mem = free_mem - get_free_mem_size_from_buddy s;
          ok = (ok \<and> used_mem < PAGE_SIZE * 8) in
      fbind (scan_mapped fuel s pgtbl (0x100000000 + len) ok) (\<lambda>(ok, _).
      fbind (unmap_range_in_pgtbl_huge fuel s pgtbl 0x100000000 len) (\<lambda>(s, ret).
      fbind (scan_unmapped fuel s pgtbl (0x100000000 + len) (assert_returned ret ok)) (\<lambda>(ok, _).
      fbind (Some (free_page_table s pgtbl)) (\<lambda>s.
      Some (Inr (ok, s)))))))))"

definition lab2_test_page_table :: "nat \<Rightarrow> 'z kernel_state_scheme \<Rightarrow> (report \<times> 'z kernel_state_scheme) run" where
  "lab2_test_page_table fuel s =
     fbind (test_one_page fuel s) (\<lambda>(r1, s).
     fbind (test_pages fuel s) (\<lambda>(r2, s).
     fbind (test_huge_range fuel s) (\<lambda>(r3, s).
     fbind (test_huge_pages fuel s) (\<lambda>(r4, s).
     Some (Inr ([(''Map & unmap one page'', r1), (''Map & unmap multiple pages'', r2),
       (''Map & unmap huge range'', r3), (''Map & unmap with huge page support'', r4)], s))))))"

end
