(* ===== verification/Printk.thy ===== *)
theory Printk
  imports Prelude
begin

text \<open>
  kernel/lib/printk.c: formatted output.

  A C string is the list of its characters up to the terminating NUL; \<open>cstr\<close> cuts a buffer
  there. A \<open>char **str\<close> that is NULL sends characters to the UART, here \<open>Uart sent\<close> with the
  characters sent so far; otherwise characters are stored at \<open>**str\<close>, here \<open>Str stored\<close>, in a
  buffer of the caller's that is large enough. The variable arguments are a list of typed
  values: fetching one of another size, or one too many, is undefined. The union \<open>u\<close> of
  \<open>simple_vsprintf\<close> is its eight bytes, of which a store to a shorter member changes the low
  ones; it is not initialised, so its first contents are a parameter. The character count \<open>pc\<close>
  is an unbounded integer (an \<open>int\<close> in C, for fewer than \<open>2 ^ 31\<close> characters).
\<close>

abbreviation (input) PRINT_BUF_LEN :: nat where "PRINT_BUF_LEN \<equiv> 64"
abbreviation (input) PAD_ZERO :: int where "PAD_ZERO \<equiv> 1"
abbreviation (input) PAD_RIGHT :: int where "PAD_RIGHT \<equiv> 2"
abbreviation (input) NUL :: char where "NUL \<equiv> CHR 0x00"

subsection \<open>Characters and strings\<close>

datatype sink = Uart string | Str string

fun simple_outputchar :: "sink \<Rightarrow> char \<Rightarrow> sink" where
  "simple_outputchar (Str s) c = Str (s @ [c])"
| "simple_outputchar (Uart t) c = Uart (t @ [c])"

definition cstr :: "string \<Rightarrow> string" where
  "cstr s = takeWhile (\<lambda>c. c \<noteq> NUL) s"

function pad_loop :: "sink \<Rightarrow> int \<Rightarrow> char \<Rightarrow> int \<Rightarrow> sink \<times> int \<times> int" where
  "pad_loop out pc padchar width =
     (if 0 < width then pad_loop (simple_outputchar out padchar) (pc + 1) padchar (width - 1)
      else (out, pc, width))"
  by pat_completeness auto
termination by (relation "measure (\<lambda>(out, pc, padchar, width). nat width)") auto

declare pad_loop.simps [simp del]

fun put_string :: "sink \<Rightarrow> int \<Rightarrow> string \<Rightarrow> sink \<times> int" where
  "put_string out pc [] = (out, pc)"
| "put_string out pc (c # s) = put_string (simple_outputchar out c) (pc + 1) s"

definition prints :: "sink \<Rightarrow> string \<Rightarrow> int \<Rightarrow> int \<Rightarrow> sink \<times> int" where
  "prints out buf width flags =
     (let string = cstr buf;
          (width, padchar) =
            (if 0 < width then
               (let len = int (length string) in
                (if width \<le> len then 0 else width - len, if flags AND PAD_ZERO \<noteq> 0 then CHR ''0'' else CHR '' ''))
             else (width, CHR '' ''));
          (out, pc, width) = (if flags AND PAD_RIGHT = 0 then pad_loop out 0 padchar width else (out, 0, width));
          (out, pc) = put_string out pc string;
          (out, pc, width) = pad_loop out pc padchar width
      in (out, pc))"

subsection \<open>Integers\<close>

text \<open>
  The digits are stored from the end of \<open>print_buf\<close> towards its start: \<open>s\<close> are the characters
  between the current position and the NUL in the last cell. Storing one more when all
  63 cells before the NUL are taken would leave the buffer.
\<close>

definition push_char :: "char \<Rightarrow> string \<Rightarrow> string outcome" where
  "push_char c s = (if length s < PRINT_BUF_LEN - 1 then Inr (c # s) else Inl Undef)"

function digits_loop :: "u64 \<Rightarrow> int \<Rightarrow> int \<Rightarrow> string \<Rightarrow> string outcome" where
  "digits_loop u base letbase s =
     (if u \<noteq> 0 then
        let t = uint (u mod word_of_int base); t = (if 10 \<le> t then t + (letbase - 48 - 10) else t) in
        rbind (push_char (char_of (t + 48)) s) (\<lambda>s.
        digits_loop (u div word_of_int base) base letbase s)
      else Inr s)"
  by pat_completeness auto
termination
  by (relation "measure (\<lambda>(u, base, letbase, s). 64 - length s)") (auto simp: push_char_def split: if_splits)

declare digits_loop.simps [simp del]

definition simple_outputi :: "sink \<Rightarrow> int \<Rightarrow> int \<Rightarrow> int \<Rightarrow> int \<Rightarrow> int \<Rightarrow> int \<Rightarrow> (sink \<times> int) outcome" where
  "simple_outputi out i base sign width flags letbase =
     (if i = 0 then Inr (prints out [CHR ''0'', NUL] width flags)
      else
        let neg = (sign \<noteq> 0 \<and> base = 10 \<and> i < 0) in
        rbind (undef_if (neg \<and> i = - (2 ^ 63))) (\<lambda>_.
        let u = word_of_int (if neg then - i else i) in
        rbind (digits_loop u base letbase []) (\<lambda>s.
        if neg then
          if width \<noteq> 0 \<and> flags AND PAD_ZERO \<noteq> 0 then
            rbind (undef_if (width = - (2 ^ 31))) (\<lambda>_.
            let (out, n) = prints (simple_outputchar out (CHR ''-'')) s (width - 1) flags in Inr (out, 1 + n))
          else rbind (push_char (CHR ''-'') s) (\<lambda>s. Inr (prints out s width flags))
        else Inr (prints out s width flags))))"

subsection \<open>Arguments and the union\<close>

datatype varg = Arg32 u32 | Arg64 u64 | ArgStr u64 string

record vs_state =
  ps_out :: sink
  ps_pc :: int
  ps_ap :: "varg list"
  ps_u :: u64

text \<open>\<open>u.i = va_arg(ap, int)\<close> and the like, by the size of the member.\<close>

fun arg32 :: "vs_state \<Rightarrow> (u32 \<times> vs_state) outcome" where
  "arg32 st = (case ps_ap st of Arg32 v # ap \<Rightarrow> Inr (v, st\<lparr>ps_ap := ap\<rparr>) | _ \<Rightarrow> Inl Undef)"

fun arg64 :: "vs_state \<Rightarrow> (u64 \<times> vs_state) outcome" where
  "arg64 st = (case ps_ap st of Arg64 v # ap \<Rightarrow> Inr (v, st\<lparr>ps_ap := ap\<rparr>) | _ \<Rightarrow> Inl Undef)"

fun arg_str :: "vs_state \<Rightarrow> (u64 \<times> string \<times> vs_state) outcome" where
  "arg_str st = (case ps_ap st of ArgStr a s # ap \<Rightarrow> Inr (a, s, st\<lparr>ps_ap := ap\<rparr>) | _ \<Rightarrow> Inl Undef)"

definition store_u :: "nat \<Rightarrow> u64 \<Rightarrow> vs_state \<Rightarrow> vs_state" where
  "store_u n v st = st\<lparr>ps_u := (ps_u st AND NOT (mask n)) OR take_bit n v\<rparr>"

definition u_i :: "vs_state \<Rightarrow> int" where "u_i st = sint (ucast (ps_u st) :: u32)"
definition u_u :: "vs_state \<Rightarrow> int" where "u_u st = uint (ucast (ps_u st) :: u32)"
definition u_hi :: "vs_state \<Rightarrow> int" where "u_hi st = sint (ucast (ps_u st) :: u16)"
definition u_hhi :: "vs_state \<Rightarrow> int" where "u_hhi st = sint (ucast (ps_u st) :: u8)"
definition u_lli :: "vs_state \<Rightarrow> int" where "u_lli st = sint (ps_u st)"

definition get32 :: "nat \<Rightarrow> vs_state \<Rightarrow> vs_state outcome" where
  "get32 n st = rbind (arg32 st) (\<lambda>(v, st). Inr (store_u n (ucast v) st))"

definition get64 :: "vs_state \<Rightarrow> vs_state outcome" where
  "get64 st = rbind (arg64 st) (\<lambda>(v, st). Inr (store_u 64 v st))"

subsection \<open>Conversions\<close>

text \<open>\<open>pc += simple_outputi(...)\<close>; a 64-bit value is passed as a \<open>long long\<close>.\<close>

definition emit_int :: "(vs_state \<Rightarrow> int) \<Rightarrow> int \<Rightarrow> int \<Rightarrow> int \<Rightarrow> int \<Rightarrow> int \<Rightarrow> vs_state \<Rightarrow> vs_state outcome" where
  "emit_int val base sign width flags letbase st =
     rbind (simple_outputi (ps_out st) (val st) base sign width flags letbase) (\<lambda>(out, n).
     Inr (st\<lparr>ps_out := out, ps_pc := ps_pc st + n\<rparr>))"

definition emit_str :: "string \<Rightarrow> int \<Rightarrow> int \<Rightarrow> vs_state \<Rightarrow> vs_state" where
  "emit_str s width flags st =
     (let (out, n) = prints (ps_out st) s width flags in st\<lparr>ps_out := out, ps_pc := ps_pc st + n\<rparr>)"

definition at :: "string \<Rightarrow> char \<Rightarrow> bool" where
  "at f c \<longleftrightarrow> take 1 f = [c]"

definition conv_ll :: "vs_state \<Rightarrow> string \<Rightarrow> int \<Rightarrow> int \<Rightarrow> vs_state outcome" where
  "conv_ll st f width flags =
     (if at f (CHR ''d'') then rbind (get64 st) (emit_int u_lli 10 1 width flags 97)
      else if at f (CHR ''u'') then rbind (get64 st) (emit_int u_lli 10 0 width flags 97)
      else if at f (CHR ''x'') then rbind (get64 st) (emit_int u_lli 16 0 width flags 97)
      else if at f (CHR ''X'') then rbind (get64 st) (emit_int u_lli 16 0 width flags 65)
      else Inr st)"

definition conv_l :: "vs_state \<Rightarrow> string \<Rightarrow> int \<Rightarrow> int \<Rightarrow> (vs_state \<times> string) outcome" where
  "conv_l st f width flags =
     (if at f (CHR ''d'') then rbind (rbind (get64 st) (emit_int u_lli 10 1 width flags 97)) (\<lambda>st. Inr (st, f))
      else if at f (CHR ''u'') then rbind (rbind (get64 st) (emit_int u_lli 10 0 width flags 97)) (\<lambda>st. Inr (st, f))
      else if at f (CHR ''x'') then rbind (rbind (get64 st) (emit_int u_lli 16 0 width flags 97)) (\<lambda>st. Inr (st, f))
      else if at f (CHR ''X'') then rbind (rbind (get64 st) (emit_int u_lli 16 0 width flags 65)) (\<lambda>st. Inr (st, f))
      else if at f (CHR ''l'') then rbind (conv_ll st (tl f) width flags) (\<lambda>st. Inr (st, tl f))
      else Inr (st, f))"

text \<open>The unsigned cases store a short member and pass \<open>u.lli\<close>, all eight bytes.\<close>

definition conv_hh :: "vs_state \<Rightarrow> string \<Rightarrow> int \<Rightarrow> int \<Rightarrow> vs_state outcome" where
  "conv_hh st f width flags =
     (if at f (CHR ''d'') then rbind (get32 8 st) (emit_int u_hhi 10 1 width flags 97)
      else if at f (CHR ''u'') then rbind (get32 8 st) (emit_int u_lli 10 0 width flags 97)
      else if at f (CHR ''x'') then rbind (get32 8 st) (emit_int u_lli 16 0 width flags 97)
      else if at f (CHR ''X'') then rbind (get32 8 st) (emit_int u_lli 16 0 width flags 65)
      else Inr st)"

definition conv_h :: "vs_state \<Rightarrow> string \<Rightarrow> int \<Rightarrow> int \<Rightarrow> (vs_state \<times> string) outcome" where
  "conv_h st f width flags =
     (if at f (CHR ''d'') then rbind (rbind (get32 16 st) (emit_int u_hi 10 1 width flags 97)) (\<lambda>st. Inr (st, f))
      else if at f (CHR ''u'') then rbind (rbind (get32 16 st) (emit_int u_lli 10 0 width flags 97)) (\<lambda>st. Inr (st, f))
      else if at f (CHR ''x'') then rbind (rbind (get32 16 st) (emit_int u_lli 16 0 width flags 97)) (\<lambda>st. Inr (st, f))
      else if at f (CHR ''X'') then rbind (rbind (get32 16 st) (emit_int u_lli 16 0 width flags 65)) (\<lambda>st. Inr (st, f))
      else if at f (CHR ''h'') then rbind (conv_hh st (tl f) width flags) (\<lambda>st. Inr (st, tl f))
      else Inr (st, f))"

definition conv_c :: "vs_state \<Rightarrow> int \<Rightarrow> int \<Rightarrow> vs_state outcome" where
  "conv_c st width flags =
     rbind (get32 8 st) (\<lambda>st. Inr (emit_str [char_of (unat (ps_u st)), NUL] width flags st))"

definition conv_s :: "vs_state \<Rightarrow> int \<Rightarrow> int \<Rightarrow> vs_state outcome" where
  "conv_s st width flags =
     rbind (arg_str st) (\<lambda>(a, s, st).
     Inr (emit_str (if a \<noteq> 0 then s else ''(null)'') width flags (store_u 64 a st)))"

text \<open>The switch on the conversion character; it returns the position it stopped at.\<close>

definition conversion :: "vs_state \<Rightarrow> string \<Rightarrow> int \<Rightarrow> int \<Rightarrow> (vs_state \<times> string) outcome" where
  "conversion st f width flags =
     (if at f (CHR ''d'') then rbind (rbind (get32 32 st) (emit_int u_i 10 1 width flags 97)) (\<lambda>st. Inr (st, f))
      else if at f (CHR ''b'') then rbind (rbind (get32 32 st) (emit_int u_i 2 1 width flags 97)) (\<lambda>st. Inr (st, f))
      else if at f (CHR ''u'') then rbind (rbind (get32 32 st) (emit_int u_u 10 0 width flags 97)) (\<lambda>st. Inr (st, f))
      else if at f (CHR ''p'') then rbind (rbind (get64 st) (emit_int u_lli 16 0 width flags 97)) (\<lambda>st. Inr (st, f))
      else if at f (CHR ''x'') then rbind (rbind (get32 32 st) (emit_int u_u 16 0 width flags 97)) (\<lambda>st. Inr (st, f))
      else if at f (CHR ''X'') then rbind (rbind (get32 32 st) (emit_int u_u 16 0 width flags 65)) (\<lambda>st. Inr (st, f))
      else if at f (CHR ''c'') then rbind (conv_c st width flags) (\<lambda>st. Inr (st, f))
      else if at f (CHR ''s'') then rbind (conv_s st width flags) (\<lambda>st. Inr (st, f))
      else if at f (CHR ''l'') then conv_l st (tl f) width flags
      else if at f (CHR ''h'') then conv_h st (tl f) width flags
      else Inr (st, f))"

subsection \<open>Formats\<close>

fun skip_zeros :: "string \<Rightarrow> int \<Rightarrow> string \<times> int" where
  "skip_zeros [] flags = ([], flags)"
| "skip_zeros (c # f) flags = (if c = CHR ''0'' then skip_zeros f (flags OR PAD_ZERO) else (c # f, flags))"

definition is_digit :: "char \<Rightarrow> bool" where
  "is_digit c \<longleftrightarrow> 48 \<le> (of_char c :: int) \<and> (of_char c :: int) \<le> 57"

fun parse_width :: "string \<Rightarrow> int \<Rightarrow> (string \<times> int) outcome" where
  "parse_width [] width = Inr ([], width)"
| "parse_width (c # f) width =
     (if is_digit c then
        rbind (undef_if (2 ^ 31 \<le> width * 10 + (of_char c - 48))) (\<lambda>_.
        parse_width f (width * 10 + (of_char c - 48)))
      else Inr (c # f, width))"

definition get_width :: "vs_state \<Rightarrow> string \<Rightarrow> (vs_state \<times> string \<times> int) outcome" where
  "get_width st f =
     (if at f (CHR ''*'') then rbind (arg32 st) (\<lambda>(v, st). Inr (st, tl f, sint v))
      else rbind (parse_width f 0) (\<lambda>(f, width). Inr (st, f, width)))"

text \<open>
  What follows a \<open>%\<close>, up to the \<open>++format\<close> of the enclosing loop. When the switch stopped at
  the NUL, that increment steps past it and the loop reads beyond the string.
\<close>

definition directive :: "vs_state \<Rightarrow> string \<Rightarrow> (vs_state \<times> string) outcome" where
  "directive st f =
     (let (f, flags) = (if at f (CHR ''-'') then (tl f, PAD_RIGHT) else (f, 0));
          (f, flags) = skip_zeros f flags
      in rbind (get_width st f) (\<lambda>(st, f, width).
         rbind (conversion st f width flags) (\<lambda>(st, f).
         if f = [] then Inl Undef else Inr (st, tl f))))"

definition put_plain :: "char \<Rightarrow> vs_state \<Rightarrow> vs_state" where
  "put_plain c st =
     (let out = (if c = CHR 0x0A then simple_outputchar (ps_out st) (CHR 0x0D) else ps_out st)
      in st\<lparr>ps_out := simple_outputchar out c, ps_pc := ps_pc st + 1\<rparr>)"

lemma parse_width_length: "parse_width f w = Inr (f', w') \<Longrightarrow> length f' \<le> length f"
  by (induction f w rule: parse_width.induct) (auto simp: rbind_Inr_iff split: if_splits)

lemma skip_zeros_length: "skip_zeros f fl = (f', fl') \<Longrightarrow> length f' \<le> length f"
  by (induction f fl rule: skip_zeros.induct) (auto split: if_splits)

lemma conversion_length: "conversion st f w fl = Inr (st', f') \<Longrightarrow> length f' \<le> length f"
  unfolding conversion_def conv_l_def conv_h_def
  by (cases f) (auto simp: rbind_Inr_iff split: if_splits)

lemma directive_length: "directive st f = Inr (st', f') \<Longrightarrow> length f' < length f"
proof -
  assume d: "directive st f = Inr (st', f')"
  obtain f1 fl1 where f1: "(if at f (CHR ''-'') then (tl f, PAD_RIGHT) else (f, 0)) = (f1, fl1)" by force
  obtain f2 fl2 where f2: "skip_zeros f1 fl1 = (f2, fl2)" by force
  obtain st3 f3 w where f3: "get_width st f2 = Inr (st3, f3, w)"
    and "rbind (conversion st3 f3 w fl2) (\<lambda>(st, f). if f = [] then Inl Undef else Inr (st, tl f)) = Inr (st', f')"
    using d f1 f2 by (auto simp: directive_def rbind_Inr_iff simp del: tl_Nil split: if_splits)
  then obtain f4 where f4: "conversion st3 f3 w fl2 = Inr (st', f4)" "f4 \<noteq> []" "f' = tl f4"
    by (auto simp: rbind_Inr_iff split: if_splits)
  have "length f1 \<le> length f" using f1 by (auto split: if_splits)
  moreover have "length f3 \<le> length f2"
    using f3 parse_width_length by (fastforce simp: get_width_def rbind_Inr_iff split: if_splits)
  ultimately have "length f4 \<le> length f"
    using conversion_length [OF f4(1)] skip_zeros_length [OF f2] by linarith
  then show ?thesis using f4(2,3) by (cases f4) auto
qed

function vsprintf_loop :: "vs_state \<Rightarrow> string \<Rightarrow> vs_state outcome" where
  "vsprintf_loop st [] = Inr st"
| "vsprintf_loop st (c # f) =
     (if c = CHR ''%'' then
        if f = [] then Inr st
        else if at f (CHR ''%'') then vsprintf_loop (put_plain (CHR ''%'') st) (tl f)
        else rbind (directive st f) (\<lambda>(st, f). vsprintf_loop st f)
      else vsprintf_loop (put_plain c st) f)"
  by pat_completeness auto
termination
  by (relation "measure (\<lambda>(st, f). length f)") (auto dest: directive_length)

definition simple_vsprintf :: "sink \<Rightarrow> string \<Rightarrow> varg list \<Rightarrow> u64 \<Rightarrow> (sink \<times> int) outcome" where
  "simple_vsprintf out format ap u0 =
     rbind (vsprintf_loop \<lparr>ps_out = out, ps_pc = 0, ps_ap = ap, ps_u = u0\<rparr> (cstr format)) (\<lambda>st.
     Inr (case ps_out st of Str s \<Rightarrow> Str (s @ [NUL]) | Uart t \<Rightarrow> Uart t, ps_pc st))"

definition printk :: "string \<Rightarrow> string \<Rightarrow> varg list \<Rightarrow> u64 \<Rightarrow> string outcome" where
  "printk sent fmt ap u0 =
     rbind (simple_vsprintf (Uart sent) fmt ap u0) (\<lambda>(out, pc).
     Inr (case out of Uart t \<Rightarrow> t | Str s \<Rightarrow> sent))"

end
