(* ===== verification/Kernel_Main.thy ===== *)
theory Kernel_Main
  imports Lab_Buddy Lab_Kmalloc Lab_Page_Table Printk Uart
begin

text \<open>
  \<open>main\<close> of kernel/arch/aarch64/main.c, for a kernel built with \<open>CHCORE_KERNEL_TEST\<close> at log level
  \<open>INFO\<close>: it brings up the UART and the memory management, runs the unit tests and idles.

  What the tests compute is in Lab_Buddy, Lab_Kmalloc and Lab_Page_Table; here it is printed. A test
  prints each outcome when it has it, the model when the test is over: in between nothing else is
  printed and nothing depends on it. Warnings are left out: the code goes on from each of them
  into a BUG_ON or an access through NULL. \<open>main\<close> never returns; the result of the model is the state in
  which it enters its idle loop.
\<close>

text \<open>
  What the compiler and the linker decide: the addresses of strings, and for a check, by its name, the
  file, the line and the text of the expression. \<open>stale\<close> is what is in the uninitialised union of
  \<open>simple_vsprintf\<close>.
\<close>

record build =
  str_addr :: "string \<Rightarrow> u64"
  check_place :: "string \<Rightarrow> string \<times> u32 \<times> string"
  stale :: u64

abbreviation (input) NL :: string where "NL \<equiv> [CHR 0x0A]"

subsection \<open>Messages\<close>

definition console :: "'w mmio \<Rightarrow> build \<Rightarrow> string \<Rightarrow> varg list \<Rightarrow> 'w \<Rightarrow> 'w run" where
  "console d b fmt args w =
     fbind (Some (printk [] fmt args (stale b))) (\<lambda>text.
     map_option Inr (send_all d (map of_char text) w))"

definition kinfo :: "'w mmio \<Rightarrow> build \<Rightarrow> string \<Rightarrow> varg list \<Rightarrow> 'w \<Rightarrow> 'w run" where
  "kinfo d b fmt args w = console d b (''[INFO] '' @ fmt) args w"

definition lab_check :: "'w mmio \<Rightarrow> build \<Rightarrow> bool \<Rightarrow> string \<Rightarrow> 'w \<Rightarrow> 'w run" where
  "lab_check d b expr test_name w =
     (let arg = (\<lambda>s. ArgStr (str_addr b s) s) in
      if expr then console d b (''[TEST] %s: OK'' @ NL) [arg test_name] w
      else (case check_place b test_name of (file, line, text) \<Rightarrow>
        console d b (''[TEST] %s: FAIL, loc: %s:%d, expr: %s'' @ NL) [arg test_name, arg file, Arg32 line, arg text] w))"

fun lab_checks :: "'w mmio \<Rightarrow> build \<Rightarrow> report \<Rightarrow> 'w \<Rightarrow> 'w run" where
  "lab_checks d b [] w = Some (Inr w)"
| "lab_checks d b ((test_name, passed) # rs) w = fbind (lab_check d b passed test_name w) (lab_checks d b rs)"

subsection \<open>Initialisation of the memory management, with the buddy test\<close>

definition mm_init_tested ::
  "'w mmio \<Rightarrow> build \<Rightarrow> u64 \<Rightarrow> 'z kernel_state_scheme \<times> 'w \<Rightarrow> ('z kernel_state_scheme \<times> 'w) run"
where
  "mm_init_tested d b img_end = (\<lambda>(s, w).
     let (first, last) = physmem_map (parse_mem_map img_end s) in
     fbind (kinfo d b (''physmem_map: [0x%lx, 0x%lx)'' @ NL) [Arg64 first, Arg64 last] w) (\<lambda>w.
     fbind (Some (mm_init_buddy img_end s)) (\<lambda>s.
     fbind (Some (lab2_test_buddy s)) (\<lambda>(report, s).
     fbind (lab_checks d b report w) (\<lambda>w.
     fbind (console d b (''[TEST] Buddy tests finished'' @ NL) [] w) (\<lambda>w.
     fbind (Some (init_slab s)) (\<lambda>s.
     Some (Inr (s, w)))))))))"

subsection \<open>main\<close>

text \<open>\<open>pc\<close> is the program counter that \<open>lab2_test_kernel_vaddr\<close> reads with an \<open>adr\<close> instruction.\<close>

definition lab2_test_kernel_vaddr :: "'w mmio \<Rightarrow> build \<Rightarrow> u64 \<Rightarrow> 'w \<Rightarrow> 'w run" where
  "lab2_test_kernel_vaddr d b pc w = lab_check d b (KBASE \<le> pc) ''Jump to kernel high memory'' w"

definition main ::
  "nat \<Rightarrow> 'w mmio \<Rightarrow> build \<Rightarrow> u64 \<Rightarrow> u64 \<Rightarrow> 'z kernel_state_scheme \<times> 'w \<Rightarrow> ('z kernel_state_scheme \<times> 'w) run"
where
  "main fuel d b img_end pc = (\<lambda>(s, w).
     fbind (map_option Inr (uart_init d w)) (\<lambda>w.
     fbind (kinfo d b (''[ChCore] uart init finished'' @ NL) [] w) (\<lambda>w.
     fbind (lab2_test_kernel_vaddr d b pc w) (\<lambda>w.
     fbind (mm_init_tested d b img_end (s, w)) (\<lambda>(s, w).
     fbind (kinfo d b (''[ChCore] mm init finished'' @ NL) [] w) (\<lambda>w.
     fbind (lab2_test_kmalloc fuel s) (\<lambda>(report, s).
     fbind (lab_checks d b report w) (\<lambda>w.
     fbind (lab2_test_page_table fuel s) (\<lambda>(report, s).
     fbind (lab_checks d b report w) (\<lambda>w.
     fbind (console d b (''[TEST] Page table tests finished'' @ NL) [] w) (\<lambda>w.
     Some (Inr (s, w)))))))))))))"

end
