(* ===== verification/Kernel_Boot.thy ===== *)
theory Kernel_Boot
  imports Arm_Mmu Kernel_Main
begin

text \<open>
  head.S: \<open>start_kernel\<close>, where the boot code and the kernel meet. The boot code has left a physical
  memory, a UART and the system registers; the kernel sees memory and the UART through the MMU, a
  parameter (see Arm_Mmu), whose translation depends on all of them. The stack, and the core number in
  \<open>tpidr_el1\<close>, which nothing here reads, are left out.
\<close>

text \<open>
  What the linker decides: the end of the image and the array \<open>slabs\<close>, in physical memory, and the
  address that the \<open>adr\<close> instruction in \<open>lab2_test_kernel_vaddr\<close> reads, its own.
\<close>

record kernel_image =
  image_end :: u64
  slabs_addr :: u64
  main_pc :: u64

subsection \<open>What the kernel sees\<close>

fun load_array :: "memory \<Rightarrow> u64 \<Rightarrow> nat \<Rightarrow> u64 list outcome" where
  "load_array m a 0 = Inr []"
| "load_array m a (Suc n) = rbind (load64 m a) (\<lambda>v. rbind (load_array m (a + 8) n) (\<lambda>vs. Inr (v # vs)))"

text \<open>
  The kernel's state at its entry. The twelve elements of \<open>slabs\<close>, which the C code initialises with
  NULL by leaving them to \<open>clear_bss\<close>, are what is in memory. The rest of its variables, \<open>g\<close>, may
  have any value. Its memory is the normal memory that follows the image: the image, with the boot tables
  and the stacks, is not in it, so that an access to them is undefined in the model.
\<close>

definition kernel_at_entry :: "mmu \<Rightarrow> kernel_image \<Rightarrow> kernel_state \<Rightarrow> 'w boot_state \<Rightarrow> kernel_state outcome" where
  "kernel_at_entry mmu ki g s =
     rbind (load_array (boot_mem s) (slabs_addr ki) 12) (\<lambda>vs.
     Inr (g\<lparr>mem := (\<lambda>va. case mmu (sys s) (boot_mem s) va of
          Some t \<Rightarrow> if image_end ki \<le> t_addr t \<and> \<not> device_attr (t_attr t) then boot_mem s (t_addr t) else None
        | None \<Rightarrow> None),
       slabs := (\<lambda>k. if k < 12 then vs ! k else 0)\<rparr>))"

text \<open>
  The UART behind the MMU. What happens when a register is accessed through an address that is not mapped
  to it as device memory is left open: it is what \<open>bad\<close> does.
\<close>

definition mapped_device :: "mmu \<Rightarrow> 'w mmio \<Rightarrow> 'w mmio \<Rightarrow> 'w boot_state \<Rightarrow> 'w mmio" where
  "mapped_device mmu d bad s =
     (let reg = (\<lambda>va. case mmu (sys s) (boot_mem s) va of
          Some t \<Rightarrow> if device_attr (t_attr t) then Some (t_addr t) else None
        | None \<Rightarrow> None)
      in \<lparr>mmio.get32 = (\<lambda>va. case reg va of Some pa \<Rightarrow> mmio.get32 d pa | None \<Rightarrow> mmio.get32 bad va),
          put32 = (\<lambda>va. case reg va of Some pa \<Rightarrow> put32 d pa | None \<Rightarrow> put32 bad va)\<rparr>)"

definition executable :: "mmu \<Rightarrow> 'w boot_state \<Rightarrow> u64 \<Rightarrow> bool" where
  "executable mmu s va \<longleftrightarrow>
     (case mmu (sys s) (boot_mem s) va of Some t \<Rightarrow> t_exec t \<and> \<not> device_attr (t_attr t) | None \<Rightarrow> False)"

subsection \<open>start_kernel\<close>

text \<open>\<open>bl main\<close> needs the code to be there. \<open>main\<close> does not use the boot flag.\<close>

definition start_kernel ::
  "nat \<Rightarrow> mmu \<Rightarrow> 'w mmio \<Rightarrow> 'w mmio \<Rightarrow> build \<Rightarrow> kernel_image \<Rightarrow> kernel_state \<Rightarrow> u64 \<Rightarrow> 'w boot_state \<Rightarrow>
    (sys_regs \<times> kernel_state \<times> 'w) run"
where
  "start_kernel fuel mmu d bad b ki g boot_flag s =
     (let x2 = 0;
          s = s\<lparr>sys := (sys s)\<lparr>ttbr0_el1 := x2\<rparr>\<rparr> in
     fbind (Some (undef_if (\<not> executable mmu s (main_pc ki)))) (\<lambda>_.
     fbind (Some (kernel_at_entry mmu ki g s)) (\<lambda>k.
     fbind (main fuel (mapped_device mmu d bad s) b (image_end ki) (main_pc ki) (k, uart_dev s)) (\<lambda>(k, w).
     Some (Inr (sys s, k, w))))))"

end
