(* ===== verification/Printk_Props.thy ===== *)
theory Printk_Props
  imports Printk
begin

text \<open>
  What \<open>printk\<close> prints: a reference for padding and for numerals, the output of the number
  printer on every branch, plain text, the class of formats that cannot go wrong, and the
  conversions that print something else than asked.
\<close>

subsection \<open>Output and padding\<close>

fun sink_append :: "sink \<Rightarrow> string \<Rightarrow> sink" where
  "sink_append (Uart t) s = Uart (t @ s)"
| "sink_append (Str t) s = Str (t @ s)"

lemma outputchar_append: "simple_outputchar out c = sink_append out [c]"
  by (cases out) simp_all

lemma sink_append_append [simp]: "sink_append (sink_append out s) t = sink_append out (s @ t)"
  by (cases out) simp_all

lemma sink_append_Nil [simp]: "sink_append out [] = out"
  by (cases out) simp_all

text \<open>A field: \<open>s\<close> padded to \<open>width\<close>, on the left unless the flag \<open>PAD_RIGHT\<close> is set.\<close>

definition field :: "int \<Rightarrow> int \<Rightarrow> string \<Rightarrow> string" where
  "field width flags s =
     (let pad = replicate (nat (width - int (length s))) (if flags AND PAD_ZERO \<noteq> 0 then CHR ''0'' else CHR '' '')
      in if flags AND PAD_RIGHT = 0 then pad @ s else s @ pad)"

lemma pad_loop_eq:
  "pad_loop out pc c w = (sink_append out (replicate (nat w) c), pc + int (nat w), min w 0)"
proof (induction out pc c w rule: pad_loop.induct)
  case (1 out pc c w)
  show ?case
  proof (cases "0 < w")
    case True
    have "nat w = Suc (nat (w - 1))" using True by simp
    then show ?thesis using True 1 by (simp add: pad_loop.simps [of out] outputchar_append)
  qed (simp add: pad_loop.simps [of out])
qed

lemma put_string_eq: "put_string out pc s = (sink_append out s, pc + int (length s))"
  by (induction s arbitrary: out pc) (simp_all add: outputchar_append)

lemma prints_eq:
  "prints out s width flags = (sink_append out (field width flags (cstr s)), int (length (field width flags (cstr s))))"
proof (cases "0 < width")
  case True
  then show ?thesis
    by (auto simp: prints_def pad_loop_eq put_string_eq field_def Let_def min_def split: if_splits)
next
  case False
  have "nat (width - int n) = 0" for n using False by simp
  with False show ?thesis by (simp add: prints_def pad_loop_eq put_string_eq field_def min_def Let_def)
qed

subsection \<open>Numerals\<close>

definition digit :: "int \<Rightarrow> nat \<Rightarrow> char" where
  "digit letbase t = char_of (if t < 10 then int t + 48 else int t - 10 + letbase)"

function numeral_text :: "int \<Rightarrow> nat \<Rightarrow> nat \<Rightarrow> string" where
  "numeral_text letbase b n =
     (if b < 2 \<or> n < b then [digit letbase n]
      else numeral_text letbase b (n div b) @ [digit letbase (n mod b)])"
  by pat_completeness auto
termination by (relation "measure (\<lambda>(l, b, n). n)") auto

declare numeral_text.simps [simp del]

lemma numeral_text_length:
  "2 \<le> b \<Longrightarrow> b ^ (length (numeral_text l b n) - 1) \<le> max 1 n \<and> n < b ^ length (numeral_text l b n) \<and>
   0 < length (numeral_text l b n)"
proof (induction l b n rule: numeral_text.induct)
  case (1 l b n)
  show ?case
  proof (cases "n < b")
    case True
    then show ?thesis using 1 by (simp add: numeral_text.simps [of l b n])
  next
    case False
    let ?k = "length (numeral_text l b (n div b))"
    have IH: "b ^ (?k - 1) \<le> max 1 (n div b)" "n div b < b ^ ?k" "0 < ?k" using 1 False by auto
    have len: "length (numeral_text l b n) = Suc ?k" using False 1(2) by (simp add: numeral_text.simps [of l b n])
    have "0 < n div b" using False 1(2) by (simp add: div_greater_zero_iff)
    then have "b ^ (?k - 1) * b \<le> n div b * b" using IH(1) by (intro mult_le_mono1) simp
    also have "\<dots> \<le> n" by simp
    finally have "b ^ ?k \<le> n" using IH(3) by (cases ?k) (simp_all add: mult.commute)
    moreover have "n < b ^ Suc ?k" using IH(2) 1(2) by (simp add: div_less_iff_less_mult mult.commute)
    ultimately show ?thesis unfolding len by simp
  qed
qed

lemma digits_loop_eq:
  assumes b: "2 \<le> b" "b \<le> 16"
  shows "0 < unat u \<Longrightarrow> digits_loop u (int b) letbase s =
    (if length (numeral_text letbase b (unat u)) + length s \<le> 63 then Inr (numeral_text letbase b (unat u) @ s) else Inl Undef)"
proof (induction "unat u" arbitrary: u s rule: less_induct)
  case less
  have ub: "unat (of_nat b :: u64) = b" using b by (simp add: unat_of_nat_less)
  have m: "unat (u mod of_nat b) = unat u mod b" "unat (u div of_nat b) = unat u div b"
    by (simp_all add: unat_mod unat_div ub)
  then have um: "uint (u mod of_nat b) = int (unat u mod b)" by (metis of_nat_unat)
  have step: "digits_loop u (int b) letbase s =
      rbind (push_char (digit letbase (unat u mod b)) s) (\<lambda>s. digits_loop (u div of_nat b) (int b) letbase s)"
  proof -
    have "u \<noteq> 0" using less.prems by auto
    moreover have "10 \<le> int (unat u mod b) \<longleftrightarrow> \<not> unat u mod b < 10" by linarith
    ultimately show ?thesis unfolding digits_loop.simps [of u] Let_def of_int_of_nat_eq um
      by (simp add: digit_def algebra_simps del: of_nat_mod of_nat_unat)
  qed
  show ?case
  proof (cases "unat u < b")
    case True
    then have "u div of_nat b = 0" using m(2) by (simp add: word_unat_eq_iff)
    then show ?thesis using True unfolding step
      by (simp add: numeral_text.simps [of letbase b "unat u"] push_char_def digits_loop.simps [of 0])
  next
    case False
    have n: "numeral_text letbase b (unat u) = numeral_text letbase b (unat u div b) @ [digit letbase (unat u mod b)]"
      using False b by (simp add: numeral_text.simps [of letbase b "unat u"])
    have "0 < unat u div b" using False b by (simp add: div_greater_zero_iff)
    moreover have "unat u div b < unat u" using less.prems b by simp
    ultimately have IH: "digits_loop (u div of_nat b) (int b) letbase s' =
        (if length (numeral_text letbase b (unat u div b)) + length s' \<le> 63
         then Inr (numeral_text letbase b (unat u div b) @ s') else Inl Undef)" for s'
      using less.hyps [of "u div of_nat b" s'] m(2) by simp
    have "0 < length (numeral_text letbase b (unat u div b))" using numeral_text_length [OF b(1)] by blast
    then show ?thesis unfolding step n by (auto simp: push_char_def IH)
  qed
qed

lemma digit_not_NUL: "t < 16 \<Longrightarrow> letbase = 65 \<or> letbase = 97 \<Longrightarrow> digit letbase t \<noteq> NUL"
proof -
  assume t: "t < 16" and l: "letbase = 65 \<or> letbase = 97"
  let ?c = "if t < 10 then int t + 48 else int t - 10 + letbase"
  have r: "0 < ?c" "?c < 256" using t l by auto
  then have "(of_char (digit letbase t) :: int) = ?c" unfolding digit_def by (simp add: of_char_of del: of_int_of_nat_eq)
  then show ?thesis using r(1) by auto
qed

lemma numeral_text_chars:
  assumes "2 \<le> b" "b \<le> 16" "letbase = 65 \<or> letbase = 97"
  shows "NUL \<notin> set (numeral_text letbase b n)"
  using assms
proof (induction letbase b n rule: numeral_text.induct)
  case (1 l b n)
  have "n mod b < b" using 1(2) by simp
  then have "n mod b < 16" "n < b \<Longrightarrow> n < 16" using 1(3) by linarith+
  then have "digit l (n mod b) \<noteq> NUL" "n < b \<Longrightarrow> digit l n \<noteq> NUL"
    using digit_not_NUL [OF _ 1(4)] by blast+
  then show ?case using 1 unfolding numeral_text.simps [of l b n] by auto
qed

lemma cstr_id: "NUL \<notin> set s \<Longrightarrow> cstr s = s"
  unfolding cstr_def by (rule takeWhile_eq_all_conv [THEN iffD2]) auto

lemma numeral_text_fits:
  assumes "n < 2 ^ 64" "b = 10 \<or> b = 16 \<or> b = 2 \<and> n < 2 ^ 63"
  shows "length (numeral_text l b n) \<le> (if b = 10 then 20 else 63)"
proof (rule ccontr)
  let ?k = "length (numeral_text l b n)"
  assume big: "\<not> ?thesis"
  have le: "b ^ (?k - 1) \<le> max 1 n" using numeral_text_length [of b l n] assms(2) by auto
  consider "b = 10" "20 \<le> ?k - 1" | "b = 16" "63 \<le> ?k - 1" | "b = 2" "63 \<le> ?k - 1" "n < 2 ^ 63"
    using assms(2) big by fastforce
  then show False
  proof cases
    case 1
    have "(10 :: nat) ^ 20 \<le> 10 ^ (?k - 1)" using 1(2) by (rule power_increasing) simp
    then have "(10 :: nat) ^ 20 \<le> max 1 n" using le 1(1) by simp
    then show False using assms(1) by simp
  next
    case 2
    have "(16 :: nat) ^ 63 \<le> 16 ^ (?k - 1)" using 2(2) by (rule power_increasing) simp
    then have "(16 :: nat) ^ 63 \<le> max 1 n" using le 2(1) by simp
    then show False using assms(1) by simp
  next
    case 3
    have "(2 :: nat) ^ 63 \<le> 2 ^ (?k - 1)" using 3(2) by (rule power_increasing) simp
    then have "(2 :: nat) ^ 63 \<le> max 1 n" using le 3(1) by simp
    then show False using 3(3) by simp
  qed
qed

subsection \<open>The number printer\<close>

text \<open>The text of a number in a field: with zero padding the sign comes before the padding.\<close>

definition magnitude :: "int \<Rightarrow> int \<Rightarrow> int \<Rightarrow> nat" where
  "magnitude i base sign = unat (word_of_int (if sign \<noteq> 0 \<and> base = 10 \<and> i < 0 then - i else i) :: u64)"

definition int_field :: "int \<Rightarrow> int \<Rightarrow> int \<Rightarrow> int \<Rightarrow> int \<Rightarrow> int \<Rightarrow> string" where
  "int_field i base sign width flags letbase =
     (let digits = numeral_text letbase (nat base) (magnitude i base sign)
      in if sign \<noteq> 0 \<and> base = 10 \<and> i < 0 then
           if width \<noteq> 0 \<and> flags AND PAD_ZERO \<noteq> 0 then CHR ''-'' # field (width - 1) flags digits
           else field width flags (CHR ''-'' # digits)
         else field width flags digits)"

lemma magnitude_pos:
  assumes "i \<noteq> 0" "- (2 ^ 63) \<le> i" "i < 2 ^ 63"
  shows "0 < magnitude i base sign"
proof -
  define j where "j = (if sign \<noteq> 0 \<and> base = 10 \<and> i < 0 then - i else i)"
  have j: "j \<noteq> 0" "- (2 ^ 63) \<le> j" "j \<le> 2 ^ 63" using assms by (auto simp: j_def)
  have "(word_of_int j :: u64) \<noteq> 0"
  proof
    assume "(word_of_int j :: u64) = 0"
    then have "2 ^ 64 dvd j" by (simp add: word_of_int_eq_0_iff)
    then show False using j zdvd_imp_le [of "2 ^ 64" j] zdvd_imp_le [of "2 ^ 64" "- j"] by (cases "0 < j") auto
  qed
  then show ?thesis unfolding magnitude_def j_def [symmetric] by (simp add: unat_gt_0)
qed

lemma simple_outputi_eq:
  assumes base: "base = 10 \<or> base = 16 \<or> base = 2 \<and> 0 \<le> i" and lb: "letbase = 65 \<or> letbase = 97"
    and i: "- (2 ^ 63) \<le> i" "i < 2 ^ 63" and neg: "sign \<noteq> 0 \<Longrightarrow> base = 10 \<Longrightarrow> i \<noteq> - (2 ^ 63)"
    and w: "- (2 ^ 31) < width"
  shows "simple_outputi out i base sign width flags letbase =
    (let t = int_field i base sign width flags letbase in Inr (sink_append out t, int (length t)))"
proof (cases "i = 0")
  case True
  have "numeral_text letbase (nat base) 0 = [CHR ''0'']"
  proof -
    have "char_of (48 :: int) = CHR ''0''" by code_simp
    then show ?thesis using base by (auto simp: numeral_text.simps [of _ _ 0] digit_def)
  qed
  then show ?thesis using True
    by (simp add: simple_outputi_def prints_eq int_field_def magnitude_def cstr_def Let_def)
next
  case False
  define neg where "neg = (sign \<noteq> 0 \<and> base = 10 \<and> i < 0)"
  define u where "u = (word_of_int (if neg then - i else i) :: u64)"
  define ds where "ds = numeral_text letbase (nat base) (unat u)"
  have mag: "magnitude i base sign = unat u" by (simp add: magnitude_def u_def neg_def)
  have b: "base = int (nat base)" "2 \<le> nat base" "nat base \<le> 16" using base by auto
  have "0 < magnitude i base sign" by (rule magnitude_pos [OF False]) (use i in simp_all)
  then have "0 < unat u" unfolding mag .
  moreover have len: "length ds \<le> (if nat base = 10 then 20 else 63)"
    unfolding ds_def
  proof (rule numeral_text_fits)
    show "unat u < 2 ^ 64" by (rule order_less_le_trans [OF unsigned_less]) simp
    have "unat u < 2 ^ 63" if "0 \<le> i" "\<not> neg"
    proof -
      have "\<exists>n. i = int n" using that(1) by (rule zero_le_imp_eq_int)
      then obtain n where n: "i = int n" ..
      have u: "u = of_nat n" using that(2) by (simp add: u_def n)
      have n63: "n < 2 ^ 63" using i(2) unfolding n by simp
      then have "unat u = n" unfolding u by (intro unat_of_nat_less) simp
      then show ?thesis using n63 by simp
    qed
    then show "nat base = 10 \<or> nat base = 16 \<or> nat base = 2 \<and> unat u < 2 ^ 63"
      using base by (auto simp: neg_def)
  qed
  ultimately have d: "digits_loop u base letbase [] = Inr ds"
    using digits_loop_eq [OF b(2,3), of u letbase "[]"] b(1) by (auto simp: ds_def split: if_splits)
  have nn: "NUL \<notin> set ds" unfolding ds_def by (rule numeral_text_chars [OF b(2,3) lb])
  then have c: "cstr ds = ds" "cstr (CHR ''-'' # ds) = CHR ''-'' # ds" by (simp_all add: cstr_id)
  have "neg \<Longrightarrow> push_char (CHR ''-'') ds = Inr (CHR ''-'' # ds)" using len by (simp add: push_char_def neg_def)
  moreover have "\<not> (neg \<and> i = - (2 ^ 63))" using neg unfolding neg_def by blast
  ultimately show ?thesis
    using False w d c
    unfolding simple_outputi_def neg_def [symmetric] u_def [symmetric] Let_def int_field_def mag ds_def [symmetric]
    by (auto simp: prints_eq outputchar_append)
qed

lemma simple_outputi_overflow:
  assumes "i < 0" "- (2 ^ 63) \<le> i" "letbase = 65 \<or> letbase = 97"
  shows "simple_outputi out i 2 sign width flags letbase = Inl Undef"
proof -
  let ?u = "word_of_int i :: u64"
  have "uint ?u = i + 2 ^ 64"
  proof -
    have "uint ?u = (i + 2 ^ 64) mod 2 ^ 64" by (simp add: uint_word_of_int)
    also have "\<dots> = i + 2 ^ 64" using assms(1,2) by (intro mod_pos_pos_trivial) simp_all
    finally show ?thesis .
  qed
  then have "unat ?u = nat (i + 2 ^ 64)" by (simp add: unat_eq_nat_uint)
  then have big: "2 ^ 63 \<le> unat ?u" using assms(1,2) by simp
  then have pos: "0 < unat ?u" by (rule less_le_trans [rotated]) simp
  have "63 < length (numeral_text letbase 2 (unat ?u))"
  proof (rule ccontr)
    assume "\<not> 63 < length (numeral_text letbase 2 (unat ?u))"
    then have "(2 :: nat) ^ length (numeral_text letbase 2 (unat ?u)) \<le> 2 ^ 63" by (intro power_increasing) simp_all
    then show False using big numeral_text_length [of 2 letbase "unat ?u"] by simp
  qed
  then have "digits_loop ?u 2 letbase [] = Inl Undef"
    using digits_loop_eq [of 2, OF _ _ pos, of letbase "[]"] by simp
  then show ?thesis using assms(1) by (simp add: simple_outputi_def)
qed

subsection \<open>Reading numerals back\<close>

definition digit_value :: "int \<Rightarrow> char \<Rightarrow> nat" where
  "digit_value letbase c = (if (of_char c :: nat) < 58 then of_char c - 48 else of_char c - nat letbase + 10)"

definition read_nat :: "int \<Rightarrow> nat \<Rightarrow> string \<Rightarrow> nat" where
  "read_nat letbase b s = fold (\<lambda>c n. n * b + digit_value letbase c) s 0"

definition read_int :: "int \<Rightarrow> nat \<Rightarrow> string \<Rightarrow> int" where
  "read_int letbase b s = (if at s (CHR ''-'') then - int (read_nat letbase b (tl s)) else int (read_nat letbase b s))"

lemma digit_value_digit:
  assumes "t < 16" "letbase = 65 \<or> letbase = 97"
  shows "digit_value letbase (digit letbase t) = t" "digit letbase t \<noteq> CHR ''-''"
proof -
  have "digit_value 65 (digit 65 t) = t \<and> digit 65 t \<noteq> CHR ''-'' \<and> digit_value 97 (digit 97 t) = t \<and> digit 97 t \<noteq> CHR ''-''"
    if "t \<in> set [0..<16]" for t
  proof -
    have "t \<in> {0, 1, 2, 3, 4, 5, 6, 7, 8, 9, 10, 11, 12, 13, 14, 15}"
      using that by (simp only: set_upt atLeastLessThan_iff insert_iff empty_iff) presburger
    then show ?thesis by (elim insertE emptyE; hypsubst; code_simp)
  qed
  then have "digit_value 65 (digit 65 t) = t \<and> digit 65 t \<noteq> CHR ''-'' \<and> digit_value 97 (digit 97 t) = t \<and> digit 97 t \<noteq> CHR ''-''"
    using assms(1) by simp
  then show "digit_value letbase (digit letbase t) = t" "digit letbase t \<noteq> CHR ''-''" using assms(2) by auto
qed

lemma read_numeral_text:
  assumes "2 \<le> b" "b \<le> 16" "letbase = 65 \<or> letbase = 97"
  shows "read_nat letbase b (numeral_text letbase b n) = n \<and> \<not> at (numeral_text letbase b n) (CHR ''-'')"
  using assms
proof (induction letbase b n rule: numeral_text.induct)
  case (1 l b n)
  have m: "n mod b < 16" using mod_less_divisor [of b n] 1(2,3) by linarith
  show ?case
  proof (cases "n < b")
    case True
    then have "n < 16" using 1(3) by simp
    note d = digit_value_digit [OF this 1(4)]
    show ?thesis using True d by (simp add: numeral_text.simps [of l b n] read_nat_def at_def)
  next
    case False
    let ?s = "numeral_text l b (n div b)"
    have IH: "read_nat l b ?s = n div b" "\<not> at ?s (CHR ''-'')" using 1 False by auto
    have ne: "?s \<noteq> []" using numeral_text_length [OF 1(2), of l "n div b"] by auto
    have s: "numeral_text l b n = ?s @ [digit l (n mod b)]" using False 1(2) by (simp add: numeral_text.simps [of l b n])
    have "read_nat l b (numeral_text l b n) = n div b * b + n mod b"
      using IH(1) digit_value_digit(1) [OF m 1(4)] unfolding s by (simp add: read_nat_def)
    moreover have "\<not> at (numeral_text l b n) (CHR ''-'')" using IH(2) ne unfolding s by (cases ?s) (simp_all add: at_def)
    ultimately show ?thesis by simp
  qed
qed

lemma field_0 [simp]: "field 0 0 s = s"
  by (simp add: field_def)

lemma read_int_field:
  assumes "- (2 ^ 63) < i" "i < 2 ^ 63"
  shows "read_int 97 10 (int_field i 10 1 0 0 97) = i"
proof -
  obtain n where n: "magnitude i 10 1 = n" by simp
  have v: "int n = \<bar>i\<bar>"
  proof -
    obtain k where k: "\<bar>i\<bar> = int k" using zero_le_imp_eq_int [of "\<bar>i\<bar>"] by auto
    have "k < 2 ^ 64" using k assms by simp
    then have "unat (of_nat k :: u64) = k" by (rule unat_of_nat_less)
    moreover have "(if i < 0 then - i else i) = int k" using k by auto
    ultimately have "magnitude i 10 1 = k" by (simp add: magnitude_def)
    with n k show ?thesis by simp
  qed
  note r = read_numeral_text [of 10 97 n, simplified]
  show ?thesis
    using r v by (auto simp: int_field_def n read_int_def Let_def at_def)
qed

subsection \<open>Formats that cannot go wrong\<close>

text \<open>
  The types of the arguments a format asks for, \<open>None\<close> when it ends inside a conversion, has
  an unknown one or a width that is no \<open>int\<close>. \<open>TyInt\<close> is an int or unsigned int, \<open>TyNat\<close> one
  that is not negative (for \<open>%b\<close>), \<open>TyWidth\<close> one above \<open>INT_MIN\<close>, \<open>TyLong\<close> a 64-bit value,
  \<open>TySLong\<close> one other than \<open>LLONG_MIN\<close>.
\<close>

datatype argty = TyInt | TyNat | TyWidth | TyLong | TySLong | TyStr

fun has_type :: "varg \<Rightarrow> argty \<Rightarrow> bool" where
  "has_type (Arg32 v) TyInt \<longleftrightarrow> True"
| "has_type (Arg32 v) TyNat \<longleftrightarrow> 0 \<le> sint v"
| "has_type (Arg32 v) TyWidth \<longleftrightarrow> - (2 ^ 31) < sint v"
| "has_type (Arg64 v) TyLong \<longleftrightarrow> True"
| "has_type (Arg64 v) TySLong \<longleftrightarrow> - (2 ^ 63) < sint v"
| "has_type (ArgStr a s) TyStr \<longleftrightarrow> True"
| "has_type _ _ \<longleftrightarrow> False"

fun args_ok :: "varg list \<Rightarrow> argty list \<Rightarrow> bool" where
  "args_ok ap [] \<longleftrightarrow> True"
| "args_ok (a # ap) (t # ts) \<longleftrightarrow> has_type a t \<and> args_ok ap ts"
| "args_ok [] (t # ts) \<longleftrightarrow> False"

fun lookup_char :: "string \<Rightarrow> (char \<times> argty) list \<Rightarrow> argty option" where
  "lookup_char [] L = None"
| "lookup_char (c # f) L = map_of L c"

definition conversion_type :: "string \<Rightarrow> (argty \<times> string) option" where
  "conversion_type f =
     (let ints = [(CHR ''d'', TyInt), (CHR ''u'', TyInt), (CHR ''x'', TyInt), (CHR ''X'', TyInt)];
          longs = [(CHR ''d'', TySLong), (CHR ''u'', TyLong), (CHR ''x'', TyLong), (CHR ''X'', TyLong)];
          L = (if at f (CHR ''l'') then if at (tl f) (CHR ''l'') then Some (longs, tl (tl f)) else Some (longs, tl f)
               else if at f (CHR ''h'') then if at (tl f) (CHR ''h'') then Some (ints, tl (tl f)) else Some (ints, tl f)
               else Some ((CHR ''b'', TyNat) # (CHR ''p'', TyLong) # (CHR ''c'', TyInt) # (CHR ''s'', TyStr) # ints, f))
      in case L of None \<Rightarrow> None | Some (L, f) \<Rightarrow> map_option (\<lambda>t. (t, tl f)) (lookup_char f L))"

definition directive_type :: "string \<Rightarrow> (argty list \<times> string) option" where
  "directive_type f =
     (let f = fst (skip_zeros (if at f (CHR ''-'') then tl f else f) 0)
      in if at f (CHR ''*'') then map_option (\<lambda>(t, g). ([TyWidth, t], g)) (conversion_type (tl f))
         else case parse_width f 0 of
           Inl e \<Rightarrow> None
         | Inr (f, width) \<Rightarrow> map_option (\<lambda>(t, g). ([t], g)) (conversion_type f))"

lemma has_typeE:
  assumes "has_type a t"
  shows "t = TyInt \<or> t = TyNat \<or> t = TyWidth \<Longrightarrow> \<exists>v. a = Arg32 v" "t = TyLong \<or> t = TySLong \<Longrightarrow> \<exists>v. a = Arg64 v"
    "t = TyStr \<Longrightarrow> \<exists>p s. a = ArgStr p s"
  using assms by (cases "(a, t)" rule: has_type.cases; auto)+

lemma val_ranges:
  "- (2 ^ 63) < u_i st \<and> u_i st < 2 ^ 63" "- (2 ^ 63) < u_u st \<and> u_u st < 2 ^ 63"
  "- (2 ^ 63) < u_hi st \<and> u_hi st < 2 ^ 63" "- (2 ^ 63) < u_hhi st \<and> u_hhi st < 2 ^ 63"
  "- (2 ^ 63) \<le> u_lli st \<and> u_lli st < 2 ^ 63"
  using sint_ge [of "ucast (ps_u st) :: u32"] sint_lt [of "ucast (ps_u st) :: u32"]
    less_le_trans [OF _ uint_ge_0, of "- (2 ^ 63)" "ucast (ps_u st) :: u32"] unsigned_less [of "ucast (ps_u st) :: u32", where ?'a = int]
    sint_ge [of "ucast (ps_u st) :: u16"] sint_lt [of "ucast (ps_u st) :: u16"]
    sint_ge [of "ucast (ps_u st) :: u8"] sint_lt [of "ucast (ps_u st) :: u8"]
    sint_ge [of "ps_u st"] sint_lt [of "ps_u st"]
  by (simp_all add: u_i_def u_u_def u_hi_def u_hhi_def u_lli_def)

lemma emit_int_ok:
  assumes "base = 10 \<or> base = 16 \<or> base = 2 \<and> 0 \<le> val st" "letbase = 65 \<or> letbase = 97"
    and "- (2 ^ 63) \<le> val st \<and> val st < 2 ^ 63" "sign \<noteq> 0 \<Longrightarrow> base = 10 \<Longrightarrow> val st \<noteq> - (2 ^ 63)" "- (2 ^ 31) < width"
  shows "emit_int val base sign width flags letbase st =
    (let t = int_field (val st) base sign width flags letbase
     in Inr (st\<lparr>ps_out := sink_append (ps_out st) t, ps_pc := ps_pc st + int (length t)\<rparr>))"
proof -
  have "simple_outputi (ps_out st) (val st) base sign width flags letbase =
    (let t = int_field (val st) base sign width flags letbase in Inr (sink_append (ps_out st) t, int (length t)))"
    by (rule simple_outputi_eq) (use assms in auto)
  then show ?thesis by (simp add: emit_int_def Let_def)
qed

lemma get32_ok:
  assumes "ps_ap st = Arg32 v # ap"
  shows "get32 n st = Inr (store_u n (ucast v) (st\<lparr>ps_ap := ap\<rparr>))"
  using assms by (simp add: get32_def)

lemma get64_ok:
  assumes "ps_ap st = Arg64 v # ap"
  shows "get64 st = Inr (st\<lparr>ps_ap := ap, ps_u := v\<rparr>)"
proof -
  have "(mask 64 :: u64) = - 1" by (rule bit_word_eqI) (simp add: bit_simps)
  then have "store_u 64 v st' = st'\<lparr>ps_u := v\<rparr>" for st' by (simp add: store_u_def take_bit_word_eq_self)
  then show ?thesis using assms by (simp add: get64_def)
qed

lemma store_u_sel [simp]: "ps_ap (store_u n v st) = ps_ap st" "ps_out (store_u n v st) = ps_out st"
  by (simp_all add: store_u_def)

lemma u_i_store: "u_i (store_u 32 (ucast v) st) = sint (v :: u32)"
proof -
  have "(ucast ((ps_u st AND NOT (mask 32)) OR take_bit 32 (ucast v :: u64)) :: u32) = v"
    by (rule bit_word_eqI) (auto simp: bit_simps)
  then show ?thesis by (simp add: u_i_def store_u_def)
qed

lemma at_simps [simp]: "at (c # f) d \<longleftrightarrow> c = d" "\<not> at [] d"
  by (simp_all add: at_def)

lemma emit_int_ex:
  assumes "base = 10 \<or> base = 16 \<or> base = 2 \<and> 0 \<le> val st" "letbase = 65 \<or> letbase = 97"
    and "- (2 ^ 63) \<le> val st \<and> val st < 2 ^ 63" "sign \<noteq> 0 \<Longrightarrow> base = 10 \<Longrightarrow> val st \<noteq> - (2 ^ 63)" "- (2 ^ 31) < width"
    and "ps_ap st = ap"
  shows "\<exists>st'. emit_int val base sign width flags letbase st = Inr st' \<and> ps_ap st' = ap"
  using emit_int_ok [of base val st, OF assms(1-5)] assms(6) by (simp add: Let_def)

text \<open>The integer conversions, by the member they read.\<close>

lemma emit32_ok:
  assumes "ps_ap st = a # ap" "has_type a TyInt" "- (2 ^ 31) < width" "letbase = 65 \<or> letbase = 97" "base = 10 \<or> base = 16"
    and "val \<in> {u_i, u_u, u_hi, u_hhi} \<or> val = u_lli \<and> sign = 0"
  shows "\<exists>st'. rbind (get32 n st) (emit_int val base sign width flags letbase) = Inr st' \<and> ps_ap st' = ap"
proof -
  obtain v where v: "a = Arg32 v" using has_typeE(1) [OF assms(2)] by auto
  let ?st = "store_u n (ucast v) (st\<lparr>ps_ap := ap\<rparr>)"
  have r: "- (2 ^ 63) \<le> val ?st \<and> val ?st < 2 ^ 63" and nz: "sign \<noteq> 0 \<Longrightarrow> val ?st \<noteq> - (2 ^ 63)"
    using assms(6) val_ranges [of ?st] by auto
  have b: "base = 10 \<or> base = 16 \<or> base = 2 \<and> 0 \<le> val ?st" using assms(5) by blast
  have "\<exists>st'. emit_int val base sign width flags letbase ?st = Inr st' \<and> ps_ap st' = ap"
    by (rule emit_int_ex [where val = val, OF b assms(4) r nz assms(3)]) simp_all
  then show ?thesis using get32_ok [of st v ap n] assms(1) v by simp
qed

lemma emit64_ok:
  assumes "ps_ap st = a # ap" "has_type a (if sign \<noteq> 0 then TySLong else TyLong)" "- (2 ^ 31) < width"
    and "letbase = 65 \<or> letbase = 97" "base = 10 \<or> base = 16"
  shows "\<exists>st'. rbind (get64 st) (emit_int u_lli base sign width flags letbase) = Inr st' \<and> ps_ap st' = ap"
proof -
  have "\<exists>v. a = Arg64 v" by (rule has_typeE(2) [OF assms(2)]) simp
  then obtain v where v: "a = Arg64 v" ..
  let ?st = "st\<lparr>ps_ap := ap, ps_u := v\<rparr>"
  have u: "u_lli ?st = sint v" by (simp add: u_lli_def)
  have nz: "sign \<noteq> 0 \<Longrightarrow> u_lli ?st \<noteq> - (2 ^ 63)" using assms(2) v unfolding u by (auto split: if_splits)
  have b: "base = 10 \<or> base = 16 \<or> base = 2 \<and> 0 \<le> u_lli ?st" using assms(5) by blast
  have "\<exists>st'. emit_int u_lli base sign width flags letbase ?st = Inr st' \<and> ps_ap st' = ap"
    by (rule emit_int_ex [where val = u_lli, OF b assms(4) val_ranges(5) nz assms(3)]) simp_all
  then show ?thesis using get64_ok [of st v ap] assms(1) v by simp
qed

lemma emit_b_ok:
  assumes "ps_ap st = a # ap" "has_type a TyNat" "- (2 ^ 31) < width"
  shows "\<exists>st'. rbind (get32 32 st) (emit_int u_i 2 1 width flags 97) = Inr st' \<and> ps_ap st' = ap"
proof -
  obtain v where v: "a = Arg32 v" "0 \<le> sint v" using has_typeE(1) [OF assms(2)] assms(2) by auto
  let ?st = "store_u 32 (ucast v) (st\<lparr>ps_ap := ap\<rparr>)"
  have "\<exists>st'. emit_int u_i 2 1 width flags 97 ?st = Inr st' \<and> ps_ap st' = ap"
    by (intro emit_int_ex) (use assms(3) v(2) val_ranges(1) [of ?st] in \<open>simp_all add: u_i_store\<close>)
  then show ?thesis using get32_ok [of st v ap 32] assms(1) v(1) by simp
qed

lemma emit_str_ap [simp]: "ps_ap (emit_str s w fl st) = ps_ap st"
  by (simp add: emit_str_def prints_eq)

lemma conv_c_ok:
  assumes "ps_ap st = a # ap" "has_type a TyInt"
  shows "\<exists>st'. conv_c st w fl = Inr st' \<and> ps_ap st' = ap"
  using has_typeE(1) [OF assms(2)] get32_ok [of st _ ap 8] assms(1) by (auto simp: conv_c_def)

lemma conv_s_ok:
  assumes "ps_ap st = a # ap" "has_type a TyStr"
  shows "\<exists>st'. conv_s st w fl = Inr st' \<and> ps_ap st' = ap"
  using has_typeE(3) [OF assms(2)] assms(1) by (auto simp: conv_s_def)

lemma lookup_char_Some:
  "lookup_char f L = Some t \<longleftrightarrow> (\<exists>c g. f = c # g \<and> map_of L c = Some t)"
  by (cases f) auto

lemma rbind_pair:
  "\<exists>st'. X = Inr st' \<and> ps_ap st' = ap \<Longrightarrow> \<exists>st'. rbind X (\<lambda>st. Inr (st, f)) = Inr (st', f) \<and> ps_ap st' = ap"
  by auto

lemma conv_ll_ok:
  assumes "lookup_char f [(CHR ''d'', TySLong), (CHR ''u'', TyLong), (CHR ''x'', TyLong), (CHR ''X'', TyLong)] = Some t"
    and "ps_ap st = a # ap" "has_type a t" "- (2 ^ 31) < w"
  shows "\<exists>st'. conv_ll st f w fl = Inr st' \<and> ps_ap st' = ap"
proof -
  obtain c g where f: "f = c # g" using assms(1) by (cases f) auto
  show ?thesis
    using assms(1,3) emit64_ok [OF assms(2), of 1 w 97 10] emit64_ok [OF assms(2), of 0 w 97 10]
      emit64_ok [OF assms(2), of 0 w 97 16] emit64_ok [OF assms(2), of 0 w 65 16] assms(4)
    by (auto simp: conv_ll_def f split: if_splits)
qed

lemma conv_l_ok:
  assumes "lookup_char f [(CHR ''d'', TySLong), (CHR ''u'', TyLong), (CHR ''x'', TyLong), (CHR ''X'', TyLong)] = Some t"
    and "ps_ap st = a # ap" "has_type a t" "- (2 ^ 31) < w"
  shows "\<exists>st'. conv_l st f w fl = Inr (st', f) \<and> ps_ap st' = ap"
proof -
  obtain c g where f: "f = c # g" using assms(1) by (cases f) auto
  show ?thesis
    using assms(1,3) emit64_ok [OF assms(2), of 1 w 97 10] emit64_ok [OF assms(2), of 0 w 97 10]
      emit64_ok [OF assms(2), of 0 w 97 16] emit64_ok [OF assms(2), of 0 w 65 16] assms(4)
    by (auto simp: conv_l_def f split: if_splits intro!: rbind_pair)
qed

lemma conv_hh_ok:
  assumes "lookup_char f [(CHR ''d'', TyInt), (CHR ''u'', TyInt), (CHR ''x'', TyInt), (CHR ''X'', TyInt)] = Some t"
    and "ps_ap st = a # ap" "has_type a t" "- (2 ^ 31) < w"
  shows "\<exists>st'. conv_hh st f w fl = Inr st' \<and> ps_ap st' = ap"
proof -
  obtain c g where f: "f = c # g" using assms(1) by (cases f) auto
  have t: "has_type a TyInt" using assms(1,3) f by (auto split: if_splits)
  show ?thesis
    using assms(1) emit32_ok [OF assms(2) t assms(4)] by (auto simp: conv_hh_def f split: if_splits)
qed

lemma conv_h_ok:
  assumes "lookup_char f [(CHR ''d'', TyInt), (CHR ''u'', TyInt), (CHR ''x'', TyInt), (CHR ''X'', TyInt)] = Some t"
    and "ps_ap st = a # ap" "has_type a t" "- (2 ^ 31) < w"
  shows "\<exists>st'. conv_h st f w fl = Inr (st', f) \<and> ps_ap st' = ap"
proof -
  obtain c g where f: "f = c # g" using assms(1) by (cases f) auto
  have t: "has_type a TyInt" using assms(1,3) f by (auto split: if_splits)
  show ?thesis
    using assms(1) emit32_ok [OF assms(2) t assms(4)] by (auto simp: conv_h_def f split: if_splits intro!: rbind_pair)
qed

lemma conversion_ok:
  assumes ty: "conversion_type f = Some (t, g)" and ap: "ps_ap st = a # ap" "has_type a t" and w: "- (2 ^ 31) < w"
  shows "\<exists>st' f'. conversion st f w fl = Inr (st', f') \<and> f' \<noteq> [] \<and> tl f' = g \<and> ps_ap st' = ap"
proof -
  have ne: "lookup_char f' L = Some t \<Longrightarrow> f' \<noteq> []" for f' L by auto
  obtain c f1 where f: "f = c # f1" using ty by (cases f) (auto simp: conversion_type_def at_def)
  consider (ll) "c = CHR ''l''" "at f1 (CHR ''l'')" | (l) "c = CHR ''l''" "\<not> at f1 (CHR ''l'')"
    | (hh) "c = CHR ''h''" "at f1 (CHR ''h'')" | (h) "c = CHR ''h''" "\<not> at f1 (CHR ''h'')"
    | (plain) "c \<noteq> CHR ''l''" "c \<noteq> CHR ''h''" by blast
  then show ?thesis
  proof cases
    case ll
    have L: "lookup_char (tl f1) [(CHR ''d'', TySLong), (CHR ''u'', TyLong), (CHR ''x'', TyLong), (CHR ''X'', TyLong)] = Some t"
      "g = tl (tl f1)" using ty ll by (auto simp: conversion_type_def f)
    obtain st' where "conv_ll st (tl f1) w fl = Inr st'" "ps_ap st' = ap" using conv_ll_ok [OF L(1) ap w] by blast
    then show ?thesis using ll ne [OF L(1)] L(2) by (cases f1) (auto simp: conversion_def conv_l_def f)
  next
    case l
    have L: "lookup_char f1 [(CHR ''d'', TySLong), (CHR ''u'', TyLong), (CHR ''x'', TyLong), (CHR ''X'', TyLong)] = Some t"
      "g = tl f1" using ty l by (auto simp: conversion_type_def f)
    obtain st' where "conv_l st f1 w fl = Inr (st', f1)" "ps_ap st' = ap" using conv_l_ok [OF L(1) ap w] by blast
    then show ?thesis using l ne [OF L(1)] L(2) by (auto simp: conversion_def f)
  next
    case hh
    have L: "lookup_char (tl f1) [(CHR ''d'', TyInt), (CHR ''u'', TyInt), (CHR ''x'', TyInt), (CHR ''X'', TyInt)] = Some t"
      "g = tl (tl f1)" using ty hh by (auto simp: conversion_type_def f)
    obtain st' where "conv_hh st (tl f1) w fl = Inr st'" "ps_ap st' = ap" using conv_hh_ok [OF L(1) ap w] by blast
    then show ?thesis using hh ne [OF L(1)] L(2) by (cases f1) (auto simp: conversion_def conv_h_def f)
  next
    case h
    have L: "lookup_char f1 [(CHR ''d'', TyInt), (CHR ''u'', TyInt), (CHR ''x'', TyInt), (CHR ''X'', TyInt)] = Some t"
      "g = tl f1" using ty h by (auto simp: conversion_type_def f)
    obtain st' where "conv_h st f1 w fl = Inr (st', f1)" "ps_ap st' = ap" using conv_h_ok [OF L(1) ap w] by blast
    then show ?thesis using h ne [OF L(1)] L(2) by (auto simp: conversion_def f)
  next
    case plain
    have g: "g = f1" and L: "map_of ((CHR ''b'', TyNat) # (CHR ''p'', TyLong) # (CHR ''c'', TyInt) # (CHR ''s'', TyStr) #
        [(CHR ''d'', TyInt), (CHR ''u'', TyInt), (CHR ''x'', TyInt), (CHR ''X'', TyInt)]) c = Some t"
    proof -
      let ?L = "(CHR ''b'', TyNat) # (CHR ''p'', TyLong) # (CHR ''c'', TyInt) # (CHR ''s'', TyStr) #
        [(CHR ''d'', TyInt), (CHR ''u'', TyInt), (CHR ''x'', TyInt), (CHR ''X'', TyInt)]"
      have m: "map_option (\<lambda>t. (t, f1)) X = Some (t, g) \<Longrightarrow> g = f1 \<and> X = Some t" for X by (cases X) auto
      have "conversion_type f = map_option (\<lambda>t. (t, f1)) (map_of ?L c)"
        unfolding conversion_type_def f using plain by (simp del: map_of.simps)
      then have "g = f1 \<and> map_of ?L c = Some t" using ty by (intro m) (rule trans [OF sym])
      then show "g = f1" "map_of ?L c = Some t" by (rule conjunct1, rule conjunct2)
    qed
    from L have "c = CHR ''b'' \<and> t = TyNat \<or> c = CHR ''p'' \<and> t = TyLong \<or> c = CHR ''c'' \<and> t = TyInt \<or>
        c = CHR ''s'' \<and> t = TyStr \<or> c = CHR ''d'' \<and> t = TyInt \<or> c = CHR ''u'' \<and> t = TyInt \<or>
        c = CHR ''x'' \<and> t = TyInt \<or> c = CHR ''X'' \<and> t = TyInt"
      by (simp split: if_splits)
    moreover have "\<exists>st'. rbind (get32 32 st) (emit_int v base 1 w fl lb) = Inr st' \<and> ps_ap st' = ap"
      "\<exists>st'. rbind (get32 32 st) (emit_int v base 0 w fl lb) = Inr st' \<and> ps_ap st' = ap"
      if "t = TyInt" "v \<in> {u_i, u_u}" "base = 10 \<or> base = 16" "lb = 65 \<or> lb = 97" for v base lb
      using emit32_ok [OF ap(1) _ w that(4,3), of v] that(1,2) ap(2) by auto
    moreover have "\<exists>st'. conv_c st w fl = Inr st' \<and> ps_ap st' = ap" if "t = TyInt"
      by (rule conv_c_ok [OF ap(1)]) (use ap(2) that in simp)
    moreover have "\<exists>st'. rbind (get32 32 st) (emit_int u_i 2 1 w fl 97) = Inr st' \<and> ps_ap st' = ap" if "t = TyNat"
      by (rule emit_b_ok [OF ap(1) _ w]) (use ap(2) that in simp)
    moreover have "\<exists>st'. rbind (get64 st) (emit_int u_lli 16 0 w fl 97) = Inr st' \<and> ps_ap st' = ap" if "t = TyLong"
      by (rule emit64_ok [OF ap(1) _ w]) (use ap(2) that in simp_all)
    moreover have "\<exists>st'. conv_s st w fl = Inr st' \<and> ps_ap st' = ap" if "t = TyStr"
      by (rule conv_s_ok [OF ap(1)]) (use ap(2) that in simp)
    ultimately have "\<exists>st'. conversion st f w fl = Inr (st', f) \<and> ps_ap st' = ap"
      by (elim disjE conjE; simp add: conversion_def f rbind_pair del: ex_simps)
    then show ?thesis using g f by auto
  qed
qed

lemma skip_zeros_fst: "fst (skip_zeros f fl) = fst (skip_zeros f 0)"
  by (induction f arbitrary: fl) (simp, metis fst_conv skip_zeros.simps(2))

lemma parse_width_nonneg: "parse_width f w = Inr (g, v) \<Longrightarrow> 0 \<le> w \<Longrightarrow> 0 \<le> v"
  by (induction f w rule: parse_width.induct) (auto simp: rbind_Inr_iff is_digit_def split: if_splits)

lemma directive_ok:
  assumes ty: "directive_type f = Some (ts, g)" and ap: "args_ok (ps_ap st) (ts @ us)"
  shows "\<exists>st'. directive st f = Inr (st', g) \<and> args_ok (ps_ap st') us"
proof -
  obtain f1 fl1 where f1: "(if at f (CHR ''-'') then (tl f, PAD_RIGHT) else (f, 0)) = (f1, fl1)" by force
  then have f1': "(if at f (CHR ''-'') then tl f else f) = f1" by (auto split: if_splits)
  obtain f2 fl2 where f2: "skip_zeros f1 fl1 = (f2, fl2)" by force
  then have f2': "fst (skip_zeros f1 0) = f2" using skip_zeros_fst [of f1 fl1] by simp
  have start: "directive st f = rbind (get_width st f2) (\<lambda>(st, f, width).
         rbind (conversion st f width fl2) (\<lambda>(st, f). if f = [] then Inl Undef else Inr (st, tl f)))"
    unfolding directive_def f1 using f2 by simp
  have step: "\<exists>st'. rbind (conversion st1 f3 w fl2) (\<lambda>(st, f). if f = [] then Inl Undef else Inr (st, tl f)) = Inr (st', g) \<and>
      args_ok (ps_ap st') us"
    if c: "conversion_type f3 = Some (t, g)" "args_ok (ps_ap st1) (t # us)" "- (2 ^ 31) < w" for st1 f3 w t
  proof -
    obtain a ap where a: "ps_ap st1 = a # ap" "has_type a t" "args_ok ap us" using c(2) by (cases "ps_ap st1") auto
    obtain st' f' where "conversion st1 f3 w fl2 = Inr (st', f')" "f' \<noteq> []" "tl f' = g" "ps_ap st' = ap"
      using conversion_ok [OF c(1) a(1,2) c(3)] by blast
    then show ?thesis using a(3) by simp
  qed
  show ?thesis
  proof (cases "at f2 (CHR ''*'')")
    case True
    then obtain t where t: "conversion_type (tl f2) = Some (t, g)" "ts = [TyWidth, t]"
      using ty unfolding directive_type_def f1' f2' by auto
    obtain a ap where a: "ps_ap st = a # ap" "has_type a TyWidth" "args_ok ap (t # us)"
      using ap t(2) by (cases "ps_ap st") auto
    obtain v where v: "a = Arg32 v" "- (2 ^ 31) < sint v" using has_typeE(1) [OF a(2)] a(2) by auto
    have gw: "get_width st f2 = Inr (st\<lparr>ps_ap := ap\<rparr>, tl f2, sint v)" using True a(1) v(1) by (simp add: get_width_def)
    show ?thesis using step [OF t(1), of "st\<lparr>ps_ap := ap\<rparr>" "sint v"] a(3) v(2) unfolding start gw by simp
  next
    case False
    then obtain f3 w t where t: "parse_width f2 0 = Inr (f3, w)" "conversion_type f3 = Some (t, g)" "ts = [t]"
      using ty unfolding directive_type_def f1' f2' by (auto split: sum.splits)
    have gw: "get_width st f2 = Inr (st, f3, w)" using False t(1) by (simp add: get_width_def)
    have "0 \<le> w" using parse_width_nonneg [OF t(1)] by simp
    then show ?thesis using step [OF t(2), of st w] ap t(3) unfolding start gw by simp
  qed
qed

lemma conversion_type_length: "conversion_type f = Some (t, g) \<Longrightarrow> length g \<le> length f"
  unfolding conversion_type_def Let_def
  by (auto split: if_splits option.splits)

lemma directive_type_length: "directive_type f = Some (ts, g) \<Longrightarrow> length g \<le> length f"
proof -
  assume d: "directive_type f = Some (ts, g)"
  define f1 where "f1 = (if at f (CHR ''-'') then tl f else f)"
  obtain f2 fl2 where f2: "skip_zeros f1 0 = (f2, fl2)" by force
  have "length f1 \<le> length f" by (simp add: f1_def)
  then have l: "length f2 \<le> length f" using skip_zeros_length [OF f2] by simp
  have d': "(if at f2 (CHR ''*'') then map_option (\<lambda>(t, g). ([TyWidth, t], g)) (conversion_type (tl f2))
         else case parse_width f2 0 of Inl e \<Rightarrow> None
         | Inr (f, width) \<Rightarrow> map_option (\<lambda>(t, g). ([t], g)) (conversion_type f)) = Some (ts, g)"
    using d unfolding directive_type_def f1_def [symmetric] f2 by simp
  show ?thesis
  proof (cases "at f2 (CHR ''*'')")
    case True
    then obtain t where "conversion_type (tl f2) = Some (t, g)" using d' by auto
    from conversion_type_length [OF this] l show ?thesis by simp
  next
    case False
    then obtain f3 w t where "parse_width f2 0 = Inr (f3, w)" "conversion_type f3 = Some (t, g)"
      using d' by (auto split: sum.splits)
    then show ?thesis using conversion_type_length [of f3 t g] parse_width_length [of f2 0 f3 w] l by simp
  qed
qed

function format_types :: "string \<Rightarrow> argty list option" where
  "format_types [] = Some []"
| "format_types (c # f) =
     (if c = CHR ''%'' then
        if f = [] then Some []
        else if at f (CHR ''%'') then format_types (tl f)
        else case directive_type f of
          None \<Rightarrow> None
        | Some (ts, g) \<Rightarrow> map_option (\<lambda>us. ts @ us) (format_types g)
      else format_types f)"
  by pat_completeness auto
termination
  by (relation "measure length") (auto dest: directive_type_length)

lemma vsprintf_loop_ok:
  "format_types f = Some ts \<Longrightarrow> args_ok (ps_ap st) ts \<Longrightarrow> \<exists>st'. vsprintf_loop st f = Inr st'"
proof (induction f arbitrary: st ts rule: format_types.induct)
  case 1
  then show ?case by simp
next
  case (2 c f)
  have put_plain_ap: "ps_ap (put_plain d st) = ps_ap st" for d by (simp add: put_plain_def Let_def)
  consider (plain) "c \<noteq> CHR ''%''" | (nul) "c = CHR ''%''" "f = []" | (percent) "c = CHR ''%''" "f \<noteq> []" "at f (CHR ''%'')"
    | (dir) "c = CHR ''%''" "f \<noteq> []" "\<not> at f (CHR ''%'')" by blast
  then show ?case
  proof cases
    case plain
    then show ?thesis using 2(3) [of ts "put_plain c st"] 2(4,5) put_plain_ap by simp
  next
    case nul
    then show ?thesis by simp
  next
    case percent
    then show ?thesis using 2(1) [OF percent, of ts "put_plain (CHR ''%'') st"] 2(4,5) put_plain_ap by simp
  next
    case dir
    then obtain us g vs where d: "directive_type f = Some (us, g)" "format_types g = Some vs" "ts = us @ vs"
      using 2(4) by (auto split: option.splits)
    obtain st' where st': "directive st f = Inr (st', g)" "args_ok (ps_ap st') vs"
      using directive_ok [OF d(1), of st vs] 2(5) d(3) by auto
    then show ?thesis using 2(2) [OF dir d(1) refl d(2) st'(2)] dir by simp
  qed
qed

subsection \<open>Output only grows\<close>

lemma simple_outputi_appends:
  "simple_outputi out i base sign width flags letbase = Inr (out', n) \<Longrightarrow> \<exists>t. out' = sink_append out t"
  by (auto simp: simple_outputi_def rbind_Inr_iff prints_eq outputchar_append Let_def split: if_splits)

definition grows :: "vs_state \<Rightarrow> vs_state \<Rightarrow> bool" where
  "grows st st' \<longleftrightarrow> (\<exists>t. ps_out st' = sink_append (ps_out st) t)"

lemma grows_same: "ps_out st' = ps_out st \<Longrightarrow> grows st st'"
  unfolding grows_def by (rule exI [of _ "[]"]) simp

lemma grows_trans: "grows st st1 \<Longrightarrow> grows st1 st2 \<Longrightarrow> grows st st2"
  by (auto simp: grows_def)

lemma emit_int_grows: "emit_int v base sign w fl lb st = Inr st' \<Longrightarrow> grows st st'"
  using simple_outputi_appends by (auto simp: emit_int_def grows_def rbind_Inr_iff)

lemma emit_str_grows: "grows st (emit_str s w fl st)"
  by (auto simp: emit_str_def prints_eq grows_def)

lemma get32_grows: "get32 n st = Inr st' \<Longrightarrow> grows st st'"
  by (rule grows_same) (auto simp: get32_def rbind_Inr_iff split: list.splits varg.splits)

lemma get64_grows: "get64 st = Inr st' \<Longrightarrow> grows st st'"
  by (rule grows_same) (auto simp: get64_def rbind_Inr_iff split: list.splits varg.splits)

lemma rbind_grows:
  assumes "rbind X f = Inr st'" "\<And>z. X = Inr z \<Longrightarrow> grows st z" "\<And>z. f z = Inr st' \<Longrightarrow> grows z st'"
  shows "grows st st'"
proof -
  obtain z where z: "X = Inr z" "f z = Inr st'" using assms(1) by (rule rbind_InrE)
  show ?thesis by (rule grows_trans [OF assms(2) [OF z(1)] assms(3) [OF z(2)]])
qed

lemma get_emit_grows:
  "rbind (get32 n st) (emit_int v base sign w fl lb) = Inr st' \<Longrightarrow> grows st st'"
  "rbind (get64 st) (emit_int v base sign w fl lb) = Inr st' \<Longrightarrow> grows st st'"
proof -
  show "grows st st'" if "rbind (get32 n st) (emit_int v base sign w fl lb) = Inr st'"
    by (rule rbind_grows [OF that]) (erule get32_grows, erule emit_int_grows)
  show "grows st st'" if "rbind (get64 st) (emit_int v base sign w fl lb) = Inr st'"
    by (rule rbind_grows [OF that]) (erule get64_grows, erule emit_int_grows)
qed

lemma conv_c_grows: "conv_c st w fl = Inr st' \<Longrightarrow> grows st st'"
  unfolding conv_c_def by (erule rbind_grows, erule get32_grows) (use emit_str_grows in auto)

lemma conv_s_grows: "conv_s st w fl = Inr st' \<Longrightarrow> grows st st'"
proof -
  assume "conv_s st w fl = Inr st'"
  then obtain a s st1 where "arg_str st = Inr (a, s, st1)"
    "st' = emit_str (if a \<noteq> 0 then s else ''(null)'') w fl (store_u 64 a st1)"
    by (auto simp: conv_s_def elim!: rbind_InrE simp del: arg_str.simps)
  moreover from this(1) have "ps_out st1 = ps_out st" by (auto split: list.splits varg.splits)
  ultimately show ?thesis
    using grows_trans [OF grows_same [of "store_u 64 a st1" st] emit_str_grows] by simp
qed

lemma pair_grows: "rbind X (\<lambda>st. Inr (st, f)) = Inr (st', f') \<Longrightarrow> (\<And>z. X = Inr z \<Longrightarrow> grows st z) \<Longrightarrow> grows st st'"
  by (cases X) auto

lemma conv_ll_grows: "conv_ll st f w fl = Inr st' \<Longrightarrow> grows st st'"
  unfolding conv_ll_def by (auto split: if_splits elim: get_emit_grows intro: grows_same)

lemma conv_hh_grows: "conv_hh st f w fl = Inr st' \<Longrightarrow> grows st st'"
  unfolding conv_hh_def by (auto split: if_splits elim: get_emit_grows intro: grows_same)

lemma conv_l_grows: "conv_l st f w fl = Inr (st', f') \<Longrightarrow> grows st st'"
  unfolding conv_l_def
  by (auto split: if_splits elim!: pair_grows elim: get_emit_grows conv_ll_grows intro: grows_same)

lemma conv_h_grows: "conv_h st f w fl = Inr (st', f') \<Longrightarrow> grows st st'"
  unfolding conv_h_def
  by (auto split: if_splits elim!: pair_grows elim: get_emit_grows conv_hh_grows intro: grows_same)

lemma conversion_grows: "conversion st f w fl = Inr (st', f') \<Longrightarrow> grows st st'"
  unfolding conversion_def
  by (auto split: if_splits elim!: pair_grows
      elim: get_emit_grows conv_l_grows conv_h_grows conv_c_grows conv_s_grows intro: grows_same)

lemma get_width_grows: "get_width st f = Inr (st', f', w) \<Longrightarrow> grows st st'"
  by (rule grows_same) (auto simp: get_width_def rbind_Inr_iff split: if_splits list.splits varg.splits)

lemma directive_grows: "directive st f = Inr (st', f') \<Longrightarrow> grows st st'"
proof -
  assume d: "directive st f = Inr (st', f')"
  obtain f1 fl1 where f1: "(if at f (CHR ''-'') then (tl f, PAD_RIGHT) else (f, 0)) = (f1, fl1)" by force
  obtain f2 fl2 where f2: "skip_zeros f1 fl1 = (f2, fl2)" by force
  have "rbind (get_width st f2) (\<lambda>(st, f, width).
         rbind (conversion st f width fl2) (\<lambda>(st, f). if f = [] then Inl Undef else Inr (st, tl f))) = Inr (st', f')"
    using d unfolding directive_def f1 using f2 by simp
  then obtain st1 f3 w f4 where "get_width st f2 = Inr (st1, f3, w)" "conversion st1 f3 w fl2 = Inr (st', f4)"
    by (auto elim!: rbind_InrE split: if_splits)
  then show ?thesis using grows_trans [OF get_width_grows conversion_grows] by blast
qed

lemma vsprintf_loop_grows: "vsprintf_loop st f = Inr st' \<Longrightarrow> grows st st'"
proof (induction st f rule: vsprintf_loop.induct)
  case (1 st)
  then show ?case by (simp add: grows_same)
next
  case (2 st c f)
  have p: "grows st (put_plain d st)" for d by (auto simp: put_plain_def grows_def outputchar_append Let_def)
  show ?case
  proof (cases "c = CHR ''%'' \<and> f \<noteq> [] \<and> \<not> at f (CHR ''%'')")
    case True
    then obtain st1 g where d: "directive st f = Inr (st1, g)" "vsprintf_loop st1 g = Inr st'"
      using 2(4) by (auto elim!: rbind_InrE)
    have "grows st1 st'" using 2(2) True d by blast
    then show ?thesis by (rule grows_trans [OF directive_grows [OF d(1)]])
  next
    case False
    then show ?thesis
      using 2(1,3,4) p by (auto split: if_splits intro: grows_same grows_trans)
  qed
qed

subsection \<open>The guarantees of the printer\<close>

lemma simple_vsprintf_Uart:
  "vsprintf_loop \<lparr>ps_out = Uart t, ps_pc = 0, ps_ap = ap, ps_u = u0\<rparr> (cstr fmt) = Inr st' \<Longrightarrow>
   \<exists>out. ps_out st' = Uart (t @ out)"
  using vsprintf_loop_grows [of _ "cstr fmt" st'] by (fastforce simp: grows_def)

text \<open>C28: a format of the types of its arguments cannot go wrong: \<open>printk\<close> returns, and what was
  sent before stays in front of what it sends, whatever the union held at the start.\<close>

theorem printk_type_sound:
  assumes "format_types (cstr fmt) = Some ts" "args_ok args ts"
  shows "\<exists>out. printk sent fmt args u0 = Inr (sent @ out)"
proof -
  let ?st = "\<lparr>ps_out = Uart sent, ps_pc = 0, ps_ap = args, ps_u = u0\<rparr>"
  obtain st' where st': "vsprintf_loop ?st (cstr fmt) = Inr st'"
    using vsprintf_loop_ok [OF assms(1), of ?st] assms(2) by auto
  from simple_vsprintf_Uart [OF this] obtain out where "ps_out st' = Uart (sent @ out)" ..
  with st' show ?thesis by (simp add: printk_def simple_vsprintf_def)
qed

theorem printk_type_sound_witness:
  "\<exists>out. printk [] ''%d %-5s|%08lx %hu%%'' [Arg32 (- 3), ArgStr 16 ''abc'', Arg64 0xbeef, Arg32 7] 0 = Inr ([] @ out)"
  by (rule printk_type_sound [of _ "[TyInt, TyStr, TyLong, TyInt]"]) code_simp+

text \<open>C29: the number printer on every base, value, width and flag that \<open>simple_vsprintf\<close> passes:
  it prints the field of the numeral, except that negative numbers in base 2 overrun its buffer
  and that negating \<open>LLONG_MIN\<close> overflows.\<close>

theorem simple_outputi_correct:
  assumes "base = 2 \<or> base = 10 \<or> base = 16" "letbase = 65 \<or> letbase = 97"
    and "- (2 ^ 63) \<le> i" "i < 2 ^ 63" "- (2 ^ 31) < width"
  shows "simple_outputi out i base sign width flags letbase =
    (if base = 2 \<and> i < 0 \<or> base = 10 \<and> sign \<noteq> 0 \<and> i = - (2 ^ 63) then Inl Undef
     else let t = int_field i base sign width flags letbase in Inr (sink_append out t, int (length t)))"
proof (cases "base = 2 \<and> i < 0 \<or> base = 10 \<and> sign \<noteq> 0 \<and> i = - (2 ^ 63)")
  case True
  then show ?thesis using simple_outputi_overflow [OF _ assms(3,2)] by (auto simp: simple_outputi_def)
next
  case False
  then have "base = 10 \<or> base = 16 \<or> base = 2 \<and> 0 \<le> i" "sign \<noteq> 0 \<Longrightarrow> base = 10 \<Longrightarrow> i \<noteq> - (2 ^ 63)"
    using assms(1) by auto
  from simple_outputi_eq [OF this(1) assms(2-4) this(2) assms(5)] show ?thesis unfolding if_not_P [OF False] .
qed

theorem simple_outputi_correct_witness:
  "simple_outputi (Uart []) (- 42) 10 1 6 1 97 = Inr (Uart ''-00042'', 6) \<and>
   simple_outputi (Uart []) (- 1) 2 1 0 0 97 = Inl Undef"
proof -
  have "int_field (- 42) 10 1 6 1 97 = ''-00042''" by code_simp
  then show ?thesis
    using simple_outputi_correct [of 10 97 "- 42" 6 "Uart []" 1 1]
      simple_outputi_correct [of 2 97 "- 1" 0 "Uart []" 1 0] by (simp add: Let_def)
qed

lemma vsprintf_single:
  assumes "directive st f = Inr (st', [])" "f \<noteq> []" "\<not> at f (CHR ''%'')"
  shows "vsprintf_loop st (CHR ''%'' # f) = Inr st'"
  using assms by simp

lemma printk_directive:
  assumes "cstr fmt = CHR ''%'' # f" "f \<noteq> []" "\<not> at f (CHR ''%'')"
    and "directive \<lparr>ps_out = Uart sent, ps_pc = 0, ps_ap = args, ps_u = u0\<rparr> f =
      Inr (\<lparr>ps_out = Uart t, ps_pc = n, ps_ap = ap, ps_u = u\<rparr>, [])"
  shows "printk sent fmt args u0 = Inr t"
  using vsprintf_single [OF assms(4,2,3)] by (simp add: printk_def simple_vsprintf_def assms(1))

lemma read_hex_field:
  "read_int 97 16 (int_field (sint (w :: u64)) 16 0 0 0 97) = uint w"
proof -
  have "magnitude (sint w) 16 0 = unat w" by (simp add: magnitude_def)
  then show ?thesis using read_numeral_text [of 16 97 "unat w"] by (simp add: int_field_def read_int_def Let_def)
qed

lemma directive_d:
  assumes "ps_ap st = Arg32 v # ap"
  shows "directive st ''d'' = (let t = int_field (sint v) 10 1 0 0 97; st' = store_u 32 (ucast v) (st\<lparr>ps_ap := ap\<rparr>) in
    Inr (st'\<lparr>ps_out := sink_append (ps_out st) t, ps_pc := ps_pc st + int (length t)\<rparr>, []))"
proof -
  let ?st = "store_u 32 (ucast v) (st\<lparr>ps_ap := ap\<rparr>)"
  have "emit_int u_i 10 1 0 0 97 ?st = (let t = int_field (u_i ?st) 10 1 0 0 97
     in Inr (?st\<lparr>ps_out := sink_append (ps_out ?st) t, ps_pc := ps_pc ?st + int (length t)\<rparr>))"
    by (rule emit_int_ok) (use val_ranges(1) [of ?st] in auto)
  then show ?thesis
    using get32_ok [OF assms, of 32] u_i_store [of v "st\<lparr>ps_ap := ap\<rparr>"]
    by (simp add: directive_def get_width_def is_digit_def conversion_def Let_def store_u_def)
qed

lemma directive_lx:
  assumes "ps_ap st = Arg64 w # ap"
  shows "directive st ''lx'' = (let t = int_field (sint w) 16 0 0 0 97; st' = st\<lparr>ps_ap := ap, ps_u := w\<rparr> in
    Inr (st'\<lparr>ps_out := sink_append (ps_out st) t, ps_pc := ps_pc st + int (length t)\<rparr>, []))"
proof -
  let ?st = "st\<lparr>ps_ap := ap, ps_u := w\<rparr>"
  have "emit_int u_lli 16 0 0 0 97 ?st = (let t = int_field (u_lli ?st) 16 0 0 0 97
     in Inr (?st\<lparr>ps_out := sink_append (ps_out ?st) t, ps_pc := ps_pc ?st + int (length t)\<rparr>))"
    by (rule emit_int_ok) (use val_ranges(5) [of ?st] in auto)
  then show ?thesis
    using get64_ok [OF assms]
    by (simp add: directive_def get_width_def is_digit_def conversion_def conv_l_def u_lli_def Let_def)
qed

lemma cstr_literals: "cstr ''%d'' = ''%d''" "cstr ''%lx'' = ''%lx''" "cstr ''%hx'' = ''%hx''" "cstr ''%-05d'' = ''%-05d''"
  by (simp_all add: cstr_def)

text \<open>C30: printing an int with \<open>%d\<close> or a long with \<open>%lx\<close> and reading the numeral back gives the
  argument.\<close>

theorem printk_number_roundtrip:
  "(\<exists>t. printk sent ''%d'' [Arg32 v] u0 = Inr (sent @ t) \<and> read_int 97 10 t = sint v) \<and>
   (\<exists>t. printk sent ''%lx'' [Arg64 w] u0 = Inr (sent @ t) \<and> read_int 97 16 t = uint w)"
proof
  have "read_int 97 10 (int_field (sint v) 10 1 0 0 97) = sint v"
    using sint_ge [of v] sint_lt [of v] by (intro read_int_field) auto
  moreover have "printk sent ''%d'' [Arg32 v] u0 = Inr (sent @ int_field (sint v) 10 1 0 0 97)"
    by (rule printk_directive [OF cstr_literals(1)])
      (use directive_d [of "\<lparr>ps_out = Uart sent, ps_pc = 0, ps_ap = [Arg32 v], ps_u = u0\<rparr>" v "[]"]
        in \<open>auto simp: store_u_def Let_def\<close>)
  ultimately show "\<exists>t. printk sent ''%d'' [Arg32 v] u0 = Inr (sent @ t) \<and> read_int 97 10 t = sint v" by blast
  have "printk sent ''%lx'' [Arg64 w] u0 = Inr (sent @ int_field (sint w) 16 0 0 0 97)"
    by (rule printk_directive [OF cstr_literals(2)])
      (use directive_lx [of "\<lparr>ps_out = Uart sent, ps_pc = 0, ps_ap = [Arg64 w], ps_u = u0\<rparr>" w "[]"]
        in \<open>auto simp: Let_def\<close>)
  then show "\<exists>t. printk sent ''%lx'' [Arg64 w] u0 = Inr (sent @ t) \<and> read_int 97 16 t = uint w"
    using read_hex_field by blast
qed

lemma put_plain_eq:
  "put_plain c st = st\<lparr>ps_out := sink_append (ps_out st) (if c = CHR 0x0A then [CHR 0x0D, CHR 0x0A] else [c]),
     ps_pc := ps_pc st + 1\<rparr>"
  by (simp add: put_plain_def outputchar_append Let_def)

definition crlf :: "string \<Rightarrow> string" where
  "crlf s = concat (map (\<lambda>c. if c = CHR 0x0A then [CHR 0x0D, CHR 0x0A] else [c]) s)"

lemma vsprintf_loop_text:
  "CHR ''%'' \<notin> set f \<Longrightarrow> vsprintf_loop st (f @ g) =
     vsprintf_loop (st\<lparr>ps_out := sink_append (ps_out st) (crlf f), ps_pc := ps_pc st + int (length f)\<rparr>) g"
  by (induction f arbitrary: st) (auto simp: put_plain_eq crlf_def algebra_simps)

text \<open>
  What most messages of the kernel are made of: text, strings, ints and addresses. A message is a
  list of such pieces, which stands for a format, its arguments and the text to be printed.
\<close>

datatype piece = Lit string | StrArg u64 string | IntArg u32 | HexArg u64

fun piece_format :: "piece \<Rightarrow> string" where
  "piece_format (Lit s) = s"
| "piece_format (StrArg a s) = ''%s''"
| "piece_format (IntArg v) = ''%d''"
| "piece_format (HexArg w) = ''%lx''"

fun piece_args :: "piece \<Rightarrow> varg list" where
  "piece_args (Lit s) = []"
| "piece_args (StrArg a s) = [ArgStr a s]"
| "piece_args (IntArg v) = [Arg32 v]"
| "piece_args (HexArg w) = [Arg64 w]"

fun piece_text :: "piece \<Rightarrow> string" where
  "piece_text (Lit s) = crlf s"
| "piece_text (StrArg a s) = (if a = 0 then ''(null)'' else cstr s)"
| "piece_text (IntArg v) = int_field (sint v) 10 1 0 0 97"
| "piece_text (HexArg w) = numeral_text 97 16 (unat w)"

fun piece_ok :: "piece \<Rightarrow> bool" where
  "piece_ok (Lit s) \<longleftrightarrow> CHR ''%'' \<notin> set s \<and> NUL \<notin> set s"
| "piece_ok p \<longleftrightarrow> True"

lemma field_none: "field 0 0 s = s"
  by (simp add: field_def)

lemma directive_pieces:
  "ps_ap st = ArgStr a s # ap \<Longrightarrow> \<exists>n u. directive st (CHR ''s'' # f) =
     Inr (st\<lparr>ps_out := sink_append (ps_out st) (piece_text (StrArg a s)), ps_pc := n, ps_ap := ap, ps_u := u\<rparr>, f)"
  "ps_ap st = Arg32 v # ap \<Longrightarrow> \<exists>n u. directive st (CHR ''d'' # f) =
     Inr (st\<lparr>ps_out := sink_append (ps_out st) (piece_text (IntArg v)), ps_pc := n, ps_ap := ap, ps_u := u\<rparr>, f)"
  "ps_ap st = Arg64 w # ap \<Longrightarrow> \<exists>n u. directive st (CHR ''l'' # CHR ''x'' # f) =
     Inr (st\<lparr>ps_out := sink_append (ps_out st) (piece_text (HexArg w)), ps_pc := n, ps_ap := ap, ps_u := u\<rparr>, f)"
proof -
  assume ap: "ps_ap st = ArgStr a s # ap"
  let ?t = "piece_text (StrArg a s)" and ?u = "ps_u (store_u 64 a st)"
  have "cstr (if a \<noteq> 0 then s else ''(null)'') = ?t" by (simp add: cstr_def)
  then have "directive st (CHR ''s'' # f) =
     Inr (st\<lparr>ps_out := sink_append (ps_out st) ?t, ps_pc := ps_pc st + int (length ?t), ps_ap := ap, ps_u := ?u\<rparr>, f)"
    using ap by (cases st) (simp add: directive_def get_width_def is_digit_def at_def conversion_def conv_s_def emit_str_def
        prints_eq field_none store_u_def Let_def)
  then show "\<exists>n u. directive st (CHR ''s'' # f) =
     Inr (st\<lparr>ps_out := sink_append (ps_out st) ?t, ps_pc := n, ps_ap := ap, ps_u := u\<rparr>, f)" by blast
next
  assume ap: "ps_ap st = Arg32 v # ap"
  let ?st = "store_u 32 (ucast v) (st\<lparr>ps_ap := ap\<rparr>)"
  have "emit_int u_i 10 1 0 0 97 ?st = (let t = int_field (u_i ?st) 10 1 0 0 97
     in Inr (?st\<lparr>ps_out := sink_append (ps_out ?st) t, ps_pc := ps_pc ?st + int (length t)\<rparr>))"
    by (rule emit_int_ok) (use val_ranges(1) [of ?st] in auto)
  then have "directive st (CHR ''d'' # f) = Inr (st\<lparr>ps_out := sink_append (ps_out st) (piece_text (IntArg v)),
      ps_pc := ps_pc st + int (length (piece_text (IntArg v))), ps_ap := ap, ps_u := ps_u ?st\<rparr>, f)"
    using get32_ok [OF ap, of 32] u_i_store [of v "st\<lparr>ps_ap := ap\<rparr>"]
    by (cases st) (simp add: directive_def get_width_def is_digit_def at_def conversion_def Let_def store_u_def)
  then show "\<exists>n u. directive st (CHR ''d'' # f) =
     Inr (st\<lparr>ps_out := sink_append (ps_out st) (piece_text (IntArg v)), ps_pc := n, ps_ap := ap, ps_u := u\<rparr>, f)" by blast
next
  assume ap: "ps_ap st = Arg64 w # ap"
  let ?st = "st\<lparr>ps_ap := ap, ps_u := w\<rparr>"
  have "emit_int u_lli 16 0 0 0 97 ?st = (let t = int_field (u_lli ?st) 16 0 0 0 97
     in Inr (?st\<lparr>ps_out := sink_append (ps_out ?st) t, ps_pc := ps_pc ?st + int (length t)\<rparr>))"
    by (rule emit_int_ok) (use val_ranges(5) [of ?st] in auto)
  moreover have "int_field (sint w) 16 0 0 0 97 = numeral_text 97 16 (unat w)"
    by (simp add: int_field_def magnitude_def field_none)
  ultimately have "directive st (CHR ''l'' # CHR ''x'' # f) = Inr (st\<lparr>ps_out := sink_append (ps_out st) (piece_text (HexArg w)),
      ps_pc := ps_pc st + int (length (piece_text (HexArg w))), ps_ap := ap, ps_u := w\<rparr>, f)"
    using get64_ok [OF ap]
    by (cases st) (simp add: directive_def get_width_def is_digit_def at_def conversion_def conv_l_def u_lli_def Let_def)
  then show "\<exists>n u. directive st (CHR ''l'' # CHR ''x'' # f) =
     Inr (st\<lparr>ps_out := sink_append (ps_out st) (piece_text (HexArg w)), ps_pc := n, ps_ap := ap, ps_u := u\<rparr>, f)" by blast
qed

lemma vsprintf_loop_pieces:
  "list_all piece_ok ps \<Longrightarrow> ps_ap st = concat (map piece_args ps) @ ap \<Longrightarrow>
   \<exists>n u. vsprintf_loop st (concat (map piece_format ps)) =
     Inr (st\<lparr>ps_out := sink_append (ps_out st) (concat (map piece_text ps)), ps_pc := n, ps_ap := ap, ps_u := u\<rparr>)"
proof (induction ps arbitrary: st)
  case Nil
  then show ?case by (intro exI [of _ "ps_pc st"] exI [of _ "ps_u st"]) simp
next
  case (Cons p ps)
  let ?f = "concat (map piece_format ps)"
  have "\<exists>n u. vsprintf_loop st (piece_format p @ ?f) =
      vsprintf_loop (st\<lparr>ps_out := sink_append (ps_out st) (piece_text p), ps_pc := n,
        ps_ap := concat (map piece_args ps) @ ap, ps_u := u\<rparr>) ?f"
  proof (cases p)
    case (Lit s)
    then show ?thesis using Cons.prems vsprintf_loop_text [of s st ?f]
      by (intro exI [of _ "ps_pc st + int (length s)"] exI [of _ "ps_u st"]) (cases st, simp)
  next
    case (StrArg a s)
    then show ?thesis using Cons.prems(2) directive_pieces(1) [of st a s _ ?f] by (fastforce simp: at_def)
  next
    case (IntArg v)
    then show ?thesis using Cons.prems(2) directive_pieces(2) [of st v _ ?f] by (fastforce simp: at_def)
  next
    case (HexArg w)
    then show ?thesis using Cons.prems(2) directive_pieces(3) [of st w _ ?f] by (fastforce simp: at_def)
  qed
  then obtain n u where step: "vsprintf_loop st (piece_format p @ ?f) =
      vsprintf_loop (st\<lparr>ps_out := sink_append (ps_out st) (piece_text p), ps_pc := n,
        ps_ap := concat (map piece_args ps) @ ap, ps_u := u\<rparr>) ?f" by blast
  show ?case
    using Cons.IH [of "st\<lparr>ps_out := sink_append (ps_out st) (piece_text p), ps_pc := n,
        ps_ap := concat (map piece_args ps) @ ap, ps_u := u\<rparr>"] Cons.prems(1) step by simp
qed

lemma piece_format_NUL: "piece_ok p \<Longrightarrow> NUL \<notin> set (piece_format p)"
  by (cases p) simp_all

lemma printk_message:
  assumes "list_all piece_ok ps"
  shows "printk sent (concat (map piece_format ps)) (concat (map piece_args ps) @ ap) u0 = Inr (sent @ concat (map piece_text ps))"
proof -
  have "NUL \<notin> set (concat (map piece_format ps))"
    using assms piece_format_NUL by (auto simp: list_all_iff)
  then have c: "cstr (concat (map piece_format ps)) = concat (map piece_format ps)" by (rule cstr_id)
  let ?st = "\<lparr>ps_out = Uart sent, ps_pc = 0, ps_ap = concat (map piece_args ps) @ ap, ps_u = u0\<rparr>"
  show ?thesis using vsprintf_loop_pieces [OF assms, of ?st ap] by (auto simp: printk_def simple_vsprintf_def c)
qed

text \<open>C31: a format made of text, \<open>%s\<close>, \<open>%d\<close> and \<open>%lx\<close> with arguments to match prints the text with a
  carriage return before each newline, the strings up to their end, or \<open>(null)\<close>, and the numerals,
  in order and after what was sent before; arguments that are left over do no harm.\<close>

theorem printk_pieces:
  assumes "list_all piece_ok ps"
  shows "printk sent (concat (map piece_format ps)) (concat (map piece_args ps) @ ap) u0 =
    Inr (sent @ concat (map piece_text ps))"
  by (rule printk_message [OF assms])

theorem printk_pieces_witness:
  "printk ''> '' (''%s: %d, 0x%lx'' @ [CHR 0x0A]) [ArgStr 64 ''a%'', Arg32 (- 7), Arg64 0x2a] 0 =
     Inr (''> a%: -7, 0x2a'' @ [CHR 0x0D, CHR 0x0A])"
proof -
  have "int_field (- 7) 10 1 0 0 97 = ''-7''" by code_simp
  moreover have "sint (- 7 :: u32) = - 7" by simp
  ultimately have t: "int_field (sint (- 7 :: u32)) 10 1 0 0 97 = ''-7''" by simp
  have h: "numeral_text 97 16 0x2a = ''2a''" by code_simp
  show ?thesis
    using printk_pieces [of "[StrArg 64 ''a%'', Lit '': '', IntArg (- 7), Lit '', 0x'', HexArg 0x2a, Lit [CHR 0x0A]]" "''> ''" "[]" 0] t h
    by (simp add: crlf_def cstr_def)
qed

lemma directive_hx:
  assumes "ps_ap st = Arg32 v # ap"
  shows "directive st ''hx'' = (let st' = store_u 16 (ucast v) (st\<lparr>ps_ap := ap\<rparr>); t = int_field (u_lli st') 16 0 0 0 97 in
    Inr (st'\<lparr>ps_out := sink_append (ps_out st) t, ps_pc := ps_pc st + int (length t)\<rparr>, []))"
proof -
  let ?st = "store_u 16 (ucast v) (st\<lparr>ps_ap := ap\<rparr>)"
  have "emit_int u_lli 16 0 0 0 97 ?st = (let t = int_field (u_lli ?st) 16 0 0 0 97
     in Inr (?st\<lparr>ps_out := sink_append (ps_out ?st) t, ps_pc := ps_pc ?st + int (length t)\<rparr>))"
    by (rule emit_int_ok) (use val_ranges(5) [of ?st] in auto)
  then show ?thesis
    using get32_ok [OF assms, of 16]
    by (simp add: directive_def get_width_def is_digit_def conversion_def conv_h_def Let_def store_u_def)
qed

lemma field_zeros_right:
  "int_field i 10 1 5 3 97 = int_field i 10 1 0 0 97 @ replicate (5 - length (int_field i 10 1 0 0 97)) (CHR ''0'')"
proof -
  have f: "field w 3 s = s @ replicate (nat (w - int (length s))) (CHR ''0'')" for w s by (simp add: field_def)
  have "nat (5 - int n) = 5 - n" "nat (4 - int n) = 4 - n" for n by simp_all
  then show ?thesis by (simp add: int_field_def Let_def f field_none)
qed

lemma directive_zeros_right:
  assumes "ps_ap st = Arg32 v # ap"
  shows "directive st ''-05d'' = (let t = int_field (sint v) 10 1 5 3 97; st' = store_u 32 (ucast v) (st\<lparr>ps_ap := ap\<rparr>) in
    Inr (st'\<lparr>ps_out := sink_append (ps_out st) t, ps_pc := ps_pc st + int (length t)\<rparr>, []))"
proof -
  let ?st = "store_u 32 (ucast v) (st\<lparr>ps_ap := ap\<rparr>)"
  have "emit_int u_i 10 1 5 3 97 ?st = (let t = int_field (u_i ?st) 10 1 5 3 97
     in Inr (?st\<lparr>ps_out := sink_append (ps_out ?st) t, ps_pc := ps_pc ?st + int (length t)\<rparr>))"
    by (rule emit_int_ok) (use val_ranges(1) [of ?st] in auto)
  moreover have "u_i ?st = sint v" by (rule u_i_store)
  ultimately show ?thesis
    using get32_ok [OF assms, of 32]
    by (simp add: directive_def get_width_def is_digit_def conversion_def Let_def store_u_def)
qed

text \<open>C32: conversions that do not print what they should. \<open>%hx\<close> prints all eight bytes of the union, of
  which only two are the argument. \<open>%-05d\<close> prints the number as \<open>%d\<close> does and then pads with zeros on
  the right, up to five characters: 42 reads as 42000. A format that ends after the flag, the width
  or the length modifier of a conversion, as these seven do, is read past its end; one that ends in
  a lone \<open>%\<close> is not.\<close>

theorem printk_misprints:
  "(\<exists>t. printk sent ''%hx'' [Arg32 v] u0 = Inr (sent @ t) \<and>
      read_int 97 16 t = uint ((u0 AND NOT (mask 16)) OR take_bit 16 (ucast v))) \<and>
   (\<exists>t. printk sent ''%d'' [Arg32 w] u0 = Inr (sent @ t) \<and> read_int 97 10 t = sint w \<and>
      printk sent ''%-05d'' [Arg32 w] u0 = Inr (sent @ t @ replicate (5 - length t) (CHR ''0''))) \<and>
   map (\<lambda>f. printk sent f args u0) [''%-'', ''%0'', ''%5'', ''%l'', ''%ll'', ''%h'', ''%hh''] = replicate 7 (Inl Undef) \<and>
   printk sent ''%'' args u0 = Inr sent"
proof (intro conjI)
  let ?u = "(u0 AND NOT (mask 16)) OR take_bit 16 (ucast v)"
  have "printk sent ''%hx'' [Arg32 v] u0 = Inr (sent @ int_field (sint ?u) 16 0 0 0 97)"
    by (rule printk_directive [OF cstr_literals(3)])
      (use directive_hx [of "\<lparr>ps_out = Uart sent, ps_pc = 0, ps_ap = [Arg32 v], ps_u = u0\<rparr>" v "[]"]
        in \<open>auto simp: store_u_def u_lli_def Let_def\<close>)
  then show "\<exists>t. printk sent ''%hx'' [Arg32 v] u0 = Inr (sent @ t) \<and> read_int 97 16 t = uint ?u"
    using read_hex_field by blast
next
  let ?st = "\<lparr>ps_out = Uart sent, ps_pc = 0, ps_ap = [Arg32 w], ps_u = u0\<rparr>" and ?t = "int_field (sint w) 10 1 0 0 97"
  have "printk sent ''%d'' [Arg32 w] u0 = Inr (sent @ ?t)"
    by (rule printk_directive [OF cstr_literals(1)]) (use directive_d [of ?st w "[]"] in \<open>auto simp: store_u_def Let_def\<close>)
  moreover have "printk sent ''%-05d'' [Arg32 w] u0 = Inr (sent @ int_field (sint w) 10 1 5 3 97)"
    by (rule printk_directive [OF cstr_literals(4)]) (use directive_zeros_right [of ?st w "[]"] in \<open>auto simp: store_u_def Let_def\<close>)
  moreover have "read_int 97 10 ?t = sint w" using sint_ge [of w] sint_lt [of w] by (intro read_int_field) auto
  ultimately show "\<exists>t. printk sent ''%d'' [Arg32 w] u0 = Inr (sent @ t) \<and> read_int 97 10 t = sint w \<and>
      printk sent ''%-05d'' [Arg32 w] u0 = Inr (sent @ t @ replicate (5 - length t) (CHR ''0''))"
    unfolding field_zeros_right by blast
next
  show "map (\<lambda>f. printk sent f args u0) [''%-'', ''%0'', ''%5'', ''%l'', ''%ll'', ''%h'', ''%hh''] = replicate 7 (Inl Undef)"
    by (simp add: printk_def simple_vsprintf_def cstr_def directive_def get_width_def is_digit_def conversion_def
      conv_l_def conv_h_def conv_ll_def conv_hh_def numeral_eq_Suc)
  show "printk sent ''%'' args u0 = Inr sent"
    by (simp add: printk_def simple_vsprintf_def cstr_def)
qed

end
