(* ===== verification/Lab_Buddy_Props.thy ===== *)
theory Lab_Buddy_Props
  imports Lab_Buddy Buddy_Correct
begin

text \<open>
  The buddy test of the kernel passes on every freshly initialised pool that has room for it. What
  the test relies on beyond the invariant of the allocator is that fragmentation never makes a
  request fail, so it is also a test of the specification.
\<close>

subsection \<open>The variables of a test\<close>

text \<open>
  A test that holds the chunks \<open>A\<close>: everything asserted so far was true, and
  \<open>expect_free_mem\<close> is what the chunks leave of the pool. Compared with the pool \<open>z\<close> at the start,
  nothing else has changed.
\<close>

definition held_bytes :: "(nat \<times> nat) set \<Rightarrow> nat" where
  "held_bytes A = (\<Sum>(i, k) \<in> A. 4096 * 2 ^ k)"

definition lab_inv ::
  "'z buddy_state_scheme \<Rightarrow> nat \<Rightarrow> nat \<Rightarrow> 'z buddy_state_scheme lab_vars \<Rightarrow> (nat \<times> nat) set \<Rightarrow> bool"
where
  "lab_inv z B N v A \<longleftrightarrow>
     (\<exists>fl. buddy_inv (pool v) fl A) \<and> same_pool z (pool v) \<and> pool_base (pool v) = B \<and> pool_pages (pool v) = N \<and>
     unat (pool_phys_page_num (pool v)) = N \<and> ok v \<and> unat (expect_free_mem v) + held_bytes A = N * 4096"

lemma lab_assert_True: "ok v \<Longrightarrow> expr \<Longrightarrow> lab_assert expr v = v"
  by (simp add: lab_assert_def)

lemma unat_chunk_size:
  assumes "k < 14"
  shows "unat (chunk_size k) = 4096 * 2 ^ k"
proof -
  have "(2 :: nat) ^ k \<le> 2 ^ 13" using assms by (intro power_increasing) simp_all
  then have "4096 * 2 ^ k < (2 :: nat) ^ 64" by simp
  then have "unat (of_nat (4096 * 2 ^ k) :: u64) = 4096 * 2 ^ k" by (rule unat_of_nat_less)
  then show ?thesis by (simp add: chunk_size_def push_bit_eq_mult mult.commute)
qed

lemma free_mem_expected:
  assumes "buddy_inv s fl A" "unat e + held_bytes A = pool_pages s * 4096"
  shows "get_free_mem_size_from_buddy s = e"
proof -
  have "unat (get_free_mem_size_from_buddy s) = unat e"
    using free_mem_size_ok [OF assms(1)] pool_ok_addr(2) [OF buddy_inv_pool [OF assms(1)]] assms(2)
    by (simp add: held_bytes_def)
  then show ?thesis by (simp add: word_unat_eq_iff)
qed

lemma lab_start_ok:
  assumes "buddy_inv s fl {}" "unat (pool_phys_page_num s) = pool_pages s"
  shows "lab_inv s (pool_base s) (pool_pages s) (lab_start s) {}"
proof -
  have "unat (pool_phys_page_num s * 0x1000) = pool_pages s * 4096"
    using pool_ok_addr [OF buddy_inv_pool [OF assms(1)]] assms(2)
    by (simp add: unat_word_ariths add_mult_distrib)
  then show ?thesis using assms by (auto simp: lab_inv_def lab_start_def held_bytes_def)
qed

lemma get_and_check_ok:
  assumes v: "lab_inv z B N v A" and i: "i < 14" and run: "\<exists>j. run_free B N A j i"
    and expr: "\<And>p. page_order p = int i \<Longrightarrow> allocated p = 1 \<Longrightarrow> expr p"
  shows "\<exists>page v'. get_and_check expr i v = Inr (page, v') \<and> lab_inv z B N v' (insert (page, i) A) \<and> (page, i) \<notin> A"
proof -
  obtain fl where fl: "buddy_inv (pool v) fl A" using v by (auto simp: lab_inv_def)
  have B: "pool_base (pool v) = B" "pool_pages (pool v) = N" "unat (pool_phys_page_num (pool v)) = N" "ok v"
    "unat (expect_free_mem v) + held_bytes A = N * 4096" "same_pool z (pool v)" using v by (simp_all add: lab_inv_def)
  obtain s page where g: "buddy_get_pages (pool v) (of_nat i) = Inr (s, Some page)"
    using buddy_inv_get [OF fl i] buddy_inv_get_None [OF fl i] run B(1,2) by (auto split: option.splits)
  obtain fl' where fl': "buddy_inv s fl' (insert (page, i) A)" "same_pool (pool v) s" "(page, i) \<notin> A"
    by (rule buddy_inv_get_Some [OF fl i g])
  obtain p where p: "page_metadata s page = Some p" "allocated p = 1" "page_order p = int i"
    using allocated_block(4) [OF fl'(1) insertI1] by (auto simp: page_is_def)
  have same: "pool_base s = B" "pool_pages s = N" "unat (pool_phys_page_num s) = N"
    using B same_pool_base [OF fl'(2)] same_pool_pages [OF fl'(2)] fl'(2) by (simp_all add: same_pool_def)
  have bytes: "held_bytes (insert (page, i) A) = 4096 * 2 ^ i + held_bytes A"
    using fl'(3) allocated_finite [OF fl] by (simp add: held_bytes_def)
  have "4096 * 2 ^ i \<le> unat (expect_free_mem v)"
  proof -
    have "held_bytes (insert (page, i) A) \<le> N * 4096"
      using free_mem_size_ok [OF fl'(1)] pool_ok_addr(2) [OF buddy_inv_pool [OF fl'(1)]] same(2) by (simp add: held_bytes_def)
    then show ?thesis using bytes B(5) by simp
  qed
  then have e: "unat (expect_free_mem v - chunk_size i) = unat (expect_free_mem v) - 4096 * 2 ^ i"
    using unat_chunk_size [OF i] by (simp add: unat_sub word_le_nat_alt)
  have sum: "unat (expect_free_mem v - chunk_size i) + held_bytes (insert (page, i) A) = N * 4096"
    using e bytes B(5) \<open>4096 * 2 ^ i \<le> unat (expect_free_mem v)\<close> by simp
  define v' where "v' = v\<lparr>pool := s, expect_free_mem := expect_free_mem v - chunk_size i\<rparr>"
  have free: "get_free_mem_size_from_buddy (pool v') = expect_free_mem v'"
    using free_mem_expected [OF fl'(1)] sum same(2) by (simp add: v'_def)
  have "get_and_check expr i v = Inr (page, v')"
    using g p B(4) free expr [OF p(3,2)]
    by (simp add: get_and_check_def bug_on_def deref_def get_page_def Let_def lab_assert_def assert_free_mem_def v'_def)
  moreover have "lab_inv z B N v' (insert (page, i) A)"
    using fl'(1) same sum B(4) same_pool_trans [OF B(6) fl'(2)] by (auto simp: lab_inv_def v'_def)
  ultimately show ?thesis using fl'(3) by blast
qed

lemma free_and_check_ok:
  assumes v: "lab_inv z B N v A" and b: "(page, i) \<in> A"
  shows "\<exists>v'. free_and_check i page v = Inr v' \<and> lab_inv z B N v' (A - {(page, i)})"
proof -
  obtain fl where fl: "buddy_inv (pool v) fl A" using v by (auto simp: lab_inv_def)
  have B: "pool_base (pool v) = B" "pool_pages (pool v) = N" "unat (pool_phys_page_num (pool v)) = N" "ok v"
    "unat (expect_free_mem v) + held_bytes A = N * 4096" "same_pool z (pool v)" using v by (simp_all add: lab_inv_def)
  obtain s fl' where s: "buddy_free_pages (pool v) page = Inr s" "same_pool (pool v) s" "buddy_inv s fl' (A - {(page, i)})"
    using buddy_inv_free [OF fl b] by blast
  have same: "pool_base s = B" "pool_pages s = N" "unat (pool_phys_page_num s) = N"
    using B same_pool_base [OF s(2)] same_pool_pages [OF s(2)] s(2) by (simp_all add: same_pool_def)
  have bytes: "held_bytes A = 4096 * 2 ^ i + held_bytes (A - {(page, i)})"
    using b allocated_finite [OF fl] by (simp add: held_bytes_def sum.remove)
  have "N * 4096 < 2 ^ 64" using pool_ok_addr(4) [OF buddy_inv_pool [OF fl]] B(2) by (simp add: add_mult_distrib)
  then have e: "unat (expect_free_mem v + chunk_size i) = unat (expect_free_mem v) + 4096 * 2 ^ i"
    using unat_chunk_size [OF allocated_block(1) [OF fl b]] B(5) bytes by (simp add: unat_word_ariths)
  then have sum: "unat (expect_free_mem v + chunk_size i) + held_bytes (A - {(page, i)}) = N * 4096" using bytes B(5) by simp
  define v' where "v' = v\<lparr>pool := s, expect_free_mem := expect_free_mem v + chunk_size i\<rparr>"
  have "get_free_mem_size_from_buddy (pool v') = expect_free_mem v'"
    using free_mem_expected [OF s(3)] sum same(2) by (simp add: v'_def)
  then have "free_and_check i page v = Inr v'"
    using s(1) B(4) by (simp add: free_and_check_def Let_def assert_free_mem_def lab_assert_def v'_def)
  moreover have "lab_inv z B N v' (A - {(page, i)})" using s(3) same sum B(4) same_pool_trans [OF B(6) s(2)] by (auto simp: lab_inv_def v'_def)
  ultimately show ?thesis by blast
qed

subsection \<open>Requests that succeed\<close>

text \<open>Fewer than 14 chunks leave one of 14 blocks of the largest order untouched.\<close>

lemma frame_of_block:
  assumes "x \<in> block (i, k)" "k \<le> 13" "2 ^ k dvd B + i"
  shows "(B + x) div 2 ^ 13 = (B + i) div 2 ^ 13"
proof -
  obtain a where a: "B + i = 2 ^ k * a" using assms(3) by (elim dvdE)
  have p: "(2 :: nat) ^ 13 = 2 ^ k * 2 ^ (13 - k)" using assms(2) by (simp add: power_add [symmetric])
  have "B + i \<le> B + x" "B + x < B + i + 2 ^ k" using assms(1) by simp_all
  then have "(B + x) div 2 ^ k = a" unfolding a by (intro div_nat_eqI) (simp_all add: mult.commute)
  then show ?thesis unfolding p div_mult2_eq a by simp
qed

lemma run_of_order_13: "run_free B N A j 13 \<Longrightarrow> i \<le> 13 \<Longrightarrow> run_free B N A j i"
proof -
  assume r: "run_free B N A j 13" and i: "i \<le> 13"
  have le: "(2 :: nat) ^ i \<le> 2 ^ 13" using i by (intro power_increasing) simp_all
  have "(2 :: nat) ^ i dvd 2 ^ 13" using i by (rule le_imp_power_dvd)
  moreover have d: "2 ^ 13 dvd B + j \<and> j + 2 ^ 13 \<le> N \<and> (\<forall>b \<in> A. block b \<inter> block (j, 13) = {})"
    using r unfolding run_free_def .
  ultimately have "2 ^ i dvd B + j" by (blast intro: dvd_trans)
  moreover have "j + 2 ^ i \<le> N" using d le by linarith
  moreover have "block (j, i) \<subseteq> block (j, 13)" unfolding block.simps using le by (intro ivl_subset [THEN iffD2]) simp
  then have "\<forall>b \<in> A. block b \<inter> block (j, i) = {}" using d by blast
  ultimately show ?thesis unfolding run_free_def by blast
qed

lemma free_run_exists:
  assumes fl: "buddy_inv s fl A" and card: "card A < 14" and room: "15 * 2 ^ 13 \<le> pool_pages s" and i: "i < 14"
  shows "\<exists>j. run_free (pool_base s) (pool_pages s) A j i"
proof -
  define B N where "B = pool_base s" and N: "N = pool_pages s"
  have B: "pool_base s = B" by (simp add: B_def)
  have room: "15 * 2 ^ 13 \<le> N" using room by (simp add: N)
  define j0 where "j0 = (2 ^ 13 - B mod 2 ^ 13) mod 2 ^ 13"
  have j0: "j0 < 2 ^ 13" "(B + j0) mod 2 ^ 13 = 0"
  proof -
    show "j0 < 2 ^ 13" unfolding j0_def by (rule mod_less_divisor) simp
    have "B mod 2 ^ 13 \<le> 2 ^ 13" by (rule less_imp_le, rule mod_less_divisor) simp
    then have "(B mod 2 ^ 13 + (2 ^ 13 - B mod 2 ^ 13)) mod 2 ^ 13 = 0" by simp
    then have "(B + (2 ^ 13 - B mod 2 ^ 13)) mod 2 ^ 13 = 0" by (metis mod_add_left_eq)
    then show "(B + j0) mod 2 ^ 13 = 0" unfolding j0_def by (metis mod_add_right_eq)
  qed
  obtain q where q: "B + j0 = 2 ^ 13 * q" using j0(2) by (auto simp only: mod_eq_0_iff_dvd elim: dvdE)
  have top: "2 ^ 13 dvd B + (j0 + k * 2 ^ 13)" "j0 + k * 2 ^ 13 + 2 ^ 13 \<le> N" "(B + (j0 + k * 2 ^ 13)) div 2 ^ 13 = q + k" if "k < 14" for k
  proof -
    have e: "B + (j0 + k * 2 ^ 13) = 2 ^ 13 * (q + k)" using q by (simp add: add_mult_distrib2)
    show "2 ^ 13 dvd B + (j0 + k * 2 ^ 13)" "(B + (j0 + k * 2 ^ 13)) div 2 ^ 13 = q + k" unfolding e by simp_all
    have "k * 2 ^ 13 \<le> 13 * 2 ^ 13" using that by (intro mult_le_mono1) simp
    then show "j0 + k * 2 ^ 13 + 2 ^ 13 \<le> N" using j0(1) room by simp
  qed
  have "\<exists>k < 14. \<forall>b \<in> A. block b \<inter> block (j0 + k * 2 ^ 13, 13) = {}"
  proof (rule ccontr)
    assume "\<not> ?thesis"
    then have "\<forall>k \<in> {..<14}. \<exists>b. b \<in> A \<and> block b \<inter> block (j0 + k * 2 ^ 13, 13) \<noteq> {}" by blast
    from bchoice [OF this] obtain f where
      f: "\<forall>k \<in> {..<14}. f k \<in> A \<and> block (f k) \<inter> block (j0 + k * 2 ^ 13, 13) \<noteq> {}" ..
    have pos: "(B + fst (f k)) div 2 ^ 13 = q + k" if "k < 14" for k
    proof -
      have fk: "f k \<in> A" "block (f k) \<inter> block (j0 + k * 2 ^ 13, 13) \<noteq> {}" using f that by simp_all
      obtain x where x: "x \<in> block (f k)" "x \<in> block (j0 + k * 2 ^ 13, 13)" using fk(2) by blast
      obtain h o' where h: "f k = (h, o')" by (cases "f k")
      note ab = allocated_block [OF fl fk(1) [unfolded h]]
      have "(B + x) div 2 ^ 13 = (B + h) div 2 ^ 13" using frame_of_block [of x h o' B] x(1) ab(1,2) B h by simp
      moreover have "(B + x) div 2 ^ 13 = q + k" using frame_of_block [OF x(2) order_refl top(1) [OF that]] top(3) [OF that] by simp
      ultimately show ?thesis using h by simp
    qed
    have "inj_on f {..<14}" by (rule inj_onI) (metis pos add_left_cancel lessThan_iff)
    then have "card (f ` {..<14}) = 14" by (simp add: card_image)
    moreover have "card (f ` {..<14}) \<le> card A" using f by (intro card_mono allocated_finite [OF fl]) auto
    ultimately show False using card by simp
  qed
  then obtain k where k: "k < 14" "\<forall>b \<in> A. block b \<inter> block (j0 + k * 2 ^ 13, 13) = {}" by blast
  have "run_free B N A (j0 + k * 2 ^ 13) 13" unfolding run_free_def using top(1,2) [OF k(1)] k(2) by (intro conjI)
  moreover have "i \<le> 13" using i by simp
  ultimately show ?thesis unfolding B_def N using run_of_order_13 by blast
qed

lemma run_exists:
  assumes "lab_inv z B N v A" "card A < 14" "15 * 2 ^ 13 \<le> N" "i < 14"
  shows "\<exists>j. run_free B N A j i"
  using assms free_run_exists by (auto simp: lab_inv_def)

text \<open>When all chunks are single pages, a request for a page succeeds until all are taken.\<close>

lemma single_pages:
  assumes v: "lab_inv z B N v A" and single: "snd ` A \<subseteq> {0}"
  shows "A \<subseteq> (\<lambda>j. (j, 0)) ` {..<N}"
proof
  fix b assume b: "b \<in> A"
  obtain fl where fl: "buddy_inv (pool v) fl A" and N: "pool_pages (pool v) = N" using v by (auto simp: lab_inv_def)
  obtain j k where jk: "b = (j, k)" by (cases b)
  have "k = 0" using single b jk by auto
  moreover from this have "j < N" using allocated_block(3) [OF fl, of j k] b jk N by simp
  ultimately show "b \<in> (\<lambda>j. (j, 0)) ` {..<N}" unfolding jk by blast
qed

lemma page_exists:
  assumes v: "lab_inv z B N v A" and single: "snd ` A \<subseteq> {0}" and card: "card A < N"
  shows "\<exists>j. run_free B N A j 0"
proof -
  have inj: "inj_on (\<lambda>j. (j, 0 :: nat)) {..<N}" by (rule inj_onI) simp
  have "A \<noteq> (\<lambda>j. (j, 0)) ` {..<N}" using card card_image [OF inj] by auto
  then obtain j where j: "j < N" "(j, 0) \<notin> A" using single_pages [OF v single] by blast
  have "block b \<inter> block (j, 0) = {}" if "b \<in> A" for b
    using single_pages [OF v single] that j(2) by auto
  then show ?thesis using j(1) by (intro exI [of _ j]) (auto simp: run_free_def)
qed

subsection \<open>The loops of the test\<close>

lemma each_order_ok:
  assumes room: "15 * 2 ^ 13 \<le> N"
  shows "lab_inv z B N v {} \<Longrightarrow> set is \<subseteq> {..<14} \<Longrightarrow> \<exists>v'. each_order is v = Inr v' \<and> lab_inv z B N v' {}"
proof (induction "is" arbitrary: v)
  case (Cons i js)
  have i: "i < 14" using Cons.prems(2) by simp
  obtain page v1 where v1: "get_and_check (order_allocated i) i v = Inr (page, v1)" "lab_inv z B N v1 {(page, i)}"
    using get_and_check_ok [OF Cons.prems(1) i run_exists [OF Cons.prems(1) _ room i], of "order_allocated i"]
    by (auto simp: order_allocated_def)
  obtain v2 where v2: "free_and_check i page v1 = Inr v2" "lab_inv z B N v2 {}"
    using free_and_check_ok [OF v1(2), of page i] by auto
  show ?case using Cons.IH [OF v2(2)] Cons.prems(2) v1(1) v2(1) by simp
qed simp

lemma get_orders_ok:
  assumes run: "\<forall>(v :: 'z buddy_state_scheme lab_vars) A i. lab_inv z B N v A \<longrightarrow> R A \<longrightarrow> card A < m \<longrightarrow> i \<in> I \<longrightarrow> (\<exists>j. run_free B N A j i)"
    and R: "\<forall>A page i. R A \<longrightarrow> i \<in> I \<longrightarrow> R (insert (page, i) A)" and I: "I \<subseteq> {..<14}"
  shows "lab_inv z B N (v :: 'z buddy_state_scheme lab_vars) A \<Longrightarrow> R A \<Longrightarrow> card A + length is \<le> m \<Longrightarrow> set is \<subseteq> I \<Longrightarrow>
    \<exists>pages v'. get_orders is v = Inr (pages, v') \<and> length pages = length is \<and> R (A \<union> prod.swap ` set (zip is pages)) \<and>
      lab_inv z B N v' (A \<union> prod.swap ` set (zip is pages)) \<and> distinct (zip is pages) \<and> prod.swap ` set (zip is pages) \<inter> A = {}"
proof (induction "is" arbitrary: v A)
  case (Cons i js)
  have i: "i \<in> I" "i < 14" using Cons.prems(4) I by auto
  have "card A < m" using Cons.prems(3) by simp
  then have "\<exists>j. run_free B N A j i" using run Cons.prems(1,2) i(1) by blast
  from get_and_check_ok [OF Cons.prems(1) i(2) this, of "\<lambda>p. page_order p = int i"]
  obtain page v1 where v1: "get_and_check (\<lambda>p. page_order p = int i) i v = Inr (page, v1)"
    "lab_inv z B N v1 (insert (page, i) A)" "(page, i) \<notin> A" by blast
  have "finite A" using v1(2) Cons.prems(1) allocated_finite by (auto simp: lab_inv_def)
  then have "card (insert (page, i) A) + length js \<le> m" using v1(3) Cons.prems(3) by simp
  moreover have "R (insert (page, i) A)" using R Cons.prems(2) i(1) by blast
  ultimately
  obtain pages v2 where v2: "get_orders js v1 = Inr (pages, v2)" "length pages = length js"
    "R (insert (page, i) A \<union> prod.swap ` set (zip js pages))" "lab_inv z B N v2 (insert (page, i) A \<union> prod.swap ` set (zip js pages))"
    "distinct (zip js pages)" "prod.swap ` set (zip js pages) \<inter> insert (page, i) A = {}"
    using Cons.IH [OF v1(2)] Cons.prems(4) by auto
  have e: "A \<union> prod.swap ` set (zip (i # js) (page # pages)) = insert (page, i) A \<union> prod.swap ` set (zip js pages)" by simp
  have "get_orders (i # js) v = Inr (page # pages, v2)" using v1(1) v2(1) by simp
  moreover have "(i, page) \<notin> set (zip js pages)"
  proof
    assume "(i, page) \<in> set (zip js pages)"
    then have "prod.swap (i, page) \<in> prod.swap ` set (zip js pages)" by (rule imageI)
    then show False using v2(6) by auto
  qed
  moreover have "prod.swap ` set (zip (i # js) (page # pages)) \<inter> A = {}" using v2(6) v1(3) by auto
  ultimately show ?case using v2(2-5) unfolding e [symmetric] by (intro exI [of _ "page # pages"] exI [of _ v2]) simp
qed simp

lemma free_orders_ok:
  "lab_inv z B N v A \<Longrightarrow> distinct ps \<Longrightarrow> prod.swap ` set ps \<subseteq> A \<Longrightarrow>
   \<exists>v'. free_orders ps v = Inr v' \<and> lab_inv z B N v' (A - prod.swap ` set ps)"
proof (induction ps arbitrary: v A)
  case (Cons b ps)
  obtain i page where b: "b = (i, page)" by (cases b)
  obtain v1 where v1: "free_and_check i page v = Inr v1" "lab_inv z B N v1 (A - {(page, i)})"
    using free_and_check_ok [OF Cons.prems(1), of page i] Cons.prems(3) b by auto
  have "prod.swap ` set ps \<subseteq> A - {(page, i)}" using Cons.prems(2,3) b by auto
  with Cons.IH [OF v1(2)] Cons.prems(2) obtain v2 where
    v2: "free_orders ps v1 = Inr v2" "lab_inv z B N v2 (A - {(page, i)} - prod.swap ` set ps)" by auto
  have "A - {(page, i)} - prod.swap ` set ps = A - prod.swap ` set (b # ps)" using b by auto
  then show ?case using v1(1) v2 b by simp
qed simp

lemma free_every_page_ok:
  "lab_inv z B N v A \<Longrightarrow> distinct js \<Longrightarrow> (\<lambda>j. (j, 0)) ` set js \<subseteq> A \<Longrightarrow>
   \<exists>v'. free_every_page js v = Inr v' \<and> lab_inv z B N v' (A - (\<lambda>j. (j, 0)) ` set js)"
proof (induction js arbitrary: v A)
  case (Cons j js)
  have b: "(j, 0) \<in> A" using Cons.prems(3) by simp
  obtain fl where fl: "buddy_inv (pool v) fl A" and ok: "ok v" using Cons.prems(1) by (auto simp: lab_inv_def)
  obtain p where p: "get_page (pool v) j = Inr p" "allocated p = 1"
    using allocated_block(4) [OF fl b] by (auto simp: page_is_def get_page_Some)
  obtain v1 where v1: "free_and_check 0 j v = Inr v1" "lab_inv z B N v1 (A - {(j, 0)})"
    using free_and_check_ok [OF Cons.prems(1) b] by blast
  have "(\<lambda>j. (j, 0)) ` set js \<subseteq> A - {(j, 0)}" using Cons.prems(2,3) by auto
  with Cons.IH [OF v1(2)] Cons.prems(2) obtain v2 where
    v2: "free_every_page js v1 = Inr v2" "lab_inv z B N v2 (A - {(j, 0)} - (\<lambda>j. (j, 0)) ` set js)" by auto
  have "A - {(j, 0)} - (\<lambda>j. (j, 0)) ` set js = A - (\<lambda>j. (j, 0)) ` set (j # js)" by auto
  then show ?case using p v1(1) v2 ok by (simp add: lab_assert_True)
qed simp

subsection \<open>The blocks of the test\<close>

text \<open>A pool between two blocks: nothing is held, and there is room for 15 blocks of the largest order.\<close>

definition idle_pool :: "'z buddy_state_scheme \<Rightarrow> bool" where
  "idle_pool s \<longleftrightarrow> (\<exists>fl. buddy_inv s fl {}) \<and> unat (pool_phys_page_num s) = pool_pages s \<and>
     15 * 2 ^ 13 \<le> pool_pages s \<and> pool_pages s < 2 ^ 31"

lemma idle_start:
  assumes "idle_pool s"
  shows "lab_inv s (pool_base s) (pool_pages s) (lab_start s) {}"
  using assms lab_start_ok by (auto simp: idle_pool_def)

lemma idle_end:
  assumes "idle_pool s" "lab_inv s (pool_base s) (pool_pages s) v {}"
  shows "idle_pool (pool v) \<and> same_pool s (pool v)" "ok v"
  using assms by (auto simp: idle_pool_def lab_inv_def)

lemma test_init_ok:
  assumes "idle_pool s"
  shows "test_init s"
proof -
  obtain fl where fl: "buddy_inv s fl {}" using assms by (auto simp: idle_pool_def)
  have "unat (get_free_mem_size_from_buddy s) = pool_pages s * 4096"
    using free_mem_size_ok [OF fl] pool_ok_addr(2) [OF buddy_inv_pool [OF fl]] by simp
  then have "unat (get_free_mem_size_from_buddy s div 0x1000) = pool_pages s" by (simp add: unat_div)
  then show ?thesis using assms by (simp add: test_init_def idle_pool_def word_unat_eq_iff)
qed

lemma test_invalid_order_ok: "test_invalid_order s = Inr (True, s)"
  by (simp add: test_invalid_order_def buddy_get_invalid)

lemma test_order_0_ok:
  assumes s: "idle_pool s"
  shows "\<exists>s'. test_order_0 s = Inr (True, s') \<and> idle_pool s' \<and> same_pool s s'"
proof -
  have room: "15 * 2 ^ 13 \<le> pool_pages s" using s by (simp add: idle_pool_def)
  have "\<exists>v'. each_order [0] (lab_start s) = Inr v' \<and> lab_inv s (pool_base s) (pool_pages s) v' {}"
    by (rule each_order_ok [OF room idle_start [OF s]]) simp
  then obtain v' where v': "each_order [0] (lab_start s) = Inr v'" "lab_inv s (pool_base s) (pool_pages s) v' {}" by blast
  have "test_order_0 s = rbind (each_order [0] (lab_start s)) (\<lambda>v. Inr (ok v, pool v))"
  proof -
    have one: "each_order [] = Inr" by (rule ext) simp
    show ?thesis by (simp add: test_order_0_def rbind_assoc split_def one)
  qed
  then show ?thesis using v' idle_end [OF s v'(2)] by simp
qed

lemma test_each_order_ok:
  assumes s: "idle_pool s"
  shows "\<exists>s'. test_each_order s = Inr (True, s') \<and> idle_pool s' \<and> same_pool s s'"
proof -
  have room: "15 * 2 ^ 13 \<le> pool_pages s" using s by (simp add: idle_pool_def)
  have orders: "set [0..<14] \<subseteq> {..<14 :: nat}" "set (rev [0..<14]) \<subseteq> {..<14 :: nat}" by auto
  obtain v1 where v1: "each_order [0..<14] (lab_start s) = Inr v1" "lab_inv s (pool_base s) (pool_pages s) v1 {}"
    using each_order_ok [OF room idle_start [OF s] orders(1)] by blast
  obtain v2 where v2: "each_order (rev [0..<14]) v1 = Inr v2" "lab_inv s (pool_base s) (pool_pages s) v2 {}"
    using each_order_ok [OF room v1(2) orders(2)] by blast
  show ?thesis unfolding test_each_order_def v1(1) rbind.simps v2(1) using idle_end [OF s v2(2)] by simp
qed

lemma test_all_orders_ok:
  fixes s :: "'z buddy_state_scheme"
  assumes s: "idle_pool s"
  shows "\<exists>s'. test_all_orders s = Inr (True, s') \<and> idle_pool s' \<and> same_pool s s'"
proof -
  let ?B = "pool_base s" and ?N = "pool_pages s"
  have run: "\<forall>(v :: 'z buddy_state_scheme lab_vars) A i. lab_inv s ?B ?N v A \<longrightarrow> True \<longrightarrow> card A < 14 \<longrightarrow> i \<in> {..<14} \<longrightarrow> (\<exists>j. run_free ?B ?N A j i)"
    using run_exists s unfolding idle_pool_def lessThan_iff by blast
  have len: "card {} + length [0..<14] \<le> 14" "set [0..<14] \<subseteq> {..<14 :: nat}" by auto
  obtain pages v1 where v1: "get_orders [0..<14] (lab_start s) = Inr (pages, v1)" "length pages = length [0..<14]"
    "lab_inv s ?B ?N v1 ({} \<union> prod.swap ` set (zip [0..<14] pages))" "distinct (zip [0..<14] pages)"
    using get_orders_ok [OF run _ _ idle_start [OF s] _ len] by auto
  obtain v2 where v2: "free_orders (zip [0..<14] pages) v1 = Inr v2"
    "lab_inv s ?B ?N v2 ({} \<union> prod.swap ` set (zip [0..<14] pages) - prod.swap ` set (zip [0..<14] pages))"
    using free_orders_ok [OF v1(3,4)] by blast
  have "lab_inv s ?B ?N v2 {}" using v2(2) by simp
  from idle_end [OF s this] show ?thesis
    unfolding test_all_orders_def v1(1) rbind.simps prod.case v2(1) by simp
qed

lemma test_all_memory_ok:
  fixes s :: "'z buddy_state_scheme"
  assumes s: "idle_pool s"
  shows "\<exists>s'. test_all_memory s = Inr (True, s') \<and> idle_pool s' \<and> same_pool s s'"
proof -
  let ?B = "pool_base s" and ?N = "pool_pages s"
  let ?all = "(\<lambda>j. (j, 0 :: nat)) ` {..<?N}" and ?is = "replicate ?N (0 :: nat)"
  have n: "unat (pool_phys_page_num s) = ?N" "?N < 2 ^ 31" using s by (simp_all add: idle_pool_def)
  have run: "\<forall>(v :: 'z buddy_state_scheme lab_vars) A i. lab_inv s ?B ?N v A \<longrightarrow> snd ` A \<subseteq> {0} \<longrightarrow> card A < ?N \<longrightarrow> i \<in> {0} \<longrightarrow>
    (\<exists>j. run_free ?B ?N A j i)" using page_exists by blast
  have len: "card {} + length ?is \<le> ?N" "set ?is \<subseteq> {0}" by auto
  obtain pages v1 where v1: "get_orders ?is (lab_start s) = Inr (pages, v1)" "length pages = length ?is"
    "snd ` ({} \<union> prod.swap ` set (zip ?is pages)) \<subseteq> {0}" "lab_inv s ?B ?N v1 ({} \<union> prod.swap ` set (zip ?is pages))"
    "distinct (zip ?is pages)"
    using get_orders_ok [OF run _ _ idle_start [OF s] _ len] by auto
  define A where "A = prod.swap ` set (zip ?is pages)"
  have A: "lab_inv s ?B ?N v1 A" "snd ` A \<subseteq> {0}" using v1(3,4) by (simp_all add: A_def)
  have "card A = ?N" using v1(2,5) by (simp add: A_def card_image distinct_card)
  moreover have "inj_on (\<lambda>j. (j, 0 :: nat)) {..<?N}" by (rule inj_onI) simp
  ultimately have all: "A = ?all" using single_pages [OF A] by (intro card_subset_eq) (simp_all add: card_image)
  obtain fl where fl: "buddy_inv (pool v1) fl A" "pool_base (pool v1) = ?B" "pool_pages (pool v1) = ?N" "ok v1"
    using A(1) by (auto simp: lab_inv_def)
  have held: "held_bytes A = ?N * 4096"
    unfolding held_bytes_def all by (subst sum.reindex) (auto simp: inj_on_def)
  then have e0: "expect_free_mem v1 = 0" using A(1) by (simp add: lab_inv_def word_unat_eq_iff)
  then have f0: "get_free_mem_size_from_buddy (pool v1) = 0"
    using free_mem_expected [OF fl(1), of 0] held fl(3) by simp
  have "\<not> run_free ?B ?N A j 0" for j
  proof
    assume r: "run_free ?B ?N A j 0"
    then have "(j, 0) \<in> A" unfolding all by (auto simp: run_free_def)
    then show False using r by (auto simp: run_free_def)
  qed
  then have none: "buddy_get_pages (pool v1) 0 = Inr (pool v1, None)"
    using buddy_inv_get_None [OF fl(1), of 0 "pool v1"] fl(2,3) by simp
  have js: "distinct [0..<?N]" "(\<lambda>j. (j, 0)) ` set [0..<?N] \<subseteq> A" by (simp_all add: all atLeast0LessThan)
  obtain v2 where v2: "free_every_page [0..<?N] v1 = Inr v2" "lab_inv s ?B ?N v2 (A - (\<lambda>j. (j, 0)) ` set [0..<?N])"
    using free_every_page_ok [OF A(1) js] by blast
  have fin: "lab_inv s ?B ?N v2 {}" using v2(2) by (simp add: all atLeast0LessThan)
  then have last: "pool_phys_page_num (pool v2) * 0x1000 = expect_free_mem v2"
    using idle_start [OF conjunct1 [OF idle_end(1) [OF s fin]]] idle_end(1) [OF s fin]
    by (simp add: lab_inv_def lab_start_def held_bytes_def word_unat_eq_iff)
  have "test_all_memory s = Inr (ok v2, pool v2)"
    using n v1(1) v2(1) fl(4) f0 none last idle_end(2) [OF s fin]
    by (simp add: test_all_memory_def Let_def undef_if_def lab_assert_True)
  then show ?thesis using idle_end [OF s fin] by auto
qed

subsection \<open>The test\<close>

lemma init_buddy_idle:
  assumes "init_addr_ok start_addr page_num" "15 * 2 ^ 13 \<le> unat page_num"
    "init_buddy global_mem start_page start_addr page_num = Inr s"
  shows "idle_pool s"
  using init_buddy_ok [OF assms(1) global_mem_nodes, of start_page] assms
  by (auto simp: idle_pool_def init_addr_ok_def)

definition buddy_report :: report where
  "buddy_report = [(''Init buddy'', True), (''Check invalid order'', True),
      (''Allocate & free order 0'', True), (''Allocate & free each order'', True),
      (''Allocate & free all orders'', True), (''Allocate & free all memory'', True)]"

lemma buddy_test_ok:
  assumes s: "idle_pool s"
  obtains s' where "lab2_test_buddy s = Inr (buddy_report, s')" "idle_pool s'" "same_pool s s'"
proof -
  obtain s3 where s3: "test_order_0 s = Inr (True, s3)" "idle_pool s3" "same_pool s s3"
    using test_order_0_ok [OF s] by blast
  obtain s4 where s4: "test_each_order s3 = Inr (True, s4)" "idle_pool s4" "same_pool s3 s4"
    using test_each_order_ok [OF s3(2)] by blast
  obtain s5 where s5: "test_all_orders s4 = Inr (True, s5)" "idle_pool s5" "same_pool s4 s5"
    using test_all_orders_ok [OF s4(2)] by blast
  obtain s6 where s6: "test_all_memory s5 = Inr (True, s6)" "idle_pool s6" "same_pool s5 s6"
    using test_all_memory_ok [OF s5(2)] by blast
  have "lab2_test_buddy s = Inr (buddy_report, s6)"
    using test_init_ok [OF s] s3(1) s4(1) s5(1) s6(1)
    by (simp add: lab2_test_buddy_def test_invalid_order_ok buddy_report_def Let_def)
  moreover have "same_pool s s6" using s3(3) s4(3) s5(3) s6(3) same_pool_trans by blast
  ultimately show thesis using s6(2) by (intro that)
qed

text \<open>C11: On a pool that \<open>init_buddy\<close> has set up with at least 122880 pages (480M), wherever it starts,
  the buddy test returns and reports success for each of its six checks: no BUG_ON fires, every
  request that has to succeed does, the requests that have to fail return NULL, and every free size
  compared is the expected one; afterwards nothing is held and the whole pool is free again.\<close>

theorem lab2_test_buddy_passes:
  assumes addr: "init_addr_ok start_addr page_num" and room: "122880 \<le> unat page_num"
    and init: "init_buddy global_mem start_page start_addr page_num = Inr s"
  shows "\<exists>report s' fl. lab2_test_buddy s = Inr (report, s') \<and> length report = 6 \<and> (\<forall>(name, passed) \<in> set report. passed) \<and>
    buddy_inv s' fl {} \<and> unat (get_free_mem_size_from_buddy s') = 4096 * unat page_num"
proof -
  have s: "idle_pool s" by (rule init_buddy_idle [OF addr _ init]) (use room in simp)
  have n: "pool_pages s = unat page_num" using init_buddy_ok [OF addr global_mem_nodes, of start_page] init by auto
  obtain s' where s': "lab2_test_buddy s = Inr (buddy_report, s')" "idle_pool s'" "same_pool s s'"
    by (rule buddy_test_ok [OF s])
  obtain fl where fl: "buddy_inv s' fl {}" using s'(2) by (auto simp: idle_pool_def)
  have "unat (get_free_mem_size_from_buddy s') = 4096 * unat page_num"
    using free_mem_size_ok [OF fl] pool_ok_addr(2) [OF buddy_inv_pool [OF fl]] same_pool_pages [OF s'(3)] n by simp
  then show ?thesis using s'(1) fl by (auto simp: buddy_report_def)
qed

theorem lab2_test_buddy_passes_witness:
  "\<exists>s report s'. init_buddy global_mem 0xffffff0000100000 0xffffff0000a98000 247186 = Inr s \<and>
     lab2_test_buddy s = Inr (report, s') \<and> length report = 6 \<and> (\<forall>(name, passed) \<in> set report. passed)"
proof -
  have addr: "init_addr_ok 0xffffff0000a98000 247186" by (simp add: init_addr_ok_def)
  obtain s where s: "init_buddy global_mem 0xffffff0000100000 0xffffff0000a98000 247186 = Inr s"
    using init_buddy_ok [OF addr global_mem_nodes, of "0xffffff0000100000"] by (auto simp: global_mem_def)
  then show ?thesis using lab2_test_buddy_passes [OF addr _ s] by auto
qed

end
