(* ===== verification/Lab_Kmalloc_Props.thy ===== *)
theory Lab_Kmalloc_Props
  imports Lab_Kmalloc Lab_Buddy_Props Heap_Props
begin

text \<open>
  The test of \<open>kmalloc\<close> passes on a heap without blocks in use: a slab without objects in use has a
  free slot, and seven slabs leave room for two pages.
\<close>

subsection \<open>An empty heap\<close>

text \<open>Every order has a slab, no object is in use, and only seven chunks, the slabs, are held.\<close>

definition fresh_heap ::
  "'z kernel_state_scheme \<Rightarrow> (u64 \<times> nat) set \<Rightarrow> (nat \<Rightarrow> (u64 \<times> u64 list) list) \<Rightarrow> bool"
where
  "fresh_heap s A F \<longleftrightarrow> slab_inv s A F \<and> (\<forall>k. order_ok k \<longrightarrow> F k \<noteq> []) \<and> live_objects F = {} \<and> client_chunks A F = {} \<and>
     card A < 14 \<and> 15 * 2 ^ 13 \<le> pool_pages s"

lemma fresh_heapD:
  assumes "fresh_heap s A F"
  shows "slab_inv s A F" "order_ok k \<Longrightarrow> F k \<noteq> []" "live_objects F = {}" "client_chunks A F = {}" "card A < 14"
    "15 * 2 ^ 13 \<le> pool_pages s"
  using assms by (simp_all add: fresh_heap_def)

lemma fresh_slot:
  assumes "fresh_heap s A F" "order_ok k"
  obtains p x fs ys where "F k = (p, x # fs) # ys"
proof -
  obtain p fs ys where F: "F k = (p, fs) # ys" using fresh_heapD(2) [OF assms] by (cases "F k") auto
  have "(1 :: nat) < 2 ^ (21 - k)" using slab_counts(3) [OF assms(2)] by simp
  then have "slot_at k p 1 \<in> slots_of k p" by (auto simp: slots_of_def)
  moreover have "(a, k) \<in> live_objects F" if "a \<in> slots_of k p - set fs" for a
    using assms(2) F that by (auto simp: live_objects_def)
  then have "slots_of k p - set fs = {}" using fresh_heapD(3) [OF assms(1)] by auto
  ultimately have "fs \<noteq> []" by auto
  then show thesis using F that by (cases fs) auto
qed

text \<open>The order of a small request, and the object it gets.\<close>

lemma kmalloc_small:
  assumes sz: "unat sz \<le> 2048"
  obtains k where "order_ok k" "unat sz \<le> 2 ^ k"
    "\<And>fuel s :: 'z kernel_state_scheme. kmalloc fuel s sz = alloc_in_slab_nolock fuel s (slabs s k) (int k)"
proof -
  obtain k where k: "order_ok k" "unat sz \<le> 2 ^ k"
    "(let order = sint (ucast (size_to_order sz) :: u32) in if order < SLAB_MIN_ORDER then SLAB_MIN_ORDER else order) = int k"
    by (rule alloc_class [OF sz])
  have big: "order_to_size (word_of_int SLAB_MAX_ORDER) = Inr 2048" by (simp add: order_to_size_def)
  have le: "sz \<le> 2048" "\<not> 2048 < sz" using sz by (simp_all add: word_less_nat_alt word_le_nat_alt)
  have small: "push_bit (nat SLAB_MAX_ORDER) 1 = (2048 :: u64)" by simp
  have "kmalloc fuel s sz = alloc_in_slab_nolock fuel s (slabs s k) (int k)" for fuel and s :: "'z kernel_state_scheme"
    using k(3) big le unfolding kmalloc_def small
    by (simp add: alloc_in_slab_def alloc_in_slab_unlocked_def slab_index_ok [OF k(1)] Let_def del: word_of_int_numeral)
  then show thesis by (rule that [OF k(1,2)])
qed

lemma take_object:
  fixes s :: "'z kernel_state_scheme"
  assumes fresh: "fresh_heap s A F" and sz: "unat sz \<le> 2048" and fuel: "0 < fuel"
  obtains m' x k F' where "kmalloc fuel s sz = Some (Inr (s\<lparr>mem := m'\<rparr>, x))" "x \<noteq> 0" "order_ok k" "unat sz \<le> 2 ^ k"
    "slab_inv (s\<lparr>mem := m'\<rparr>) A F'" "live_objects F' = {(x, k)}" "\<forall>l. order_ok l \<longrightarrow> F' l \<noteq> []" "dom m' = dom (mem s)"
    "client_chunks A F' = {}"
proof -
  note f = fresh_heapD [OF fresh]
  obtain k where k: "order_ok k" "unat sz \<le> 2 ^ k"
    "\<And>fuel s :: 'z kernel_state_scheme. kmalloc fuel s sz = alloc_in_slab_nolock fuel s (slabs s k) (int k)"
    by (rule kmalloc_small [OF sz, where 'z = 'z]) (rule that)
  obtain p x fs ys where F: "F k = [] @ (p, x # fs) # ys" using fresh_slot [OF fresh k(1)] by (metis append_Nil)
  obtain m' where m': "pop_slot s p = Inr (s\<lparr>mem := m'\<rparr>, x)" "header_write (mem s) p m'"
    "slab_inv (s\<lparr>mem := m'\<rparr>) A (F(k := [] @ (p, fs) # ys))" "x \<noteq> 0"
    by (rule pop_slot_ok [OF f(1) k(1) F]) (rule that)
  let ?F = "F(k := [] @ (p, fs) # ys)"
  have "slabs s k = p" using slab_invD(2) [OF f(1) k(1)] F by (simp add: class_ok_def)
  moreover obtain fuel' where "fuel = Suc fuel'" using fuel by (cases fuel) auto
  ultimately have "kmalloc fuel s sz = Some (Inr (s\<lparr>mem := m'\<rparr>, x))" using m'(1,4) by (simp add: k(3))
  moreover have "live_objects ?F = {(x, k)}" using live_update(2) [OF f(1) k(1) F] f(3) by simp
  moreover have "\<forall>l. order_ok l \<longrightarrow> ?F l \<noteq> []" using f(2) by simp
  moreover have "dom m' = dom (mem s)" using m'(2) by (simp add: header_write_def)
  moreover have "client_chunks A ?F = {}"
    using all_slabs_update [of "[] @ (p, fs) # ys" F k] F f(4) by (simp add: client_chunks_def)
  ultimately show thesis using k(1,2) m'(3,4) by (intro that)
qed

lemma give_object_back:
  assumes inv: "slab_inv s A F" and x: "live_objects F = {(x, k)}" and ne: "\<forall>l. order_ok l \<longrightarrow> F l \<noteq> []"
    and rest: "client_chunks A F = {}" "card A < 14" "15 * 2 ^ 13 \<le> pool_pages s"
  obtains m' F' where "kfree s x = Inr (s\<lparr>mem := m'\<rparr>)" "fresh_heap (s\<lparr>mem := m'\<rparr>) A F'" "dom m' = dom (mem s)"
proof -
  have live: "(x, k) \<in> live_objects F" using x by simp
  obtain s' F' where s': "free_in_slab s x = Inr s'" "slab_inv s' A F'" "live_objects F' = live_objects F - {(x, k)}"
    "\<forall>l. map fst (F' l) = map fst (F l)" "dom (mem s') = dom (mem s)" "s' = s\<lparr>mem := mem s'\<rparr>"
    using free_in_slab_live [OF inv live] by blast
  have "all_slabs F' = all_slabs F" unfolding all_slabs_def using s'(4) by simp
  moreover have "\<forall>l. order_ok l \<longrightarrow> F' l \<noteq> []" using ne s'(4) by (metis map_is_Nil_conv)
  moreover have "pool_pages s' = pool_pages s" by (subst s'(6)) simp
  ultimately have "fresh_heap s' A F'" using s'(2,3) x rest by (simp add: fresh_heap_def client_chunks_def)
  moreover have "kfree s x = Inr (s\<lparr>mem := mem s'\<rparr>)" using kfree_object [OF inv live] s'(1,6) by simp
  ultimately show thesis using that [of "mem s'" F'] s'(5,6) by metis
qed

subsection \<open>An array of ints\<close>

lemma offset_diff:
  assumes "n < 2 ^ 63" "m < 2 ^ 63"
  shows "unat (of_nat n - of_nat m :: u64) = (if m \<le> n then n - m else 2 ^ 64 - (m - n))"
proof (cases "m \<le> n")
  case True
  then have "of_nat n - of_nat m = (of_nat (n - m) :: u64)" by simp
  moreover have "unat (of_nat (n - m) :: u64) = n - m" by (rule unat_of_nat_less) (use assms in simp)
  ultimately show ?thesis using True by simp
next
  case False
  have u: "unat (of_nat n :: u64) = n" "unat (of_nat m :: u64) = m" using assms by (simp_all add: unat_of_nat_less)
  then show ?thesis using False by (simp add: unat_sub_if' word_le_nat_alt)
qed

lemma int_cell:
  assumes "i < 100" "j < 100" "i \<noteq> j" "b < (4 :: nat)"
  shows "4 \<le> unat (p + of_nat j * 4 + of_nat b - (p + of_nat i * 4 :: u64))"
proof -
  have "p + of_nat j * 4 + of_nat b - (p + of_nat i * 4 :: u64) = of_nat (j * 4 + b) - of_nat (i * 4)" by simp
  moreover have "j * 4 + b < 2 ^ 63" "i * 4 < 2 ^ 63" "i * 4 \<le> j * 4 + b \<longleftrightarrow> i < j" using assms by auto
  ultimately show ?thesis using assms by (simp only: offset_diff) auto
qed

lemma four_dvd_cell: "4 dvd unat p \<Longrightarrow> 4 dvd unat (p + of_nat i * 4 :: u64)"
proof -
  assume p: "4 dvd unat p"
  have "unat (p + of_nat i * 4) = (unat p + i * 4 mod 2 ^ 64) mod 2 ^ 64"
    by (simp add: unat_word_ariths unat_of_nat take_bit_eq_mod mod_mult_left_eq mod_add_right_eq)
  then show ?thesis using p by (simp add: dvd_mod)
qed

lemma load32_cong:
  "(\<And>i. i < 4 \<Longrightarrow> m' (a + of_nat i) = m (a + of_nat i)) \<Longrightarrow> load32 m' a = load32 m a"
proof -
  assume eq: "\<And>i. i < 4 \<Longrightarrow> m' (a + of_nat i) = m (a + of_nat i)"
  then have e: "map (\<lambda>i. m' (a + of_nat i)) [0..<4] = map (\<lambda>i. m (a + of_nat i)) [0..<4]" by simp
  show ?thesis unfolding load32_def load_bytes_def e ..
qed

lemma bytes_of_u32: "u64_of_bytes (bytes_of_word n (v :: u32)) = take_bit (8 * n) (ucast v)"
proof (induction n v rule: bytes_of_word.induct)
  case (2 n w)
  show ?case by (rule bit_word_eqI) (auto simp: 2 bit_simps)
qed simp

lemma store32_load32:
  assumes al: "4 dvd unat a" and mp: "mapped m a 4"
  obtains m' where "store32 a v m = Inr m'" "dom m' = dom m" "load32 m' a = Inr v" "\<And>x. 4 \<le> unat (x - a) \<Longrightarrow> m' x = m x"
proof -
  have "mapped m a (length (bytes_of_word 4 v))" using mp by simp
  from store_bytes_ok [OF this] obtain m' where m': "store_bytes a (bytes_of_word 4 v) m = Inr m'" "dom m' = dom m"
    "\<And>x. m' x = (if unat (x - a) < 4 then Some (bytes_of_word 4 v ! unat (x - a)) else m x)" by auto
  have c: "m' (a + of_nat i) = Some (bytes_of_word 4 v ! i)" if "i < 4" for i
  proof -
    have "unat (a + of_nat i - a) = i" using that by (simp only: unat_diff_add) simp
    then show ?thesis using that by (simp only: m'(3) if_True)
  qed
  have "map (\<lambda>i. the (m' (a + of_nat i))) [0..<4] = bytes_of_word 4 v"
    using c by (intro nth_equalityI) simp_all
  moreover have "mapped m' a 4" using c by (simp add: mapped_iff)
  moreover have "ucast (u64_of_bytes (bytes_of_word 4 v)) = v"
    by (rule bit_word_eqI) (simp add: bytes_of_u32 bit_simps del: bytes_of_word.simps)
  ultimately have "load32 m' a = Inr v" using al by (simp add: load32_def load_bytes_eq)
  moreover have "store32 a v m = Inr m'" using al m'(1) by (simp add: store32_def)
  ultimately show thesis using m'(2,3) by (intro that [of m']) simp_all
qed

text \<open>After the loop each int it has stored is in its place, and nothing but the array has changed.\<close>

lemma store_ints_ok:
  assumes al: "4 dvd unat p"
  shows "mapped (mem s) p 400 \<Longrightarrow> distinct is \<Longrightarrow> set is \<subseteq> {..<100} \<Longrightarrow>
    \<exists>m'. store_ints p is s = Inr (s\<lparr>mem := m'\<rparr>) \<and> dom m' = dom (mem s) \<and>
      (\<forall>x. 400 \<le> unat (x - p) \<longrightarrow> m' x = mem s x) \<and> (\<forall>j \<in> set is. load32 m' (p + of_nat j * 4) = Inr (of_nat j)) \<and>
      (\<forall>j < 100. j \<notin> set is \<longrightarrow> load32 m' (p + of_nat j * 4) = load32 (mem s) (p + of_nat j * 4))"
proof (induction "is" arbitrary: s)
  case Nil
  then show ?case by (auto intro: exI [of _ "mem s"])
next
  case (Cons i js)
  have i: "i < 100" "i \<notin> set js" using Cons.prems by simp_all
  let ?a = "p + of_nat i * 4"
  have "mapped (mem s) ?a 4"
    unfolding mapped_iff
  proof (intro allI impI)
    fix b :: nat assume "b < 4"
    then have "i * 4 + b < 400" using i(1) by simp
    then have "mem s (p + of_nat (i * 4 + b)) \<noteq> None" using Cons.prems(1) unfolding mapped_iff by blast
    then show "mem s (?a + of_nat b) \<noteq> None" by (simp add: add.assoc)
  qed
  from store32_load32 [OF four_dvd_cell [OF al] this] obtain m1 where
    m1: "store32 ?a (of_nat i) (mem s) = Inr m1" "dom m1 = dom (mem s)" "load32 m1 ?a = Inr (of_nat i)"
      "\<And>x. 4 \<le> unat (x - ?a) \<Longrightarrow> m1 x = mem s x" by metis
  have keep: "load32 m1 (p + of_nat j * 4) = load32 (mem s) (p + of_nat j * 4)" if "j < 100" "j \<noteq> i" for j
    using int_cell [OF i(1) that(1)] that(2) by (intro load32_cong m1(4)) auto
  have out: "m1 x = mem s x" if "400 \<le> unat (x - p)" for x
  proof (rule m1(4), rule ccontr)
    assume "\<not> 4 \<le> unat (x - ?a)"
    then have "unat (x - ?a) < 4" by simp
    moreover have "x - p = of_nat (i * 4 + unat (x - ?a))" by simp
    moreover have "i * 4 + unat (x - ?a) < 2 ^ 64" using i(1) calculation(1) by simp
    ultimately show False using that i(1) by (simp only: unat_of_nat_less)
  qed
  have "mapped (mem (s\<lparr>mem := m1\<rparr>)) p 400" using mapped_dom [OF m1(2)] Cons.prems(1) by simp
  from Cons.IH [OF this] Cons.prems(2,3) obtain m' where m': "store_ints p js (s\<lparr>mem := m1\<rparr>) = Inr (s\<lparr>mem := m'\<rparr>)"
    "dom m' = dom m1" "\<forall>x. 400 \<le> unat (x - p) \<longrightarrow> m' x = m1 x" "\<forall>j \<in> set js. load32 m' (p + of_nat j * 4) = Inr (of_nat j)"
    "\<forall>j < 100. j \<notin> set js \<longrightarrow> load32 m' (p + of_nat j * 4) = load32 m1 (p + of_nat j * 4)" by auto
  have "store_ints p (i # js) s = Inr (s\<lparr>mem := m'\<rparr>)" using m1(1) m'(1) by (simp add: write32_def)
  moreover have "load32 m' ?a = Inr (of_nat i)" using m'(5) i m1(3) by simp
  ultimately show ?case using m' m1(2) out keep by (intro exI [of _ m']) auto
qed

lemma check_ints_ok:
  "(\<forall>j \<in> set is. load32 (mem s) (p + of_nat j * 4) = Inr (of_nat j)) \<Longrightarrow> check_ints s p is True = Inr True"
  by (induction "is") (simp_all add: lab_and_def read32_def)

lemma test_array_ok:
  fixes s :: "'z kernel_state_scheme"
  assumes fresh: "fresh_heap s A F" and fuel: "0 < fuel"
  obtains m' F' where "test_array fuel s True = Some (Inr (True, s\<lparr>mem := m'\<rparr>))" "fresh_heap (s\<lparr>mem := m'\<rparr>) A F'" "dom m' = dom (mem s)"
proof -
  note f = fresh_heapD [OF fresh]
  have sz: "unat (400 :: u64) \<le> 2048" by simp
  obtain m1 x k F1 where o: "kmalloc fuel s 400 = Some (Inr (s\<lparr>mem := m1\<rparr>, x))" "x \<noteq> 0" "order_ok k" "unat (400 :: u64) \<le> 2 ^ k"
    "slab_inv (s\<lparr>mem := m1\<rparr>) A F1" "live_objects F1 = {(x, k)}" "\<forall>l. order_ok l \<longrightarrow> F1 l \<noteq> []" "dom m1 = dom (mem s)"
    "client_chunks A F1 = {}"
    by (rule take_object [OF fresh sz fuel])
  let ?s1 = "s\<lparr>mem := m1\<rparr>"
  have live: "(x, k) \<in> live_objects F1" using o(6) by simp
  then have "(x, 2 ^ k) \<in> heap_blocks A F1" by (force simp: heap_blocks_def)
  note place = block_place [OF o(5) this]
  have k: "400 \<le> (2 :: nat) ^ k" using o(4) by simp
  have "4 dvd unat x" using place(2) by (rule dvd_trans [rotated]) simp
  moreover have "mapped (mem ?s1) x 400"
    unfolding mapped_iff
  proof (intro allI impI)
    fix i :: nat assume "i < 400"
    then have "unat (x + of_nat i) = unat x + i" "i < 2 ^ k"
      using place(4) k by (simp_all add: unat_word_ariths unat_of_nat take_bit_eq_mod)
    then have "x + of_nat i \<in> block_bytes (x, 2 ^ k)" by (simp add: word_le_nat_alt)
    then show "mem ?s1 (x + of_nat i) \<noteq> None" using place(3) by blast
  qed
  moreover have "distinct [0..<100]" "set [0..<100] \<subseteq> {..<100 :: nat}" by auto
  ultimately obtain m2 where m2: "store_ints x [0..<100] ?s1 = Inr (?s1\<lparr>mem := m2\<rparr>)" "dom m2 = dom (mem ?s1)"
    "\<forall>y. 400 \<le> unat (y - x) \<longrightarrow> m2 y = mem ?s1 y" "\<forall>j \<in> set [0..<100]. load32 m2 (x + of_nat j * 4) = Inr (of_nat j)"
    using store_ints_ok [of x ?s1 "[0..<100]"] by blast
  have same: "\<forall>y. y \<notin> object_bytes (x, k) \<longrightarrow> m2 y = mem ?s1 y"
  proof (intro allI impI, rule m2(3) [rule_format], rule ccontr)
    fix y assume y: "y \<notin> object_bytes (x, k)" "\<not> 400 \<le> unat (y - x)"
    have "unat y = (unat x + unat (y - x)) mod 2 ^ 64" using unat_word_ariths(1) [of x "y - x"] by simp
    then have "unat y = unat x + unat (y - x)" using y(2) place(4) k by simp
    then show False using y k by (simp add: word_le_nat_alt)
  qed
  let ?s2 = "s\<lparr>mem := m2\<rparr>"
  have inv2: "slab_inv ?s2 A F1" using client_write_ok [OF o(5) live m2(2) same] by simp
  have chk: "check_ints ?s2 x [0..<100] True = Inr True" by (rule check_ints_ok) (use m2(4) in simp)
  have "15 * 2 ^ 13 \<le> pool_pages ?s2" using f(6) by simp
  then obtain m3 F3 where m3: "kfree ?s2 x = Inr (?s2\<lparr>mem := m3\<rparr>)" "fresh_heap (?s2\<lparr>mem := m3\<rparr>) A F3" "dom m3 = dom (mem ?s2)"
    by (rule give_object_back [OF inv2 o(6,7,9) f(5)])
  have "test_array fuel s True = Some (Inr (True, s\<lparr>mem := m3\<rparr>))"
    using o(1,2) m2(1) chk m3(1) by (simp add: test_array_def bug_on_def)
  then show thesis using m3(2,3) m2(2) o(8) by (intro that [of m3 F3]) simp_all
qed

lemma test_object_ok:
  assumes fresh: "fresh_heap s A F" and fuel: "0 < fuel"
  obtains m' F' where "test_object fuel s = Some (Inr (s\<lparr>mem := m'\<rparr>))" "fresh_heap (s\<lparr>mem := m'\<rparr>) A F'" "dom m' = dom (mem s)"
proof -
  note f = fresh_heapD [OF fresh]
  have sz: "unat (10 :: u64) \<le> 2048" by simp
  obtain m1 x k F1 where o: "kmalloc fuel s 10 = Some (Inr (s\<lparr>mem := m1\<rparr>, x))" "x \<noteq> 0"
    "slab_inv (s\<lparr>mem := m1\<rparr>) A F1" "live_objects F1 = {(x, k)}" "\<forall>l. order_ok l \<longrightarrow> F1 l \<noteq> []" "dom m1 = dom (mem s)"
    "client_chunks A F1 = {}"
    by (rule take_object [OF fresh sz fuel])
  have "15 * 2 ^ 13 \<le> pool_pages (s\<lparr>mem := m1\<rparr>)" using f(6) by simp
  then obtain m3 F3 where m3: "kfree (s\<lparr>mem := m1\<rparr>) x = Inr (s\<lparr>mem := m1, mem := m3\<rparr>)" "fresh_heap (s\<lparr>mem := m1, mem := m3\<rparr>) A F3"
    "dom m3 = dom (mem (s\<lparr>mem := m1\<rparr>))"
    by (rule give_object_back [OF o(3,4,5,7) f(5)])
  have "test_object fuel s = Some (Inr (s\<lparr>mem := m3\<rparr>))"
    using o(1,2) m3(1) by (simp add: test_object_def bug_on_def)
  then show thesis using m3(2,3) o(6) by (intro that [of m3 F3]) simp_all
qed

subsection \<open>Zeroed pages\<close>

lemma fresh_run:
  assumes "fresh_heap s A F" "k < 14"
  obtains i fl B where "buddy_inv s fl B" "A = chunk_of s ` B" "run_free (pool_base s) (pool_pages s) B i k"
proof -
  note f = fresh_heapD [OF assms(1)]
  obtain fl B where B: "buddy_inv s fl B" "A = chunk_of s ` B"
    using slab_invD(1) [OF f(1)] by (auto simp: pages_held_def)
  have "card B < 14" using f(5) card_image [OF chunk_of_inj [OF B(1)]] B(2) by simp
  then show thesis using free_run_exists [OF B(1) _ f(6) assms(2)] B that by blast
qed

lemma order_of_two_pages: "size_to_page_order 0x2000 = Inr 1"
proof -
  have "page_halvings 2 0 = 1" by (simp add: page_halvings.simps [of 2] page_halvings.simps [of 1])
  then show ?thesis by (simp add: size_to_page_order_def ROUND_UP_def Let_def word_le_nat_alt)
qed

lemma check_zeros_ok:
  "(\<forall>i \<in> set is. mem s (p + of_nat i) = Some 0) \<Longrightarrow> check_zeros s p is True = Inr True"
  by (induction "is") (simp_all add: lab_and_def read8_def load8_def)

lemma test_zeroed_ok:
  assumes fresh: "fresh_heap s A F"
  obtains s' where "test_zeroed fuel s True = Some (Inr (True, s'))" "fresh_heap s' A F" "dom (mem s') = dom (mem s)"
    "pool_pages s' = pool_pages s"
proof -
  note f = fresh_heapD [OF fresh]
  have one: "1 < (14 :: nat)" by simp
  obtain i fl B where run: "buddy_inv s fl B" "A = chunk_of s ` B" "run_free (pool_base s) (pool_pages s) B i 1"
    by (rule fresh_run [OF fresh one])
  obtain s1 a where g: "get_pages s 1 = Inr (s1, a)" "same_pool s s1" "a \<noteq> 0" "(a, 1) \<notin> A" "pages_held s1 (insert (a, 1) A)"
    using pages_held_get [OF slab_invD(1) [OF f(1)] one] run by (auto split: if_splits)
  have km: "kmalloc fuel s 0x2000 = Some (Inr (s1, a))"
    using g(1) by (simp add: kmalloc_def order_of_two_pages)
  have inv1: "slab_inv s1 (insert (a, 1) A) F" by (rule slab_inv_get_pages [OF f(1) g(2,5)]) blast
  note new = new_chunk_no_slab [OF f(1) g(4,5)]
  have ac: "(a, 1) \<in> insert (a, 1) A" by simp
  note c = pages_held_chunk [OF g(5) ac]
  have off: "unat (a + of_nat j) = unat a + j" if "j < 0x2000" for j
    using c(3) that by (simp add: unat_word_ariths unat_of_nat take_bit_eq_mod)
  have "mapped (mem s1) a (unat (0x2000 :: u64))"
    unfolding mapped_iff
  proof (intro allI impI)
    fix j assume "j < unat (0x2000 :: u64)"
    then have "a + of_nat j \<in> chunk (a, 1)" using off [of j] by (simp add: word_le_nat_alt)
    then show "mem s1 (a + of_nat j) \<noteq> None" using c(4) by blast
  qed
  from memset_ok [OF this, of 0] obtain m where m: "memset a 0 0x2000 (mem s1) = Inr m" "dom m = dom (mem s1)"
    "\<forall>x. m x = (if unat (x - a) < 0x2000 then Some 0 else mem s1 x)" by auto
  have in_chunk: "x \<in> chunk (a, 1)" if "unat (x - a) < 0x2000" for x
    using off [OF that] that by (simp add: word_le_nat_alt)
  let ?s2 = "s1\<lparr>mem := m\<rparr>"
  have inv2: "slab_inv ?s2 (insert (a, 1) A) F"
  proof (rule slab_inv_outside [OF inv1 m(2)], rule load64_cong)
    fix p x and j :: nat assume p: "p \<in> set (all_slabs F)" "x \<in> chunk (p, 9)" "8 dvd unat x" "j < 8"
    have pA: "(p, 9) \<in> insert (a, 1) A" by (rule slab_invD(4) [OF inv1 p(1)])
    have "(p, 9 :: nat) \<noteq> (a, 1)" by simp
    then have apart: "chunk (p, 9) \<inter> chunk (a, 1) = {}" by (rule pages_held_apart [OF g(5) pA ac])
    have "x + of_nat j \<in> chunk (p, 9)" by (rule chunk_cell [OF g(5) pA p(2-4)])
    then have "\<not> unat (x + of_nat j - a) < 0x2000" using in_chunk apart by blast
    then show "m (x + of_nat j) = mem s1 (x + of_nat j)" using m(3) by simp
  qed
  have "m (a + of_nat j) = Some 0" if "j < 0x2000" for j
    using m(3) that by (simp add: unat_of_nat take_bit_eq_mod)
  then have chk: "check_zeros ?s2 a [0..<0x2000] True = Inr True" by (intro check_zeros_ok) simp
  obtain s3 where s3: "free_pages ?s2 a = Inr s3" "same_pool ?s2 s3" "pages_held s3 (insert (a, 1) A - {(a, 1)})"
    using pages_held_free [OF slab_invD(1) [OF inv2] ac] by blast
  note k3 = same_pool_kernel [OF s3(2)] and k1 = same_pool_kernel [OF g(2)]
  have "slab_inv s3 (insert (a, 1) A - {(a, 1)}) F" by (rule slab_inv_free_pages [OF inv2 ac new s3(2,3)])
  then have inv3: "slab_inv s3 A F" using g(4) by simp
  have pp: "pool_pages s3 = pool_pages s" using k3(9) k1(9) by simp
  then have "fresh_heap s3 A F" using inv3 f(2-6) by (simp add: fresh_heap_def)
  moreover have "test_zeroed fuel s True = Some (Inr (True, s3))"
    using km g(3) m(1) chk s3(1) kfree_pages [OF inv2 ac new]
    by (simp add: test_zeroed_def kzalloc_def fill_def bug_on_def)
  moreover have "dom (mem s3) = dom (mem s)" using k3(1) k1(1) m(2) by simp
  ultimately show thesis using pp by (intro that)
qed

subsection \<open>The test\<close>

lemma kmalloc_test_ok:
  assumes fresh: "fresh_heap s A F" and fuel: "0 < fuel"
  obtains s' F' where "lab2_test_kmalloc fuel s = Some (Inr ([(''kmalloc'', True)], s'))" "fresh_heap s' A F'"
    "dom (mem s') = dom (mem s)" "pool_pages s' = pool_pages s"
proof -
  obtain m1 F1 where s1: "test_object fuel s = Some (Inr (s\<lparr>mem := m1\<rparr>))" "fresh_heap (s\<lparr>mem := m1\<rparr>) A F1" "dom m1 = dom (mem s)"
    by (rule test_object_ok [OF fresh fuel])
  obtain m2 F2 where s2: "test_array fuel (s\<lparr>mem := m1\<rparr>) True = Some (Inr (True, s\<lparr>mem := m1, mem := m2\<rparr>))"
    "fresh_heap (s\<lparr>mem := m1, mem := m2\<rparr>) A F2" "dom m2 = dom (mem (s\<lparr>mem := m1\<rparr>))"
    by (rule test_array_ok [OF s1(2) fuel])
  obtain s3 where s3: "test_zeroed fuel (s\<lparr>mem := m1, mem := m2\<rparr>) True = Some (Inr (True, s3))" "fresh_heap s3 A F2"
    "dom (mem s3) = dom (mem (s\<lparr>mem := m1, mem := m2\<rparr>))" "pool_pages s3 = pool_pages (s\<lparr>mem := m1, mem := m2\<rparr>)"
    by (rule test_zeroed_ok [OF s2(2)])
  have "lab2_test_kmalloc fuel s = Some (Inr ([(''kmalloc'', True)], s3))"
    unfolding lab2_test_kmalloc_def s1(1) fbind.simps s2(1) prod.case s3(1) ..
  moreover have "dom (mem s3) = dom (mem s)" "pool_pages s3 = pool_pages s" using s3(3,4) s2(3) s1(3) by simp_all
  ultimately show thesis using s3(2) by (intro that)
qed

end
