(* ===== verification/Page_Table_Huge.thy ===== *)
theory Page_Table_Huge
  imports Page_Table_Correct
begin

text \<open>
  \<open>map_range_in_pgtbl_huge\<close>: mapping with 1G and 2M blocks where alignment and length allow
  it, and the translations it leaves.
\<close>

subsection \<open>Blocks\<close>

lemma in_range_block:
  assumes "2 ^ k dvd unat va"
  shows "unat x div 2 ^ k = unat va div 2 ^ k \<longleftrightarrow> in_range va (2 ^ k) x"
proof -
  obtain c where c: "unat va = 2 ^ k * c" using assms by (elim dvdE)
  have "unat x div 2 ^ k = c \<longleftrightarrow> 2 ^ k * c \<le> unat x \<and> unat x < 2 ^ k * c + 2 ^ k"
  proof
    assume "unat x div 2 ^ k = c"
    moreover have "unat x = 2 ^ k * (unat x div 2 ^ k) + unat x mod 2 ^ k" by simp
    moreover have "unat x mod 2 ^ k < 2 ^ k" by simp
    ultimately show "2 ^ k * c \<le> unat x \<and> unat x < 2 ^ k * c + 2 ^ k" by (metis le_add1 nat_add_left_cancel_less)
  next
    assume "2 ^ k * c \<le> unat x \<and> unat x < 2 ^ k * c + 2 ^ k"
    then show "unat x div 2 ^ k = c"
      by (intro div_nat_eqI) (simp_all add: mult.commute)
  qed
  then show ?thesis using c by (simp add: in_range_def)
qed

lemma aligned_mask: "w AND (2 ^ k - 1) = 0 \<longleftrightarrow> 2 ^ k dvd unat (w :: u64)"
proof -
  have "w AND (2 ^ k - 1) = take_bit k w" by (simp only: take_bit_eq_mask mask_eq_exp_minus_1)
  moreover have "unat (take_bit k w) = unat w mod 2 ^ k"
    by (simp only: unsigned_take_bit_eq) (simp only: take_bit_eq_mod)
  ultimately show ?thesis by (simp add: word_unat_eq_iff dvd_eq_mod_eq_0)
qed

lemma block_aligned:
  "w AND (L1_BLOCK_SIZE - 1) = 0 \<longleftrightarrow> 2 ^ 30 dvd unat w"
  "w AND (L2_BLOCK_SIZE - 1) = 0 \<longleftrightarrow> 2 ^ 21 dvd unat w"
  using aligned_mask [of w 30] aligned_mask [of w 21] by (simp_all add: L1_BLOCK_SIZE_def L2_BLOCK_SIZE_def)

text \<open>Writing a block entry at level 1 or 2, whatever was there before.\<close>

lemma write_l1_ok:
  assumes wf: "pt_wf s r A" and va: "unat va < 2 ^ 48" and p: "tbl (mem s) r [GET_L0_INDEX va] = Some p"
    and v: "\<not> IS_PTE_TABLE v"
  shows "\<exists>s'. write64 (entry_addr p (GET_L1_INDEX va)) v s = Inr s' \<and> extends s r A s' A 0 \<and>
    (\<forall>x. unat x < 2 ^ 48 \<longrightarrow> leaf s' r x =
      (if unat x div 2 ^ 30 = unat va div 2 ^ 30
       then if IS_PTE_INVALID v then None else Some (entry_addr p (GET_L1_INDEX va), v, 2)
       else leaf s r x)) \<and> tbl (mem s') r [GET_L0_INDEX va] = Some p \<and>
    (tbl (mem s) r [GET_L0_INDEX va, GET_L1_INDEX va] = None \<longrightarrow> same_tables s r s')"
proof -
  have c: "length [GET_L0_INDEX va] = 3 \<or> IS_PTE_INVALID v \<or> \<not> IS_PTE_TABLE v"
    "[GET_L0_INDEX va] = [] \<longrightarrow> IS_PTE_INVALID v \<or> IS_PTE_TABLE v" using v by simp_all
  obtain s' where s': "write64 (entry_addr p (GET_L1_INDEX va)) v s = Inr s'" "pt_wf s' r A"
    "pool_pages s' = pool_pages s" "dom (mem s') = dom (mem s)"
    "\<forall>path. set path \<subseteq> {..<512} \<longrightarrow> length path = 4 \<longrightarrow> walk (mem s') r path =
      (if prefix ([GET_L0_INDEX va] @ [GET_L1_INDEX va]) path
       then if IS_PTE_INVALID v then None else Some (entry_addr p (GET_L1_INDEX va), v, 3 - length [GET_L0_INDEX va])
       else walk (mem s) r path)"
    "\<forall>ys. tpath ys \<longrightarrow> \<not> prefix ([GET_L0_INDEX va] @ [GET_L1_INDEX va]) ys \<longrightarrow> tbl (mem s') r ys = tbl (mem s) r ys"
    "length [GET_L0_INDEX va] = 3 \<or> tbl (mem s) r ([GET_L0_INDEX va] @ [GET_L1_INDEX va]) = None \<longrightarrow> same_tables s r s'"
    using write_leaf_ok [OF wf tpath_vpath(1) p index_bound(2) [of va] c] by (elim exE conjE) (rule that)
  have "leaf s' r x = (if unat x div 2 ^ 30 = unat va div 2 ^ 30
       then if IS_PTE_INVALID v then None else Some (entry_addr p (GET_L1_INDEX va), v, 2)
       else leaf s r x)" if "unat x < 2 ^ 48" for x
    using s'(5) [rule_format, OF vpath_bound] prefix_vpath(1) [OF that va] by (simp add: leaf_def)
  moreover have "tbl (mem s') r [GET_L0_INDEX va] = Some p" using s'(6) tpath_vpath(1) p by (simp del: tbl.simps)
  ultimately show ?thesis using s' by (auto simp: extends_def simp del: tbl.simps)
qed

lemma write_l2_ok:
  assumes wf: "pt_wf s r A" and va: "unat va < 2 ^ 48"
    and p: "tbl (mem s) r [GET_L0_INDEX va, GET_L1_INDEX va] = Some p" and v: "\<not> IS_PTE_TABLE v"
  shows "\<exists>s'. write64 (entry_addr p (GET_L2_INDEX va)) v s = Inr s' \<and> extends s r A s' A 0 \<and>
    (\<forall>x. unat x < 2 ^ 48 \<longrightarrow> leaf s' r x =
      (if unat x div 2 ^ 21 = unat va div 2 ^ 21
       then if IS_PTE_INVALID v then None else Some (entry_addr p (GET_L2_INDEX va), v, 1)
       else leaf s r x)) \<and> tbl (mem s') r [GET_L0_INDEX va, GET_L1_INDEX va] = Some p \<and>
    (tbl (mem s) r [GET_L0_INDEX va, GET_L1_INDEX va, GET_L2_INDEX va] = None \<longrightarrow> same_tables s r s')"
proof -
  have c: "length [GET_L0_INDEX va, GET_L1_INDEX va] = 3 \<or> IS_PTE_INVALID v \<or> \<not> IS_PTE_TABLE v"
    "[GET_L0_INDEX va, GET_L1_INDEX va] = [] \<longrightarrow> IS_PTE_INVALID v \<or> IS_PTE_TABLE v" using v by simp_all
  obtain s' where s': "write64 (entry_addr p (GET_L2_INDEX va)) v s = Inr s'" "pt_wf s' r A"
    "pool_pages s' = pool_pages s" "dom (mem s') = dom (mem s)"
    "\<forall>path. set path \<subseteq> {..<512} \<longrightarrow> length path = 4 \<longrightarrow> walk (mem s') r path =
      (if prefix ([GET_L0_INDEX va, GET_L1_INDEX va] @ [GET_L2_INDEX va]) path
       then if IS_PTE_INVALID v then None else Some (entry_addr p (GET_L2_INDEX va), v, 3 - length [GET_L0_INDEX va, GET_L1_INDEX va])
       else walk (mem s) r path)"
    "\<forall>ys. tpath ys \<longrightarrow> \<not> prefix ([GET_L0_INDEX va, GET_L1_INDEX va] @ [GET_L2_INDEX va]) ys \<longrightarrow> tbl (mem s') r ys = tbl (mem s) r ys"
    "length [GET_L0_INDEX va, GET_L1_INDEX va] = 3 \<or> tbl (mem s) r ([GET_L0_INDEX va, GET_L1_INDEX va] @ [GET_L2_INDEX va]) = None \<longrightarrow> same_tables s r s'"
    using write_leaf_ok [OF wf tpath_vpath(2) p index_bound(3) [of va] c] by (elim exE conjE) (rule that)
  have "leaf s' r x = (if unat x div 2 ^ 21 = unat va div 2 ^ 21
       then if IS_PTE_INVALID v then None else Some (entry_addr p (GET_L2_INDEX va), v, 1)
       else leaf s r x)" if "unat x < 2 ^ 48" for x
    using s'(5) [rule_format, OF vpath_bound] prefix_vpath(2) [OF that va] by (simp add: leaf_def)
  moreover have "tbl (mem s') r [GET_L0_INDEX va, GET_L1_INDEX va] = Some p" using s'(6) tpath_vpath(2) p by (simp del: tbl.simps)
  ultimately show ?thesis using s' by (auto simp: extends_def simp del: tbl.simps)
qed

text \<open>No block of the table lies partly in the range.\<close>

definition blocks_within :: "'z kernel_state_scheme \<Rightarrow> u64 \<Rightarrow> u64 \<Rightarrow> nat \<Rightarrow> bool" where
  "blocks_within s r va len \<longleftrightarrow> (\<forall>x a e n. in_range va len x \<longrightarrow> leaf s r x = Some (a, e, n) \<longrightarrow>
     (\<forall>y. unat y div 2 ^ (12 + 9 * n) = unat x div 2 ^ (12 + 9 * n) \<longrightarrow> in_range va len y))"

lemma blocks_within_split:
  assumes split: "\<And>x. in_range va l x \<longleftrightarrow> in_range va (2 ^ k) x \<or> in_range va' l' x" and al: "2 ^ k dvd unat va"
    and one: "\<forall>x. unat x < 2 ^ 48 \<longrightarrow> in_range va (2 ^ k) x \<longrightarrow> leaf s r x = Some (a, e, n)" "k = 12 + 9 * n"
    and bound: "\<And>x. in_range va l x \<Longrightarrow> unat x < 2 ^ 48" and rest: "blocks_within s r va' l'"
  shows "blocks_within s r va l"
  unfolding blocks_within_def
proof (intro allI impI)
  fix x a' e' m and y :: u64
  assume x: "in_range va l x" "leaf s r x = Some (a', e', m)"
    and y: "unat y div 2 ^ (12 + 9 * m) = unat x div 2 ^ (12 + 9 * m)"
  show "in_range va l y"
  proof (cases "in_range va (2 ^ k) x")
    case True
    then have "m = n" using one(1) bound [OF x(1)] x(2) by simp
    then have "in_range va (2 ^ k) y" using y True in_range_block [OF al] unfolding one(2) by metis
    then show ?thesis using split by blast
  next
    case False
    then show ?thesis using split x rest y unfolding blocks_within_def by blast
  qed
qed

text \<open>The block the code chooses: 1G or 2M where both addresses are aligned and it fits.\<close>

definition block_shift :: "u64 \<Rightarrow> u64 \<Rightarrow> nat \<Rightarrow> nat" where
  "block_shift va pa room =
     (if 2 ^ 30 dvd unat va \<and> 2 ^ 30 dvd unat pa \<and> 2 ^ 30 \<le> room then 30
      else if 2 ^ 21 dvd unat va \<and> 2 ^ 21 dvd unat pa \<and> 2 ^ 21 \<le> room then 21 else 12)"

definition leaf_pte :: "nat \<Rightarrow> u64 \<Rightarrow> u64 \<Rightarrow> u64" where
  "leaf_pte k pa flags = (if k = 30 then l1_pte pa flags else if k = 21 then l2_pte pa flags else l3_pte pa flags)"

text \<open>A step that made the block of \<open>2 ^ k\<close> bytes at \<open>va\<close> a leaf has mapped that range.\<close>

lemma block_step:
  assumes al: "2 ^ k dvd unat va" and l: "\<forall>x. unat x < 2 ^ 48 \<longrightarrow> leaf s' r x =
      (if unat x div 2 ^ k = unat va div 2 ^ k then Some (a, e, n) else leaf s r x)"
    and pa: "\<And>x. leaf_pa n e x = pa + take_bit k x" and e: "entry_attributes e = flag_attributes flags"
  shows "mapped_range flags s r va pa (2 ^ k) s'"
    and "\<forall>x. unat x < 2 ^ 48 \<longrightarrow> \<not> in_range va (2 ^ k) x \<longrightarrow> leaf s' r x = leaf s r x"
    and "\<exists>a. \<forall>x. unat x < 2 ^ 48 \<longrightarrow> in_range va (2 ^ k) x \<longrightarrow> leaf s' r x = Some (a, e, n)"
proof -
  show "\<exists>a. \<forall>x. unat x < 2 ^ 48 \<longrightarrow> in_range va (2 ^ k) x \<longrightarrow> leaf s' r x = Some (a, e, n)"
    using l in_range_block [OF al] by auto
  show "mapped_range flags s r va pa (2 ^ k) s'"
    using l take_bit_offset [OF al] unfolding in_range_block [OF al]
    by (simp add: mapped_range_def translate_def pa e)
  show "\<forall>x. unat x < 2 ^ 48 \<longrightarrow> \<not> in_range va (2 ^ k) x \<longrightarrow> leaf s' r x = leaf s r x"
    using l in_range_block [OF al] by simp
qed

text \<open>A block over no table: the entry it overwrites does not lead to one.\<close>

definition fresh_block :: "'z kernel_state_scheme \<Rightarrow> u64 \<Rightarrow> u64 \<Rightarrow> nat \<Rightarrow> bool" where
  "fresh_block s r va k \<longleftrightarrow> (k = 30 \<longrightarrow> tbl (mem s) r (take 2 (vpath va)) = None) \<and>
     (k = 21 \<longrightarrow> tbl (mem s) r (take 3 (vpath va)) = None)"

lemma map_huge_step_range:
  assumes wf: "pt_wf s r A" and va: "unat va < unat va_end" "unat va_end \<le> 2 ^ 48" "4096 dvd unat va"
    and pa: "unat pa < 2 ^ 48" "4096 dvd unat pa" and fit: "4096 \<le> unat va_end - unat va"
    and nb: "no_block s r va" and room: "chunk_pages A + missing s r va \<le> pool_pages s"
  shows "\<exists>s' A' k. map_huge_step r flags va_end s va pa = Inr (s', of_nat (2 ^ k)) \<and> extends s r A s' A' (missing s r va) \<and>
    12 \<le> k \<and> k \<le> 30 \<and> 2 ^ k \<le> unat va_end - unat va \<and> mapped_range flags s r va pa (2 ^ k) s' \<and>
    k = block_shift va pa (unat va_end - unat va) \<and> 2 ^ k dvd unat va \<and>
    (\<exists>j \<in> {1, 2, 3}. k = 39 - 9 * j \<and> tbl (mem s') r (take j (vpath va)) \<noteq> None) \<and>
    (fresh_block s r va k \<longrightarrow> grown s r A s' A' (vpath va)) \<and>
    (\<exists>a. \<forall>x. unat x < 2 ^ 48 \<longrightarrow> in_range va (2 ^ k) x \<longrightarrow> leaf s' r x = Some (a, leaf_pte k pa flags, (k - 12) div 9)) \<and>
    (\<forall>x. unat x < 2 ^ 48 \<longrightarrow> \<not> in_range va (2 ^ k) x \<longrightarrow> leaf s' r x = leaf s r x)"
proof -
  let ?i0 = "GET_L0_INDEX va" and ?i1 = "GET_L1_INDEX va" and ?i2 = "GET_L2_INDEX va" and ?i3 = "GET_L3_INDEX va"
  have va48: "unat va < 2 ^ 48" using va(1,2) by simp
  have sub: "unat (va_end - va) = unat va_end - unat va" using va(1) by (simp add: unat_sub word_le_nat_alt)
  have sz: "L1_BLOCK_SIZE \<le> va_end - va \<longleftrightarrow> 2 ^ 30 \<le> unat va_end - unat va"
    "L2_BLOCK_SIZE \<le> va_end - va \<longleftrightarrow> 2 ^ 21 \<le> unat va_end - unat va"
    unfolding sub [symmetric] by (simp_all add: L1_BLOCK_SIZE_def L2_BLOCK_SIZE_def word_le_nat_alt)
  have r0: "tbl (mem s) r [] = Some r" by simp
  obtain s1 A1 p1 where 1: "get_next_ptp s r 0 va None None True = Inr (s1, 0, Some p1, Some (entry_addr r ?i0))"
    "extends s r A s1 A1 1" "tbl (mem s1) r [?i0] = Some p1" "\<And>x. leaf s1 r x = leaf s r x"
    "chunk_pages A1 + missing s1 r va \<le> chunk_pages A + missing s r va" "grown s r A s1 A1 [?i0]"
    using descend_va [OF wf vpath_split(1) _ r0 nb room, of None None] by auto
  have w1: "pt_wf s1 r A1" "chunk_pages A1 + missing s1 r va \<le> pool_pages s1" and nb1: "no_block s1 r va"
    using 1(2,4,5) room nb by (auto simp: extends_def no_block_def)
  note pe1 = pt_entry(1) [OF w1(1) tpath_vpath(1) 1(3) index_bound(2)]
  show ?thesis
  proof (cases "2 ^ 30 dvd unat va \<and> 2 ^ 30 dvd unat pa \<and> L1_BLOCK_SIZE \<le> va_end - va")
    case True
    obtain s2 where 2: "write64 (entry_addr p1 ?i1) (l1_pte pa flags) s1 = Inr s2" "extends s1 r A1 s2 A1 0"
      "\<forall>x. unat x < 2 ^ 48 \<longrightarrow> leaf s2 r x = (if unat x div 2 ^ 30 = unat va div 2 ^ 30
        then if IS_PTE_INVALID (l1_pte pa flags) then None else Some (entry_addr p1 ?i1, l1_pte pa flags, 2)
        else leaf s1 r x)" "tbl (mem s2) r [?i0] = Some p1"
      "tbl (mem s1) r [?i0, ?i1] = None \<longrightarrow> same_tables s1 r s2"
      using write_l1_ok [OF w1(1) va48 1(3) leaf_pte_kind(4)] by blast
    have "map_huge_step r flags va_end s va pa = Inr (s2, of_nat (2 ^ 30))"
      using 1(1) True fill_pte_ok(2) [OF pe1] 2(1)
      by (simp add: map_huge_step_def block_aligned entry_addr_def) (simp add: L1_BLOCK_SIZE_def)
    moreover have "2 ^ 30 \<le> unat va_end - unat va" using True unfolding sz by blast
    moreover have "block_shift va pa (unat va_end - unat va) = 30" using True unfolding sz block_shift_def by simp
    moreover have al: "2 ^ 30 dvd unat va" "2 ^ 30 dvd unat pa" using True by blast+
    have l: "\<forall>x. unat x < 2 ^ 48 \<longrightarrow> leaf s2 r x = (if unat x div 2 ^ 30 = unat va div 2 ^ 30
        then Some (entry_addr p1 ?i1, l1_pte pa flags, 2) else leaf s r x)"
      using 2(3) unfolding 1(4) by (simp only: leaf_pte_kind if_False)
    note block_step [OF al(1) l leaf_pa_ok(3) [OF al(2) pa(1)] attributes_leaf_pte(2)]
    moreover have "extends s r A s2 A1 (missing s r va)" using 1(2,5) 2(2) by (auto simp: extends_def)
    moreover have "tbl (mem s2) r (take 1 (vpath va)) \<noteq> None" unfolding take_vpath 2(4) by simp
    then have "\<exists>j \<in> {1, 2, 3}. (30 :: nat) = 39 - 9 * j \<and> tbl (mem s2) r (take j (vpath va)) \<noteq> None"
      by (intro bexI [of _ 1]) simp_all
    moreover have "grown s r A s2 A1 (vpath va)" if "fresh_block s r va 30"
    proof -
      have "tbl (mem s1) r [?i0, ?i1] = None"
        using that by (intro grown_absent [OF 1(6)]) (simp_all add: fresh_block_def take_vpath del: tbl.simps)
      then show ?thesis using grown_vpath(1) [OF 1(6)] grown_same 2(5) grown_trans by blast
    qed
    ultimately show ?thesis using al(1) by (intro exI [of _ s2] exI [of _ A1] exI [of _ 30]) (simp add: leaf_pte_def)
  next
    case no1: False
    obtain s2 A2 p2 where 2: "get_next_ptp s1 p1 1 va None (Some (entry_addr r ?i0)) True =
        Inr (s2, 0, Some p2, Some (entry_addr p1 ?i1))"
      "extends s1 r A1 s2 A2 1" "tbl (mem s2) r [?i0, ?i1] = Some p2" "\<And>x. leaf s2 r x = leaf s1 r x"
      "chunk_pages A2 + missing s2 r va \<le> chunk_pages A1 + missing s1 r va" "grown s1 r A1 s2 A2 [?i0, ?i1]"
      using descend_va [OF w1(1) vpath_split(2) _ 1(3) nb1 w1(2), of None "Some (entry_addr r ?i0)"] by auto
    have w2: "pt_wf s2 r A2" "chunk_pages A2 + missing s2 r va \<le> pool_pages s2" and nb2: "no_block s2 r va"
      using 2(2,4,5) w1(2) nb1 by (auto simp: extends_def no_block_def)
    note pe2 = pt_entry(1) [OF w2(1) tpath_vpath(2) 2(3) index_bound(3)]
    note no1' = no1 [unfolded block_aligned [symmetric]]
    show ?thesis
    proof (cases "2 ^ 21 dvd unat va \<and> 2 ^ 21 dvd unat pa \<and> L2_BLOCK_SIZE \<le> va_end - va")
      case True
      obtain s3 where 3: "write64 (entry_addr p2 ?i2) (l2_pte pa flags) s2 = Inr s3" "extends s2 r A2 s3 A2 0"
        "\<forall>x. unat x < 2 ^ 48 \<longrightarrow> leaf s3 r x = (if unat x div 2 ^ 21 = unat va div 2 ^ 21
          then if IS_PTE_INVALID (l2_pte pa flags) then None else Some (entry_addr p2 ?i2, l2_pte pa flags, 1)
          else leaf s2 r x)" "tbl (mem s3) r [?i0, ?i1] = Some p2"
        "tbl (mem s2) r [?i0, ?i1, ?i2] = None \<longrightarrow> same_tables s2 r s3"
        using write_l2_ok [OF w2(1) va48 2(3) leaf_pte_kind(6)] by blast
      have "map_huge_step r flags va_end s va pa = Inr (s3, of_nat (2 ^ 21))"
        using 1(1) 2(1) no1' True [unfolded block_aligned [symmetric]] fill_pte_ok(3) [OF pe2] 3(1)
        unfolding map_huge_step_def by (simp add: entry_addr_def) (auto simp: L2_BLOCK_SIZE_def)
      moreover have "2 ^ 21 \<le> unat va_end - unat va" using True unfolding sz by blast
      moreover have "block_shift va pa (unat va_end - unat va) = 21"
        using True no1 unfolding sz block_shift_def by (simp only: if_False if_True simp_thms)
      moreover have al: "2 ^ 21 dvd unat va" "2 ^ 21 dvd unat pa" using True by blast+
      have l: "\<forall>x. unat x < 2 ^ 48 \<longrightarrow> leaf s3 r x = (if unat x div 2 ^ 21 = unat va div 2 ^ 21
          then Some (entry_addr p2 ?i2, l2_pte pa flags, 1) else leaf s r x)"
        using 3(3) unfolding 2(4) 1(4) by (simp only: leaf_pte_kind if_False)
      note block_step [OF al(1) l leaf_pa_ok(2) [OF al(2) pa(1)] attributes_leaf_pte(3)]
      moreover have "extends s r A s3 A2 (missing s r va)" using 1(2,5) 2(2,5) 3(2) by (auto simp: extends_def)
      moreover have "tbl (mem s3) r (take 2 (vpath va)) \<noteq> None" unfolding take_vpath 3(4) by simp
      then have "\<exists>j \<in> {1, 2, 3}. (21 :: nat) = 39 - 9 * j \<and> tbl (mem s3) r (take j (vpath va)) \<noteq> None"
        by (intro bexI [of _ 2]) simp_all
      moreover have "grown s r A s3 A2 (vpath va)" if "fresh_block s r va 21"
      proof -
        have "tbl (mem s1) r [?i0, ?i1, ?i2] = None"
          using that by (intro grown_absent [OF 1(6)]) (simp_all add: fresh_block_def take_vpath del: tbl.simps)
        then have "tbl (mem s2) r [?i0, ?i1, ?i2] = None" by (intro grown_absent [OF 2(6)]) (simp_all del: tbl.simps)
        then show ?thesis
          using grown_trans [OF grown_vpath(1) [OF 1(6)] grown_vpath(2) [OF 2(6)]] grown_same 3(5) grown_trans by blast
      qed
      ultimately show ?thesis using al(1) by (intro exI [of _ s3] exI [of _ A2] exI [of _ 21]) (simp add: leaf_pte_def)
    next
      case no2: False
      note no2' = no2 [unfolded block_aligned [symmetric]]
      obtain s3 A3 p3 where 3: "get_next_ptp s2 p2 2 va None (Some (entry_addr p1 ?i1)) True =
          Inr (s3, 0, Some p3, Some (entry_addr p2 ?i2))"
        "extends s2 r A2 s3 A3 1" "tbl (mem s3) r [?i0, ?i1, ?i2] = Some p3" "\<And>x. leaf s3 r x = leaf s2 r x"
        "chunk_pages A3 + missing s3 r va \<le> chunk_pages A2 + missing s2 r va" "grown s2 r A2 s3 A3 [?i0, ?i1, ?i2]"
        using descend_va [OF w2(1) vpath_split(3) _ 2(3) nb2 w2(2), of None "Some (entry_addr p1 ?i1)"]
        by (auto simp: numeral_2_eq_2)
      have w3: "pt_wf s3 r A3" using 3(2) by (simp add: extends_def)
      note pe = pt_entry [OF w3 tpath_vpath(3) 3(3) index_bound(4) [of va]]
      obtain e where e: "load64 (mem s3) (entry_addr p3 ?i3) = Inr e" using pe(2) by blast
      have 4: "get_next_ptp s3 p3 3 va None (Some (entry_addr p2 ?i2)) False =
          Inr (s3, if IS_PTE_INVALID e then - 203 else 1, None, Some (entry_addr p3 ?i3))"
        using get_next_ptp_entry(1) [OF pe(3) ptp_index_vpath(5) e] by blast
      obtain s4 where 5: "write64 (entry_addr p3 ?i3) (l3_pte pa flags) s3 = Inr s4" "extends s3 r A3 s4 A3 0"
        "\<forall>x. unat x < 2 ^ 48 \<longrightarrow> leaf s4 r x =
          (if unat x div 4096 = unat va div 4096
           then if IS_PTE_INVALID (l3_pte pa flags) then None else Some (entry_addr p3 ?i3, l3_pte pa flags, 0)
           else leaf s3 r x)" "same_tables s3 r s4"
        using write_l3_ok [OF w3 va48 3(3)] by blast
      have "map_huge_step r flags va_end s va pa = Inr (s4, of_nat (2 ^ 12))"
        using 1(1) 2(1) 3(1) 4 5(1) no1' no2' fill_pte_ok(1) [OF pe(1)]
        unfolding map_huge_step_def by simp auto
      moreover have "block_shift va pa (unat va_end - unat va) = 12"
        using no1 no2 unfolding sz block_shift_def by (simp only: if_False)
      moreover have al: "2 ^ 12 dvd unat va" using va(3) by simp
      have l: "\<forall>x. unat x < 2 ^ 48 \<longrightarrow> leaf s4 r x = (if unat x div 2 ^ 12 = unat va div 2 ^ 12
          then Some (entry_addr p3 ?i3, l3_pte pa flags, 0) else leaf s r x)"
        using 5(3) unfolding 3(4) 2(4) 1(4) by (simp add: leaf_pte_kind)
      note block_step [OF al l leaf_pa_ok(1) [OF pa(2,1)] attributes_leaf_pte(1)]
      moreover have "extends s r A s4 A3 (missing s r va)" using 1(2,5) 2(2,5) 3(2,5) 5(2) by (auto simp: extends_def)
      moreover have "tbl (mem s4) r (take 3 (vpath va)) = Some p3"
        unfolding take_vpath using 5(4) tpath_vpath(3) 3(3) unfolding same_tables_def by metis
      then have "\<exists>j \<in> {1, 2, 3}. (12 :: nat) = 39 - 9 * j \<and> tbl (mem s4) r (take j (vpath va)) \<noteq> None"
        by (intro bexI [of _ 3]) simp_all
      moreover have "grown s r A s4 A3 (vpath va)"
        using grown_trans [OF grown_trans [OF grown_vpath(1) [OF 1(6)] grown_vpath(2) [OF 2(6)]] grown_vpath(3) [OF 3(6)]]
          grown_same [OF 5(4)] grown_trans by blast
      ultimately show ?thesis using fit al by (intro exI [of _ s4] exI [of _ A3] exI [of _ 12]) (simp add: leaf_pte_def)
    qed
  qed
qed

subsection \<open>Mapping a range with blocks\<close>

lemma map_huge_loop_ok:
  "pt_wf s r A \<Longrightarrow> unat va_end = unat va + n * 4096 \<Longrightarrow> unat va + n * 4096 \<le> 2 ^ 48 \<Longrightarrow>
   4096 dvd unat va \<Longrightarrow> 4096 dvd unat pa \<Longrightarrow> unat pa + n * 4096 \<le> 2 ^ 48 \<Longrightarrow>
   (\<And>x. in_range va (n * 4096) x \<Longrightarrow> no_block s r x) \<Longrightarrow> chunk_pages A + wanted s r va n \<le> pool_pages s \<Longrightarrow> n \<le> fuel \<Longrightarrow>
   \<exists>s' A'. va_loop fuel (map_huge_step r flags va_end) va_end s va pa = Some (Inr (s', 0)) \<and>
     extends s r A s' A' (wanted s r va n) \<and> mapped_range flags s r va pa (n * 4096) s' \<and>
     blocks_within s' r va (n * 4096) \<and>
     (\<forall>x. unat x < 2 ^ 48 \<longrightarrow> \<not> in_range va (n * 4096) x \<longrightarrow> leaf s' r x = leaf s r x) \<and>
     (n < 512 \<longrightarrow> (\<forall>B. owned s r B A \<longrightarrow> owned s' r B A'))"
proof (induction n arbitrary: s A va pa fuel rule: less_induct)
  case (less n)
  show ?case
  proof (cases n)
    case 0
    then have "\<not> va < va_end" using less.prems(2) by (simp add: word_less_nat_alt)
    then have "va_loop fuel (map_huge_step r flags va_end) va_end s va pa = Some (Inr (s, 0))"
      by (cases fuel) simp_all
    then show ?thesis using extends_refl [OF less.prems(1)] mapped_range_0 [of flags s r va pa] 0
      by (intro exI [of _ s] exI [of _ A]) (auto simp: blocks_within_def in_range_def)
  next
    case (Suc n0)
    obtain fuel' where fuel: "fuel = Suc fuel'" "n0 \<le> fuel'" using less.prems(9) Suc by (cases fuel) auto
    have va: "unat va < unat va_end" "unat va_end \<le> 2 ^ 48" "4096 \<le> unat va_end - unat va" "unat pa < 2 ^ 48"
      using less.prems(2,3,6) Suc by simp_all
    have nb: "no_block s r va" using less.prems(7) Suc by (simp add: in_range_def)
    have room: "chunk_pages A + missing s r va \<le> pool_pages s" using less.prems(8) Suc by (simp add: wanted_def)
    obtain s1 A1 k where s1: "map_huge_step r flags va_end s va pa = Inr (s1, of_nat (2 ^ k))"
      "extends s r A s1 A1 (missing s r va)" "12 \<le> k" "k \<le> 30" "2 ^ k \<le> unat va_end - unat va" "mapped_range flags s r va pa (2 ^ k) s1"
      "2 ^ k dvd unat va" "\<exists>a e. \<forall>x. unat x < 2 ^ 48 \<longrightarrow> in_range va (2 ^ k) x \<longrightarrow> leaf s1 r x = Some (a, e, (k - 12) div 9)"
      "k = block_shift va pa (unat va_end - unat va)"
      "\<exists>j \<in> {1, 2, 3}. k = 39 - 9 * j \<and> tbl (mem s1) r (take j (vpath va)) \<noteq> None"
      "fresh_block s r va k \<longrightarrow> grown s r A s1 A1 (vpath va)"
      "\<forall>x. unat x < 2 ^ 48 \<longrightarrow> \<not> in_range va (2 ^ k) x \<longrightarrow> leaf s1 r x = leaf s r x"
      using map_huge_step_range [OF less.prems(1) va(1,2) less.prems(4) va(4) less.prems(5) va(3) nb room] by blast
    define d where "d = (2 :: nat) ^ (k - 12)"
    have "(2 :: nat) ^ (k - 12 + 12) = 2 ^ (k - 12) * 2 ^ 12" by (rule power_add)
    then have d: "2 ^ k = d * 4096" "0 < d" using s1(3) by (simp_all add: d_def)
    then have dn: "d \<le> n" using s1(5) less.prems(2) by simp
    define step where "step = (of_nat (2 ^ k) :: u64)"
    have "(2 :: nat) ^ k < 2 ^ 64" using s1(4) by (intro power_strict_increasing) simp_all
    then have st: "unat step = d * 4096" unfolding step_def using d(1) unat_of_nat_less by metis
    have dn': "d * 4096 \<le> n * 4096" using dn by simp
    then have u: "unat (va + step) = unat va + d * 4096" "unat (pa + step) = unat pa + d * 4096"
      using less.prems(3,6) st by (auto intro!: va_step)
    have want: "missing s r va + wanted s1 r (va + step) (n - d) \<le> wanted s r va n"
    proof -
      obtain j where j: "j \<in> {1, 2, 3}" "k = 39 - 9 * j" "tbl (mem s1) r (take j (vpath va)) \<noteq> None"
        using s1(10) by blast
      have u': "unat (va + step) = unat va + 2 ^ k" using u(1) d(1) by simp
      show ?thesis by (rule wanted_step [OF j s1(7) u' less.prems(4,3) d(1) dn])
    qed
    have nd: "n * 4096 = d * 4096 + (n - d) * 4096" using dn by (simp flip: add_mult_distrib)
    have nb1: "no_block s1 r x" if x: "in_range (va + step) ((n - d) * 4096) x" for x
    proof -
      have "in_range va (n * 4096) x" "\<not> in_range va (2 ^ k) x" "unat x < 2 ^ 48"
        using x less.prems(3) nd d(1) by (auto simp: in_range_def u)
      then show ?thesis using s1(12) less.prems(7) by (simp add: no_block_def)
    qed
    have "\<exists>s' A'. va_loop fuel' (map_huge_step r flags va_end) va_end s1 (va + step) (pa + step) = Some (Inr (s', 0)) \<and>
        extends s1 r A1 s' A' (wanted s1 r (va + step) (n - d)) \<and> mapped_range flags s1 r (va + step) (pa + step) ((n - d) * 4096) s' \<and>
        blocks_within s' r (va + step) ((n - d) * 4096) \<and>
        (\<forall>x. unat x < 2 ^ 48 \<longrightarrow> \<not> in_range (va + step) ((n - d) * 4096) x \<longrightarrow> leaf s' r x = leaf s1 r x) \<and>
        (n - d < 512 \<longrightarrow> (\<forall>B. owned s1 r B A1 \<longrightarrow> owned s' r B A'))"
    proof (rule less.IH)
      show "n - d < n" using d(2) dn by simp
      show "pt_wf s1 r A1" using s1(2) by (simp add: extends_def)
      show "unat va_end = unat (va + step) + (n - d) * 4096" using less.prems(2) nd u by simp
      show "unat (va + step) + (n - d) * 4096 \<le> 2 ^ 48" "unat (pa + step) + (n - d) * 4096 \<le> 2 ^ 48"
        using less.prems(3,6) nd u by simp_all
      show "4096 dvd unat (va + step)" "4096 dvd unat (pa + step)" using less.prems(4,5) u by simp_all
      show "no_block s1 r x" if "in_range (va + step) ((n - d) * 4096) x" for x by (rule nb1 [OF that])
      show "chunk_pages A1 + wanted s1 r (va + step) (n - d) \<le> pool_pages s1"
        using less.prems(8) s1(2) want by (auto simp: extends_def)
      show "n - d \<le> fuel'" using fuel(2) Suc d(2) by simp
    qed
    then obtain s' A' where s': "va_loop fuel' (map_huge_step r flags va_end) va_end s1 (va + step) (pa + step) = Some (Inr (s', 0))"
      "extends s1 r A1 s' A' (wanted s1 r (va + step) (n - d))" "mapped_range flags s1 r (va + step) (pa + step) ((n - d) * 4096) s'"
      "blocks_within s' r (va + step) ((n - d) * 4096)"
      "\<forall>x. unat x < 2 ^ 48 \<longrightarrow> \<not> in_range (va + step) ((n - d) * 4096) x \<longrightarrow> leaf s' r x = leaf s1 r x"
      "n - d < 512 \<longrightarrow> (\<forall>B. owned s1 r B A1 \<longrightarrow> owned s' r B A')" by blast
    have split: "in_range va (n * 4096) x \<longleftrightarrow> in_range va (2 ^ k) x \<or> in_range (va + step) ((n - d) * 4096) x" for x
      unfolding nd d(1) by (auto simp: in_range_def u)
    have apart: "\<not> in_range (va + step) ((n - d) * 4096) x" if "in_range va (2 ^ k) x" for x
      using that unfolding d(1) by (auto simp: in_range_def u)
    have k9: "k = 12 + 9 * ((k - 12) div 9)" using s1(9) by (simp add: block_shift_def split: if_splits)
    obtain a e where one: "\<forall>x. unat x < 2 ^ 48 \<longrightarrow> in_range va (2 ^ k) x \<longrightarrow> leaf s1 r x = Some (a, e, (k - 12) div 9)"
      using s1(8) by blast
    then have "\<forall>x. unat x < 2 ^ 48 \<longrightarrow> in_range va (2 ^ k) x \<longrightarrow> leaf s' r x = Some (a, e, (k - 12) div 9)"
      using s'(5) apart by simp
    then have bw: "blocks_within s' r va (n * 4096)"
      using less.prems(3) s'(4) by (intro blocks_within_split [OF split s1(7) _ k9]) (auto simp: in_range_def)
    have "\<forall>x. unat x < 2 ^ 48 \<longrightarrow> \<not> in_range va (n * 4096) x \<longrightarrow> leaf s' r x = leaf s r x"
      using s'(5) s1(12) split by simp
    note bw this
    moreover have "\<forall>B. owned s r B A \<longrightarrow> owned s' r B A'" if "n < 512"
    proof -
      have "unat va_end - unat va < 2 ^ 21" using that less.prems(2) by simp
      then have "k = 12" unfolding s1(9) by (simp add: block_shift_def)
      then have "\<forall>B. owned s r B A \<longrightarrow> owned s1 r B A1" using s1(11) by (simp add: fresh_block_def grown_def)
      then show ?thesis using s'(6) that by simp
    qed
    moreover
    have "mapped_range flags s r va pa (d * 4096 + (n - d) * 4096) s'"
      using mapped_range_append [OF s1(6), of "(n - d) * 4096" s'] s'(3) u(1) by (simp add: step_def d(1))
    moreover have "extends s r A s' A' (wanted s r va n)"
      by (rule extends_trans [OF s1(2) s'(2) want])
    moreover have "va < va_end" using va(1) by (simp add: word_less_nat_alt)
    ultimately show ?thesis using s'(1) s1(1) fuel(1) nd
      by (intro exI [of _ s'] exI [of _ A']) (simp add: step_def)
  qed
qed

end
