(* ===== verification/Page_Table_Free.thy ===== *)
theory Page_Table_Free
  imports Page_Table_Huge
begin

text \<open>
  The life of a page table: a zeroed page is an empty table, and \<open>free_page_table\<close> releases
  exactly the table pages reachable from the root.
\<close>

subsection \<open>A new table\<close>

lemma new_page_table_ok:
  assumes held: "pages_held s A" and room: "chunk_pages A < pool_pages s"
  shows "\<exists>s' r. new_page_table s = Inr (s', r) \<and> pt_wf s' r (insert (r, 0) A) \<and> (r, 0) \<notin> A \<and>
    chunk_pages (insert (r, 0) A) = Suc (chunk_pages A) \<and> pool_pages s' = pool_pages s \<and> dom (mem s') = dom (mem s) \<and>
    (\<forall>x. leaf s' r x = None) \<and> owned s' r A (insert (r, 0) A) \<and>
    (\<forall>ys. tpath ys \<longrightarrow> ys \<noteq> [] \<longrightarrow> tbl (mem s') r ys = None)"
proof -
  obtain s1 q where g: "get_pages s 0 = Inr (s1, q)" "q \<noteq> 0" "(q, 0) \<notin> A" "pages_held s1 (insert (q, 0) A)"
    "same_pool s s1" "chunk_pages (insert (q, 0) A) = Suc (chunk_pages A)"
    by (rule pages.get_page_ok [OF held room]) (rule that)
  obtain m where m: "fill q 0 0x1000 s1 = Inr (s1\<lparr>mem := m\<rparr>)" "dom m = dom (mem s1)"
    "\<forall>i < 512. load64 m (entry_addr q i) = Inr 0"
    using fill_page_ok [OF g(4) insertI1] by blast
  let ?s = "s1\<lparr>mem := m\<rparr>"
  have zero: "xs = []" if "tpath xs" "tbl m q xs = Some p" for xs p
  proof (cases xs)
    case (Cons i ys)
    then have "i < 512" using that(1) by (simp add: tpath_def)
    then show ?thesis using that(2) m(3) Cons by simp
  qed simp
  have "pt_wf ?s q (insert (q, 0) A)"
    unfolding pt_wf_def
  proof (intro conjI allI impI)
    show "pages_held ?s (insert (q, 0) A)" using pages_held_mem [OF m(2)] g(4) by blast
    show "(p, 0) \<in> insert (q, 0) A" if "tpath xs" "tbl (mem ?s) q xs = Some p" for xs p
      using zero [of xs p] that by simp
    show "xs = ys" if "tpath xs" "tpath ys" "tbl (mem ?s) q xs = Some p" "tbl (mem ?s) q ys = Some p" for xs ys p
      using zero [of xs p] zero [of ys p] that by simp
    fix i e assume "i < 512" "load64 (mem ?s) (entry_addr q i) = Inr e" "\<not> IS_PTE_INVALID e"
    then show "IS_PTE_TABLE e" using m(3) by simp
  qed
  moreover have "leaf ?s q x = None" for x
    using m(3) index_bound(1) [of x] by (simp add: leaf_def vpath_def)
  moreover have "tpath ys \<and> tbl m q ys = Some p \<longleftrightarrow> ys = [] \<and> p = q" for ys p using zero [of ys p] by auto
  then have "subtables m q [] = {(q, 0)}" by (simp add: subtables_def)
  then have "owned ?s q A (insert (q, 0) A)" using g(3) by (simp add: owned_def)
  moreover have "\<forall>ys. tpath ys \<longrightarrow> ys \<noteq> [] \<longrightarrow> tbl m q ys = None" using zero by fastforce
  moreover have "new_page_table s = Inr (?s, q)" using g(1) m(1) by (simp add: new_page_table_def)
  ultimately show ?thesis using g(3,6) same_pool_pages [OF g(5)] m(2) same_pool_kernel(1) [OF g(5)]
    by (intro exI [of _ ?s] exI [of _ q]) simp
qed

subsection \<open>Releasing a table\<close>

lemma subtables_step:
  assumes xs: "tpath xs" "tbl m r xs = Some p"
  shows "subtables m r xs = insert (p, 0) (\<Union>i < 512. if length xs < 3 then subtables m r (xs @ [i]) else {})"
    (is "?L = ?R")
proof
  show "?L \<subseteq> ?R"
  proof
    fix c assume "c \<in> ?L"
    then obtain q ys where q: "c = (q, 0)" "tpath (xs @ ys)" "tbl m r (xs @ ys) = Some q"
      by (auto simp: subtables_def)
    show "c \<in> ?R"
    proof (cases ys)
      case Nil
      then show ?thesis using q xs(2) by simp
    next
      case (Cons i zs)
      then have "i < 512" "length xs < 3" using q(2) by (auto simp: tpath_def)
      moreover have "c \<in> subtables m r (xs @ [i])" using q Cons by (auto simp: subtables_def)
      ultimately show ?thesis by auto
    qed
  qed
  show "?R \<subseteq> ?L"
  proof
    fix c assume "c \<in> ?R"
    then consider "c = (p, 0)" | i where "i < 512" "c \<in> subtables m r (xs @ [i])" by (auto split: if_splits)
    then show "c \<in> ?L"
    proof cases
      case 1
      have "tpath (xs @ [])" "tbl m r (xs @ []) = Some p" using xs by simp_all
      then show ?thesis using 1 unfolding subtables_def by blast
    next
      case 2
      then obtain q ys where "c = (q, 0)" "tpath ((xs @ [i]) @ ys)" "tbl m r ((xs @ [i]) @ ys) = Some q"
        unfolding subtables_def by blast
      then have "c = (q, 0) \<and> tpath (xs @ (i # ys)) \<and> tbl m r (xs @ (i # ys)) = Some q" by simp
      then show ?thesis unfolding subtables_def by blast
    qed
  qed
qed

lemma subtables_disjoint:
  assumes wf: "pt_wf s r A" and ij: "i \<noteq> j"
  shows "subtables (mem s) r (xs @ [i]) \<inter> subtables (mem s) r (xs @ [j]) = {}"
proof -
  have False if "tpath ((xs @ [i]) @ ys)" "tbl (mem s) r ((xs @ [i]) @ ys) = Some p"
    "tpath ((xs @ [j]) @ zs)" "tbl (mem s) r ((xs @ [j]) @ zs) = Some p" for ys zs p
    using pt_wf_inj [OF wf that(1,3,2,4)] ij by simp
  then show ?thesis unfolding subtables_def by blast
qed

lemma subtables_held: "pt_wf s r A \<Longrightarrow> subtables (mem s) r xs \<subseteq> A"
  using pt_wf_table unfolding subtables_def by blast

text \<open>
  A function that releases the tables below each child, run over the entries of a table. The
  states of the release keep the memory, and with it the tree.
\<close>

definition releases ::
  "('z kernel_state_scheme \<Rightarrow> u64 \<Rightarrow> 'z kernel_state_scheme outcome) \<Rightarrow> 'z kernel_state_scheme \<Rightarrow> u64 \<Rightarrow> nat list \<Rightarrow> bool"
where
  "releases f s r xs \<longleftrightarrow> (\<forall>s1 A1 p. mem s1 = mem s \<longrightarrow> pages_held s1 A1 \<longrightarrow> subtables (mem s) r xs \<subseteq> A1 \<longrightarrow>
     tbl (mem s) r xs = Some p \<longrightarrow>
     (\<exists>s2. f s1 p = Inr s2 \<and> mem s2 = mem s \<and> pool_pages s2 = pool_pages s1 \<and>
        pages_held s2 (A1 - subtables (mem s) r xs)))"

lemma for_each_table_ok:
  assumes wf: "pt_wf s r A" and xs: "tpath xs" "tbl (mem s) r xs = Some p" "length xs < 3"
    and body: "\<And>i. i < 512 \<Longrightarrow> releases f s r (xs @ [i])"
  shows "set js \<subseteq> {..<512} \<Longrightarrow> distinct js \<Longrightarrow> mem s1 = mem s \<Longrightarrow> pages_held s1 A1 \<Longrightarrow>
    (\<Union>i \<in> set js. subtables (mem s) r (xs @ [i])) \<subseteq> A1 \<Longrightarrow>
    \<exists>s2. for_each_table p f js s1 = Inr s2 \<and> mem s2 = mem s \<and> pool_pages s2 = pool_pages s1 \<and>
      pages_held s2 (A1 - (\<Union>i \<in> set js. subtables (mem s) r (xs @ [i])))"
proof (induction js arbitrary: s1 A1)
  case (Cons i js)
  have i: "i < 512" using Cons.prems(1) by simp
  obtain e where e: "load64 (mem s) (entry_addr p i) = Inr e" using pt_entry(2) [OF wf xs(1,2) i] by blast
  have rd: "read64 s1 (p + of_nat (8 * i)) = Inr e"
    using e Cons.prems(3) by (simp add: read64_def entry_addr_def)
  obtain s2 where s2: "(if IS_PTE_INVALID e \<or> \<not> IS_PTE_TABLE e then Inr s1 else f s1 (GET_NEXT_PTP e)) = Inr s2"
    "mem s2 = mem s" "pool_pages s2 = pool_pages s1" "pages_held s2 (A1 - subtables (mem s) r (xs @ [i]))"
  proof (cases "IS_PTE_INVALID e \<or> \<not> IS_PTE_TABLE e")
    case True
    then have none: "tbl (mem s) r (xs @ [i]) = None" using xs(2) e by (auto simp: tbl_snoc)
    have "tbl (mem s) r ((xs @ [i]) @ ys) = None" for ys unfolding tbl_append [of _ _ "xs @ [i]"] none by simp
    then have "subtables (mem s) r (xs @ [i]) = {}" unfolding subtables_def by auto
    then show thesis using that [of s1] True Cons.prems(3,4) by simp
  next
    case False
    then have "tbl (mem s) r (xs @ [i]) = Some (GET_NEXT_PTP e)" using xs(2) e by (simp add: tbl_snoc)
    moreover have "subtables (mem s) r (xs @ [i]) \<subseteq> A1" using Cons.prems(5) by auto
    ultimately show thesis
      using that body [OF i] Cons.prems(3,4) False unfolding releases_def by (metis (no_types))
  qed
  have "subtables (mem s) r (xs @ [j]) \<subseteq> A1 - subtables (mem s) r (xs @ [i])" if "j \<in> set js" for j
    using Cons.prems(2,5) that subtables_disjoint [OF wf, of j i xs] by auto
  then have "(\<Union>j \<in> set js. subtables (mem s) r (xs @ [j])) \<subseteq> A1 - subtables (mem s) r (xs @ [i])" by blast
  with Cons.IH [OF _ _ s2(2,4)] Cons.prems(1,2) obtain s3 where s3: "for_each_table p f js s2 = Inr s3"
    "mem s3 = mem s" "pool_pages s3 = pool_pages s2"
    "pages_held s3 (A1 - subtables (mem s) r (xs @ [i]) - (\<Union>j \<in> set js. subtables (mem s) r (xs @ [j])))"
    by auto
  moreover have "A1 - subtables (mem s) r (xs @ [i]) - (\<Union>j \<in> set js. subtables (mem s) r (xs @ [j])) =
      A1 - (\<Union>j \<in> set (i # js). subtables (mem s) r (xs @ [j]))" by auto
  ultimately show ?case using rd s2(1,3) by simp
qed simp

text \<open>Releasing the children, then the table itself.\<close>

lemma release_table:
  assumes wf: "pt_wf s r A" and xs: "tpath xs" "length xs < 3"
    and body: "\<And>i. i < 512 \<Longrightarrow> releases f s r (xs @ [i])"
  shows "releases (\<lambda>s1 p. rbind (for_each_table p f [0..<512] s1) (\<lambda>s. free_pages s p)) s r xs"
  unfolding releases_def
proof (intro allI impI)
  fix s1 :: "'a kernel_state_scheme" and A1 p
  assume s1: "mem s1 = mem s" "pages_held s1 A1" "subtables (mem s) r xs \<subseteq> A1" "tbl (mem s) r xs = Some p"
  let ?C = "\<Union>i \<in> set [0..<512]. subtables (mem s) r (xs @ [i])"
  have st: "subtables (mem s) r xs = insert (p, 0) ?C"
    using subtables_step [OF xs(1) s1(4)] xs(2) by (simp add: atLeast0LessThan)
  have sub: "set [0..<512] \<subseteq> {..<512 :: nat}" "distinct [0..<512 :: nat]" "?C \<subseteq> A1"
    using s1(3) st by auto
  obtain s2 where s2: "for_each_table p f [0..<512] s1 = Inr s2" "mem s2 = mem s" "pool_pages s2 = pool_pages s1"
    "pages_held s2 (A1 - ?C)"
    using for_each_table_ok [OF wf xs(1) s1(4) xs(2) body sub(1,2) s1(1,2) sub(3)] by blast
  have "(p, 0) \<notin> ?C"
  proof
    assume "(p, 0) \<in> ?C"
    then obtain i ys where "tpath ((xs @ [i]) @ ys)" "tbl (mem s) r ((xs @ [i]) @ ys) = Some p"
      unfolding subtables_def by blast
    then have "(xs @ [i]) @ ys = xs" using pt_wf_inj [OF wf _ xs(1) _ s1(4)] by blast
    then show False by simp
  qed
  then have "(p, 0) \<in> A1 - ?C" using s1(3) st by auto
  then obtain s3 where s3: "free_pages s2 p = Inr s3" "same_pool s2 s3" "pages_held s3 (A1 - ?C - {(p, 0)})"
    using pages.free_law [OF s2(4)] by blast
  have "A1 - ?C - {(p, 0)} = A1 - subtables (mem s) r xs" using st by auto
  then show "\<exists>s3. rbind (for_each_table p f [0..<512] s1) (\<lambda>s. free_pages s p) = Inr s3 \<and> mem s3 = mem s \<and>
      pool_pages s3 = pool_pages s1 \<and> pages_held s3 (A1 - subtables (mem s) r xs)"
    using s2 s3 same_pool_kernel(1) [OF s3(2)] same_pool_pages [OF s3(2)]
    by (intro exI [of _ s3]) simp
qed

lemma release_l3:
  assumes wf: "pt_wf s r A" and xs: "tpath xs" "length xs = 3"
  shows "releases free_pages s r xs"
  unfolding releases_def
proof (intro allI impI)
  fix s1 :: "'a kernel_state_scheme" and A1 p
  assume s1: "mem s1 = mem s" "pages_held s1 A1" "subtables (mem s) r xs \<subseteq> A1" "tbl (mem s) r xs = Some p"
  have st: "subtables (mem s) r xs = {(p, 0)}" using subtables_step [OF xs(1) s1(4)] xs(2) by simp
  then have "(p, 0) \<in> A1" using s1(3) by simp
  then obtain s3 where s3: "free_pages s1 p = Inr s3" "same_pool s1 s3" "pages_held s3 (A1 - {(p, 0)})"
    using pages.free_law [OF s1(2)] by blast
  then show "\<exists>s3. free_pages s1 p = Inr s3 \<and> mem s3 = mem s \<and> pool_pages s3 = pool_pages s1 \<and>
      pages_held s3 (A1 - subtables (mem s) r xs)"
    using s1(1) st same_pool_kernel(1) [OF s3(2)] same_pool_pages [OF s3(2)] by (intro exI [of _ s3]) simp
qed

lemma free_page_table_ok:
  assumes wf: "pt_wf s r A"
  shows "\<exists>s'. free_page_table s r = Inr s' \<and> pages_held s' (A - subtables (mem s) r []) \<and> mem s' = mem s \<and>
    pool_pages s' = pool_pages s"
proof -
  have l2: "releases free_l2_ptp s r [i, j]" if "i < 512" "j < 512" for i j
    unfolding free_l2_ptp_def [abs_def]
    using that by (intro release_table [OF wf] release_l3 [OF wf]) (simp_all add: tpath_def)
  have l1: "releases free_l1_ptp s r [i]" if "i < 512" for i
    unfolding free_l1_ptp_def [abs_def]
    using that l2 by (intro release_table [OF wf]) (simp_all add: tpath_def)
  have l0: "releases (\<lambda>s1 p. rbind (for_each_table p free_l1_ptp [0..<512] s1) (\<lambda>s. free_pages s p)) s r []"
    using l1 by (intro release_table [OF wf]) simp_all
  have "tbl (mem s) r [] = Some r" by simp
  moreover have "r \<noteq> 0" using pt_entry(3) [OF wf tpath_Nil _ index_bound(1)] by simp
  ultimately show ?thesis
    using l0 [unfolded releases_def] pt_wf_held [OF wf] subtables_held [OF wf, of "[]"]
    unfolding free_page_table_def by (metis (no_types, lifting))
qed

end
