(* ===== verification/Page_Table_Unmap_Huge.thy ===== *)
theory Page_Table_Unmap_Huge
  imports Page_Table_Free
begin

text \<open>
  \<open>unmap_range_in_pgtbl_huge\<close>: what it unmaps, provided that no block reaches over an end of
  the range (a block is invalidated as a whole).
\<close>

lemma leaf_Some:
  assumes wf: "pt_wf s r A" and l: "leaf s r x = Some (a, e, n)"
  obtains xs k ys q where "vpath x = xs @ k # ys" "tbl (mem s) r xs = Some q" "length ys = n" "n \<le> 2"
    "load64 (mem s) (entry_addr q k) = Inr e" "\<not> IS_PTE_INVALID e" "n \<noteq> 0 \<longrightarrow> \<not> IS_PTE_TABLE e" "a = entry_addr q k"
proof -
  obtain xs k ys q where *: "vpath x = xs @ k # ys" "tbl (mem s) r xs = Some q" "length ys = n"
    "load64 (mem s) (entry_addr q k) = Inr e" "\<not> IS_PTE_INVALID e" "IS_PTE_TABLE e \<longrightarrow> ys = []" "a = entry_addr q k"
    using l unfolding leaf_def walk_Some by auto
  have "xs \<noteq> []"
  proof
    assume xs: "xs = []"
    then have "length ys = 3" using vpath_bound(2) [of x] *(1) by simp
    moreover have "IS_PTE_TABLE e"
      using pt_wf_l0 [OF wf, of k e] *(1,2,4,5) xs vpath_bound(1) [of x] by simp
    ultimately show False using *(6) by simp
  qed
  then have "n \<le> 2" using vpath_bound(2) [of x] *(1,3) by (cases xs) auto
  moreover have "n \<noteq> 0 \<longrightarrow> \<not> IS_PTE_TABLE e" using *(3,6) by auto
  ultimately show thesis by (rule that [OF *(1-3) _ *(4,5) _ *(7)])
qed

lemma vpath_take:
  assumes "unat x < 2 ^ 48" "unat y < 2 ^ 48" "n \<le> 2" "unat y div 2 ^ (12 + 9 * n) = unat x div 2 ^ (12 + 9 * n)"
  shows "take (4 - n) (vpath y) = take (4 - n) (vpath x)"
proof -
  consider "n = 0" | "n = 1" | "n = 2" using assms(3) by linarith
  then show ?thesis
  proof cases
    case 1
    then show ?thesis using prefix_vpath(3) [OF assms(2,1)] assms(4) by (simp add: vpath_def)
  next
    case 2
    then show ?thesis using prefix_vpath(2) [OF assms(2,1)] assms(4) by (simp add: vpath_def)
  next
    case 3
    then show ?thesis using prefix_vpath(1) [OF assms(2,1)] assms(4) by (simp add: vpath_def)
  qed
qed

lemma leaf_same_block:
  assumes wf: "pt_wf s r A" and l: "leaf s r x = Some (a, e, n)" and x: "unat x < 2 ^ 48" "unat y < 2 ^ 48"
    and eq: "unat y div 2 ^ (12 + 9 * n) = unat x div 2 ^ (12 + 9 * n)"
  shows "leaf s r y = Some (a, e, n)"
proof -
  obtain xs k ys q where *: "vpath x = xs @ k # ys" "tbl (mem s) r xs = Some q" "length ys = n" "n \<le> 2"
    "load64 (mem s) (entry_addr q k) = Inr e" "\<not> IS_PTE_INVALID e" "n \<noteq> 0 \<longrightarrow> \<not> IS_PTE_TABLE e" "a = entry_addr q k"
    by (rule leaf_Some [OF wf l])
  have len: "length (xs @ [k]) = 4 - n" using vpath_bound(2) [of x] *(1,3) by simp
  have "take (4 - n) (vpath x) = xs @ [k]" unfolding *(1) len [symmetric] by simp
  then have "take (4 - n) (vpath y) = xs @ [k]" using vpath_take [OF x *(4) eq] by simp
  then obtain zs where zs: "vpath y = xs @ k # zs" by (metis append_take_drop_id append.assoc append_Cons append_Nil)
  moreover have "length zs = n" using zs len vpath_bound(2) [of y] *(4) by simp
  ultimately show ?thesis
    unfolding leaf_def walk_Some using * by (intro exI [of _ xs] exI [of _ k] exI [of _ zs] exI [of _ q] exI [of _ e]) auto
qed

text \<open>One iteration of the loop.\<close>

lemma unmap_huge_step_ok:
  assumes wf: "pt_wf s r A" and va: "unat va < 2 ^ 48"
  shows "case leaf s r va of
      None \<Rightarrow> unmap_huge_step r s va = Inr (s, 0x1000)
    | Some (a, e, n) \<Rightarrow> \<exists>s'. unmap_huge_step r s va = Inr (s', of_nat (2 ^ (12 + 9 * n))) \<and> extends s r A s' A 0 \<and>
        same_tables s r s' \<and> (\<forall>x. unat x < 2 ^ 48 \<longrightarrow> leaf s' r x =
          (if unat x div 2 ^ (12 + 9 * n) = unat va div 2 ^ (12 + 9 * n) then None else leaf s r x))"
proof -
  note u = unmap_huge_step_def
  let ?m = "mem s"
  let ?i0 = "GET_L0_INDEX va" and ?i1 = "GET_L1_INDEX va" and ?i2 = "GET_L2_INDEX va" and ?i3 = "GET_L3_INDEX va"
  have r: "tbl ?m r [] = Some r" by simp
  note e0 = pt_entry [OF wf tpath_Nil r index_bound(1) [of va]]
  obtain e where e: "load64 ?m (entry_addr r ?i0) = Inr e" using e0(2) by blast
  note g0 = get_next_ptp_entry [OF e0(3) ptp_index_vpath(1) e]
  show ?thesis
  proof (cases "IS_PTE_INVALID e")
    case True
    then show ?thesis using e by (simp add: u g0(2) leaf_def vpath_def)
  next
    case False
    have t: "IS_PTE_TABLE e" by (rule pt_wf_l0 [OF wf index_bound(1) e False])
    let ?p1 = "GET_NEXT_PTP e"
    have p1: "tbl ?m r [?i0] = Some ?p1" using e False t by simp
    note e1 = pt_entry [OF wf tpath_vpath(1) p1 index_bound(2) [of va]]
    obtain f where f: "load64 ?m (entry_addr ?p1 ?i1) = Inr f" using e1(2) by blast
    note g1 = get_next_ptp_entry [OF e1(3) ptp_index_vpath(3) f]
    note s0 = u leaf_def vpath_def e False t g0(3)
    consider "IS_PTE_INVALID f" | "\<not> IS_PTE_INVALID f" "\<not> IS_PTE_TABLE f" | "\<not> IS_PTE_INVALID f" "IS_PTE_TABLE f" by blast
    then show ?thesis
    proof cases
      case 1
      then show ?thesis by (simp add: s0 f g1(2))
    next
      case 2
      obtain s' where s': "write64 (entry_addr ?p1 ?i1) 0 s = Inr s'" "extends s r A s' A 0"
        "\<forall>x. unat x < 2 ^ 48 \<longrightarrow> leaf s' r x = (if unat x div 2 ^ 30 = unat va div 2 ^ 30
          then if IS_PTE_INVALID 0 then None else Some (entry_addr ?p1 ?i1, 0, 2) else leaf s r x)" "tbl (mem s) r [?i0, ?i1] = None \<longrightarrow> same_tables s r s'"
        using write_l1_ok [OF wf va p1, of 0] by (auto simp: IS_PTE_TABLE_bit)
      have "leaf s r va = Some (entry_addr ?p1 ?i1, f, 2)" using 2 by (simp add: s0 f)
      moreover have "unmap_huge_step r s va = Inr (s', of_nat (2 ^ 30))"
        using 2 s'(1) by (simp add: u e False t g0(3) f g1(3) L1_BLOCK_SIZE_def)
      moreover have "tbl ?m r [?i0, ?i1] = None" using 2 by (simp add: e False t f)
      ultimately show ?thesis using s'(2-4) by simp
    next
      case 3
      let ?p2 = "GET_NEXT_PTP f"
      have p2: "tbl ?m r [?i0, ?i1] = Some ?p2" using e False t f 3 by simp
      note e2 = pt_entry [OF wf tpath_vpath(2) p2 index_bound(3) [of va]]
      obtain g where g: "load64 ?m (entry_addr ?p2 ?i2) = Inr g" using e2(2) by blast
      note g2 = get_next_ptp_entry [OF e2(3) ptp_index_vpath(4) g]
      note s1 = s0 f 3 g1(3)
      consider "IS_PTE_INVALID g" | "\<not> IS_PTE_INVALID g" "\<not> IS_PTE_TABLE g" | "\<not> IS_PTE_INVALID g" "IS_PTE_TABLE g" by blast
      then show ?thesis
      proof cases
        case 1
        then show ?thesis by (simp add: s1 g g2(2))
      next
        case 2
        obtain s' where s': "write64 (entry_addr ?p2 ?i2) 0 s = Inr s'" "extends s r A s' A 0"
          "\<forall>x. unat x < 2 ^ 48 \<longrightarrow> leaf s' r x = (if unat x div 2 ^ 21 = unat va div 2 ^ 21
            then if IS_PTE_INVALID 0 then None else Some (entry_addr ?p2 ?i2, 0, 1) else leaf s r x)" "tbl (mem s) r [?i0, ?i1, ?i2] = None \<longrightarrow> same_tables s r s'"
          using write_l2_ok [OF wf va p2, of 0] by (auto simp: IS_PTE_TABLE_bit)
        have "leaf s r va = Some (entry_addr ?p2 ?i2, g, 1)" using 2 by (simp add: s1 g)
        moreover have "unmap_huge_step r s va = Inr (s', of_nat (2 ^ 21))"
          using 2 s'(1) by (simp add: u e False t g0(3) f 3 g1(3) g g2(3) L2_BLOCK_SIZE_def)
        moreover have "tbl ?m r [?i0, ?i1, ?i2] = None" using 2 3 by (simp add: e False t f g)
        ultimately show ?thesis using s'(2-4) by simp
      next
        case g3: 3
        let ?p3 = "GET_NEXT_PTP g"
        have p3: "tbl ?m r [?i0, ?i1, ?i2] = Some ?p3" using e False t f 3 g g3 by simp
        note e3 = pt_entry [OF wf tpath_vpath(3) p3 index_bound(4) [of va]]
        obtain h where h: "load64 ?m (entry_addr ?p3 ?i3) = Inr h" using e3(2) by blast
        note g4 = get_next_ptp_entry [OF e3(3) ptp_index_vpath(5) h]
        note s2 = s1 g g3 g2(3)
        show ?thesis
        proof (cases "IS_PTE_INVALID h")
          case True
          then show ?thesis by (simp add: s2 h g4(1))
        next
          case hv: False
          obtain s' where s': "write64 (entry_addr ?p3 ?i3) 0 s = Inr s'" "extends s r A s' A 0"
            "\<forall>x. unat x < 2 ^ 48 \<longrightarrow> leaf s' r x = (if unat x div 4096 = unat va div 4096
              then if IS_PTE_INVALID 0 then None else Some (entry_addr ?p3 ?i3, 0, 0) else leaf s r x)" "same_tables s r s'"
            using write_l3_ok [OF wf va p3, of 0] by blast
          have "leaf s r va = Some (entry_addr ?p3 ?i3, h, 0)" using hv by (simp add: s2 h)
          moreover have "unmap_huge_step r s va = Inr (s', of_nat (2 ^ 12))"
            using hv s'(1) by (simp add: u e False t g0(3) f 3 g1(3) g g3 g2(3) h g4(1))
          ultimately show ?thesis using s'(2-4) by simp
        qed
      qed
    qed
  qed
qed

lemma block_base:
  assumes "unat va < 2 ^ 48" "k \<le> 30"
    and within: "\<And>y. unat y div 2 ^ k = unat va div 2 ^ k \<Longrightarrow> in_range va len y"
  shows "2 ^ k dvd unat va" "2 ^ k \<le> len"
proof -
  let ?B = "(2 :: nat) ^ k" and ?b = "unat va div 2 ^ k * 2 ^ k"
  have B: "?B \<le> 2 ^ 30" "0 < ?B" using power_increasing [OF assms(2), of "2 :: nat"] by simp_all
  have b: "?b \<le> unat va" "unat va < ?b + ?B"
    by simp_all (metis add.commute div_mult_mod_eq mod_less_divisor B(2) nat_add_left_cancel_less)
  have u: "unat (of_nat (?b + j) :: u64) = ?b + j" if "j < ?B" for j
  proof -
    have "?b + j < 2 ^ 64" using order.strict_trans2 [OF add_le_less_mono [OF b(1) that], of "2 ^ 48 + 2 ^ 30"] B(1) assms(1) by simp
    then show ?thesis by (rule unat_of_nat_less)
  qed
  have q: "(?b + j) div ?B = unat va div ?B" if "j < ?B" for j using that by simp
  have "in_range va len (of_nat (?b + 0))" by (rule within) (simp only: u [OF B(2)] q [OF B(2)])
  then have "unat va \<le> ?b" using u [OF B(2)] unfolding in_range_def by linarith
  then have eq: "?b = unat va" using b(1) by (rule antisym [rotated])
  then show "2 ^ k dvd unat va" by (metis dvd_triv_right)
  have j: "?B - 1 < ?B" using B(2) by simp
  have "in_range va len (of_nat (?b + (?B - 1)))" by (rule within) (simp only: u [OF j] q [OF j])
  then have "?b + (?B - 1) < unat va + len" using u [OF j] by (simp add: in_range_def)
  then show "2 ^ k \<le> len" using eq B(2) by simp
qed

lemma unmap_huge_step_range:
  assumes wf: "pt_wf s r A" and va: "unat va < 2 ^ 48" "4096 dvd unat va" and len: "4096 \<le> len"
    and within: "blocks_within s r va len"
  shows "\<exists>s' k. unmap_huge_step r s va = Inr (s', of_nat (2 ^ k)) \<and> extends s r A s' A 0 \<and> 12 \<le> k \<and> k \<le> 30 \<and>
    same_tables s r s' \<and>
    2 ^ k dvd unat va \<and> 2 ^ k \<le> len \<and>
    (\<forall>x. unat x < 2 ^ 48 \<longrightarrow> leaf s' r x = (if in_range va (2 ^ k) x then None else leaf s r x)) \<and>
    (\<forall>x. in_range va (2 ^ k) x \<longrightarrow> unat x < 2 ^ 48 \<longrightarrow> leaf s r x = leaf s r va) \<and>
    (\<forall>a e n. leaf s r va = Some (a, e, n) \<longrightarrow> k = 12 + 9 * n)"
proof (cases "leaf s r va")
  case None
  then have st: "unmap_huge_step r s va = Inr (s, of_nat (2 ^ 12))" using unmap_huge_step_ok [OF wf va(1)] by simp
  have same: "leaf s r x = leaf s r va" if "in_range va 4096 x" "unat x < 2 ^ 48" for x
    using leaf_same_page [OF that(2) va(1)] that(1) in_range_page [OF va(2)] by blast
  show ?thesis
    using st extends_refl [OF wf] same_tables_refl [of s r] va(2) len same None by (intro exI [of _ s] exI [of _ 12]) auto
next
  case (Some c)
  obtain a e n where c: "leaf s r va = Some (a, e, n)" using Some by (cases c) auto
  define k where "k = 12 + 9 * n"
  have n: "n \<le> 2" by (rule leaf_Some [OF wf c])
  then have k: "12 \<le> k" "k \<le> 30" by (simp_all add: k_def)
  have "in_range va len va" using len by (simp add: in_range_def)
  then have w: "\<And>y. unat y div 2 ^ k = unat va div 2 ^ k \<Longrightarrow> in_range va len y"
    using within c unfolding blocks_within_def k_def by blast
  note bb = block_base [OF va(1) k(2) w]
  obtain s' where s': "unmap_huge_step r s va = Inr (s', of_nat (2 ^ k))" "extends s r A s' A 0"
    "\<forall>x. unat x < 2 ^ 48 \<longrightarrow> leaf s' r x = (if unat x div 2 ^ k = unat va div 2 ^ k then None else leaf s r x)"
    "same_tables s r s'"
    using unmap_huge_step_ok [OF wf va(1)] c by (auto simp: k_def)
  have upd: "\<forall>x. unat x < 2 ^ 48 \<longrightarrow> leaf s' r x = (if in_range va (2 ^ k) x then None else leaf s r x)"
    using s'(3) by (simp add: in_range_block [OF bb(1)])
  have same: "\<forall>x. in_range va (2 ^ k) x \<longrightarrow> unat x < 2 ^ 48 \<longrightarrow> leaf s r x = leaf s r va"
  proof (intro allI impI)
    fix x assume that: "in_range va (2 ^ k) x" "unat x < 2 ^ 48"
    show "leaf s r x = leaf s r va"
    using leaf_same_block [OF wf c va(1) that(2)] that(1) in_range_block [OF bb(1), of x] c unfolding k_def by simp
  qed
  have "\<forall>a e n. leaf s r va = Some (a, e, n) \<longrightarrow> k = 12 + 9 * n" using c by (simp add: k_def)
  then show ?thesis
    using s'(1,2,4) k bb upd same by (intro exI [of _ s'] exI [of _ k] conjI)
qed

lemma unmap_huge_loop_ok:
  "pt_wf s r A \<Longrightarrow> unat va_end = unat va + n * 4096 \<Longrightarrow> unat va + n * 4096 \<le> 2 ^ 48 \<Longrightarrow>
   4096 dvd unat va \<Longrightarrow> blocks_within s r va (n * 4096) \<Longrightarrow> n \<le> fuel \<Longrightarrow>
   \<exists>s'. va_loop fuel (\<lambda>s va _. unmap_huge_step r s va) va_end s va pa = Some (Inr (s', 0)) \<and>
     extends s r A s' A 0 \<and> unmapped_range s r va (n * 4096) s' \<and> same_tables s r s'"
proof (induction n arbitrary: s va pa fuel rule: less_induct)
  case (less n)
  show ?case
  proof (cases n)
    case 0
    then have "\<not> va < va_end" using less.prems(2) by (simp add: word_less_nat_alt)
    then have "va_loop fuel (\<lambda>s va _. unmap_huge_step r s va) va_end s va pa = Some (Inr (s, 0))"
      by (cases fuel) simp_all
    then show ?thesis using extends_refl [OF less.prems(1)] same_tables_refl 0 by (auto simp: unmapped_range_def in_range_def)
  next
    case (Suc n0)
    obtain fuel' where fuel: "fuel = Suc fuel'" "n0 \<le> fuel'" using less.prems(6) Suc by (cases fuel) auto
    have va: "unat va < 2 ^ 48" "va < va_end" "4096 \<le> n * 4096"
      using less.prems(2,3) Suc by (simp_all add: word_less_nat_alt)
    obtain s1 k where s1: "unmap_huge_step r s va = Inr (s1, of_nat (2 ^ k))" "extends s r A s1 A 0"
      "12 \<le> k" "k \<le> 30" "2 ^ k dvd unat va" "2 ^ k \<le> n * 4096"
      "\<And>x. unat x < 2 ^ 48 \<Longrightarrow> leaf s1 r x = (if in_range va (2 ^ k) x then None else leaf s r x)"
      "\<And>x. in_range va (2 ^ k) x \<Longrightarrow> unat x < 2 ^ 48 \<Longrightarrow> leaf s r x = leaf s r va"
      "\<And>a e n. leaf s r va = Some (a, e, n) \<Longrightarrow> k = 12 + 9 * n" "same_tables s r s1"
      using unmap_huge_step_range [OF less.prems(1) va(1) less.prems(4) va(3) less.prems(5)] by blast
    define d where "d = (2 :: nat) ^ (k - 12)"
    have "(2 :: nat) ^ (k - 12 + 12) = 2 ^ (k - 12) * 2 ^ 12" by (rule power_add)
    then have d: "2 ^ k = d * 4096" "0 < d" using s1(3) by (simp_all add: d_def)
    then have dn: "d \<le> n" using s1(6) by simp
    define step where "step = (of_nat (2 ^ k) :: u64)"
    have "(2 :: nat) ^ k < 2 ^ 64" using s1(4) by (intro power_strict_increasing) simp_all
    then have st: "unat step = d * 4096" unfolding step_def using d(1) unat_of_nat_less by metis
    have "d * 4096 \<le> n * 4096" using dn by simp
    then have u: "unat (va + step) = unat va + d * 4096"
      using less.prems(3) st by (auto intro!: va_step)
    have nd: "n * 4096 = d * 4096 + (n - d) * 4096" using dn by (simp flip: add_mult_distrib)
    have split: "in_range va (n * 4096) x \<longleftrightarrow> in_range va (2 ^ k) x \<or> in_range (va + step) ((n - d) * 4096) x" for x
      unfolding nd d(1) by (auto simp: in_range_def u)
    have apart: "\<not> in_range va (2 ^ k) x" "unat x < 2 ^ 48" if "in_range (va + step) ((n - d) * 4096) x" for x
      using that less.prems(3) nd unfolding d(1) by (auto simp: in_range_def u)
    have bw: "blocks_within s1 r (va + step) ((n - d) * 4096)"
      unfolding blocks_within_def
    proof (intro allI impI)
      fix x a e m and y :: u64
      assume x: "in_range (va + step) ((n - d) * 4096) x" "leaf s1 r x = Some (a, e, m)"
        and y: "unat y div 2 ^ (12 + 9 * m) = unat x div 2 ^ (12 + 9 * m)"
      have l: "leaf s r x = Some (a, e, m)" using x apart [OF x(1)] s1(7) by simp
      have ry: "in_range va (n * 4096) y"
        using less.prems(5) split x(1) l y unfolding blocks_within_def by blast
      then have y48: "unat y < 2 ^ 48" using less.prems(3) by (auto simp: in_range_def)
      have "\<not> in_range va (2 ^ k) y"
      proof
        assume v: "in_range va (2 ^ k) y"
        have "leaf s r y = Some (a, e, m)" by (rule leaf_same_block [OF less.prems(1) l apart(2) [OF x(1)] y48 y])
        then have "leaf s r va = Some (a, e, m)" using s1(8) [OF v y48] by simp
        then have k: "k = 12 + 9 * m" by (rule s1(9))
        have "unat x div 2 ^ k = unat va div 2 ^ k" using v y in_range_block [OF s1(5), of y] k by simp
        then show False using apart(1) [OF x(1)] in_range_block [OF s1(5), of x] by simp
      qed
      then show "in_range (va + step) ((n - d) * 4096) y" using ry split by blast
    qed
    have "\<exists>s'. va_loop fuel' (\<lambda>s va _. unmap_huge_step r s va) va_end s1 (va + step) (pa + step) = Some (Inr (s', 0)) \<and>
        extends s1 r A s' A 0 \<and> unmapped_range s1 r (va + step) ((n - d) * 4096) s' \<and> same_tables s1 r s'"
    proof (rule less.IH)
      show "n - d < n" using d(2) dn by simp
      show "pt_wf s1 r A" using s1(2) by (simp add: extends_def)
      show "unat va_end = unat (va + step) + (n - d) * 4096" using less.prems(2) nd u by simp
      show "unat (va + step) + (n - d) * 4096 \<le> 2 ^ 48" using less.prems(3) nd u by simp
      show "4096 dvd unat (va + step)" using less.prems(4) u by simp
      show "blocks_within s1 r (va + step) ((n - d) * 4096)" by (rule bw)
      show "n - d \<le> fuel'" using fuel(2) Suc d(2) by simp
    qed
    then obtain s' where s': "va_loop fuel' (\<lambda>s va _. unmap_huge_step r s va) va_end s1 (va + step) (pa + step) = Some (Inr (s', 0))"
      "extends s1 r A s' A 0" "unmapped_range s1 r (va + step) ((n - d) * 4096) s'" "same_tables s1 r s'" by blast
    have "unmapped_range s r va (n * 4096) s'"
      using s'(3) s1(7) by (simp add: unmapped_range_def split)
    moreover have "extends s r A s' A 0" by (rule extends_trans [OF s1(2) s'(2)]) simp
    moreover have "same_tables s r s'" by (rule same_tables_trans [OF s1(10) s'(4)])
    ultimately show ?thesis using s'(1) s1(1) fuel(1) va(2)
      by (intro exI [of _ s']) (simp add: step_def)
  qed
qed

end
