(* ===== verification/Page_Table_Props.thy ===== *)
theory Page_Table_Props
  imports Page_Table_Unmap_Huge
begin

text \<open>
  The properties of kernel/arch/aarch64/mm/page_table.c. Lengths are the \<open>len\<close> argument of the
  code; the table's own page and the tables below it belong to the set \<open>A\<close> of held chunks, and
  the hypotheses on \<open>chunk_pages A\<close> say that the allocator has room for the tables a mapping may
  need: one for each region of 512G, 1G and 2M that the range touches.
\<close>

definition tables_for :: "u64 \<Rightarrow> u64 \<Rightarrow> nat" where
  "tables_for va len = 3 + crossings (unat va) (unat len div 4096)"

lemma wanted_tables_for: "wanted s r va (unat len div 4096) \<le> tables_for va len"
  using missing_le_3 [of s r va] by (simp add: wanted_def tables_for_def)

lemma dvd_pages: "4096 dvd unat (len :: u64) \<Longrightarrow> unat len div 4096 * 4096 = unat len"
  by (rule dvd_div_mult_self)

lemma unat_end: "unat va + unat len \<le> 2 ^ 48 \<Longrightarrow> unat (va + len :: u64) = unat va + unat len"
  by (simp add: unat_word_ariths)

subsection \<open>A table to start from\<close>

lemma kernel_table:
  obtains s r where "pt_wf (s :: kernel_state) r {(r, 0)}" "chunk_pages {(r, 0 :: nat)} = 1"
    "pool_pages s = 8" "\<And>x. leaf s r x = None" "new_page_table kernel_booted = Inr (s, r)"
    "dom (mem s) = dom (mem kernel_booted)"
proof -
  have "chunk_pages {} = 0" by (simp add: chunk_pages_def)
  then show thesis
    using new_page_table_ok [OF kernel_booted_held(1)] kernel_booted_held(2) that by auto
qed

subsection \<open>The loops in terms of the arguments of the functions\<close>

lemma map_range_ok:
  assumes "pt_wf s r A" "4096 dvd unat va" "4096 dvd unat pa" "4096 dvd unat len"
    and "unat va + unat len \<le> 2 ^ 48" "unat pa + unat len \<le> 2 ^ 48"
    and "\<And>x. in_range va (unat len) x \<Longrightarrow> no_block s r x"
    and "chunk_pages A + tables_for va len \<le> pool_pages s" "unat len div 4096 \<le> fuel"
  obtains s' A' where "map_range_in_pgtbl fuel s r va pa len flags = Some (Inr (s', 0))"
    "extends s r A s' A' (tables_for va len)" "mapped_range flags s r va pa (unat len) s'"
    "\<And>x. unat x < 2 ^ 48 \<Longrightarrow> no_block s r x \<Longrightarrow> no_block s' r x" "\<And>B. owned s r B A \<Longrightarrow> owned s' r B A'"
    "page_leaves flags s r va (unat len) s'"
proof -
  let ?n = "unat len div 4096"
  note w = wanted_tables_for [of s r va len]
  have e: "?n * 4096 = unat len" by (rule dvd_pages [OF assms(4)])
  have u: "unat (va + len) = unat va + ?n * 4096" unfolding e by (rule unat_end [OF assms(5)])
  have room: "chunk_pages A + wanted s r va ?n \<le> pool_pages s" using w assms(8) by linarith
  show thesis
    using map_loop_ok [OF assms(1) u _ assms(2,3) _ _ room assms(9), of flags, unfolded e, OF assms(5,6,7)]
      extends_mono [OF _ w] that unfolding map_range_in_pgtbl_def by metis
qed

lemma map_range_huge_ok:
  assumes "pt_wf s r A" "4096 dvd unat va" "4096 dvd unat pa" "4096 dvd unat len"
    and "unat va + unat len \<le> 2 ^ 48" "unat pa + unat len \<le> 2 ^ 48"
    and "\<And>x. in_range va (unat len) x \<Longrightarrow> no_block s r x"
    and "chunk_pages A + tables_for va len \<le> pool_pages s" "unat len div 4096 \<le> fuel"
  obtains s' A' where "map_range_in_pgtbl_huge fuel s r va pa len flags = Some (Inr (s', 0))"
    "extends s r A s' A' (tables_for va len)" "mapped_range flags s r va pa (unat len) s'"
    "blocks_within s' r va (unat len)" "\<And>x. unat x < 2 ^ 48 \<Longrightarrow> \<not> in_range va (unat len) x \<Longrightarrow> leaf s' r x = leaf s r x"
proof -
  let ?n = "unat len div 4096"
  note w = wanted_tables_for [of s r va len]
  have e: "?n * 4096 = unat len" by (rule dvd_pages [OF assms(4)])
  have u: "unat (va + len) = unat va + ?n * 4096" unfolding e by (rule unat_end [OF assms(5)])
  have room: "chunk_pages A + wanted s r va ?n \<le> pool_pages s" using w assms(8) by linarith
  show thesis
    using map_huge_loop_ok [OF assms(1) u _ assms(2,3) _ _ room assms(9), of flags, unfolded e, OF assms(5,6,7)]
      extends_mono [OF _ w] that unfolding map_range_in_pgtbl_huge_def by metis
qed

lemma unmap_range_ok:
  assumes "pt_wf s r A" "4096 dvd unat va" "4096 dvd unat len" "unat va + unat len \<le> 2 ^ 48"
    and "\<And>x. in_range va (unat len) x \<Longrightarrow> no_block s r x" "unat len div 4096 \<le> fuel"
  obtains s' where "unmap_range_in_pgtbl fuel s r va len = Some (Inr (s', 0))"
    "extends s r A s' A 0" "unmapped_range s r va (unat len) s'" "same_tables s r s'"
  using unmap_loop_ok [OF assms(1), of "va + len" va "unat len div 4096" fuel 0] assms(2-)
  unfolding unmap_range_in_pgtbl_def dvd_pages [OF assms(3)] by (auto simp: unat_end)

lemma unmap_range_huge_ok:
  assumes "pt_wf s r A" "4096 dvd unat va" "4096 dvd unat len" "unat va + unat len \<le> 2 ^ 48"
    and "blocks_within s r va (unat len)" "unat len div 4096 \<le> fuel"
  obtains s' where "unmap_range_in_pgtbl_huge fuel s r va len = Some (Inr (s', 0))"
    "extends s r A s' A 0" "unmapped_range s r va (unat len) s'" "same_tables s r s'"
  using unmap_huge_loop_ok [OF assms(1), of "va + len" va "unat len div 4096" fuel 0] assms(2-)
  unfolding unmap_range_in_pgtbl_huge_def dvd_pages [OF assms(3)] by (auto simp: unat_end)

subsection \<open>Addresses beyond 48 bits\<close>

lemma vpath_low: "vpath (take_bit 48 va) = vpath va"
proof -
  have "drop_bit k (take_bit 48 va) AND mask 9 = drop_bit k va AND mask 9" if "k \<le> 39" for k
    using that by (auto intro!: bit_eqI simp: bit_simps)
  then show ?thesis
    by (simp add: vpath_def GET_L0_INDEX_def GET_L1_INDEX_def GET_L2_INDEX_def GET_L3_INDEX_def)
qed

lemma ptp_index_low: "ptp_index level (take_bit 48 va) = ptp_index level va"
  using vpath_low [of va] by (simp add: ptp_index_def vpath_def)

lemma get_next_ptp_low: "get_next_ptp s p level (take_bit 48 va) nx pt al = get_next_ptp s p level va nx pt al"
  by (simp add: get_next_ptp_def ptp_index_low)

lemma unmap_page_step_low: "unmap_page_step r s (take_bit 48 va) = unmap_page_step r s va"
  unfolding unmap_page_step_def get_next_ptp_low ..

lemma take_48: "unat (take_bit 48 va :: u64) < 2 ^ 48"
  by (simp only: unsigned_take_bit_eq) (simp only: take_bit_eq_mod, simp)

lemma leaf_low: "leaf s r (take_bit 48 va) = leaf s r va"
  by (simp add: leaf_def vpath_low)

text \<open>A table with two pages mapped.\<close>

lemma kernel_mapped:
  obtains s r A where "pt_wf (s :: kernel_state) r A" "\<And>x. no_block s r x"
    "translate s r 0x401234 = Some (0x80234, flag_attributes 2)" "translate s r 0x402000 = Some (0x81000, flag_attributes 2)"
proof -
  obtain s r where s: "pt_wf (s :: kernel_state) r {(r, 0)}" "chunk_pages {(r, 0 :: nat)} = 1"
    "pool_pages s = 8" "\<And>x. leaf s r x = None" by (rule kernel_table) blast
  have nb: "no_block s r x" for x by (simp add: s(4) no_block_def)
  obtain s' A' where s': "extends s r {(r, 0)} s' A' (tables_for 0x401000 0x2000)"
    "mapped_range 2 s r 0x401000 0x80000 (unat (0x2000 :: u64)) s'" "\<And>x. unat x < 2 ^ 48 \<Longrightarrow> no_block s r x \<Longrightarrow> no_block s' r x"
    by (rule map_range_ok [OF s(1), of "0x401000" "0x80000" "0x2000" 2 2]) (simp_all add: s nb tables_for_def crossings_def)
  have "no_block s' r (take_bit 48 x)" for x by (rule s'(3) [OF take_48 nb])
  then have "no_block s' r x" for x by (simp add: no_block_def leaf_low)
  moreover have "translate s' r 0x401234 = Some (0x80234, flag_attributes 2)" "translate s' r 0x402000 = Some (0x81000, flag_attributes 2)"
    using s'(2) unfolding mapped_range_def by (simp_all add: in_range_def)
  ultimately show thesis using s'(1) by (intro that [of s' r A']) (simp_all add: extends_def)
qed

subsection \<open>Translation\<close>

text \<open>C13: In a well-formed table \<open>query_in_pgtbl\<close> agrees with the recursive walk of the table by
  the four index fields of the address: it returns 0, the physical address and (when asked) the
  address of the leaf entry where the walk ends in a leaf, and \<open>- ENOMAPPING\<close> with nothing
  written where it does not. It never runs into one of its \<open>BUG_ON\<close>s.\<close>

theorem query_in_pgtbl_correct:
  assumes "pt_wf s r A"
  shows "query_in_pgtbl s r va True has_entry =
    Inr (case walk (mem s) r [GET_L0_INDEX va, GET_L1_INDEX va, GET_L2_INDEX va, GET_L3_INDEX va] of
        None \<Rightarrow> (- 203, None, None)
      | Some (a, e, n) \<Rightarrow> (0, Some (leaf_pa n e va), if has_entry then Some a else None))"
  using query_ok [OF assms] unfolding leaf_def vpath_def .

theorem query_in_pgtbl_correct_witness:
  "\<exists>(s :: kernel_state) r. pt_wf s r {(r, 0)} \<and> query_in_pgtbl s r 0x1234 True False = Inr (- 203, None, None)"
proof -
  obtain s r where s: "pt_wf (s :: kernel_state) r {(r, 0)}" "\<And>x. leaf s r x = None"
    by (rule kernel_table) blast
  show ?thesis
    using query_in_pgtbl_correct [OF s(1), of "0x1234" False] s(1) s(2) [of "0x1234", unfolded leaf_def vpath_def] by auto
qed

subsection \<open>Mapping and unmapping with pages\<close>

text \<open>C14: \<open>map_range_in_pgtbl\<close>, given page-aligned arguments, virtual and physical ranges within 48 bits,
  no block in the virtual range and room in the pool for \<open>tables_for va len\<close> tables, returns 0 after
  at most \<open>len div 4096\<close> iterations, keeps the table well-formed and everything held held, and
  afterwards exactly the addresses of the range translate to the target range, with the attributes
  the flags ask for; every other address translates as before. The empty range is included: there
  the code returns 0 too, where its comment promises \<open>- EINVAL\<close>.\<close>

theorem map_range_in_pgtbl_correct:
  assumes "pt_wf s r A" "4096 dvd unat va" "4096 dvd unat pa" "4096 dvd unat len"
    and "unat va + unat len \<le> 2 ^ 48" "unat pa + unat len \<le> 2 ^ 48"
    and "\<And>x. in_range va (unat len) x \<Longrightarrow> no_block s r x"
    and "chunk_pages A + tables_for va len \<le> pool_pages s" "unat len div 4096 \<le> fuel"
  shows "\<exists>s' A'. map_range_in_pgtbl fuel s r va pa len flags = Some (Inr (s', 0)) \<and>
    pt_wf s' r A' \<and> A \<subseteq> A' \<and> chunk_pages A' \<le> chunk_pages A + tables_for va len \<and>
    (\<forall>x. unat x < 2 ^ 48 \<longrightarrow> translate s' r x =
       (if in_range va (unat len) x then Some (pa + (x - va), flag_attributes flags) else translate s r x))"
proof -
  obtain s' A' where "map_range_in_pgtbl fuel s r va pa len flags = Some (Inr (s', 0))"
    "extends s r A s' A' (tables_for va len)" "mapped_range flags s r va pa (unat len) s'"
    using map_range_ok [OF assms] by metis
  then show ?thesis unfolding extends_def mapped_range_def by blast
qed

theorem map_range_in_pgtbl_correct_witness:
  "\<exists>(s :: kernel_state) r s' A'. pt_wf s r {(r, 0)} \<and>
    map_range_in_pgtbl 1 s r 0x401000 0x80000 0x1000 2 = Some (Inr (s', 0)) \<and> pt_wf s' r A' \<and>
    translate s' r 0x401234 = Some (0x80234, flag_attributes 2) \<and> translate s' r 0x402000 = None"
proof -
  obtain s r where s: "pt_wf (s :: kernel_state) r {(r, 0)}" "chunk_pages {(r, 0 :: nat)} = 1"
    "pool_pages s = 8" "\<And>x. leaf s r x = None" by (rule kernel_table) blast
  have "\<exists>s' A'. map_range_in_pgtbl 1 s r 0x401000 0x80000 0x1000 2 = Some (Inr (s', 0)) \<and>
    pt_wf s' r A' \<and> {(r, 0)} \<subseteq> A' \<and> chunk_pages A' \<le> chunk_pages {(r, 0)} + tables_for 0x401000 0x1000 \<and>
    (\<forall>x. unat x < 2 ^ 48 \<longrightarrow> translate s' r x =
       (if in_range 0x401000 (unat (0x1000 :: u64)) x then Some (0x80000 + (x - 0x401000), flag_attributes 2) else translate s r x))"
    by (rule map_range_in_pgtbl_correct [OF s(1)]) (simp_all add: s no_block_def tables_for_def crossings_def)
  then obtain s' A' where s': "map_range_in_pgtbl 1 s r 0x401000 0x80000 0x1000 2 = Some (Inr (s', 0))"
    "pt_wf s' r A'" "\<forall>x. unat x < 2 ^ 48 \<longrightarrow> translate s' r x =
       (if in_range 0x401000 (unat (0x1000 :: u64)) x then Some (0x80000 + (x - 0x401000), flag_attributes 2) else translate s r x)"
    by blast
  have "translate s' r 0x401234 = Some (0x80234, flag_attributes 2)" "translate s' r 0x402000 = None"
    using s'(3) [rule_format, of "0x401234"] s'(3) [rule_format, of "0x402000"] s(4)
    by (simp_all add: in_range_def translate_def)
  then show ?thesis using s(1) s'(1,2) by blast
qed

text \<open>C15: \<open>unmap_range_in_pgtbl\<close> on a page-aligned range within 48 bits that no block covers returns 0,
  keeps the table and the held chunks, and afterwards exactly the addresses of the range have no
  leaf entry; the entries of all other addresses are untouched. It returns 0 whatever was mapped in
  the range, and for an empty one: the comment promises \<open>- ENOMAPPING\<close> and \<open>- EINVAL\<close> there.\<close>

theorem unmap_range_in_pgtbl_correct:
  assumes "pt_wf s r A" "4096 dvd unat va" "4096 dvd unat len" "unat va + unat len \<le> 2 ^ 48"
    and "\<And>x. in_range va (unat len) x \<Longrightarrow> no_block s r x" "unat len div 4096 \<le> fuel"
  shows "\<exists>s'. unmap_range_in_pgtbl fuel s r va len = Some (Inr (s', 0)) \<and> pt_wf s' r A \<and>
    (\<forall>x. unat x < 2 ^ 48 \<longrightarrow> leaf s' r x = (if in_range va (unat len) x then None else leaf s r x))"
proof -
  obtain s' where "unmap_range_in_pgtbl fuel s r va len = Some (Inr (s', 0))"
    "extends s r A s' A 0" "unmapped_range s r va (unat len) s'"
    using unmap_range_ok [OF assms] by metis
  then show ?thesis unfolding extends_def unmapped_range_def by blast
qed

theorem unmap_range_in_pgtbl_correct_witness:
  "\<exists>(s :: kernel_state) r s'. translate s r 0x401234 = Some (0x80234, flag_attributes 2) \<and>
    unmap_range_in_pgtbl 1 s r 0x401000 0x1000 = Some (Inr (s', 0)) \<and> leaf s' r 0x401234 = None \<and>
    translate s' r 0x402000 = Some (0x81000, flag_attributes 2)"
proof -
  obtain s r A where s: "pt_wf (s :: kernel_state) r A" "\<And>x. no_block s r x"
    "translate s r 0x401234 = Some (0x80234, flag_attributes 2)" "translate s r 0x402000 = Some (0x81000, flag_attributes 2)"
    by (rule kernel_mapped) (rule that)
  have "\<exists>s'. unmap_range_in_pgtbl 1 s r 0x401000 0x1000 = Some (Inr (s', 0)) \<and> pt_wf s' r A \<and>
    (\<forall>x. unat x < 2 ^ 48 \<longrightarrow> leaf s' r x = (if in_range 0x401000 (unat (0x1000 :: u64)) x then None else leaf s r x))"
    by (rule unmap_range_in_pgtbl_correct [OF s(1)]) (simp_all add: s(2))
  then obtain s' where s': "unmap_range_in_pgtbl 1 s r 0x401000 0x1000 = Some (Inr (s', 0))"
    "\<forall>x. unat x < 2 ^ 48 \<longrightarrow> leaf s' r x = (if in_range 0x401000 (unat (0x1000 :: u64)) x then None else leaf s r x)" by blast
  have "leaf s' r 0x401234 = None" "leaf s' r 0x402000 = leaf s r 0x402000"
    using s'(2) [rule_format, of "0x401234"] s'(2) [rule_format, of "0x402000"] by (simp_all add: in_range_def)
  with s(3,4) s'(1) show ?thesis by (intro exI [of _ s] exI [of _ r] exI [of _ s']) (simp add: translate_def)
qed

subsection \<open>Mapping and unmapping with blocks\<close>

text \<open>C16: \<open>map_range_in_pgtbl_huge\<close>, which uses 1G and 2M blocks where it can, maps exactly what
  \<open>map_range_in_pgtbl\<close> maps with 4K pages: given page-aligned arguments, ranges within 48 bits, no
  block in the virtual range yet and room for the tables, both return 0 (for an empty range too)
  and leave tables that translate every address alike.\<close>

theorem map_huge_equivalent:
  assumes "pt_wf s r A" "4096 dvd unat va" "4096 dvd unat pa" "4096 dvd unat len"
    and "unat va + unat len \<le> 2 ^ 48" "unat pa + unat len \<le> 2 ^ 48"
    and "\<And>x. in_range va (unat len) x \<Longrightarrow> no_block s r x"
    and "chunk_pages A + tables_for va len \<le> pool_pages s" "unat len div 4096 \<le> fuel"
  shows "\<exists>s1 s2. map_range_in_pgtbl fuel s r va pa len flags = Some (Inr (s1, 0)) \<and>
    map_range_in_pgtbl_huge fuel s r va pa len flags = Some (Inr (s2, 0)) \<and>
    (\<exists>A2. pt_wf s2 r A2 \<and> A \<subseteq> A2) \<and>
    (\<forall>x. unat x < 2 ^ 48 \<longrightarrow> translate s2 r x = translate s1 r x)"
proof -
  obtain s1 where 1: "map_range_in_pgtbl fuel s r va pa len flags = Some (Inr (s1, 0))"
    "mapped_range flags s r va pa (unat len) s1"
    using map_range_ok [OF assms] by metis
  obtain s2 A2 where 2: "map_range_in_pgtbl_huge fuel s r va pa len flags = Some (Inr (s2, 0))"
    "extends s r A s2 A2 (tables_for va len)" "mapped_range flags s r va pa (unat len) s2"
    using map_range_huge_ok [OF assms] by metis
  show ?thesis
    using 1 2 unfolding mapped_range_def extends_def by (intro exI [of _ s1] exI [of _ s2]) auto
qed

theorem map_huge_equivalent_witness:
  "\<exists>(s :: kernel_state) r s1 s2. pt_wf s r {(r, 0)} \<and>
    map_range_in_pgtbl 2 s r 0x1fe000 0xfe000 0x2000 6 = Some (Inr (s1, 0)) \<and>
    map_range_in_pgtbl_huge 2 s r 0x1fe000 0xfe000 0x2000 6 = Some (Inr (s2, 0)) \<and>
    translate s2 r 0x1ff000 = translate s1 r 0x1ff000"
proof -
  obtain s r where s: "pt_wf (s :: kernel_state) r {(r, 0)}" "chunk_pages {(r, 0 :: nat)} = 1"
    "pool_pages s = 8" "\<And>x. leaf s r x = None" by (rule kernel_table) blast
  have "\<exists>s1 s2. map_range_in_pgtbl 2 s r 0x1fe000 0xfe000 0x2000 6 = Some (Inr (s1, 0)) \<and>
    map_range_in_pgtbl_huge 2 s r 0x1fe000 0xfe000 0x2000 6 = Some (Inr (s2, 0)) \<and>
    (\<exists>A2. pt_wf s2 r A2 \<and> {(r, 0)} \<subseteq> A2) \<and> (\<forall>x. unat x < 2 ^ 48 \<longrightarrow> translate s2 r x = translate s1 r x)"
    by (rule map_huge_equivalent [OF s(1)]) (simp_all add: s no_block_def tables_for_def crossings_def)
  then obtain s1 s2 where "map_range_in_pgtbl 2 s r 0x1fe000 0xfe000 0x2000 6 = Some (Inr (s1, 0))"
    "map_range_in_pgtbl_huge 2 s r 0x1fe000 0xfe000 0x2000 6 = Some (Inr (s2, 0))"
    "translate s2 r 0x1ff000 = translate s1 r 0x1ff000" by fastforce
  then show ?thesis using s(1) by blast
qed

text \<open>C17: What \<open>map_range_in_pgtbl_huge\<close> mapped into an empty range, \<open>unmap_range_in_pgtbl_huge\<close>
  over the same range removes again: both return 0, and every address has the leaf entry it had
  before the mapping.\<close>

theorem map_unmap_huge_roundtrip:
  assumes "pt_wf s r A" "4096 dvd unat va" "4096 dvd unat pa" "4096 dvd unat len"
    and "unat va + unat len \<le> 2 ^ 48" "unat pa + unat len \<le> 2 ^ 48"
    and "\<And>x. in_range va (unat len) x \<Longrightarrow> leaf s r x = None"
    and "chunk_pages A + tables_for va len \<le> pool_pages s" "unat len div 4096 \<le> fuel"
  shows "\<exists>s1 s2. map_range_in_pgtbl_huge fuel s r va pa len flags = Some (Inr (s1, 0)) \<and>
    unmap_range_in_pgtbl_huge fuel s1 r va len = Some (Inr (s2, 0)) \<and>
    (\<forall>x. unat x < 2 ^ 48 \<longrightarrow> leaf s2 r x = leaf s r x)"
proof -
  have nb: "\<And>x. in_range va (unat len) x \<Longrightarrow> no_block s r x" using assms(7) by (simp add: no_block_def)
  obtain s1 A1 where 1: "map_range_in_pgtbl_huge fuel s r va pa len flags = Some (Inr (s1, 0))"
    "extends s r A s1 A1 (tables_for va len)" "blocks_within s1 r va (unat len)"
    "\<And>x. unat x < 2 ^ 48 \<Longrightarrow> \<not> in_range va (unat len) x \<Longrightarrow> leaf s1 r x = leaf s r x"
    using map_range_huge_ok [OF assms(1-6) nb assms(8,9)] by metis
  have wf1: "pt_wf s1 r A1" using 1(2) by (simp add: extends_def)
  obtain s2 where 2: "unmap_range_in_pgtbl_huge fuel s1 r va len = Some (Inr (s2, 0))"
    "unmapped_range s1 r va (unat len) s2"
    using unmap_range_huge_ok [OF wf1 assms(2,4,5) 1(3) assms(9)] by metis
  show ?thesis
    using 1(1,4) 2 assms(7) unfolding unmapped_range_def by (intro exI [of _ s1] exI [of _ s2]) auto
qed

theorem map_unmap_huge_roundtrip_witness:
  "\<exists>(s :: kernel_state) r s1 s2. pt_wf s r {(r, 0)} \<and>
    map_range_in_pgtbl_huge 1 s r 0x8000 0x9000 0x1000 0 = Some (Inr (s1, 0)) \<and>
    unmap_range_in_pgtbl_huge 1 s1 r 0x8000 0x1000 = Some (Inr (s2, 0)) \<and> leaf s2 r 0x8010 = None"
proof -
  obtain s r where s: "pt_wf (s :: kernel_state) r {(r, 0)}" "chunk_pages {(r, 0 :: nat)} = 1"
    "pool_pages s = 8" "\<And>x. leaf s r x = None" by (rule kernel_table) blast
  have "\<exists>s1 s2. map_range_in_pgtbl_huge 1 s r 0x8000 0x9000 0x1000 0 = Some (Inr (s1, 0)) \<and>
    unmap_range_in_pgtbl_huge 1 s1 r 0x8000 0x1000 = Some (Inr (s2, 0)) \<and>
    (\<forall>x. unat x < 2 ^ 48 \<longrightarrow> leaf s2 r x = leaf s r x)"
    by (rule map_unmap_huge_roundtrip [OF s(1)]) (simp_all add: s tables_for_def crossings_def)
  then obtain s1 s2 where "map_range_in_pgtbl_huge 1 s r 0x8000 0x9000 0x1000 0 = Some (Inr (s1, 0))"
    "unmap_range_in_pgtbl_huge 1 s1 r 0x8000 0x1000 = Some (Inr (s2, 0))" "leaf s2 r 0x8010 = None"
    using s(4) by fastforce
  then show ?thesis using s(1) by blast
qed

text \<open>C18: \<open>unmap_range_in_pgtbl_huge\<close> invalidates a block as a whole: called with a range that
  begins inside a block and ends in it, it also unmaps the part of the block outside the range.\<close>

theorem unmap_huge_drops_block:
  assumes "pt_wf s r A" "unat va < 2 ^ 48" "leaf s r va = Some (a, e, n)"
    and "0 < len" "unat len \<le> 2 ^ (12 + 9 * n)" "0 < fuel"
  shows "\<exists>s'. unmap_range_in_pgtbl_huge fuel s r va len = Some (Inr (s', 0)) \<and>
    (\<forall>x. unat x < 2 ^ 48 \<longrightarrow> unat x div 2 ^ (12 + 9 * n) = unat va div 2 ^ (12 + 9 * n) \<longrightarrow> leaf s' r x = None)"
proof -
  obtain fuel' where fuel: "fuel = Suc fuel'" using assms(6) by (cases fuel) auto
  obtain s' where s': "unmap_huge_step r s va = Inr (s', of_nat (2 ^ (12 + 9 * n)))"
    "\<forall>x. unat x < 2 ^ 48 \<longrightarrow> leaf s' r x =
      (if unat x div 2 ^ (12 + 9 * n) = unat va div 2 ^ (12 + 9 * n) then None else leaf s r x)"
    using unmap_huge_step_ok [OF assms(1,2)] assms(3) by auto
  have n: "n \<le> 2" by (rule leaf_Some [OF assms(1,3)])
  then have "(2 :: nat) ^ (12 + 9 * n) \<le> 2 ^ 30" by (intro power_increasing) simp_all
  moreover from this have "unat (of_nat (2 ^ (12 + 9 * n)) :: u64) = 2 ^ (12 + 9 * n)"
    by (intro unat_of_nat_less) simp
  ultimately have "va < va + len" "\<not> va + of_nat (2 ^ (12 + 9 * n)) < va + len"
    using assms(2,4,5) by (simp_all add: word_less_nat_alt unat_word_ariths)
  then have "unmap_range_in_pgtbl_huge fuel s r va len = Some (Inr (s', 0))"
    using s'(1) by (cases fuel') (simp_all add: unmap_range_in_pgtbl_huge_def fuel)
  then show ?thesis using s'(2) by auto
qed

text \<open>A table with a 2M block, as \<open>map_range_in_pgtbl_huge\<close> makes it.\<close>

lemma kernel_block:
  obtains s r A a where "pt_wf (s :: kernel_state) r A" "dom (mem s) = dom (mem kernel_booted)"
    "\<And>x. in_range 0x200000 0x200000 x \<Longrightarrow> leaf s r x = Some (a, l2_pte 0x200000 0, 1)"
proof -
  obtain s r where s: "pt_wf (s :: kernel_state) r {(r, 0)}" "chunk_pages {(r, 0 :: nat)} = 1"
    "pool_pages s = 8" "\<And>x. leaf s r x = None" "dom (mem s) = dom (mem kernel_booted)" by (rule kernel_table) blast
  have k: "block_shift 0x200000 0x200000 (unat (0x400000 :: u64) - unat (0x200000 :: u64)) = 21"
    by (simp add: block_shift_def)
  have room: "chunk_pages {(r, 0)} + missing s r 0x200000 \<le> pool_pages s"
    using missing_le_3 [of s r "0x200000"] s(2,3) by simp
  have nb: "no_block s r 0x200000" using s(4) by (simp add: no_block_def)
  obtain s' A' a where s': "extends s r {(r, 0)} s' A' (missing s r 0x200000)"
    "\<forall>x. unat x < 2 ^ 48 \<longrightarrow> in_range 0x200000 0x200000 x \<longrightarrow> leaf s' r x = Some (a, l2_pte 0x200000 0, 1)"
    using map_huge_step_range [OF s(1) _ _ _ _ _ _ nb room, of "0x400000" "0x200000" 0]
    unfolding k by (auto simp: leaf_pte_def)
  have "leaf s' r x = Some (a, l2_pte 0x200000 0, 1)" if "in_range 0x200000 0x200000 x" for x
    using s'(2) that by (simp add: in_range_def)
  then show thesis using s'(1) s(5) by (intro that [of s' r A' a]) (simp_all add: extends_def)
qed

theorem unmap_huge_drops_block_witness:
  "\<exists>(s :: kernel_state) r s' a e. leaf s r 0x200000 = Some (a, e, 1) \<and>
    unmap_range_in_pgtbl_huge 1 s r 0x3ff000 0x1000 = Some (Inr (s', 0)) \<and> leaf s' r 0x200000 = None"
proof -
  obtain s r A a where s: "pt_wf (s :: kernel_state) r A"
    "\<And>x. in_range 0x200000 0x200000 x \<Longrightarrow> leaf s r x = Some (a, l2_pte 0x200000 0, 1)"
    by (rule kernel_block) (rule that)
  have l: "leaf s r 0x3ff000 = Some (a, l2_pte 0x200000 0, 1)" "leaf s r 0x200000 = Some (a, l2_pte 0x200000 0, 1)"
    by (simp_all add: s(2) in_range_def)
  obtain s' where s': "unmap_range_in_pgtbl_huge 1 s r 0x3ff000 0x1000 = Some (Inr (s', 0))"
    "\<forall>x. unat x < 2 ^ 48 \<longrightarrow> unat x div 2 ^ (12 + 9 * 1) = unat (0x3ff000 :: u64) div 2 ^ (12 + 9 * 1) \<longrightarrow> leaf s' r x = None"
    using unmap_huge_drops_block [OF s(1) _ l(1), of "0x1000" 1] by auto
  have "leaf s' r 0x200000 = None" using s'(2) by simp
  then show ?thesis using l(2) s'(1) by blast
qed

subsection \<open>Releasing a table\<close>

text \<open>C19: \<open>free_page_table\<close> of a well-formed table returns and releases the page of the table and
  of each table below it, once each, and no other chunk; the mapped pages stay held and memory is
  not written.\<close>

theorem free_page_table_correct:
  assumes "pt_wf s r A"
  shows "\<exists>s'. free_page_table s r = Inr s' \<and>
    pages_held s' (A - {(p, 0) | p xs. tpath xs \<and> tbl (mem s) r xs = Some p}) \<and> mem s' = mem s"
  using free_page_table_ok [OF assms] by (auto simp: subtables_def)

theorem free_page_table_correct_witness:
  "\<exists>(s :: kernel_state) r s'. new_page_table kernel_booted = Inr (s, r) \<and> free_page_table s r = Inr s' \<and> pages_held s' {}"
proof -
  obtain s r where s: "pt_wf (s :: kernel_state) r {(r, 0)}" "new_page_table kernel_booted = Inr (s, r)"
    by (rule kernel_table) blast
  have "tpath [] \<and> tbl (mem s) r [] = Some r" by simp
  then have "{(r, 0)} - {(p, 0) | p xs. tpath xs \<and> tbl (mem s) r xs = Some p} = {}" by blast
  then show ?thesis using free_page_table_correct [OF s(1)] s(2) by auto
qed

subsection \<open>The attributes of an entry\<close>

lemma pte_flags_other:
  assumes "n < 2 \<or> n = 5 \<or> 12 \<le> n \<and> n < 53 \<or> 55 \<le> n"
  shows "bit (pte_flags flags e) n = bit e n"
proof -
  have out: "(2 \<le> n \<and> n < 2 + 3) = False" "(6 \<le> n \<and> n < 6 + 2) = False" "(8 \<le> n \<and> n < 8 + 2) = False"
    "(10 \<le> n \<and> n < 10 + 1) = False" "(11 \<le> n \<and> n < 11 + 1) = False" "(53 \<le> n \<and> n < 53 + 1) = False"
    "(54 \<le> n \<and> n < 54 + 1) = False"
    using assms by auto
  have "bit e n \<longrightarrow> n < 64" using bit_imp_le_length [of e n] by simp
  moreover have "bit (pte_flags flags e) n = (n < 64 \<and> bit e n)"
    by (simp only: pte_flags_def Let_def attribute_fields [THEN bit_set_field] out if_False if_cancel split: if_split)
      (simp only: simp_thms)
  ultimately show ?thesis by blast
qed

text \<open>C20: \<open>set_pte_flags\<close> of kind \<open>USER_PTE\<close> sets exactly the attribute bits of the entry: read as
  a level 3 page, the entry then has the attributes the flags ask for, its other bits (validity,
  kind, output address, software bits) are what they were, and no other byte of memory changes.\<close>

theorem set_pte_flags_correct:
  assumes "cell_ok (mem s) entry" "load64 (mem s) entry = Inr e"
  shows "\<exists>s' e'. set_pte_flags entry flags 0 s = Inr s' \<and> load64 (mem s') entry = Inr e' \<and>
    entry_attributes e' = flag_attributes flags \<and>
    (\<forall>n. n < 2 \<or> n = 5 \<or> 12 \<le> n \<and> n < 53 \<or> 55 \<le> n \<longrightarrow> bit e' n = bit e n) \<and>
    (\<forall>x. 8 \<le> unat (x - entry) \<longrightarrow> mem s' x = mem s x)"
proof -
  obtain m' where m: "write64 entry (pte_flags flags e) s = Inr (s\<lparr>mem := m'\<rparr>)"
    "load64 m' entry = Inr (pte_flags flags e)" "\<forall>x. 8 \<le> unat (x - entry) \<longrightarrow> m' x = mem s x"
    using write64_ok [OF assms(1), of "pte_flags flags e"] by blast
  have "bit (pte_flags flags e) n = bit e n" if "n < 2 \<or> n = 5 \<or> 12 \<le> n \<and> n < 53 \<or> 55 \<le> n" for n
    by (rule pte_flags_other [OF that])
  then show ?thesis
    using m assms(2) by (simp add: set_pte_flags_def modify64_def read64_def attributes_pte_flags)
qed

theorem set_pte_flags_correct_witness:
  "\<exists>(s :: kernel_state) entry s' e'. set_pte_flags entry 10 0 s = Inr s' \<and> load64 (mem s') entry = Inr e' \<and>
    memory_type (entry_attributes e') = 1 \<and> access (entry_attributes e') = 1"
proof -
  obtain s r where s: "pt_wf (s :: kernel_state) r {(r, 0)}" by (rule kernel_table)
  note pe = pt_entry [OF s tpath_Nil, of r 0, simplified]
  obtain e where "load64 (mem s) (entry_addr r 0) = Inr e" using pe(2) by blast
  then obtain s' e' where "set_pte_flags (entry_addr r 0) 10 0 s = Inr s'" "load64 (mem s') (entry_addr r 0) = Inr e'"
    "entry_attributes e' = flag_attributes 10"
    using set_pte_flags_correct [OF pe(1), of e 10] by blast
  then show ?thesis
    by (intro exI [of _ s] exI [of _ "entry_addr r 0"] exI [of _ s'] exI [of _ e']) (simp add: flag_attributes_def)
qed

subsection \<open>Ends of ranges\<close>

text \<open>
  The pages that the loop visits on its way from \<open>va\<close>, which need not be aligned, to the end. The
  table only looks at the low 48 bits of an address.
\<close>

definition visited :: "u64 \<Rightarrow> u64 \<Rightarrow> u64 \<Rightarrow> bool" where
  "visited va va_end x \<longleftrightarrow>
     (\<exists>i. unat va + i * 4096 < unat va_end \<and> unat x div 4096 = unat (take_bit 48 (va + of_nat (i * 4096))) div 4096)"

lemma visited_step:
  assumes "va < va_end" "unat (va + 0x1000) = unat va + 4096"
  shows "visited va va_end x \<longleftrightarrow> unat x div 4096 = unat (take_bit 48 va) div 4096 \<or> visited (va + 0x1000) va_end x"
proof
  assume "visited va va_end x"
  then obtain i where i: "unat va + i * 4096 < unat va_end" "unat x div 4096 = unat (take_bit 48 (va + of_nat (i * 4096))) div 4096"
    by (auto simp: visited_def)
  show "unat x div 4096 = unat (take_bit 48 va) div 4096 \<or> visited (va + 0x1000) va_end x"
  proof (cases i)
    case 0
    then show ?thesis using i(2) by simp
  next
    case (Suc j)
    then show ?thesis using i assms(2) unfolding visited_def by (intro disjI2 exI [of _ j]) (simp add: algebra_simps)
  qed
next
  assume "unat x div 4096 = unat (take_bit 48 va) div 4096 \<or> visited (va + 0x1000) va_end x"
  then show "visited va va_end x"
  proof
    assume "unat x div 4096 = unat (take_bit 48 va) div 4096"
    then show ?thesis using assms(1) unfolding visited_def by (intro exI [of _ 0]) (simp add: word_less_nat_alt)
  next
    assume "visited (va + 0x1000) va_end x"
    then obtain i where "unat (va + 0x1000) + i * 4096 < unat va_end"
      "unat x div 4096 = unat (take_bit 48 (va + 0x1000 + of_nat (i * 4096))) div 4096" by (auto simp: visited_def)
    then show ?thesis using assms(2) unfolding visited_def by (intro exI [of _ "Suc i"]) (simp add: algebra_simps)
  qed
qed

lemma unmap_page_step_any:
  assumes "pt_wf s r A" "\<And>x. no_block s r x"
  obtains s' where "unmap_page_step r s va = Inr (s', 0x1000)" "pt_wf s' r A" "\<And>x. no_block s' r x"
    "\<And>x. unat x < 2 ^ 48 \<Longrightarrow> leaf s' r x = (if unat x div 4096 = unat (take_bit 48 va) div 4096 then None else leaf s r x)"
proof -
  have nb: "no_block s r (take_bit 48 va)" by (rule assms(2))
  obtain s' where s': "unmap_page_step r s va = Inr (s', 0x1000)" "extends s r A s' A 0"
    "\<forall>x. unat x < 2 ^ 48 \<longrightarrow> leaf s' r x = (if unat x div 4096 = unat (take_bit 48 va) div 4096 then None else leaf s r x)"
    using unmap_page_step_ok [OF assms(1) take_48 nb] unfolding unmap_page_step_low by blast
  have "no_block s' r (take_bit 48 x)" for x
    using s'(3) [rule_format, OF take_48] assms(2) [of "take_bit 48 x"] by (simp add: no_block_def)
  then have "no_block s' r x" for x by (simp add: no_block_def leaf_low)
  with s' that show thesis by (simp add: extends_def)
qed

lemma unmap_loop_returns:
  "pt_wf s r A \<Longrightarrow> (\<And>x. no_block s r x) \<Longrightarrow> unat va_end \<le> 2 ^ 64 - 4096 \<Longrightarrow> unat va_end \<le> unat va + fuel * 4096 \<Longrightarrow>
   \<exists>s'. va_loop fuel (\<lambda>s va _. unmap_page_step r s va) va_end s va pa = Some (Inr (s', 0)) \<and> pt_wf s' r A \<and>
     (\<forall>x. unat x < 2 ^ 48 \<longrightarrow> leaf s' r x = (if visited va va_end x then None else leaf s r x))"
proof (induction fuel arbitrary: s va pa)
  case 0
  then show ?case by (auto simp: word_less_nat_alt visited_def)
next
  case (Suc fuel)
  show ?case
  proof (cases "va < va_end")
    case False
    then show ?thesis using Suc.prems(1) by (auto simp: word_less_nat_alt visited_def)
  next
    case True
    then have u: "unat (va + 0x1000) = unat va + 4096"
      using Suc.prems(3) by (simp add: word_less_nat_alt unat_word_ariths)
    obtain s1 where s1: "unmap_page_step r s va = Inr (s1, 0x1000)" "pt_wf s1 r A" "\<And>x. no_block s1 r x"
      "\<And>x. unat x < 2 ^ 48 \<Longrightarrow> leaf s1 r x = (if unat x div 4096 = unat (take_bit 48 va) div 4096 then None else leaf s r x)"
      by (rule unmap_page_step_any [OF Suc.prems(1,2)]) (rule that)
    obtain s2 where s2: "va_loop fuel (\<lambda>s va _. unmap_page_step r s va) va_end s1 (va + 0x1000) (pa + 0x1000) = Some (Inr (s2, 0))"
      "pt_wf s2 r A" "\<forall>x. unat x < 2 ^ 48 \<longrightarrow> leaf s2 r x = (if visited (va + 0x1000) va_end x then None else leaf s1 r x)"
      using Suc.IH [OF s1(2,3) Suc.prems(3), of "va + 0x1000" "pa + 0x1000"] Suc.prems(4) u by auto
    then show ?thesis using True s1(1,4) visited_step [OF True u] by (intro exI [of _ s2]) auto
  qed
qed

text \<open>C21: On a well-formed table without blocks \<open>unmap_range_in_pgtbl\<close> returns 0 for every start and
  length, aligned or not, as long as the end is not in the last page of the address space: as many
  iterations as there are (begun) pages suffice. It keeps the table, and removes exactly the pages
  it has visited. (For an end in the last page it never returns.)\<close>

theorem unmap_range_returns:
  assumes "pt_wf s r A" "\<And>x. no_block s r x"
    and "unat (va + len) \<le> 2 ^ 64 - 4096" "unat (va + len) \<le> unat va + fuel * 4096"
  shows "\<exists>s'. unmap_range_in_pgtbl fuel s r va len = Some (Inr (s', 0)) \<and> pt_wf s' r A \<and>
    (\<forall>x. unat x < 2 ^ 48 \<longrightarrow> leaf s' r x = (if visited va (va + len) x then None else leaf s r x))"
  unfolding unmap_range_in_pgtbl_def by (rule unmap_loop_returns [OF assms])

theorem unmap_range_returns_witness:
  "\<exists>(s :: kernel_state) r s'. translate s r 0x401234 = Some (0x80234, flag_attributes 2) \<and>
    unmap_range_in_pgtbl 2 s r 0x400fff 0x1001 = Some (Inr (s', 0)) \<and> leaf s' r 0x401234 = None \<and>
    translate s' r 0x402000 = Some (0x81000, flag_attributes 2)"
proof -
  obtain s r A where s: "pt_wf (s :: kernel_state) r A" "\<And>x. no_block s r x"
    "translate s r 0x401234 = Some (0x80234, flag_attributes 2)" "translate s r 0x402000 = Some (0x81000, flag_attributes 2)"
    by (rule kernel_mapped) (rule that)
  obtain s' where s': "unmap_range_in_pgtbl 2 s r 0x400fff 0x1001 = Some (Inr (s', 0))"
    "\<forall>x. unat x < 2 ^ 48 \<longrightarrow> leaf s' r x = (if visited 0x400fff (0x400fff + 0x1001) x then None else leaf s r x)"
    using unmap_range_returns [OF s(1,2), of "0x400fff" "0x1001" 2] by auto
  have "visited 0x400fff 0x402000 0x401234" unfolding visited_def by (intro exI [of _ 1]) (simp add: take_bit_eq_mask mask_eq_exp_minus_1)
  moreover have "\<not> visited 0x400fff 0x402000 0x402000"
  proof
    assume "visited 0x400fff 0x402000 0x402000"
    then obtain i where "i * 4096 < 4097" "unat (0x402000 :: u64) div 4096 = unat (take_bit 48 (0x400fff + of_nat (i * 4096) :: u64)) div 4096"
      unfolding visited_def by auto
    moreover from this(1) have "i = 0 \<or> i = 1" by arith
    ultimately show False by (auto simp: take_bit_eq_mask mask_eq_exp_minus_1)
  qed
  ultimately have "leaf s' r 0x401234 = None" "leaf s' r 0x402000 = leaf s r 0x402000"
    using s'(2) [rule_format, of "0x401234"] s'(2) [rule_format, of "0x402000"] by simp_all
  with s(3,4) s'(1) show ?thesis by (intro exI [of _ s] exI [of _ r] exI [of _ s']) (simp add: translate_def)
qed

lemma unmap_loop_diverges:
  "pt_wf s r A \<Longrightarrow> (\<And>x. no_block s r x) \<Longrightarrow> 4096 dvd unat va \<Longrightarrow> 2 ^ 64 - 4096 < unat va_end \<Longrightarrow>
   va_loop fuel (\<lambda>s va _. unmap_page_step r s va) va_end s va pa = None"
proof -
  have less: "va < va_end" if "4096 dvd unat va" "2 ^ 64 - 4096 < unat va_end" for va :: u64
  proof -
    have "\<exists>c. unat va = 4096 * c" using that(1) unfolding dvd_def .
    then obtain c where c: "unat va = 4096 * c" ..
    have "unat va < 2 ^ LENGTH(64)" by (rule unsigned_less)
    then have "c \<le> 2 ^ 52 - 1" using c by simp
    then have "unat va \<le> 2 ^ 64 - 4096" using c by simp
    then show ?thesis using that(2) by (simp add: word_less_nat_alt)
  qed
  show "pt_wf s r A \<Longrightarrow> (\<And>x. no_block s r x) \<Longrightarrow> 4096 dvd unat va \<Longrightarrow> 2 ^ 64 - 4096 < unat va_end \<Longrightarrow>
    va_loop fuel (\<lambda>s va _. unmap_page_step r s va) va_end s va pa = None"
  proof (induction fuel arbitrary: s va pa)
    case 0
    then show ?case using less by simp
  next
    case (Suc fuel)
    obtain s' where s': "unmap_page_step r s va = Inr (s', 0x1000)" "pt_wf s' r A" "\<And>x. no_block s' r x"
      by (rule unmap_page_step_any [OF Suc.prems(1,2)]) (rule that)
    have "4096 dvd (unat va + unat (0x1000 :: u64)) mod 2 ^ 64"
      using Suc.prems(3) by (intro dvd_mod) simp_all
    then have al: "4096 dvd unat (va + 0x1000)" by (simp only: unat_word_ariths) simp
    show ?case using Suc.IH [OF s'(2,3) al Suc.prems(4)] s'(1) less [OF Suc.prems(3,4)] by simp
  qed
qed

text \<open>C22: On a well-formed table without blocks, a range with a page-aligned start whose end is in the
  last page of the address space (so that its length is not a multiple of the page size) makes \<open>unmap_range_in_pgtbl\<close> loop for ever: \<open>va\<close> wraps around before
  it reaches the end, whatever the number of iterations.\<close>

theorem unmap_range_diverges:
  assumes "pt_wf s r A" "\<And>x. no_block s r x" "4096 dvd unat va" "2 ^ 64 - 4096 < unat (va + len)"
  shows "unmap_range_in_pgtbl fuel s r va len = None"
  unfolding unmap_range_in_pgtbl_def by (rule unmap_loop_diverges [OF assms])

theorem unmap_range_diverges_witness:
  "\<exists>(s :: kernel_state) r. unmap_range_in_pgtbl 1000 s r 0xfffffffffffff000 0xfff = None"
proof -
  obtain s r where s: "pt_wf (s :: kernel_state) r {(r, 0)}" "\<And>x. leaf s r x = None" by (rule kernel_table) blast
  have "unmap_range_in_pgtbl 1000 s r 0xfffffffffffff000 0xfff = None"
    by (rule unmap_range_diverges [OF s(1)]) (simp_all add: no_block_def s(2))
  then show ?thesis by blast
qed

text \<open>When \<open>va + len\<close> wraps around to an address not above \<open>va\<close>, each of the four range
  functions does nothing and reports success.\<close>

theorem wrapped_range_ignored:
  assumes "va + len \<le> va"
  shows "map_range_in_pgtbl fuel s r va pa len flags = Some (Inr (s, 0)) \<and>
    unmap_range_in_pgtbl fuel s r va len = Some (Inr (s, 0)) \<and>
    map_range_in_pgtbl_huge fuel s r va pa len flags = Some (Inr (s, 0)) \<and>
    unmap_range_in_pgtbl_huge fuel s r va len = Some (Inr (s, 0))"
proof -
  have "\<not> va < va + len" using assms by simp
  then have "va_loop fuel body (va + len) s va pa = Some (Inr (s, 0))"
    for body :: "'a kernel_state_scheme \<Rightarrow> u64 \<Rightarrow> u64 \<Rightarrow> _" and pa
    by (cases fuel) simp_all
  then show ?thesis
    by (simp add: map_range_in_pgtbl_def unmap_range_in_pgtbl_def map_range_in_pgtbl_huge_def unmap_range_in_pgtbl_huge_def)
qed

theorem wrapped_range_ignored_witness:
  "map_range_in_pgtbl 0 kernel_booted 0 0xfffffffffffff000 0 0x2000 0 = Some (Inr (kernel_booted, 0))"
  using wrapped_range_ignored [of "0xfffffffffffff000" "0x2000" 0 kernel_booted 0 0 0] by simp

subsection \<open>Pages mapped over a block\<close>

text \<open>C23: \<open>map_range_in_pgtbl\<close> does not look whether \<open>get_next_ptp\<close> found a block: mapping a page
  at an address that a 2M block covers takes the frame the block maps for a table, overwrites
  eight bytes of that frame with the new entry and reports success.\<close>

theorem map_over_block_clobbers:
  assumes "pt_wf s r A" "leaf s r va = Some (a, e, 1)" "GET_NEXT_PTP e \<noteq> 0"
    and "cell_ok (mem s) (entry_addr (GET_NEXT_PTP e) (GET_L3_INDEX va))" "va < va + 0x1000" "0 < fuel"
  shows "\<exists>s'. map_range_in_pgtbl fuel s r va pa 0x1000 flags = Some (Inr (s', 0)) \<and>
    write64 (entry_addr (GET_NEXT_PTP e) (GET_L3_INDEX va)) (l3_pte pa flags) s = Inr s'"
proof -
  let ?i0 = "GET_L0_INDEX va" and ?i1 = "GET_L1_INDEX va" and ?i2 = "GET_L2_INDEX va" and ?i3 = "GET_L3_INDEX va"
  obtain xs k ys p2 where w: "vpath va = xs @ k # ys" "tbl (mem s) r xs = Some p2" "length ys = 1"
    "load64 (mem s) (entry_addr p2 k) = Inr e" "\<not> IS_PTE_INVALID e" "\<not> IS_PTE_TABLE e"
    using leaf_Some [OF assms(1,2)] by (metis zero_neq_one)
  then have "xs = [?i0, ?i1]" "k = ?i2"
    by (auto simp: vpath_def length_Suc_conv Cons_eq_append_conv)
  then obtain p1 e0 e1 where t: "load64 (mem s) (entry_addr r ?i0) = Inr e0" "\<not> IS_PTE_INVALID e0" "IS_PTE_TABLE e0"
    "p1 = GET_NEXT_PTP e0" "load64 (mem s) (entry_addr p1 ?i1) = Inr e1" "\<not> IS_PTE_INVALID e1" "IS_PTE_TABLE e1"
    "p2 = GET_NEXT_PTP e1" "load64 (mem s) (entry_addr p2 ?i2) = Inr e"
    using w(2,4) by (auto split: sum.splits if_splits)
  have p1: "tbl (mem s) r [?i0] = Some p1" and p2: "tbl (mem s) r [?i0, ?i1] = Some p2" using t by simp_all
  note n0 = pt_entry(3) [OF assms(1) tpath_Nil _ index_bound(1) [of va], simplified]
  note n1 = pt_entry(3) [OF assms(1) tpath_vpath(1) p1 index_bound(2) [of va]]
  note n2 = pt_entry(3) [OF assms(1) tpath_vpath(2) p2 index_bound(3) [of va]]
  obtain f where f: "load64 (mem s) (entry_addr (GET_NEXT_PTP e) ?i3) = Inr f"
    using load64_total [OF assms(4)] by blast
  obtain s' where s': "write64 (entry_addr (GET_NEXT_PTP e) ?i3) (l3_pte pa flags) s = Inr s'"
    using write64_ok [OF assms(4)] by blast
  have "map_page_step r flags s va pa = Inr (s', 0x1000)"
    using get_next_ptp_entry(3) [OF n0 ptp_index_vpath(1) t(1), of None None True]
      get_next_ptp_entry(3) [OF n1 ptp_index_vpath(3) t(5), of None _ True]
      get_next_ptp_entry(3) [OF n2 ptp_index_vpath(4) t(9), of None _ True]
      get_next_ptp_entry(1) [OF assms(3) ptp_index_vpath(5) f, of None _ False] t w(5,6) s' fill_pte_ok(1) [OF assms(4)]
    by (simp add: map_page_step_def)
  moreover obtain fuel' where "fuel = Suc fuel'" using assms(6) by (cases fuel) auto
  moreover have "va_loop fuel' (map_page_step r flags) (va + 0x1000) s' (va + 0x1000) (pa + 0x1000) = Some (Inr (s', 0))"
    by (cases fuel') simp_all
  ultimately show ?thesis using s' assms(5) by (simp add: map_range_in_pgtbl_def)
qed

theorem map_over_block_clobbers_witness:
  "\<exists>(s :: kernel_state) r a e s'. leaf s r 0x200000 = Some (a, e, 1) \<and>
    map_range_in_pgtbl 1 s r 0x200000 0x7000 0x1000 0 = Some (Inr (s', 0)) \<and>
    write64 0xffffff0000200000 (l3_pte 0x7000 0) s = Inr s'"
proof -
  obtain s r A a where s: "pt_wf (s :: kernel_state) r A" "dom (mem s) = dom (mem kernel_booted)"
    "\<And>x. in_range 0x200000 0x200000 x \<Longrightarrow> leaf s r x = Some (a, l2_pte 0x200000 0, 1)"
    by (rule kernel_block) (rule that)
  have l: "leaf s r 0x200000 = Some (a, l2_pte 0x200000 0, 1)" by (simp add: s(3) in_range_def)
  have n: "GET_NEXT_PTP (l2_pte 0x200000 0) = 0xffffff0000200000" by code_simp
  have ix: "GET_L3_INDEX 0x200000 = 0" by code_simp
  have "mapped (mem s) 0xffffff0000200000 8"
    unfolding mapped_iff
  proof (intro allI impI)
    fix i :: nat assume "i < 8"
    then have "i \<in> {0, 1, 2, 3, 4, 5, 6, 7}" by auto
    then have "0xffffff0000200000 + of_nat i \<in> dom (mem kernel_booted)" by (auto simp: kernel_booted_sel dom_def)
    then show "mem s (0xffffff0000200000 + of_nat i) \<noteq> None" using s(2) by (metis domIff)
  qed
  then have c: "cell_ok (mem s) 0xffffff0000200000" by (simp add: cell_ok_def)
  then show ?thesis
    using map_over_block_clobbers [OF s(1) l, of 1 "0x7000" 0] l by (auto simp: n ix entry_addr_def)
qed

end
