(* ===== verification/Lab_Page_Table_Props.thy ===== *)
theory Lab_Page_Table_Props
  imports Lab_Page_Table Page_Table_Props
begin

text \<open>
  The kernel's own test of the page tables passes: each of its four blocks reports success and
  gives back every page it took.
\<close>

subsection \<open>Assertions\<close>

lemma assert_query_ok:
  assumes "pt_wf s r A" "translate s r va = Some (pa, at)"
  obtains a e n where "assert_query s r va pa True = Inr (True, Some a)" "leaf s r va = Some (a, e, n)"
proof -
  obtain a e n where l: "leaf s r va = Some (a, e, n)" "leaf_pa n e va = pa"
    using assms(2) by (auto simp: translate_def)
  then show thesis using query_ok [OF assms(1), of va True] by (intro that) (simp_all add: assert_query_def lab_and_def)
qed

lemma assert_unmapped_ok:
  "pt_wf s r A \<Longrightarrow> leaf s r va = None \<Longrightarrow> assert_unmapped s r va True = Inr True"
  using query_ok [of s r A va True] by (simp add: assert_unmapped_def lab_and_def)

lemma leaf_cell:
  assumes wf: "pt_wf s r A" and l: "leaf s r va = Some (a, e, n)"
  shows "a \<noteq> 0" "read64 s a = Inr e"
proof -
  obtain xs k ys q where *: "vpath va = xs @ k # ys" "tbl (mem s) r xs = Some q" "length ys = n" "n \<le> 2"
    "load64 (mem s) (entry_addr q k) = Inr e" "\<not> IS_PTE_INVALID e" "n \<noteq> 0 \<longrightarrow> \<not> IS_PTE_TABLE e" "a = entry_addr q k"
    by (rule leaf_Some [OF wf l])
  have xs: "tpath xs" "k < 512" using vpath_bound [of va] unfolding *(1) by (auto simp: tpath_def)
  have "unat (entry_addr q k) = unat q + 8 * k"
    by (rule held_entry(3) [OF pt_wf_held [OF wf] pt_wf_table [OF wf xs(1) *(2)] xs(2)])
  moreover have "0 < unat q" using pt_entry(3) [OF wf xs(1) *(2) xs(2)] by (simp add: unat_gt_0)
  ultimately show "a \<noteq> 0" unfolding *(8) by (metis add_is_0 less_irrefl unat_0)
  show "read64 s a = Inr e" using *(5,8) by (simp add: read64_def)
qed

lemma bit_of_field: "bit (e :: u64) n \<Longrightarrow> take_bit 1 (drop_bit n e) \<noteq> 0"
proof
  assume b: "bit e n" and z: "take_bit 1 (drop_bit n e) = 0"
  have "bit (take_bit 1 (drop_bit n e)) 0 \<longleftrightarrow> bit e n" by (simp add: even_drop_bit_iff_not_bit)
  with b z show False by simp
qed

lemma l3_pte_fields: "get_field l3_page_layout ''is_valid'' (l3_pte pa flags) \<noteq> 0"
  "get_field l3_page_layout ''is_page'' (l3_pte pa flags) \<noteq> 0"
proof -
  have "bit (l3_pte pa flags) 0" "bit (l3_pte pa flags) 1"
    using leaf_pte_kind(1,2) [of pa flags] unfolding IS_PTE_INVALID_bit IS_PTE_TABLE_bit by blast+
  then show "get_field l3_page_layout ''is_valid'' (l3_pte pa flags) \<noteq> 0"
    "get_field l3_page_layout ''is_page'' (l3_pte pa flags) \<noteq> 0"
    unfolding get_field_of [OF l3_fields(1)] get_field_of [OF l3_fields(2)] by (auto dest: bit_of_field simp del: bit_0 take_bit_eq_0_iff)
qed

lemma assert_page_ok:
  assumes wf: "pt_wf s r A" and l: "leaf s r va = Some (a, l3_pte pa test_flags, 0)"
  shows "assert_page sh s (Some a) True = Inr True"
proof -
  have "shareability (entry_attributes (l3_pte pa test_flags)) = 3"
    by (simp add: attributes_leaf_pte flag_attributes_def test_flags_def)
  then have "get_field l3_page_layout ''SH'' (l3_pte pa test_flags) = 3" by (simp add: entry_attributes_def)
  then show ?thesis using leaf_cell [OF wf l] l3_pte_fields [of pa test_flags]
    by (simp add: assert_page_def lab_and_def)
qed

subsection \<open>Stages of a block\<close>

text \<open>A loop over addresses whose assertions all hold.\<close>

lemma scan_ok:
  assumes body: "\<And>va pa. unat start \<le> unat va \<Longrightarrow> unat va < unat va_end \<Longrightarrow> body True va pa = Inr (True, 0x5100)"
    and fit: "unat va_end + 0x5100 < 2 ^ 64"
  shows "unat start \<le> unat va \<Longrightarrow> unat va_end \<le> unat va + fuel * 0x5100 \<Longrightarrow>
    va_loop fuel body va_end True va pa = Some (Inr (True, 0))"
proof (induction fuel arbitrary: va pa)
  case 0
  then show ?case by (simp add: word_less_nat_alt)
next
  case (Suc fuel)
  show ?case
  proof (cases "va < va_end")
    case True
    then have lt: "unat va < unat va_end" by (simp add: word_less_nat_alt)
    then have "unat (va + 0x5100) = unat va + 0x5100" using fit by (simp add: unat_word_ariths)
    then have "va_loop fuel body va_end True (va + 0x5100) (pa + 0x5100) = Some (Inr (True, 0))"
      using Suc.prems by (intro Suc.IH) simp_all
    then show ?thesis using True body [OF Suc.prems(1) lt] by simp
  qed simp
qed

lemma test_len: "test_len = 0x4040A000" "unat test_len = 0x4040A000" "unat test_len div 4096 = 0x4040A"
  by (simp_all add: test_len_def)

lemma scan_mapped_ok:
  assumes wf: "pt_wf s r A"
    and m: "\<And>x. in_range 0x100000000 n x \<Longrightarrow> \<exists>at. translate s r x = Some (x, at)"
    and n: "unat va_end = 0x100000000 + n" "unat va_end < 2 ^ 48" "n \<le> fuel * 0x5100"
  shows "scan_mapped fuel s r va_end True = Some (Inr (True, 0))"
  unfolding scan_mapped_def
proof (rule scan_ok [where start = "0x100000000"])
  fix va pa :: u64 assume va: "unat (0x100000000 :: u64) \<le> unat va" "unat va < unat va_end"
  then obtain at where "translate s r va = Some (va, at)" using m [of va] n(1) by (auto simp: in_range_def)
  then obtain a e k where "assert_query s r va va True = Inr (True, Some a)" by (rule assert_query_ok [OF wf])
  then show "rbind (assert_query s r va va True) (\<lambda>(ok, pte). Inr (ok, 5 * 0x1000 + 0x100 :: u64)) = Inr (True, 0x5100)" by simp
qed (use n in simp_all)

lemma scan_unmapped_ok:
  assumes wf: "pt_wf s r A" and m: "\<And>x. in_range 0x100000000 n x \<Longrightarrow> leaf s r x = None"
    and n: "unat va_end = 0x100000000 + n" "unat va_end < 2 ^ 48" "n \<le> fuel * 0x5100"
  shows "scan_unmapped fuel s r va_end True = Some (Inr (True, 0))"
  unfolding scan_unmapped_def
proof (rule scan_ok [where start = "0x100000000"])
  fix va pa :: u64 assume va: "unat (0x100000000 :: u64) \<le> unat va" "unat va < unat va_end"
  then have "leaf s r va = None" using n(1) by (intro m) (simp add: in_range_def)
  then show "rbind (assert_unmapped s r va True) (\<lambda>ok. Inr (ok, 5 * 0x1000 + 0x100 :: u64)) = Inr (True, 0x5100)"
    using assert_unmapped_ok [OF wf] by simp
qed (use n in simp_all)

text \<open>The beginning and the end of a block: \<open>B\<close> are the chunks held by others.\<close>

definition block_at :: "'z kernel_state_scheme \<Rightarrow> u64 \<Rightarrow> (u64 \<times> nat) set \<Rightarrow> (u64 \<times> nat) set \<Rightarrow> bool" where
  "block_at s r B A \<longleftrightarrow> pt_wf s r A \<and> owned s r B A"

definition same_heap :: "'z kernel_state_scheme \<Rightarrow> 'z kernel_state_scheme \<Rightarrow> bool" where
  "same_heap s s' \<longleftrightarrow> pool_pages s' = pool_pages s \<and> dom (mem s') = dom (mem s)"

lemma same_heap_trans: "same_heap s t \<Longrightarrow> same_heap t u \<Longrightarrow> same_heap s u"
  by (simp add: same_heap_def)

lemma begin_ok:
  assumes "pages_held s B" "chunk_pages B < pool_pages s"
  obtains s1 r where "new_page_table s = Inr (s1, r)" "block_at s1 r B (insert (r, 0) B)"
    "chunk_pages (insert (r, 0) B) = Suc (chunk_pages B)" "same_heap s s1" "\<And>x. leaf s1 r x = None"
    "\<And>ys. tpath ys \<Longrightarrow> ys \<noteq> [] \<Longrightarrow> tbl (mem s1) r ys = None"
  using new_page_table_ok [OF assms] unfolding block_at_def same_heap_def by blast

lemma finish_ok:
  assumes "block_at s r B A"
  obtains s' where "free_page_table s r = Inr s'" "pages_held s' B" "same_heap s s'"
proof -
  have wf: "pt_wf s r A" and A: "A - subtables (mem s) r [] = B" using assms by (auto simp: block_at_def owned_def)
  obtain s' where "free_page_table s r = Inr s'" "pages_held s' B" "mem s' = mem s" "pool_pages s' = pool_pages s"
    using free_page_table_ok [OF wf] unfolding A by blast
  then show thesis by (intro that [of s']) (simp_all add: same_heap_def)
qed

text \<open>Mapping and unmapping in a table without blocks.\<close>

lemma map_stage:
  assumes st: "block_at s r B A" and al: "4096 dvd unat va" "4096 dvd unat pa" "4096 dvd unat len"
    and fit: "unat va + unat len \<le> 2 ^ 48" "unat pa + unat len \<le> 2 ^ 48" and nb: "\<And>x. unat x < 2 ^ 48 \<Longrightarrow> no_block s r x"
    and room: "chunk_pages A + tables_for va len \<le> pool_pages s" "unat len div 4096 \<le> fuel"
  obtains s' A' where "map_range_in_pgtbl fuel s r va pa len flags = Some (Inr (s', 0))" "block_at s' r B A'"
    "same_heap s s'" "chunk_pages A' \<le> chunk_pages A + tables_for va len" "mapped_range flags s r va pa (unat len) s'"
    "page_leaves flags s r va (unat len) s'" "\<And>x. unat x < 2 ^ 48 \<Longrightarrow> no_block s' r x"
proof -
  have wf: "pt_wf s r A" using st by (simp add: block_at_def)
  have nb': "no_block s r x" if "in_range va (unat len) x" for x
    using that fit(1) by (intro nb) (simp add: in_range_def)
  obtain s' A' where "map_range_in_pgtbl fuel s r va pa len flags = Some (Inr (s', 0))"
    "extends s r A s' A' (tables_for va len)" "mapped_range flags s r va pa (unat len) s'"
    "\<And>x. unat x < 2 ^ 48 \<Longrightarrow> no_block s r x \<Longrightarrow> no_block s' r x" "\<And>B. owned s r B A \<Longrightarrow> owned s' r B A'"
    "page_leaves flags s r va (unat len) s'"
    by (rule map_range_ok [OF wf al fit nb' room]) blast+
  with st nb show thesis by (intro that [of s' A']) (simp_all add: block_at_def same_heap_def extends_def)
qed

lemma unmap_stage:
  assumes st: "block_at s r B A" and al: "4096 dvd unat va" "4096 dvd unat len"
    and fit: "unat va + unat len \<le> 2 ^ 48" and nb: "\<And>x. unat x < 2 ^ 48 \<Longrightarrow> no_block s r x"
    and fuel: "unat len div 4096 \<le> fuel"
  obtains s' where "unmap_range_in_pgtbl fuel s r va len = Some (Inr (s', 0))" "block_at s' r B A"
    "same_heap s s'" "unmapped_range s r va (unat len) s'" "\<And>x. unat x < 2 ^ 48 \<Longrightarrow> no_block s' r x"
proof -
  have wf: "pt_wf s r A" using st by (simp add: block_at_def)
  have nb': "no_block s r x" if "in_range va (unat len) x" for x
    using that fit(1) by (intro nb) (simp add: in_range_def)
  obtain s' where s': "unmap_range_in_pgtbl fuel s r va len = Some (Inr (s', 0))"
    "extends s r A s' A 0" "unmapped_range s r va (unat len) s'" "same_tables s r s'"
    by (rule unmap_range_ok [OF wf al fit nb' fuel]) blast+
  have "no_block s' r x" if "unat x < 2 ^ 48" for x
    using s'(3) nb [OF that] that by (simp add: unmapped_range_def no_block_def)
  with s' st same_tables_owned [OF s'(4)] show thesis
    by (intro that [of s']) (simp_all add: block_at_def same_heap_def extends_def)
qed

text \<open>An address whose page is mapped to \<open>pa\<close>: the query and the assertions on its entry hold.\<close>

definition maps_page :: "'z kernel_state_scheme \<Rightarrow> u64 \<Rightarrow> u64 \<Rightarrow> u64 \<Rightarrow> bool" where
  "maps_page s r x pa \<longleftrightarrow> (\<exists>at a p. translate s r x = Some (pa, at) \<and> leaf s r x = Some (a, l3_pte p test_flags, 0))"

lemma maps_page_query:
  assumes wf: "pt_wf s r A" and m: "maps_page s r x pa"
  obtains a where "assert_query s r x pa True = Inr (True, Some a)" "\<And>sh. assert_page sh s (Some a) True = Inr True"
proof -
  obtain at a p where l: "translate s r x = Some (pa, at)" "leaf s r x = Some (a, l3_pte p test_flags, 0)"
    using m unfolding maps_page_def by blast
  obtain a' e n where q: "assert_query s r x pa True = Inr (True, Some a')" "leaf s r x = Some (a', e, n)"
    by (rule assert_query_ok [OF wf l(1)])
  then show thesis using l(2) assert_page_ok [OF wf l(2)] by (intro that) simp_all
qed

lemma maps_page_new:
  assumes "mapped_range test_flags s r va pa n s'" "page_leaves test_flags s r va n s'"
    and "in_range va n x" "unat x < 2 ^ 48"
  shows "maps_page s' r x (pa + (x - va))"
  using assms unfolding mapped_range_def page_leaves_def maps_page_def by fastforce

lemma maps_page_old:
  assumes "mapped_range test_flags s r va pa n s'" "page_leaves test_flags s r va n s'"
    and "\<not> in_range va n x" "unat x < 2 ^ 48" "maps_page s r x y"
  shows "maps_page s' r x y"
  using assms unfolding mapped_range_def page_leaves_def maps_page_def by auto

subsection \<open>The blocks without huge mappings\<close>

lemma test_one_page_ok:
  assumes held: "pages_held s B" and room: "chunk_pages B + 4 \<le> pool_pages s" and fuel: "0 < fuel"
  obtains s' where "test_one_page fuel s = Some (Inr (True, s'))" "pages_held s' B" "same_heap s s'"
proof -
  have "chunk_pages B < pool_pages s" using room by simp
  then obtain s1 r where s1: "new_page_table s = Inr (s1, r)" "block_at s1 r B (insert (r, 0) B)"
    "chunk_pages (insert (r, 0) B) = Suc (chunk_pages B)" "same_heap s s1" "\<And>x. leaf s1 r x = None"
    by (rule begin_ok [OF held]) blast
  have t: "tables_for 0x1001000 0x1000 = 3" by (simp add: tables_for_def crossings_def)
  have nb1: "no_block s1 r x" for x using s1(5) by (simp add: no_block_def)
  obtain s2 A2 where s2: "map_range_in_pgtbl fuel s1 r 0x1001000 0x1000 0x1000 test_flags = Some (Inr (s2, 0))"
    "block_at s2 r B A2" "same_heap s1 s2" "mapped_range test_flags s1 r 0x1001000 0x1000 (unat (0x1000 :: u64)) s2"
    "page_leaves test_flags s1 r 0x1001000 (unat (0x1000 :: u64)) s2" "\<And>x. unat x < 2 ^ 48 \<Longrightarrow> no_block s2 r x"
    by (rule map_stage [OF s1(2) _ _ _ _ _ nb1, of "0x1001000" "0x1000" "0x1000" fuel test_flags])
      (use s1(3,4) room fuel t in \<open>simp_all add: same_heap_def\<close>)
  have wf2: "pt_wf s2 r A2" using s2(2) by (simp add: block_at_def)
  note new = maps_page_new [OF s2(4,5)]
  obtain a b where q: "assert_query s2 r 0x1001000 0x1000 True = Inr (True, Some a)" "\<And>sh. assert_page sh s2 (Some a) True = Inr True"
    "assert_query s2 r 0x1001050 0x1050 True = Inr (True, Some b)"
    using maps_page_query [OF wf2 new [of "0x1001000"]] maps_page_query [OF wf2 new [of "0x1001050"]]
    by (simp add: in_range_def) metis
  obtain s3 where s3: "unmap_range_in_pgtbl fuel s2 r 0x1001000 0x1000 = Some (Inr (s3, 0))"
    "block_at s3 r B A2" "same_heap s2 s3" "unmapped_range s2 r 0x1001000 (unat (0x1000 :: u64)) s3"
    by (rule unmap_stage [OF s2(2) _ _ _ s2(6), of "0x1001000" "0x1000" fuel]) (use fuel in simp_all)
  have wf3: "pt_wf s3 r A2" using s3(2) by (simp add: block_at_def)
  have "leaf s3 r 0x1001000 = None" using s3(4) by (simp add: unmapped_range_def in_range_def)
  note u = assert_unmapped_ok [OF wf3 this]
  obtain s4 where s4: "free_page_table s3 r = Inr s4" "pages_held s4 B" "same_heap s3 s4"
    by (rule finish_ok [OF s3(2)])
  have "test_one_page fuel s = Some (Inr (True, s4))"
    using s1(1) s2(1) q s3(1) u s4(1) by (simp add: test_one_page_def assert_returned_def)
  then show thesis using s4(2) s1(4) s2(3) s3(3) s4(3) same_heap_trans by (intro that) blast+
qed

lemma query_pages_ok:
  assumes wf: "pt_wf s r A" and m: "\<And>i. i \<in> set is \<Longrightarrow> maps_page s r (0x1001050 + of_nat i * 0x1000) (0x1050 + of_nat i * 0x1000)"
  shows "query_pages s r is True = Inr True"
  using m
proof (induction "is")
  case (Cons i "is")
  obtain a where "assert_query s r (0x1001050 + of_nat i * 0x1000) (0x1050 + of_nat i * 0x1000) True = Inr (True, Some a)"
    "\<And>sh. assert_page sh s (Some a) True = Inr True"
    by (rule maps_page_query [OF wf Cons.prems]) auto
  then show ?case using Cons by simp
qed simp

lemma unmapped_pages_ok:
  assumes wf: "pt_wf s r A" and m: "\<And>i. i \<in> set is \<Longrightarrow> leaf s r (0x1001050 + of_nat i * 0x1000) = None"
  shows "unmapped_pages s r is True = Inr True"
  using m assert_unmapped_ok [OF wf] by (induction "is") simp_all

text \<open>Two adjacent ranges, mapped and unmapped one after the other.\<close>

lemma two_ranges_ok:
  assumes held: "pages_held s B" and al: "4096 dvd unat va" "4096 dvd unat pa" "4096 dvd unat len"
    and fit: "unat va + 2 * unat len \<le> 2 ^ 48" "unat pa + 2 * unat len \<le> 2 ^ 48"
    and room: "chunk_pages B + 1 + tables_for va len + tables_for (va + len) len \<le> pool_pages s"
    and fuel: "unat len div 4096 \<le> fuel"
  obtains s1 r s2 s3 s4 s5 A3 A5 s6 where
    "new_page_table s = Inr (s1, r)" "map_range_in_pgtbl fuel s1 r va pa len test_flags = Some (Inr (s2, 0))"
    "map_range_in_pgtbl fuel s2 r (va + len) (pa + len) len test_flags = Some (Inr (s3, 0))"
    "pt_wf s3 r A3" "\<And>x. in_range va (2 * unat len) x \<Longrightarrow> maps_page s3 r x (pa + (x - va))"
    "unmap_range_in_pgtbl fuel s3 r va len = Some (Inr (s4, 0))"
    "unmap_range_in_pgtbl fuel s4 r (va + len) len = Some (Inr (s5, 0))"
    "pt_wf s5 r A5" "\<And>x. in_range va (2 * unat len) x \<Longrightarrow> leaf s5 r x = None"
    "free_page_table s5 r = Inr s6" "pages_held s6 B" "same_heap s s6"
proof -
  have "chunk_pages B < pool_pages s" using room by simp
  then obtain s1 r where s1: "new_page_table s = Inr (s1, r)" "block_at s1 r B (insert (r, 0) B)"
    "chunk_pages (insert (r, 0) B) = Suc (chunk_pages B)" "same_heap s s1" "\<And>x. leaf s1 r x = None"
    by (rule begin_ok [OF held]) blast
  have nb1: "no_block s1 r x" for x using s1(5) by (simp add: no_block_def)
  have u: "unat (va + len) = unat va + unat len" "unat (pa + len) = unat pa + unat len"
    using fit by (simp_all add: unat_word_ariths)
  have al2: "4096 dvd unat (va + len)" "4096 dvd unat (pa + len)" unfolding u using al by simp_all
  have fit1: "unat va + unat len \<le> 2 ^ 48" "unat pa + unat len \<le> 2 ^ 48"
    "unat (va + len) + unat len \<le> 2 ^ 48" "unat (pa + len) + unat len \<le> 2 ^ 48" unfolding u using fit by simp_all
  have room1: "chunk_pages (insert (r, 0) B) + tables_for va len \<le> pool_pages s1"
    using room s1(3,4) by (simp add: same_heap_def)
  obtain s2 A2 where s2: "map_range_in_pgtbl fuel s1 r va pa len test_flags = Some (Inr (s2, 0))"
    "block_at s2 r B A2" "same_heap s1 s2" "chunk_pages A2 \<le> chunk_pages (insert (r, 0) B) + tables_for va len"
    "mapped_range test_flags s1 r va pa (unat len) s2" "page_leaves test_flags s1 r va (unat len) s2"
    "\<And>x. unat x < 2 ^ 48 \<Longrightarrow> no_block s2 r x"
    by (rule map_stage [OF s1(2) al fit1(1,2) nb1 room1 fuel]) blast
  have room2: "chunk_pages A2 + tables_for (va + len) len \<le> pool_pages s2"
    using room s1(3,4) s2(3,4) by (simp add: same_heap_def)
  obtain s3 A3 where s3: "map_range_in_pgtbl fuel s2 r (va + len) (pa + len) len test_flags = Some (Inr (s3, 0))"
    "block_at s3 r B A3" "same_heap s2 s3" "mapped_range test_flags s2 r (va + len) (pa + len) (unat len) s3"
    "page_leaves test_flags s2 r (va + len) (unat len) s3" "\<And>x. unat x < 2 ^ 48 \<Longrightarrow> no_block s3 r x"
    by (rule map_stage [where flags = test_flags, OF s2(2) al2 al(3) fit1(3,4) s2(7) room2 fuel]) (assumption, rule that)
  obtain s4 where s4: "unmap_range_in_pgtbl fuel s3 r va len = Some (Inr (s4, 0))" "block_at s4 r B A3"
    "same_heap s3 s4" "unmapped_range s3 r va (unat len) s4" "\<And>x. unat x < 2 ^ 48 \<Longrightarrow> no_block s4 r x"
    by (rule unmap_stage [OF s3(2) al(1,3) fit1(1) s3(6) fuel]) (assumption, rule that)
  obtain s5 where s5: "unmap_range_in_pgtbl fuel s4 r (va + len) len = Some (Inr (s5, 0))" "block_at s5 r B A3"
    "same_heap s4 s5" "unmapped_range s4 r (va + len) (unat len) s5"
    by (rule unmap_stage [OF s4(2) al2(1) al(3) fit1(3) s4(5) fuel]) (assumption, rule that)
  obtain s6 where s6: "free_page_table s5 r = Inr s6" "pages_held s6 B" "same_heap s5 s6"
    by (rule finish_ok [OF s5(2)])
  have halves: "in_range va (unat len) x \<or> in_range (va + len) (unat len) x" "unat x < 2 ^ 48"
    "in_range va (unat len) x \<longrightarrow> \<not> in_range (va + len) (unat len) x" if "in_range va (2 * unat len) x" for x
    using that fit by (auto simp: in_range_def u)
  have m: "maps_page s3 r x (pa + (x - va))" if x: "in_range va (2 * unat len) x" for x
  proof (cases "in_range va (unat len) x")
    case True
    show ?thesis
      using maps_page_old [OF s3(4,5) _ halves(2) [OF x] maps_page_new [OF s2(5,6) True halves(2) [OF x]]]
        halves(3) [OF x] True by blast
  next
    case False
    then have "in_range (va + len) (unat len) x" using halves(1) [OF x] by blast
    from maps_page_new [OF s3(4,5) this halves(2) [OF x]] show ?thesis by simp
  qed
  have l: "leaf s5 r x = None" if "in_range va (2 * unat len) x" for x
    using s4(4) s5(4) halves [OF that] unfolding unmapped_range_def by auto
  have "pt_wf s3 r A3" "pt_wf s5 r A3" using s3(2) s5(2) by (simp_all add: block_at_def)
  moreover have "same_heap s s6" using s1(4) s2(3) s3(3) s4(3) s5(3) s6(3) same_heap_trans by blast
  ultimately show thesis using s1(1) s2(1) s3(1) m s4(1) s5(1) l s6(1,2) by (intro that)
qed

lemma test_pages_ok:
  assumes held: "pages_held s B" and room: "chunk_pages B + 7 \<le> pool_pages s" and fuel: "10 \<le> fuel"
  obtains s' where "test_pages fuel s = Some (Inr (True, s'))" "pages_held s' B" "same_heap s s'"
proof -
  have t: "tables_for 0x1001000 0xa000 = 3" "tables_for 0x100b000 0xa000 = 3" by (simp_all add: tables_for_def crossings_def)
  obtain s1 r s2 s3 s4 s5 A3 A5 s6 where
    run: "new_page_table s = Inr (s1, r)" "map_range_in_pgtbl fuel s1 r 0x1001000 0x1000 0xa000 test_flags = Some (Inr (s2, 0))"
    "map_range_in_pgtbl fuel s2 r (0x1001000 + 0xa000) (0x1000 + 0xa000) 0xa000 test_flags = Some (Inr (s3, 0))"
    and m: "pt_wf s3 r A3" "\<And>x. in_range 0x1001000 (2 * unat (0xa000 :: u64)) x \<Longrightarrow> maps_page s3 r x (0x1000 + (x - 0x1001000))"
    and run2: "unmap_range_in_pgtbl fuel s3 r 0x1001000 0xa000 = Some (Inr (s4, 0))"
    "unmap_range_in_pgtbl fuel s4 r (0x1001000 + 0xa000) 0xa000 = Some (Inr (s5, 0))"
    and l: "pt_wf s5 r A5" "\<And>x. in_range 0x1001000 (2 * unat (0xa000 :: u64)) x \<Longrightarrow> leaf s5 r x = None"
    and fin: "free_page_table s5 r = Inr s6" "pages_held s6 B" "same_heap s s6"
    by (rule two_ranges_ok [OF held, of "0x1001000" "0x1000" "0xa000" fuel]) (use room fuel t in \<open>simp_all\<close>)
  have u: "unat (0x1001050 + of_nat i * 0x1000 :: u64) = 0x1001050 + i * 0x1000" if "i < 20" for i
    using that by (simp add: unat_word_ariths unat_of_nat take_bit_eq_mod)
  have r: "in_range 0x1001000 (2 * unat (0xa000 :: u64)) (0x1001050 + of_nat i * 0x1000)" if "i < 20" for i
    unfolding in_range_def u [OF that] using that by simp
  have q: "query_pages s3 r [0..<20] True = Inr True"
    using m(2) [OF r] by (intro query_pages_ok [OF m(1)]) simp
  have n: "unmapped_pages s5 r [0..<20] True = Inr True"
    using l(2) [OF r] by (intro unmapped_pages_ok [OF l(1)]) simp
  have "test_pages fuel s = Some (Inr (True, s6))"
    using run run2 q n fin(1) by (simp add: test_pages_def assert_returned_def Let_def del: upt_Suc)
  with fin(2,3) show thesis by (rule that [rotated])
qed

lemma test_huge_range_ok:
  assumes held: "pages_held s B" and room: "chunk_pages B + 1039 \<le> pool_pages s" and fuel: "0x4040A \<le> fuel"
  obtains s' where "test_huge_range fuel s = Some (Inr (True, s'))" "pages_held s' B" "same_heap s s'"
proof -
  let ?v = "0x100000000 :: u64"
  have t: "tables_for ?v test_len \<le> 519" "tables_for (?v + test_len) test_len \<le> 519"
    by (simp_all add: tables_for_def crossings_def test_len)
  obtain s1 r s2 s3 s4 s5 A3 A5 s6 where
    run: "new_page_table s = Inr (s1, r)" "map_range_in_pgtbl fuel s1 r ?v ?v test_len test_flags = Some (Inr (s2, 0))"
    "map_range_in_pgtbl fuel s2 r (?v + test_len) (?v + test_len) test_len test_flags = Some (Inr (s3, 0))"
    and m: "pt_wf s3 r A3" "\<And>x. in_range ?v (2 * unat test_len) x \<Longrightarrow> maps_page s3 r x (?v + (x - ?v))"
    and run2: "unmap_range_in_pgtbl fuel s3 r ?v test_len = Some (Inr (s4, 0))"
    "unmap_range_in_pgtbl fuel s4 r (?v + test_len) test_len = Some (Inr (s5, 0))"
    and l: "pt_wf s5 r A5" "\<And>x. in_range ?v (2 * unat test_len) x \<Longrightarrow> leaf s5 r x = None"
    and fin: "free_page_table s5 r = Inr s6" "pages_held s6 B" "same_heap s s6"
    by (rule two_ranges_ok [OF held, of ?v ?v test_len fuel]) (use room fuel t in \<open>simp_all add: test_len(2,3)\<close>)
  have "scan_mapped fuel s3 r (?v + test_len * 2) True = Some (Inr (True, 0))"
  proof (rule scan_mapped_ok [OF m(1)])
    show "\<exists>at. translate s3 r x = Some (x, at)" if "in_range ?v (2 * unat test_len) x" for x
      using m(2) [OF that] by (auto simp: maps_page_def)
  qed (use fuel in \<open>simp_all add: test_len\<close>)
  moreover have "scan_unmapped fuel s5 r (?v + test_len) True = Some (Inr (True, 0))"
  proof (rule scan_unmapped_ok [OF l(1)])
    show "leaf s5 r x = None" if "in_range ?v (unat test_len) x" for x
      using that by (intro l(2)) (simp add: in_range_def)
  qed (use fuel in \<open>simp_all add: test_len\<close>)
  ultimately have "test_huge_range fuel s = Some (Inr (True, s6))"
    using run run2 fin(1) by (simp add: test_huge_range_def assert_returned_def Let_def)
  with fin(2,3) show thesis by (rule that [rotated])
qed

subsection \<open>The block with huge mappings\<close>

text \<open>The free memory the allocator reports, in terms of the held chunks.\<close>

lemma held_free_mem:
  assumes "pages_held s A"
  shows "unat (get_free_mem_size_from_buddy s) = (pool_pages s - chunk_pages A) * 4096" "chunk_pages A \<le> pool_pages s"
proof -
  obtain fl C where C: "buddy_inv s fl C" "A = chunk_of s ` C" using assms by (auto simp: pages_held_def)
  have "(\<Sum>(i, k) \<in> C. 4096 * 2 ^ k) = chunk_pages A * (4096 :: nat)"
    unfolding C(2) chunk_pages_of [OF C(1)] by (simp add: sum_distrib_right split_def mult.commute)
  then have "unat (get_free_mem_size_from_buddy s) + chunk_pages A * 4096 = pool_pages s * 4096"
    using free_mem_size_ok [OF C(1)] pool_ok_addr(2) [OF buddy_inv_pool [OF C(1)]] by simp
  then show "unat (get_free_mem_size_from_buddy s) = (pool_pages s - chunk_pages A) * 4096" "chunk_pages A \<le> pool_pages s"
    unfolding diff_mult_distrib by linarith+
qed

lemma chunk_pages_mono: "finite A' \<Longrightarrow> A \<subseteq> A' \<Longrightarrow> chunk_pages A \<le> chunk_pages A'"
  unfolding chunk_pages_def by (rule sum_mono2) auto

text \<open>
  One iteration of the huge mapping at \<open>va\<close>, in a table with no leaf at or above \<open>va\<close>, where the
  code chooses a block of \<open>2 ^ k\<close> bytes over no table.
\<close>

lemma huge_iteration:
  assumes st: "block_at s r B A" and va: "unat va + 2 ^ k \<le> unat va_end" "unat va_end \<le> 2 ^ 48" "4096 dvd unat va"
    and k: "k = block_shift va va (unat va_end - unat va)"
    and none: "\<forall>x. unat va \<le> unat x \<longrightarrow> unat x < 2 ^ 48 \<longrightarrow> leaf s r x = None"
    and fresh: "fresh_block s r va k" and room: "chunk_pages A + missing s r va \<le> pool_pages s"
  obtains s' A' where "\<And>fuel. va_loop (Suc fuel) (map_huge_step r flags va_end) va_end s va va =
      va_loop fuel (map_huge_step r flags va_end) va_end s' (va + of_nat (2 ^ k)) (va + of_nat (2 ^ k))"
    "block_at s' r B A'" "A \<subseteq> A'" "chunk_pages A' \<le> chunk_pages A + missing s r va" "same_heap s s'"
    "\<forall>x. unat va + 2 ^ k \<le> unat x \<longrightarrow> unat x < 2 ^ 48 \<longrightarrow> leaf s' r x = None"
    "\<And>ys. tpath ys \<Longrightarrow> tbl (mem s') r ys \<noteq> None \<Longrightarrow> tbl (mem s) r ys \<noteq> None \<or> prefix ys (vpath va)"
    "\<And>va'. unat va' = unat va + 2 ^ k \<Longrightarrow> unat va' < 2 ^ 48 \<Longrightarrow> missing s' r va' \<le> boundary (unat va')"
proof -
  have wf: "pt_wf s r A" using st by (simp add: block_at_def)
  have "(2 :: nat) ^ 12 \<le> 2 ^ k" unfolding k by (intro power_increasing) (simp_all add: block_shift_def)
  then have fit: "unat va < unat va_end" "4096 \<le> unat va_end - unat va" "unat va < 2 ^ 48" using va(1,2) by simp_all
  have nb: "no_block s r va" using none fit(3) by (simp add: no_block_def)
  obtain s' A' l where s': "map_huge_step r flags va_end s va va = Inr (s', of_nat (2 ^ l))"
    "extends s r A s' A' (missing s r va)" "l = block_shift va va (unat va_end - unat va)" "2 ^ l dvd unat va"
    "\<exists>j \<in> {1, 2, 3}. l = 39 - 9 * j \<and> tbl (mem s') r (take j (vpath va)) \<noteq> None"
    "fresh_block s r va l \<longrightarrow> grown s r A s' A' (vpath va)"
    "\<forall>x. unat x < 2 ^ 48 \<longrightarrow> \<not> in_range va (2 ^ l) x \<longrightarrow> leaf s' r x = leaf s r x"
    using map_huge_step_range [OF wf fit(1) va(2,3) fit(3) va(3) fit(2) nb room, of flags] by blast
  have lk: "l = k" using s'(3) k by simp
  have g: "grown s r A s' A' (vpath va)" using s'(6) fresh lk by simp
  obtain j where j: "j \<in> {1, 2, 3}" "k = 39 - 9 * j" "tbl (mem s') r (take j (vpath va)) \<noteq> None"
    using s'(5) unfolding lk by blast
  have lt: "va < va_end" using fit(1) by (simp add: word_less_nat_alt)
  show thesis
  proof (rule that)
    show "va_loop (Suc fuel) (map_huge_step r flags va_end) va_end s va va =
        va_loop fuel (map_huge_step r flags va_end) va_end s' (va + of_nat (2 ^ k)) (va + of_nat (2 ^ k))" for fuel
      using lt s'(1) unfolding lk by simp
    show "block_at s' r B A'" using s'(2) st g by (simp add: block_at_def extends_def grown_def)
    show "A \<subseteq> A'" "chunk_pages A' \<le> chunk_pages A + missing s r va" "same_heap s s'"
      using s'(2) by (simp_all add: extends_def same_heap_def)
    show "\<forall>x. unat va + 2 ^ k \<le> unat x \<longrightarrow> unat x < 2 ^ 48 \<longrightarrow> leaf s' r x = None"
      using s'(7) none unfolding lk by (simp add: in_range_def)
    show "tbl (mem s) r ys \<noteq> None \<or> prefix ys (vpath va)" if "tpath ys" "tbl (mem s') r ys \<noteq> None" for ys
      using g that unfolding grown_def by blast
    show "missing s' r va' \<le> boundary (unat va')" if "unat va' = unat va + 2 ^ k" "unat va' < 2 ^ 48" for va'
      using missing_next [OF j _ that] s'(4) unfolding lk by blast
  qed
qed

lemma of_nat_blocks: "of_nat (2 ^ 30) = (0x40000000 :: u64)" "of_nat (2 ^ 21) = (0x200000 :: u64)"
  by simp_all

lemma vpath_blocks:
  "vpath 0x100000000 = [0, 4, 0, 0]" "vpath 0x140000000 = [0, 5, 0, 0]" "vpath 0x140200000 = [0, 5, 1, 0]"
  by (simp_all add: vpath_def index_nat)

text \<open>
  The range of the test takes one block of 1G, two of 2M and ten pages, and at most seven tables.
\<close>

lemma huge_mapping_tables:
  assumes st: "block_at s r B A" and none: "\<And>x. leaf s r x = None"
    and empty: "\<And>ys. tpath ys \<Longrightarrow> ys \<noteq> [] \<Longrightarrow> tbl (mem s) r ys = None"
    and room: "chunk_pages A + 7 \<le> pool_pages s" and fuel: "13 \<le> fuel"
  obtains s' A' where "map_range_in_pgtbl_huge fuel s r 0x100000000 0x100000000 test_len flags = Some (Inr (s', 0))"
    "block_at s' r B A'" "A \<subseteq> A'" "chunk_pages A' \<le> chunk_pages A + 7"
proof -
  let ?f = "map_huge_step r flags 0x14040A000"
  obtain f where f: "fuel = Suc (Suc (Suc f))" "10 \<le> f"
  proof
    show "fuel = Suc (Suc (Suc (fuel - 3)))" "10 \<le> fuel - 3" using fuel by simp_all
  qed
  have m1: "missing s r 0x100000000 \<le> 3" by (rule missing_le_3)
  have e: "unat (0x100000000 :: u64) + 2 ^ 30 \<le> unat (0x14040A000 :: u64)" "unat (0x140000000 :: u64) + 2 ^ 21 \<le> unat (0x14040A000 :: u64)"
    "unat (0x140200000 :: u64) + 2 ^ 21 \<le> unat (0x14040A000 :: u64)" "unat (0x14040A000 :: u64) \<le> 2 ^ 48" by simp_all
  have d: "4096 dvd unat (0x100000000 :: u64)" "4096 dvd unat (0x140000000 :: u64)" "4096 dvd unat (0x140200000 :: u64)" by simp_all
  have k: "30 = block_shift 0x100000000 0x100000000 (unat (0x14040A000 :: u64) - unat (0x100000000 :: u64))"
    "21 = block_shift 0x140000000 0x140000000 (unat (0x14040A000 :: u64) - unat (0x140000000 :: u64))"
    "21 = block_shift 0x140200000 0x140200000 (unat (0x14040A000 :: u64) - unat (0x140200000 :: u64))"
    by (simp_all add: block_shift_def)
  have n1: "\<forall>x. unat (0x100000000 :: u64) \<le> unat x \<longrightarrow> unat x < 2 ^ 48 \<longrightarrow> leaf s r x = None" using none by blast
  have fr1: "fresh_block s r 0x100000000 30"
    using empty [of "[0, 4]"] by (simp add: fresh_block_def vpath_blocks tpath_def del: tbl.simps)
  have room1: "chunk_pages A + missing s r 0x100000000 \<le> pool_pages s" using m1 room by simp
  obtain s1 A1 where s1: "\<And>fuel. va_loop (Suc fuel) ?f 0x14040A000 s 0x100000000 0x100000000 =
      va_loop fuel ?f 0x14040A000 s1 (0x100000000 + of_nat (2 ^ 30)) (0x100000000 + of_nat (2 ^ 30))"
    "block_at s1 r B A1" "A \<subseteq> A1" "chunk_pages A1 \<le> chunk_pages A + missing s r 0x100000000" "same_heap s s1"
    "\<forall>x. unat (0x100000000 :: u64) + 2 ^ 30 \<le> unat x \<longrightarrow> unat x < 2 ^ 48 \<longrightarrow> leaf s1 r x = None"
    "\<And>ys. tpath ys \<Longrightarrow> tbl (mem s1) r ys \<noteq> None \<Longrightarrow> tbl (mem s) r ys \<noteq> None \<or> prefix ys (vpath 0x100000000)"
    "\<And>va'. unat va' = unat (0x100000000 :: u64) + 2 ^ 30 \<Longrightarrow> unat va' < 2 ^ 48 \<Longrightarrow> missing s1 r va' \<le> boundary (unat va')"
    by (rule huge_iteration [where flags = flags, OF st e(1,4) d(1) k(1) n1 fr1 room1]) (rule that)
  have m2: "missing s1 r 0x140000000 \<le> 2" using s1(8) [of "0x140000000"] by (simp add: boundary_def)
  have p1: "tbl (mem s1) r ys = None" if "tpath ys" "ys \<noteq> []" "\<not> prefix ys [0, 4, 0, 0]" for ys
    using s1(7) [OF that(1)] empty [OF that(1,2)] that(3) unfolding vpath_blocks by blast
  have n2: "\<forall>x. unat (0x140000000 :: u64) \<le> unat x \<longrightarrow> unat x < 2 ^ 48 \<longrightarrow> leaf s1 r x = None" using s1(6) by simp
  have fr2: "fresh_block s1 r 0x140000000 21"
    using p1 [of "[0, 5, 0]"] by (simp add: fresh_block_def vpath_blocks tpath_def del: tbl.simps)
  have room2: "chunk_pages A1 + missing s1 r 0x140000000 \<le> pool_pages s1"
    using m1 m2 s1(4,5) room by (simp add: same_heap_def)
  obtain s2 A2 where s2: "\<And>fuel. va_loop (Suc fuel) ?f 0x14040A000 s1 0x140000000 0x140000000 =
      va_loop fuel ?f 0x14040A000 s2 (0x140000000 + of_nat (2 ^ 21)) (0x140000000 + of_nat (2 ^ 21))"
    "block_at s2 r B A2" "A1 \<subseteq> A2" "chunk_pages A2 \<le> chunk_pages A1 + missing s1 r 0x140000000" "same_heap s1 s2"
    "\<forall>x. unat (0x140000000 :: u64) + 2 ^ 21 \<le> unat x \<longrightarrow> unat x < 2 ^ 48 \<longrightarrow> leaf s2 r x = None"
    "\<And>ys. tpath ys \<Longrightarrow> tbl (mem s2) r ys \<noteq> None \<Longrightarrow> tbl (mem s1) r ys \<noteq> None \<or> prefix ys (vpath 0x140000000)"
    "\<And>va'. unat va' = unat (0x140000000 :: u64) + 2 ^ 21 \<Longrightarrow> unat va' < 2 ^ 48 \<Longrightarrow> missing s2 r va' \<le> boundary (unat va')"
    by (rule huge_iteration [where flags = flags, OF s1(2) e(2,4) d(2) k(2) n2 fr2 room2]) (rule that)
  have m3: "missing s2 r 0x140200000 \<le> 1" using s2(8) [of "0x140200000"] by (simp add: boundary_def)
  have ys: "tpath [0, 5, 1]" "\<not> prefix [0, 5, 1 :: nat] [0, 4, 0, 0]" "\<not> prefix [0, 5, 1 :: nat] [0, 5, 0, 0]"
    by (simp_all add: tpath_def)
  have "tbl (mem s1) r [0, 5, 1] = None" by (rule p1 [OF ys(1) _ ys(2)]) simp
  then have p2: "tbl (mem s2) r [0, 5, 1] = None" using s2(7) [OF ys(1)] ys(3) unfolding vpath_blocks by blast
  have n3: "\<forall>x. unat (0x140200000 :: u64) \<le> unat x \<longrightarrow> unat x < 2 ^ 48 \<longrightarrow> leaf s2 r x = None" using s2(6) by simp
  have fr3: "fresh_block s2 r 0x140200000 21" using p2 by (simp add: fresh_block_def vpath_blocks del: tbl.simps)
  have room3: "chunk_pages A2 + missing s2 r 0x140200000 \<le> pool_pages s2"
    using m1 m2 m3 s1(4,5) s2(4,5) room by (simp add: same_heap_def)
  obtain s3 A3 where s3: "\<And>fuel. va_loop (Suc fuel) ?f 0x14040A000 s2 0x140200000 0x140200000 =
      va_loop fuel ?f 0x14040A000 s3 (0x140200000 + of_nat (2 ^ 21)) (0x140200000 + of_nat (2 ^ 21))"
    "block_at s3 r B A3" "A2 \<subseteq> A3" "chunk_pages A3 \<le> chunk_pages A2 + missing s2 r 0x140200000" "same_heap s2 s3"
    "\<forall>x. unat (0x140200000 :: u64) + 2 ^ 21 \<le> unat x \<longrightarrow> unat x < 2 ^ 48 \<longrightarrow> leaf s3 r x = None"
    "\<And>ys. tpath ys \<Longrightarrow> tbl (mem s3) r ys \<noteq> None \<Longrightarrow> tbl (mem s2) r ys \<noteq> None \<or> prefix ys (vpath 0x140200000)"
    "\<And>va'. unat va' = unat (0x140200000 :: u64) + 2 ^ 21 \<Longrightarrow> unat va' < 2 ^ 48 \<Longrightarrow> missing s3 r va' \<le> boundary (unat va')"
    by (rule huge_iteration [where flags = flags, OF s2(2) e(3,4) d(3) k(3) n3 fr3 room3]) (rule that)
  have m4: "missing s3 r 0x140400000 \<le> 1" using s3(8) [of "0x140400000"] by (simp add: boundary_def)
  have w: "wanted s3 r 0x140400000 10 \<le> 1" using m4 by (simp add: wanted_def crossings_def)
  have wf3: "pt_wf s3 r A3" "owned s3 r B A3" using s3(2) by (simp_all add: block_at_def)
  have nb: "no_block s3 r x" if "in_range 0x140400000 (10 * 4096) x" for x
    using that s3(6) by (simp add: in_range_def no_block_def)
  have room4: "chunk_pages A3 + wanted s3 r 0x140400000 10 \<le> pool_pages s3"
    using s1(4,5) s2(4,5) s3(4,5) room m1 m2 m3 w by (simp add: same_heap_def)
  obtain s4 A4 where s4: "va_loop f ?f 0x14040A000 s3 0x140400000 0x140400000 = Some (Inr (s4, 0))"
    "extends s3 r A3 s4 A4 (wanted s3 r 0x140400000 10)" "\<forall>B. owned s3 r B A3 \<longrightarrow> owned s4 r B A4"
    using map_huge_loop_ok [where va_end = "0x14040A000" and pa = "0x140400000" and flags = flags,
        OF wf3(1) _ _ _ _ _ nb room4 f(2)] by auto
  have "map_range_in_pgtbl_huge fuel s r 0x100000000 0x100000000 test_len flags = Some (Inr (s4, 0))"
    using s4(1) unfolding map_range_in_pgtbl_huge_def f(1) test_len(1)
    by (simp add: s1(1) [unfolded of_nat_blocks] s2(1) [unfolded of_nat_blocks] s3(1) [unfolded of_nat_blocks] del: va_loop.simps)
  moreover have "block_at s4 r B A4" using s4(2,3) wf3(2) by (simp add: block_at_def extends_def)
  moreover have "A \<subseteq> A4" "chunk_pages A4 \<le> chunk_pages A + 7"
    using s1(3,4) s2(3,4) s3(3,4) s4(2) m1 m2 m3 w by (auto simp: extends_def)
  ultimately show thesis by (rule that)
qed

lemma test_huge_pages_ok:
  assumes held: "pages_held s B" and room: "chunk_pages B + 520 \<le> pool_pages s" and fuel: "0x4040A \<le> fuel"
  obtains s' where "test_huge_pages fuel s = Some (Inr (True, s'))" "pages_held s' B" "same_heap s s'"
proof -
  let ?v = "0x100000000 :: u64"
  have e: "?v + test_len = 0x14040A000" "unat ?v + unat test_len \<le> 2 ^ 48" by (simp_all add: test_len)
  have t: "tables_for ?v test_len \<le> 519" by (simp add: tables_for_def crossings_def test_len)
  have al: "4096 dvd unat ?v" "4096 dvd unat test_len" by (simp_all add: test_len)
  have f: "unat test_len div 4096 \<le> fuel" "13 \<le> fuel" using fuel by (simp_all add: test_len)
  have "chunk_pages B < pool_pages s" using room by simp
  then obtain s1 r where s1: "new_page_table s = Inr (s1, r)" "block_at s1 r B (insert (r, 0) B)"
    "chunk_pages (insert (r, 0) B) = Suc (chunk_pages B)" "same_heap s s1" "\<And>x. leaf s1 r x = None"
    "\<And>ys. tpath ys \<Longrightarrow> ys \<noteq> [] \<Longrightarrow> tbl (mem s1) r ys = None"
    by (rule begin_ok [OF held]) blast
  let ?A1 = "insert (r, 0) B"
  have wf1: "pt_wf s1 r ?A1" using s1(2) by (simp add: block_at_def)
  have nb1: "no_block s1 r x" for x using s1(5) by (simp add: no_block_def)
  have room1: "chunk_pages ?A1 + tables_for ?v test_len \<le> pool_pages s1" "chunk_pages ?A1 + 7 \<le> pool_pages s1"
    using room s1(3,4) t by (simp_all add: same_heap_def)
  obtain s2 A2 where s2: "map_range_in_pgtbl_huge fuel s1 r ?v ?v test_len test_flags = Some (Inr (s2, 0))"
    "extends s1 r ?A1 s2 A2 (tables_for ?v test_len)" "mapped_range test_flags s1 r ?v ?v (unat test_len) s2"
    "blocks_within s2 r ?v (unat test_len)"
    by (rule map_range_huge_ok [where flags = test_flags, OF wf1 al(1,1,2) e(2,2) nb1 room1(1) f(1)])
  obtain s2' A3 where s2': "map_range_in_pgtbl_huge fuel s1 r ?v ?v test_len test_flags = Some (Inr (s2', 0))"
    "block_at s2' r B A3" "?A1 \<subseteq> A3" "chunk_pages A3 \<le> chunk_pages ?A1 + 7"
    by (rule huge_mapping_tables [where flags = test_flags, OF s1(2,5,6) room1(2) f(2)])
  have "s2' = s2" using s2(1) s2'(1) by simp
  note st = s2'(2) [unfolded this]
  have wf2: "pt_wf s2 r A3" using st by (simp add: block_at_def)
  have h2: "same_heap s1 s2" using s2(2) by (simp add: extends_def same_heap_def)
  have fin: "finite A3" by (rule pages.holds_finite [OF pt_wf_held [OF wf2]])
  note fm1 = held_free_mem [OF pt_wf_held [OF wf1]] and fm2 = held_free_mem [OF pt_wf_held [OF wf2]]
  have "get_free_mem_size_from_buddy s2 \<le> get_free_mem_size_from_buddy s1"
    using chunk_pages_mono [OF fin s2'(3)] h2 unfolding word_le_nat_alt fm1(1) fm2(1) same_heap_def by simp
  then have "unat (get_free_mem_size_from_buddy s1 - get_free_mem_size_from_buddy s2) =
      (pool_pages s1 - chunk_pages ?A1) * 4096 - (pool_pages s2 - chunk_pages A3) * 4096"
    by (simp only: unat_sub fm1(1) fm2(1))
  also have "\<dots> \<le> 7 * 4096" using s2'(4) fm2(2) h2 unfolding same_heap_def by linarith
  finally have used: "get_free_mem_size_from_buddy s1 - get_free_mem_size_from_buddy s2 < 0x1000 * 8"
    by (simp add: word_less_nat_alt)
  have m: "scan_mapped fuel s2 r (?v + test_len) True = Some (Inr (True, 0))"
  proof (rule scan_mapped_ok [OF wf2])
    show "\<exists>at. translate s2 r x = Some (x, at)" if x: "in_range ?v (unat test_len) x" for x
    proof -
      have "unat x < 2 ^ 48" using x by (simp add: in_range_def test_len)
      then show ?thesis using s2(3) x unfolding mapped_range_def by simp
    qed
  qed (use fuel in \<open>simp_all add: test_len\<close>)
  obtain s3 where s3: "unmap_range_in_pgtbl_huge fuel s2 r ?v test_len = Some (Inr (s3, 0))"
    "extends s2 r A3 s3 A3 0" "unmapped_range s2 r ?v (unat test_len) s3" "same_tables s2 r s3"
    by (rule unmap_range_huge_ok [OF wf2 al e(2) s2(4) f(1)])
  have st3: "block_at s3 r B A3" "same_heap s2 s3"
    using s3(2) st same_tables_owned [OF s3(4)] by (simp_all add: block_at_def extends_def same_heap_def)
  have wf3: "pt_wf s3 r A3" using st3(1) by (simp add: block_at_def)
  have n: "scan_unmapped fuel s3 r (?v + test_len) True = Some (Inr (True, 0))"
  proof (rule scan_unmapped_ok [OF wf3])
    show "leaf s3 r x = None" if x: "in_range ?v (unat test_len) x" for x
    proof -
      have "unat x < 2 ^ 48" using x by (simp add: in_range_def test_len)
      then show ?thesis using s3(3) x unfolding unmapped_range_def by simp
    qed
  qed (use fuel in \<open>simp_all add: test_len\<close>)
  obtain s4 where s4: "free_page_table s3 r = Inr s4" "pages_held s4 B" "same_heap s3 s4"
    by (rule finish_ok [OF st3(1)])
  have "test_huge_pages fuel s = Some (Inr (True, s4))"
    using s1(1) s2(1) used m s3(1) n s4(1) by (simp add: test_huge_pages_def assert_returned_def Let_def)
  moreover have "same_heap s s4" using s1(4) h2 st3(2) s4(3) same_heap_trans by blast
  ultimately show thesis using s4(2) by (intro that)
qed

subsection \<open>The test\<close>

definition page_table_report :: report where
  "page_table_report = [(''Map & unmap one page'', True), (''Map & unmap multiple pages'', True),
     (''Map & unmap huge range'', True), (''Map & unmap with huge page support'', True)]"

lemma page_table_test_ok:
  assumes held: "pages_held s B" and room: "chunk_pages B + 1039 \<le> pool_pages s" and fuel: "0x4040A \<le> fuel"
  obtains s' where "lab2_test_page_table fuel s = Some (Inr (page_table_report, s'))" "pages_held s' B" "same_heap s s'"
proof -
  have r0: "chunk_pages B + 4 \<le> pool_pages s" and f0: "0 < fuel" "10 \<le> fuel" using room fuel by linarith+
  obtain s1 where s1: "test_one_page fuel s = Some (Inr (True, s1))" "pages_held s1 B" "same_heap s s1"
    by (rule test_one_page_ok [OF held r0 f0(1)])
  have r1: "chunk_pages B + 1039 \<le> pool_pages s1" using room s1(3) by (simp add: same_heap_def)
  have r1': "chunk_pages B + 7 \<le> pool_pages s1" using r1 by linarith
  obtain s2 where s2: "test_pages fuel s1 = Some (Inr (True, s2))" "pages_held s2 B" "same_heap s1 s2"
    by (rule test_pages_ok [OF s1(2) r1' f0(2)])
  have r2: "chunk_pages B + 1039 \<le> pool_pages s2" using r1 s2(3) by (simp add: same_heap_def)
  obtain s3 where s3: "test_huge_range fuel s2 = Some (Inr (True, s3))" "pages_held s3 B" "same_heap s2 s3"
    by (rule test_huge_range_ok [OF s2(2) r2 fuel])
  have r3: "chunk_pages B + 520 \<le> pool_pages s3" using r2 s3(3) by (simp add: same_heap_def)
  obtain s4 where s4: "test_huge_pages fuel s3 = Some (Inr (True, s4))" "pages_held s4 B" "same_heap s3 s4"
    by (rule test_huge_pages_ok [OF s3(2) r3 fuel])
  have "lab2_test_page_table fuel s = Some (Inr (page_table_report, s4))"
    using s1(1) s2(1) s3(1) s4(1) by (simp add: lab2_test_page_table_def page_table_report_def)
  moreover have "same_heap s s4" using s1(3) s2(3) s3(3) s4(3) same_heap_trans by blast
  ultimately show thesis using s4(2) by (intro that)
qed

end
