(* ===== verification/Kernel_Main_Props.thy ===== *)
theory Kernel_Main_Props
  imports Kernel_Main Printk_Props Uart_Props Lab_Kmalloc_Props Lab_Page_Table_Props
begin

text \<open>
  The kernel on the raspi3: \<open>main\<close> reaches its idle loop, every unit test has passed, and what has left
  the UART is exactly the text of \<open>boot_log\<close>.
\<close>

subsection \<open>Messages on the console\<close>

text \<open>Lines as they leave the UART.\<close>

definition text_of_lines :: "string list \<Rightarrow> string" where
  "text_of_lines ls = concat (map (\<lambda>l. l @ [CHR 0x0D, CHR 0x0A]) ls)"

lemma text_of_lines_append: "text_of_lines (ls @ ms) = text_of_lines ls @ text_of_lines ms"
  by (simp add: text_of_lines_def)

lemma bytes_append: "bytes (s @ t) = bytes s @ bytes t"
  by (simp add: bytes_def)

definition prints_lines :: "'w uart_view \<Rightarrow> 'w \<Rightarrow> string list \<Rightarrow> 'w \<Rightarrow> bool" where
  "prints_lines V w ls w' \<longleftrightarrow> has_sent V UART_KBASE w (bytes (text_of_lines ls)) w'"

lemma prints_lines_Nil: "prints_lines V w [] w"
  by (simp add: prints_lines_def text_of_lines_def bytes_def)

lemma prints_lines_trans: "prints_lines V w ls w' \<Longrightarrow> prints_lines V w' ms w'' \<Longrightarrow> prints_lines V w (ls @ ms) w''"
  unfolding prints_lines_def text_of_lines_append bytes_append by (rule has_sent_trans)

lemma prints_lines_enabled: "prints_lines V w ls w' \<Longrightarrow> enabled V UART_KBASE w \<Longrightarrow> enabled V UART_KBASE w'"
  unfolding prints_lines_def by (rule has_sent_enabled)

lemma ucast_of_char: "ucast (of_char c :: u32) = (of_char c :: u8)"
proof -
  have "(of_char c :: nat) < 2 ^ 32" by (rule less_trans [OF nat_of_char_less_256]) simp
  then have "take_bit 32 (of_char c :: nat) = of_char c" by (rule take_bit_nat_eq_self)
  then have "ucast (of_nat (of_char c) :: u32) = (of_nat (of_char c) :: u8)" by (simp add: unsigned_of_nat)
  then show ?thesis by (simp only: of_nat_of_char)
qed

text \<open>A message that is a line: pieces without a newline in their text, then a newline.\<close>

lemma console_line:
  assumes u: "mini_uart d UART_KBASE V" and e: "enabled V UART_KBASE w"
    and ps: "list_all piece_ok ps" and fmt: "fmt = concat (map piece_format ps) @ NL" and args: "args = concat (map piece_args ps)"
    and line: "concat (map piece_text ps) = l"
  obtains w' where "console d b fmt args w = Some (Inr w')" "prints_lines V w [l] w'"
proof -
  have "printk [] (concat (map piece_format (ps @ [Lit NL]))) (concat (map piece_args (ps @ [Lit NL])) @ []) (stale b) =
      Inr ([] @ concat (map piece_text (ps @ [Lit NL])))"
    by (rule printk_message) (use ps in simp)
  then have p: "printk [] fmt args (stale b) = Inr (l @ [CHR 0x0D, CHR 0x0A])"
    by (simp add: fmt args line crlf_def)
  obtain w' where w': "send_all d (map of_char (l @ [CHR 0x0D, CHR 0x0A])) w = Some w'"
    "has_sent V UART_KBASE w (map ucast (map of_char (l @ [CHR 0x0D, CHR 0x0A]) :: u32 list)) w'"
    using send_all_ok [OF u e] by blast
  have "map ucast (map of_char s :: u32 list) = bytes s" for s
    by (simp add: bytes_def ucast_of_char comp_def)
  then have "prints_lines V w [l] w'" using w'(2) by (simp only: prints_lines_def text_of_lines_def) simp
  moreover have "console d b fmt args w = Some (Inr w')" using p w'(1) by (simp add: console_def)
  ultimately show thesis by (intro that)
qed

text \<open>The checks of a test that has passed: one line each.\<close>

definition ok_line :: "string \<Rightarrow> string" where
  "ok_line test_name = ''[TEST] '' @ test_name @ '': OK''"

definition all_passed :: "report \<Rightarrow> bool" where
  "all_passed rs \<longleftrightarrow> list_all (\<lambda>(test_name, passed). passed \<and> NUL \<notin> set test_name) rs"

lemma lab_check_line:
  assumes u: "mini_uart d UART_KBASE V" and addr: "\<forall>str. str_addr b str \<noteq> 0"
    and e: "enabled V UART_KBASE w" and n: "NUL \<notin> set test_name"
  obtains w' where "lab_check d b True test_name w = Some (Inr w')" "prints_lines V w [ok_line test_name] w'"
proof -
  let ?ps = "[Lit ''[TEST] '', StrArg (str_addr b test_name) test_name, Lit '': OK'']"
  obtain w' where "console d b (''[TEST] %s: OK'' @ NL) [ArgStr (str_addr b test_name) test_name] w = Some (Inr w')"
    "prints_lines V w [ok_line test_name] w'"
    by (rule console_line [OF u e, of ?ps]) (use addr n in \<open>auto simp: crlf_def ok_line_def cstr_id\<close>)
  then show thesis by (intro that) (simp_all add: lab_check_def)
qed

lemma lab_checks_lines:
  assumes u: "mini_uart d UART_KBASE V" and addr: "\<forall>str. str_addr b str \<noteq> 0"
  shows "enabled V UART_KBASE w \<Longrightarrow> all_passed rs \<Longrightarrow>
   \<exists>w'. lab_checks d b rs w = Some (Inr w') \<and> prints_lines V w (map (\<lambda>r. ok_line (fst r)) rs) w'"
proof (induction rs arbitrary: w)
  case Nil
  then show ?case by (simp add: prints_lines_Nil)
next
  case (Cons r rs)
  obtain test_name where r: "r = (test_name, True)" "NUL \<notin> set test_name" using Cons.prems(2) by (cases r) (simp add: all_passed_def)
  obtain w1 where w1: "lab_check d b True test_name w = Some (Inr w1)" "prints_lines V w [ok_line test_name] w1"
    by (rule lab_check_line [OF u addr Cons.prems(1) r(2)])
  have "all_passed rs" using Cons.prems(2) by (simp add: all_passed_def)
  from Cons.IH [OF prints_lines_enabled [OF w1(2) Cons.prems(1)] this] obtain w2 where
    w2: "lab_checks d b rs w1 = Some (Inr w2)" "prints_lines V w1 (map (\<lambda>r. ok_line (fst r)) rs) w2" by blast
  show ?case using w1(1) w2(1) prints_lines_trans [OF w1(2) w2(2)] r(1) by simp
qed

subsection \<open>Initialisation\<close>

text \<open>With an image that ends below 480M there are enough pages for the buddy test.\<close>

lemma mm_pages_enough:
  assumes "unat img_end \<le> 0x1e000000"
  shows "15 * 2 ^ 13 \<le> mm_pages img_end" "mm_pages img_end < 2 ^ 31"
proof -
  have img: "unat img_end \<le> 0x3b000000" using assms by simp
  show "mm_pages img_end < 2 ^ 31" by (rule mm_layout(8) [OF img])
  have "unat (ROUND_UP img_end 0x1000) = (unat img_end + 4095) div 4096 * 4096" by (rule ROUND_UP_eq) (use assms in simp)
  moreover have "(unat img_end + 4095) div 4096 \<le> (0x1e000000 + 4095) div 4096" using assms by (intro div_le_mono) simp
  ultimately have "unat (ROUND_UP img_end 0x1000) \<le> 0x1e000000" by simp
  then have "(0x3d000000 - 0x1e000000) div 4136 \<le> mm_pages img_end"
    unfolding mm_pages_def by (intro div_le_mono diff_le_mono2)
  then show "15 * 2 ^ 13 \<le> mm_pages img_end" by simp
qed

lemma idle_heap_same_pool:
  fixes s :: "'z kernel_state_scheme"
  assumes s: "idle_heap s" and s': "idle_pool s'" "same_pool s s'"
  shows "idle_heap s'"
proof -
  note k = same_pool_kernel [OF s'(2)]
  obtain fl where "buddy_inv s' fl {}" using s'(1) by (auto simp: idle_pool_def)
  then have "pages_held s' {}"
    using s k(6,7) unfolding idle_heap_def pages_held_def by auto
  moreover have "page_slab pg = 0" if "page_metadata s' i = Some pg" for i pg
  proof -
    have "map_option page_slab (page_metadata s' i) = map_option page_slab (page_metadata s i)"
      using s'(2) by (simp add: same_pool_def)
    then have "map_option page_slab (page_metadata s i) = Some (page_slab pg)" unfolding that by simp
    then show ?thesis using s by (auto simp: idle_heap_def)
  qed
  ultimately show ?thesis using s k(2) by (simp add: idle_heap_def)
qed

lemma chunk_pages_slabs:
  assumes "snd ` A \<subseteq> {9}"
  shows "chunk_pages A = card A * 512"
proof -
  have "chunk_pages A = (\<Sum>(a, k) \<in> A. 512)"
    unfolding chunk_pages_def using assms by (intro sum.cong) auto
  then show ?thesis by (simp add: split_def)
qed

definition hex :: "u64 \<Rightarrow> string" where
  "hex w = numeral_text 97 16 (unat w)"

definition mm_init_lines :: "u64 \<Rightarrow> string list" where
  "mm_init_lines img_end =
     [''[INFO] physmem_map: [0x'' @ hex (ROUND_UP img_end 0x1000) @ '', 0x'' @ hex 0x3d000000 @ '')''] @
     map (\<lambda>r. ok_line (fst r)) buddy_report @ [''[TEST] Buddy tests finished'']"

lemma mm_init_tested_ok:
  fixes s :: "'z kernel_state_scheme"
  assumes u: "mini_uart d UART_KBASE V" and addr: "\<forall>str. str_addr b str \<noteq> 0" and e: "enabled V UART_KBASE w"
    and ready: "mm_ready img_end s" and img: "unat img_end \<le> 0x1e000000"
  obtains s' w' A F where "mm_init_tested d b img_end (s, w) = Some (Inr (s', w'))" "prints_lines V w (mm_init_lines img_end) w'"
    "fresh_heap s' A F" "snd ` A \<subseteq> {9}" "card A = 7" "pool_pages s' = mm_pages img_end"
proof -
  note n = mm_pages_enough [OF img]
  let ?r = "ROUND_UP img_end 0x1000"
  have pm: "physmem_map (parse_mem_map img_end s) = (?r, 0x3d000000)" by (simp add: parse_mem_map_def)
  let ?ps = "[Lit ''[INFO] physmem_map: [0x'', HexArg ?r, Lit '', 0x'', HexArg 0x3d000000, Lit '')'']"
  let ?l = "''[INFO] physmem_map: [0x'' @ hex ?r @ '', 0x'' @ hex 0x3d000000 @ '')''"
  have fmt: "''[INFO] '' @ (''physmem_map: [0x%lx, 0x%lx)'' @ NL) = concat (map piece_format ?ps) @ NL" by simp
  have args: "[Arg64 ?r, Arg64 0x3d000000] = concat (map piece_args ?ps)" by simp
  have line: "concat (map piece_text ?ps) = ?l" by (simp add: crlf_def hex_def)
  have ps: "list_all piece_ok ?ps" by simp
  obtain w1 where w1: "console d b (''[INFO] '' @ (''physmem_map: [0x%lx, 0x%lx)'' @ NL)) [Arg64 ?r, Arg64 0x3d000000] w = Some (Inr w1)"
    "prints_lines V w [?l] w1" by (rule console_line [OF u e ps fmt args line])
  obtain s1 where s1: "mm_init_buddy img_end s = Inr s1" "idle_heap s1" "pool_pages s1 = mm_pages img_end"
    "pool_phys_page_num s1 = of_nat (mm_pages img_end)" using mm_init_buddy_ok [OF ready] by blast
  have "unat (of_nat (mm_pages img_end) :: u64) = mm_pages img_end" using n(2) by (intro unat_of_nat_less) simp
  then have "idle_pool s1" using s1(2-4) n by (auto simp: idle_pool_def idle_heap_def pages_held_def)
  then obtain s2 where s2: "lab2_test_buddy s1 = Inr (buddy_report, s2)" "idle_pool s2" "same_pool s1 s2"
    by (rule buddy_test_ok)
  have n2: "pool_pages s2 = mm_pages img_end" using same_pool_pages [OF s2(3)] s1(3) by simp
  have passed: "all_passed buddy_report" by (simp add: all_passed_def buddy_report_def)
  note e1 = prints_lines_enabled [OF w1(2) e]
  obtain w2 where w2: "lab_checks d b buddy_report w1 = Some (Inr w2)" "prints_lines V w1 (map (\<lambda>r. ok_line (fst r)) buddy_report) w2"
    using lab_checks_lines [OF u addr e1 passed] by blast
  let ?f = "[Lit ''[TEST] Buddy tests finished'']"
  obtain w3 where w3: "console d b (''[TEST] Buddy tests finished'' @ NL) [] w2 = Some (Inr w3)"
    "prints_lines V w2 [''[TEST] Buddy tests finished''] w3"
    by (rule console_line [OF u prints_lines_enabled [OF w2(2) e1], of ?f]) (auto simp: crlf_def)
  have room: "8 * 512 \<le> pool_pages s2" using n(1) n2 by simp
  obtain s3 A F where s3: "init_slab s2 = Inr s3" "slab_inv s3 A F" "\<forall>k. order_ok k \<longrightarrow> F k \<noteq> []" "live_objects F = {}"
    "snd ` A \<subseteq> {9}" "card A = 7" "client_chunks A F = {}" "pool_place s3 = pool_place s2"
    by (rule init_slab_idle [OF idle_heap_same_pool [OF s1(2) s2(2,3)] room])
  have n3: "pool_pages s3 = mm_pages img_end" using pool_placeD [OF s3(8)] n2 by simp
  have "fresh_heap s3 A F" using s3(2-4,6,7) n(1) n3 by (simp add: fresh_heap_def)
  moreover have "mm_init_tested d b img_end (s, w) = Some (Inr (s3, w3))"
    using w1(1) s1(1) s2(1) w2(1) w3(1) s3(1) by (simp add: mm_init_tested_def pm kinfo_def Let_def)
  moreover have "prints_lines V w (mm_init_lines img_end) w3"
    unfolding mm_init_lines_def by (rule prints_lines_trans [OF w1(2) prints_lines_trans [OF w2(2) w3(2)]])
  ultimately show thesis using s3(5,6) n3 by (intro that)
qed

subsection \<open>The kernel\<close>

text \<open>What the kernel prints, line by line.\<close>

definition boot_log :: "u64 \<Rightarrow> string list" where
  "boot_log img_end =
     [''[INFO] [ChCore] uart init finished'',
      ''[TEST] Jump to kernel high memory: OK'',
      ''[INFO] physmem_map: [0x'' @ hex (ROUND_UP img_end 0x1000) @ '', 0x'' @ hex 0x3d000000 @ '')'',
      ''[TEST] Init buddy: OK'',
      ''[TEST] Check invalid order: OK'',
      ''[TEST] Allocate & free order 0: OK'',
      ''[TEST] Allocate & free each order: OK'',
      ''[TEST] Allocate & free all orders: OK'',
      ''[TEST] Allocate & free all memory: OK'',
      ''[TEST] Buddy tests finished'',
      ''[INFO] [ChCore] mm init finished'',
      ''[TEST] kmalloc: OK'',
      ''[TEST] Map & unmap one page: OK'',
      ''[TEST] Map & unmap multiple pages: OK'',
      ''[TEST] Map & unmap huge range: OK'',
      ''[TEST] Map & unmap with huge page support: OK'',
      ''[TEST] Page table tests finished'']"

lemma boot_log_parts:
  "boot_log img_end = [''[INFO] [ChCore] uart init finished''] @ [ok_line ''Jump to kernel high memory''] @ mm_init_lines img_end @
     [''[INFO] [ChCore] mm init finished''] @ map (\<lambda>r. ok_line (fst r)) [(''kmalloc'', True)] @
     map (\<lambda>r. ok_line (fst r)) page_table_report @ [''[TEST] Page table tests finished'']"
  by (simp add: boot_log_def mm_init_lines_def buddy_report_def page_table_report_def ok_line_def)

lemma main_ok:
  fixes s :: "'z kernel_state_scheme"
  assumes u: "mini_uart d UART_KBASE V" and addr: "\<forall>str. str_addr b str \<noteq> 0" and pc: "KBASE \<le> pc"
    and ready: "mm_ready img_end s" and img: "unat img_end \<le> 0x1e000000" and fuel: "0x4040A \<le> fuel"
    and up: "uart_init d w = Some w0" "enabled V UART_KBASE w0"
  obtains s' w' A where "main fuel d b img_end pc (s, w) = Some (Inr (s', w'))" "prints_lines V w0 (boot_log img_end) w'"
    "pages_held s' A" "snd ` A \<subseteq> {9}" "card A = 7" "pool_pages s' = mm_pages img_end"
proof -
  note on = prints_lines_enabled
  let ?m1 = "''[INFO] [ChCore] uart init finished''" and ?m2 = "''[INFO] [ChCore] mm init finished''"
    and ?m3 = "''[TEST] Page table tests finished''"
  obtain w1 where w1: "console d b (''[INFO] '' @ (''[ChCore] uart init finished'' @ NL)) [] w0 = Some (Inr w1)"
    "prints_lines V w0 [?m1] w1" by (rule console_line [OF u up(2), of "[Lit ?m1]"]) (auto simp: crlf_def)
  note e1 = on [OF w1(2) up(2)]
  have n: "NUL \<notin> set ''Jump to kernel high memory''" by simp
  obtain w2 where w2: "lab_check d b True ''Jump to kernel high memory'' w1 = Some (Inr w2)"
    "prints_lines V w1 [ok_line ''Jump to kernel high memory''] w2" by (rule lab_check_line [OF u addr e1 n])
  note e2 = on [OF w2(2) e1]
  obtain s3 w3 A F where w3: "mm_init_tested d b img_end (s, w2) = Some (Inr (s3, w3))" "prints_lines V w2 (mm_init_lines img_end) w3"
    "fresh_heap s3 A F" "snd ` A \<subseteq> {9}" "card A = 7" "pool_pages s3 = mm_pages img_end"
    by (rule mm_init_tested_ok [OF u addr e2 ready img])
  note e3 = on [OF w3(2) e2]
  obtain w4 where w4: "console d b (''[INFO] '' @ (''[ChCore] mm init finished'' @ NL)) [] w3 = Some (Inr w4)"
    "prints_lines V w3 [?m2] w4" by (rule console_line [OF u e3, of "[Lit ?m2]"]) (auto simp: crlf_def)
  note e4 = on [OF w4(2) e3]
  have f0: "0 < fuel" using fuel by simp
  obtain s5 F5 where s5: "lab2_test_kmalloc fuel s3 = Some (Inr ([(''kmalloc'', True)], s5))" "fresh_heap s5 A F5"
    "pool_pages s5 = pool_pages s3" by (rule kmalloc_test_ok [OF w3(3) f0])
  have passed: "all_passed [(''kmalloc'', True)]" "all_passed page_table_report"
    by (simp_all add: all_passed_def page_table_report_def)
  obtain w5 where w5: "lab_checks d b [(''kmalloc'', True)] w4 = Some (Inr w5)"
    "prints_lines V w4 (map (\<lambda>r. ok_line (fst r)) [(''kmalloc'', True)]) w5"
    using lab_checks_lines [OF u addr e4 passed(1)] by blast
  note e5 = on [OF w5(2) e4]
  note held = slab_invD(1) [OF fresh_heapD(1) [OF s5(2)]]
  have room: "chunk_pages A + 1039 \<le> pool_pages s5"
    unfolding chunk_pages_slabs [OF w3(4)] w3(5) using mm_pages_enough(1) [OF img] s5(3) w3(6) by simp
  obtain s6 where s6: "lab2_test_page_table fuel s5 = Some (Inr (page_table_report, s6))" "pages_held s6 A" "same_heap s5 s6"
    by (rule page_table_test_ok [OF held room fuel])
  obtain w6 where w6: "lab_checks d b page_table_report w5 = Some (Inr w6)"
    "prints_lines V w5 (map (\<lambda>r. ok_line (fst r)) page_table_report) w6"
    using lab_checks_lines [OF u addr e5 passed(2)] by blast
  obtain w7 where w7: "console d b (?m3 @ NL) [] w6 = Some (Inr w7)" "prints_lines V w6 [?m3] w7"
    by (rule console_line [OF u on [OF w6(2) e5], of "[Lit ?m3]"]) (auto simp: crlf_def)
  have "main fuel d b img_end pc (s, w) = Some (Inr (s6, w7))"
    using up(1) w1(1) w2(1) pc w3(1) w4(1) s5(1) w5(1) s6(1) w6(1) w7(1)
    by (simp add: main_def lab2_test_kernel_vaddr_def kinfo_def)
  moreover have "prints_lines V w0 (boot_log img_end) w7"
    unfolding boot_log_parts
    by (rule prints_lines_trans [OF w1(2) prints_lines_trans [OF w2(2) prints_lines_trans [OF w3(2)
      prints_lines_trans [OF w4(2) prints_lines_trans [OF w5(2) prints_lines_trans [OF w6(2) w7(2)]]]]]])
  moreover have "pool_pages s6 = mm_pages img_end" using s6(3) s5(3) w3(6) by (simp add: same_heap_def)
  ultimately show thesis using s6(2) w3(4,5) by (intro that)
qed

text \<open>C24: The kernel's own page table test, on any pool that has 1039 pages left, returns, reports success
  for each of its four checks and gives back every page it has taken: mapping and unmapping work by
  pages and with blocks, what is mapped can be queried at any offset, what is unmapped can not, and
  a gigabyte mapped with blocks costs fewer than eight pages of tables.\<close>

theorem lab2_test_page_table_passes:
  assumes "pages_held s B" "chunk_pages B + 1039 \<le> pool_pages s" "0x4040A \<le> fuel"
  shows "\<exists>report s'. lab2_test_page_table fuel s = Some (Inr (report, s')) \<and> length report = 4 \<and>
    (\<forall>(name, passed) \<in> set report. passed) \<and> pages_held s' B \<and> pool_pages s' = pool_pages s \<and> dom (mem s') = dom (mem s)"
proof -
  obtain s' where s': "lab2_test_page_table fuel s = Some (Inr (page_table_report, s'))" "pages_held s' B" "same_heap s s'"
    by (rule page_table_test_ok [OF assms])
  have "length page_table_report = 4" "\<forall>(name, passed) \<in> set page_table_report. passed"
    by (simp_all add: page_table_report_def)
  then show ?thesis using s' unfolding same_heap_def by blast
qed

lemma mm_pages_sample: "mm_pages 0x100000 = 247186"
  by (simp add: mm_pages_def ROUND_UP_def)

theorem lab2_test_page_table_passes_witness:
  "\<exists>s report s'. mm_init_buddy 0x100000 kernel_cold = Inr s \<and> lab2_test_page_table 0x4040A s = Some (Inr (report, s')) \<and>
     length report = 4 \<and> (\<forall>(name, passed) \<in> set report. passed) \<and> pages_held s' {}"
proof -
  obtain s where s: "mm_init_buddy 0x100000 kernel_cold = Inr s" "idle_heap s" "pool_pages s = 247186"
    using mm_init_buddy_ok [OF kernel_cold_ready] mm_pages_sample by auto
  have "pages_held s {}" using s(2) by (simp add: idle_heap_def)
  moreover have "chunk_pages {} + 1039 \<le> pool_pages s" unfolding s(3) chunk_pages_def by simp
  ultimately show ?thesis using lab2_test_page_table_passes [OF _ _ order_refl] s(1) by blast
qed

lemma main_log_ok:
  assumes u: "mini_uart d UART_KBASE V" and addr: "\<forall>str. str_addr b str \<noteq> 0" and pc: "KBASE \<le> pc"
    and ready: "mm_ready img_end s" and img: "unat img_end \<le> 0x1e000000" and fuel: "0x4040A \<le> fuel"
  shows "\<exists>s' w'. main fuel d b img_end pc (s, w) = Some (Inr (s', w')) \<and>
    tx_sent V w' = tx_sent V w @ [12, 27, 0x5b, 0x32, 0x4a] @ bytes (text_of_lines (boot_log img_end)) \<and>
    unat (get_free_mem_size_from_buddy s') = (mm_pages img_end - 7 * 512) * 4096"
proof -
  obtain w0 where w0: "uart_init d w = Some w0" "brought_up V UART_KBASE w w0"
    "tx_sent V w0 = tx_sent V w @ [12, 27, of_char CHR ''['', of_char CHR ''2'', of_char CHR ''J'']"
    using uart_init_ok [OF u] by blast
  have e: "enabled V UART_KBASE w0" using w0(2) by (simp add: brought_up_def)
  obtain s' w' A where r: "main fuel d b img_end pc (s, w) = Some (Inr (s', w'))" "prints_lines V w0 (boot_log img_end) w'"
    "pages_held s' A" "snd ` A \<subseteq> {9}" "card A = 7" "pool_pages s' = mm_pages img_end"
    by (rule main_ok [OF u addr pc ready img fuel w0(1) e])
  have "tx_sent V w' = tx_sent V w0 @ bytes (text_of_lines (boot_log img_end))"
    using r(2) by (simp add: prints_lines_def has_sent_def)
  then have "tx_sent V w' = tx_sent V w @ [12, 27, 0x5b, 0x32, 0x4a] @ bytes (text_of_lines (boot_log img_end))"
    unfolding w0(3) by simp
  moreover have "unat (get_free_mem_size_from_buddy s') = (mm_pages img_end - 7 * 512) * 4096"
    using held_free_mem(1) [OF r(3)] unfolding chunk_pages_slabs [OF r(4)] r(5,6) by simp
  ultimately show ?thesis using r(1) by blast
qed

text \<open>C2: On the memory map of the raspi3, with an image that ends below 480M, \<open>main\<close> running at its link
  address (\<open>pc\<close> at or above \<open>KBASE\<close>), and a UART that does what its manual promises, \<open>main\<close> reaches its idle loop; what has left the UART is the sequence that clears
  the screen and then exactly the lines of \<open>boot_log\<close>: every unit test has passed. No BUG_ON has fired,
  nothing was undefined, and all pages are free but those of the seven slabs.\<close>

theorem main_prints_boot_log:
  assumes u: "mini_uart d UART_KBASE V" and addr: "\<forall>str. str_addr b str \<noteq> 0" and pc: "KBASE \<le> pc"
    and ready: "mm_ready img_end s" and img: "unat img_end \<le> 0x1e000000" and fuel: "0x4040A \<le> fuel"
  shows "\<exists>s' w'. main fuel d b img_end pc (s, w) = Some (Inr (s', w')) \<and>
    tx_sent V w' = tx_sent V w @ [12, 27, 0x5b, 0x32, 0x4a] @ bytes (text_of_lines (boot_log img_end)) \<and>
    unat (get_free_mem_size_from_buddy s') = (mm_pages img_end - 7 * 512) * 4096"
  by (rule main_log_ok [OF assms])

text \<open>A numeral, digit by digit.\<close>

lemma hex_step: "16 \<le> n \<Longrightarrow> numeral_text 97 16 n = numeral_text 97 16 (n div 16) @ [digit 97 (n mod 16)]"
  and hex_digit: "n < 16 \<Longrightarrow> numeral_text 97 16 n = [digit 97 n]"
  by (simp_all add: numeral_text.simps [of 97 16 n])

lemma hex_digits: "digit 97 0 = CHR ''0''" "digit 97 (Suc 0) = CHR ''1''" "digit 97 3 = CHR ''3''" "digit 97 13 = CHR ''d''"
  by code_simp+

theorem main_prints_boot_log_witness:
  "\<exists>b s' w'. main 0x4040A (sample_mmio UART_KBASE) b 0x100000 0xffffff0000094000 (kernel_cold, (\<lambda>r. 0, [], [], 3)) = Some (Inr (s', w')) \<and>
     tx_sent sample_view w' = [12, 27, 0x5b, 0x32, 0x4a] @ bytes (text_of_lines (boot_log 0x100000)) \<and>
     boot_log 0x100000 ! 2 = ''[INFO] physmem_map: [0x100000, 0x3d000000)'' \<and>
     unat (get_free_mem_size_from_buddy s') = 243602 * 4096"
proof -
  let ?b = "\<lparr>str_addr = \<lambda>s. 1, check_place = \<lambda>s. (s, 0, s), stale = 0\<rparr>" and ?w = "(\<lambda>r. 0, [], [], 3) :: sample_uart"
  have "unat (0x100000 :: u64) \<le> 0x1e000000" "\<forall>str. str_addr ?b str \<noteq> 0" "KBASE \<le> 0xffffff0000094000" by (simp_all add: KBASE_def)
  from main_prints_boot_log [OF sample_mini_uart this(2,3) kernel_cold_ready this(1) order_refl, of ?w]
  obtain s' w' where r: "main 0x4040A (sample_mmio UART_KBASE) ?b 0x100000 0xffffff0000094000 (kernel_cold, ?w) = Some (Inr (s', w'))"
    "tx_sent sample_view w' = tx_sent sample_view ?w @ [12, 27, 0x5b, 0x32, 0x4a] @ bytes (text_of_lines (boot_log 0x100000))"
    "unat (get_free_mem_size_from_buddy s') = (mm_pages 0x100000 - 7 * 512) * 4096" by blast
  have "hex (ROUND_UP 0x100000 0x1000) = ''100000''" "hex 0x3d000000 = ''3d000000''"
    by (simp_all add: hex_def ROUND_UP_def hex_step hex_digit hex_digits)
  then have "boot_log 0x100000 ! 2 = ''[INFO] physmem_map: [0x100000, 0x3d000000)''" by (simp add: boot_log_def)
  moreover have "tx_sent sample_view ?w = []" by (simp add: sample_view_def)
  ultimately show ?thesis using r by (intro exI [of _ ?b] exI [of _ s'] exI [of _ w']) (simp add: mm_pages_sample)
qed

end
