(* ===== verification/Kernel_Boot_Props.thy ===== *)
theory Kernel_Boot_Props
  imports Kernel_Boot Kernel_Main_Props Init_C_Props
begin

text \<open>
  The whole boot, from \<open>init_c\<close> to the idle loop of \<open>main\<close>: what the boot code leaves behind is what
  the kernel needs.
\<close>

subsection \<open>The walk through the boot tables\<close>














subsection \<open>The UART at its new address\<close>









subsection \<open>The kernel's memory and variables\<close>





subsection \<open>The boot as a whole\<close>





end
