(* ===== verification/Spec2Isabelle.thy ===== *)
theory Spec2Isabelle
  imports Heap_History Init_C_Props Mm_Check Hlist Kernel_Boot_Props
begin

text \<open>
  ChCore-Lab: boot code, memory management and console of the kernel for the raspi3.

  \<^bold>\<open>The program.\<close> The boot code (kernel/arch/aarch64/boot/raspi3) clears the bss section, brings up
  the UART, fills the boot page tables, switches the MMU on and jumps to the kernel. There
  \<open>mm_init\<close> (mm/mm.c) reads the memory map of the machine (plat/raspi3/mm/mmparse.c), puts the
  metadata of the pages and the pages themselves behind the kernel image, and starts the buddy
  allocator (mm/buddy.c) and on top of it the slab allocator (mm/slab.c). \<open>kmalloc\<close>, \<open>kzalloc\<close> and
  \<open>kfree\<close> (mm/kmalloc.c) choose between the two by size; \<open>get_pages\<close> and \<open>free_pages\<close> hand out whole
  chunks. The page tables of address spaces (arch/aarch64/mm/page_table.c) are built from
  such pages. \<open>printk\<close> (lib/printk.c) formats text for the UART (plat/raspi3/uart/uart.c). \<open>main\<close>
  (arch/aarch64/main.c) puts the parts together, runs their unit tests and idles.

  \<^bold>\<open>Conventions\<close> (Prelude). A C function is a HOL function from a state record to an \<open>outcome\<close>: \<open>Inr\<close>
  what it returns, or \<open>Inl Bug\<close> when a BUG_ON fires (an endless loop in the code, so never a way to
  return), or \<open>Inl Undef\<close> when the C program has undefined
  behaviour at that point. That a call equals \<open>Inr r\<close> thus says that it returns and that nothing of
  the kind happens. Functions with loops that need not end take fuel and give \<open>None\<close> when it runs
  out (\<open>run\<close>), or are partial functions; then that enough fuel gives a result is part of the theorem.
  Integers are words of their width. Memory is a partial map from 64-bit addresses to bytes.

  \<^bold>\<open>Theories, from the bottom up.\<close>
  \<^item> List_Interface, List_H: include/common/list.h. The circular lists live in a store of links;
    \<open>intrusive_list\<close> is the contract the clients use, interpreted on the code as \<open>dlist\<close>.
  \<^item> Hlist: the hash lists of the same header, with the facts that insertion and deletion do to the
    list of nodes what they should and leave other lists alone.
  \<^item> Str_Util: the string functions of include/common/util.h; \<open>strcmp\<close> is a lexicographic comparison.
  \<^item> Buddy: mm/buddy.c and buddy.h, all functions. Buddy_Spec is the abstract allocator: disjoint
    blocks that tile the pool, aligned to their size, buddies coalesced. Buddy_Refine shows that the
    code implements it on the abstraction \<open>buddy_inv\<close> (free lists as HOL lists, metadata of each page,
    counters); Buddy_Correct draws the consequences and reaches all histories by rule induction.
    Lab_Buddy is \<open>lab2_test_buddy\<close>, the test the kernel runs on it; Lab_Buddy_Props proves that it passes,
    which needs more than the refinement: that fragmentation never makes one of its requests fail.
  \<^item> Memory: byte memory, \<open>memset\<close> (arch/aarch64/mm/memset.c), \<open>clear_bss\<close>.
  \<^item> Page_Interface, Pages: \<open>get_pages\<close> and \<open>free_pages\<close> of mm/kmalloc.c and the linear mapping of
    arch/mmu.h; \<open>page_allocator\<close> is the contract, interpreted as \<open>pages\<close>.
  \<^item> Page_Table: page_table.c and page_table.h. Page_Table_Walk gives the tree view: \<open>pt_wf\<close> says that
    the table pages form a tree of pages the table owns. Page_Table_Translate defines \<open>translate\<close>, what a
    virtual address means, and counts the tables a range needs; Page_Table_Ops and Page_Table_Correct treat
    walks, allocation of table pages, \<open>query\<close>, \<open>map\<close> and \<open>unmap\<close>; Page_Table_Huge and Page_Table_Unmap_Huge
    the variants with 1G and 2M blocks; Page_Table_Free the release of the tree; Page_Table_Props states the
    results. Lab_Page_Table is \<open>lab2_test_page_table\<close>, Lab_Page_Table_Props follows it block by block.
  \<^item> Slab: mm/slab.c. Slab_Inv is the invariant \<open>slab_inv\<close>: for each order a chain of slabs, 2M chunks
    of the buddy allocator, whose free slots form a list inside the slots; the slots that are not free
    are the objects in use. Slab_Ops (walking and popping), Slab_Init (one slab), Slab_Alloc (allocation
    and \<open>init_slab\<close>) prove that the operations keep it; Slab_Props states the results.
  \<^item> Kmalloc: the rest of mm/kmalloc.c, mm/mm.c and mmparse.c. Heap_Interface is the contract
    \<open>heap_allocator\<close> of a heap of blocks; Kmalloc_Props proves its laws, Heap_Props interprets it as
    \<open>heap\<close> and treats \<open>kzalloc\<close> and what is written into blocks, Mm_Init proves \<open>mm_init\<close>, and
    Heap_History follows all histories of requests, releases and writes since \<open>mm_init\<close>. Mm_Check is
    mm/mm_check.c: the reported free size and the blocks in use account for the whole pool. Lab_Kmalloc
    and Lab_Kmalloc_Props: \<open>lab2_test_kmalloc\<close> and that it passes on an empty heap.
  \<^item> Printk, Printk_Props: lib/printk.c. Arguments are typed values, so a format that asks for another
    type is \<open>Undef\<close>; \<open>format_types\<close> computes the types a format asks for. Output is the sequence of
    characters passed to the sink. A message made of text, strings, ints and addresses is a list of
    \<open>piece\<close>s, with what it prints as a function of them.
  \<^item> Boot_Mmu, Boot_Mmu_Props: boot/raspi3/init/mmu.c, read back with the kernel's own \<open>query_in_pgtbl\<close>.
  \<^item> Uart, Uart_Props: both UART drivers, over any device; \<open>mini_uart\<close> states what the BCM2835 manual
    promises of it and is a hypothesis of the theorems, satisfied by a sample device.
  \<^item> Init_C, Init_C_Props: init_c.c with what it calls, up to \<open>start_kernel\<close>.
  \<^item> Kernel_Main, Kernel_Main_Props: main.c with all of the above, built with the unit tests. The kernel
    reaches its idle loop, and what it has sent to the UART is the text \<open>boot_log\<close>, in which each test is OK.
  \<^item> Arm_Mmu: the MMU of the core, which is hardware and a parameter; \<open>armv8_mmu\<close> states what the
    architecture manual promises of it (the walk, the attributes, the registers that control them) and is a
    hypothesis like \<open>mini_uart\<close>, satisfied by a sample. For the reserved value that the boot code leaves in
    the field TG1 of \<open>TCR_EL1\<close> the manual lets the core choose a granule; that it chooses 4K is assumed.
  \<^item> Kernel_Boot, Kernel_Boot_Props: \<open>start_kernel\<close> of head.S joins the two. The kernel sees the physical
    memory and the UART that the boot code leaves through the MMU, with the registers and tables as they
    are then, and finds the array \<open>slabs\<close> in the cleared bss section; its other variables are arbitrary. Its
    memory is what follows the image: as it reaches its idle loop without \<open>Undef\<close>, it never touches the
    image with the boot tables.

  \<^bold>\<open>Bounds and fuel.\<close> \<open>map\<close> and \<open>unmap\<close> by pages need one unit of fuel per page of the range, which
  the theorems say; mapping needs \<open>tables_for\<close> pages for tables at most, one for each table boundary the
  range crosses and three more; \<open>unmap_range_diverges\<close> shows that no fuel suffices when a range ends in the last
  page of the address space. The slab walks need the number of slabs plus \<open>2 ^ 16\<close>, the most slots a
  2M slab has with its header. The page table test, and with it \<open>main\<close>, needs \<open>0x4040A\<close> units, the pages of
  the range it maps, and 1039 free pages. \<open>init_boot_pt\<close> needs 504, the 2M blocks below the peripherals. Requests
  to \<open>kmalloc\<close> are bounded by \<open>2 ^ 42\<close> bytes, beyond which \<open>1 << order\<close> on an \<open>int\<close> is undefined. The
  pool is one (\<open>PHYS_MEM_POOL_SIZE\<close> is 1), of any start and size that fits the address space.

  \<^bold>\<open>What is not modelled.\<close> Of the structures, pointers to pages are indices of the metadata array and
  free lists and page lists a separate store, as the allocators access them in no other way; memory
  holds what is accessed by raw pointers. The characters count \<open>pc\<close> of printk is an unbounded
  integer. The iteration over a hash list that allows deletion
  has no user. Messages are modelled where \<open>main\<close> composes the parts; the parts themselves do not print:
  \<open>kdebug\<close> is empty at log level INFO, \<open>kwarn\<close> and the text of a BUG_ON come right before a stop. A FAIL message
  contains the file, the line and the expression of the check, which are parameters. Exception level
  switch, cache and TLB maintenance, \<open>memcpy\<close>, \<open>memmove\<close> and the set-up of stacks are assembly
  without a C counterpart; \<open>set_page_table\<close> and tlb.c only wrap one instruction each. Headers of constants
  (errno.h, registers.h, machine.h, posix types) are taken up where a modelled function uses them. The kernel at this stage
  runs on one CPU without interrupts, and the code has no locks.
\<close>

end
